(* ===== verification/Prelude.thy ===== *)
theory Prelude
  imports Main "HOL-Library.Word"
begin

text \<open>
  The shared vocabulary of the development.

  A kernel function of the source is a \<^emph>\<open>kernel computation\<close>: a function from the machine state
  to an outcome. \<open>Ret x s\<close> is a normal return of the value \<open>x\<close> in state \<open>s\<close>. \<open>Panic m\<close> is a call
  of \<open>panic(m)\<close>, which never returns. \<open>Spin\<close> is a busy-wait loop that only another CPU or a device
  can end. \<open>Switch s\<close> is a kernel thread that has left its CPU through \<open>sched()\<close> in state \<open>s\<close>; the
  part of the function after that call runs when the scheduler picks the thread again.
  Computations are composed by \<open>kbind\<close> and \<open>kseq\<close>, which stop at the first outcome that is not a
  normal return, as the C code does.

  The theory also holds the weakest preconditions used in the component proofs, the widths of the
  C integer types, and generic lemmas on lists and functions.
\<close>

section \<open>Machine integers of the source\<close>

type_synonym u8 = "8 word"
type_synonym u16 = "16 word"
type_synonym u32 = "32 word"
type_synonym u64 = "64 word"

text \<open>
  A C \<open>int\<close> is the mathematical integer it denotes; \<open>s32\<close> is the value a 32-bit two's complement
  register holds after an operation whose exact result is its argument.
\<close>

definition s32 :: "int \<Rightarrow> int" where
  "s32 x = sint (word_of_int x :: u32)"

lemma s32_id [simp]: "- (2 ^ 31) \<le> x \<Longrightarrow> x < 2 ^ 31 \<Longrightarrow> s32 x = x"
  by (simp add: s32_def sint_sbintrunc' signed_take_bit_int_eq_self)

lemma s32_lower: "- (2 ^ 31) \<le> s32 x"
  using sint_greater_eq [of "word_of_int x :: u32"] by (simp add: s32_def)

lemma s32_upper: "s32 x < 2 ^ 31"
  using sint_less [of "word_of_int x :: u32"] by (simp add: s32_def)

section \<open>Kernel computations\<close>

datatype ('s, 'a) res = Ret 'a 's | Panic string | Spin | Switch 's

type_synonym ('s, 'a) kfun = "'s \<Rightarrow> ('s, 'a) res"

definition kret :: "'a \<Rightarrow> ('s, 'a) kfun" where
  "kret x = (\<lambda>s. Ret x s)"

definition kbind :: "('s, 'a) kfun \<Rightarrow> ('a \<Rightarrow> ('s, 'b) kfun) \<Rightarrow> ('s, 'b) kfun" where
  "kbind m f = (\<lambda>s. case m s of Ret x s' \<Rightarrow> f x s' | Panic e \<Rightarrow> Panic e | Spin \<Rightarrow> Spin | Switch s' \<Rightarrow> Switch s')"

definition kseq :: "('s, 'a) kfun \<Rightarrow> ('s, 'b) kfun \<Rightarrow> ('s, 'b) kfun" where
  "kseq m n = kbind m (\<lambda>_. n)"

definition kpanic :: "string \<Rightarrow> ('s, 'a) kfun" where
  "kpanic e = (\<lambda>_. Panic e)"

definition kspin :: "('s, 'a) kfun" where
  "kspin = (\<lambda>_. Spin)"

definition kswitch :: "('s, 'a) kfun" where
  "kswitch = (\<lambda>s. Switch s)"

definition kget :: "('s \<Rightarrow> 'a) \<Rightarrow> ('s, 'a) kfun" where
  "kget f = (\<lambda>s. Ret (f s) s)"

definition kmod :: "('s \<Rightarrow> 's) \<Rightarrow> ('s, unit) kfun" where
  "kmod f = (\<lambda>s. Ret () (f s))"

text \<open>A statement guarded by an \<open>if\<close> with no \<open>else\<close>, and a \<open>for\<close> loop with no early exit.\<close>

definition kwhen :: "bool \<Rightarrow> ('s, unit) kfun \<Rightarrow> ('s, unit) kfun" where
  "kwhen b m = (if b then m else kret ())"

primrec kfor :: "'i list \<Rightarrow> ('i \<Rightarrow> ('s, unit) kfun) \<Rightarrow> ('s, unit) kfun" where
  "kfor [] f = kret ()"
| "kfor (i # is) f = kseq (f i) (kfor is f)"

named_theorems kdefs \<open>the combinators of kernel computations, applied to a state\<close>

lemma kret_app [kdefs, simp]: "kret x s = Ret x s"
  by (simp add: kret_def)

lemma kbind_app [kdefs, simp]:
  "kbind m f s = (case m s of Ret x s' \<Rightarrow> f x s' | Panic e \<Rightarrow> Panic e | Spin \<Rightarrow> Spin | Switch s' \<Rightarrow> Switch s')"
  by (simp add: kbind_def)

lemma kseq_app [kdefs, simp]:
  "kseq m n s = (case m s of Ret x s' \<Rightarrow> n s' | Panic e \<Rightarrow> Panic e | Spin \<Rightarrow> Spin | Switch s' \<Rightarrow> Switch s')"
  by (simp add: kseq_def kbind_def)

lemma kpanic_app [kdefs, simp]: "kpanic e s = Panic e"
  by (simp add: kpanic_def)

lemma kspin_app [kdefs, simp]: "kspin s = Spin"
  by (simp add: kspin_def)

lemma kswitch_app [kdefs, simp]: "kswitch s = Switch s"
  by (simp add: kswitch_def)

lemma kget_app [kdefs, simp]: "kget f s = Ret (f s) s"
  by (simp add: kget_def)

lemma kmod_app [kdefs, simp]: "kmod f s = Ret () (f s)"
  by (simp add: kmod_def)

lemma kwhen_app [kdefs, simp]: "kwhen b m s = (if b then m s else Ret () s)"
  by (simp add: kwhen_def)

lemma kfor_Cons_app [kdefs, simp]: "kfor (i # is) f s =
    (case f i s of Ret x s' \<Rightarrow> kfor is f s' | Panic e \<Rightarrow> Panic e | Spin \<Rightarrow> Spin | Switch s' \<Rightarrow> Switch s')"
  by (simp only: kfor.simps kseq_app)

lemma kfor_append: "kfor (is @ js) f s =
    (case kfor is f s of Ret x s' \<Rightarrow> kfor js f s' | Panic e \<Rightarrow> Panic e | Spin \<Rightarrow> Spin | Switch s' \<Rightarrow> Switch s')"
  by (induction "is" arbitrary: s) (auto split: res.splits)

declare kfor.simps [simp del]

lemma kfor_snoc: "kfor [0..<Suc k] f s =
    (case kfor [0..<k] f s of Ret x s' \<Rightarrow> f k s' | Panic e \<Rightarrow> Panic e | Spin \<Rightarrow> Spin | Switch s' \<Rightarrow> Switch s')"
  by (simp add: kfor_append) (simp add: kfor.simps split: res.splits)

text \<open>A counting loop whose every turn returns and takes \<open>I k\<close> to \<open>I (k + 1)\<close> returns with \<open>I n\<close>.\<close>

lemma kfor_count:
  assumes "I 0 s" and "\<And>k t. k < n \<Longrightarrow> I k t \<Longrightarrow> \<exists>u. f k t = Ret () u \<and> I (Suc k) u"
  shows "\<exists>t. kfor [0..<n] f s = Ret () t \<and> I n t"
  using assms(2)
proof (induction n)
  case 0
  then show ?case using assms(1) by (simp add: kfor.simps)
next
  case (Suc n)
  then obtain t where "kfor [0..<n] f s = Ret () t" "I n t" by (meson less_SucI)
  then show ?case using Suc.prems [of n t] by (simp only: kfor_snoc res.case lessI)
qed

lemma if_app [simp]: "(if b then f else g) s = (if b then f s else g s)"
  by simp

lemma kbind_Ret_iff: "kbind m f s = Ret y t \<longleftrightarrow> (\<exists>x u. m s = Ret x u \<and> f x u = Ret y t)"
  by (auto simp: kbind_def split: res.splits)

lemma kseq_Ret_iff: "kseq m n s = Ret y t \<longleftrightarrow> (\<exists>x u. m s = Ret x u \<and> n u = Ret y t)"
  by (auto simp: kseq_def kbind_def split: res.splits)

lemma kbind_assoc: "kbind (kbind m f) g = kbind m (\<lambda>x. kbind (f x) g)"
  by (rule ext) (simp add: kbind_def split: res.splits)

section \<open>Weakest preconditions\<close>

text \<open>
  \<open>kwp m Q B\<close> is total: the computation returns with \<open>Q\<close> or gives up the CPU with \<open>B\<close>, and neither
  panics nor spins. \<open>kwlp m Q\<close> is partial: if the computation returns, then with \<open>Q\<close>.
\<close>

definition kwp :: "('s, 'a) kfun \<Rightarrow> ('a \<Rightarrow> 's \<Rightarrow> bool) \<Rightarrow> ('s \<Rightarrow> bool) \<Rightarrow> 's \<Rightarrow> bool" where
  "kwp m Q B s = (case m s of Ret x s' \<Rightarrow> Q x s' | Panic e \<Rightarrow> False | Spin \<Rightarrow> False | Switch s' \<Rightarrow> B s')"

definition kwlp :: "('s, 'a) kfun \<Rightarrow> ('a \<Rightarrow> 's \<Rightarrow> bool) \<Rightarrow> 's \<Rightarrow> bool" where
  "kwlp m Q s = (case m s of Ret x s' \<Rightarrow> Q x s' | Panic e \<Rightarrow> True | Spin \<Rightarrow> True | Switch s' \<Rightarrow> True)"

named_theorems wp_rules \<open>weakest precondition of each combinator\<close>

lemma kwp_ret [wp_rules]: "kwp (kret x) Q B s = Q x s"
  by (simp add: kwp_def)

lemma kwp_Ret_fun [wp_rules]: "kwp (Ret x) Q B s = Q x s"
  by (simp add: kwp_def)

lemma kwp_Switch_fun [wp_rules]: "kwp Switch Q B s = B s"
  by (simp add: kwp_def)

lemma kwp_const_fun [wp_rules]: "\<not> kwp (\<lambda>_. Panic e) Q B s" "\<not> kwp (\<lambda>_. Spin) Q B s"
  by (simp_all add: kwp_def)

lemma kwp_bind [wp_rules]: "kwp (kbind m f) Q B s = kwp m (\<lambda>x. kwp (f x) Q B) B s"
  by (simp add: kwp_def kbind_def split: res.split)

lemma kwp_seq [wp_rules]: "kwp (kseq m n) Q B s = kwp m (\<lambda>_. kwp n Q B) B s"
  by (simp add: kseq_def kwp_bind)

lemma kwp_panic [wp_rules]: "kwp (kpanic e) Q B s = False"
  by (simp add: kwp_def)

lemma kwp_spin [wp_rules]: "kwp kspin Q B s = False"
  by (simp add: kwp_def)

lemma kwp_switch [wp_rules]: "kwp kswitch Q B s = B s"
  by (simp add: kwp_def)

lemma kwp_get [wp_rules]: "kwp (kget f) Q B s = Q (f s) s"
  by (simp add: kwp_def)

lemma kwp_mod [wp_rules]: "kwp (kmod f) Q B s = Q () (f s)"
  by (simp add: kwp_def)

lemma kwp_when [wp_rules]: "kwp (kwhen b m) Q B s = (if b then kwp m Q B s else Q () s)"
  by (simp add: kwp_def kwhen_def)

lemma kwp_if [wp_rules]: "kwp (if b then m else n) Q B s = (if b then kwp m Q B s else kwp n Q B s)"
  by simp

lemma kwp_mono:
  "kwp m Q B s \<Longrightarrow> (\<And>x t. Q x t \<Longrightarrow> Q' x t) \<Longrightarrow> (\<And>t. B t \<Longrightarrow> B' t) \<Longrightarrow> kwp m Q' B' s"
  by (auto simp: kwp_def split: res.splits)

lemma kwlp_ret [wp_rules]: "kwlp (kret x) Q s = Q x s"
  by (simp add: kwlp_def)

lemma kwlp_Ret_fun [wp_rules]: "kwlp (Ret x) Q s = Q x s"
  by (simp add: kwlp_def)

lemma kwlp_Switch_fun [wp_rules]: "kwlp Switch Q s"
  by (simp add: kwlp_def)

lemma kwlp_const_fun [wp_rules]: "kwlp (\<lambda>_. Panic e) Q s" "kwlp (\<lambda>_. Spin) Q s"
  by (simp_all add: kwlp_def)

lemma kwlp_bind [wp_rules]: "kwlp (kbind m f) Q s = kwlp m (\<lambda>x. kwlp (f x) Q) s"
  by (simp add: kwlp_def kbind_def split: res.split)

lemma kwlp_seq [wp_rules]: "kwlp (kseq m n) Q s = kwlp m (\<lambda>_. kwlp n Q) s"
  by (simp add: kseq_def kwlp_bind)

lemma kwlp_panic [wp_rules]: "kwlp (kpanic e) Q s"
  by (simp add: kwlp_def)

lemma kwlp_spin [wp_rules]: "kwlp kspin Q s"
  by (simp add: kwlp_def)

lemma kwlp_switch [wp_rules]: "kwlp kswitch Q s"
  by (simp add: kwlp_def)

lemma kwlp_get [wp_rules]: "kwlp (kget f) Q s = Q (f s) s"
  by (simp add: kwlp_def)

lemma kwlp_mod [wp_rules]: "kwlp (kmod f) Q s = Q () (f s)"
  by (simp add: kwlp_def)

lemma kwlp_when [wp_rules]: "kwlp (kwhen b m) Q s = (if b then kwlp m Q s else Q () s)"
  by (simp add: kwlp_def kwhen_def)

lemma kwlp_if [wp_rules]: "kwlp (if b then m else n) Q s = (if b then kwlp m Q s else kwlp n Q s)"
  by simp

lemma kwlp_mono: "kwlp m Q s \<Longrightarrow> (\<And>x t. Q x t \<Longrightarrow> Q' x t) \<Longrightarrow> kwlp m Q' s"
  by (auto simp: kwlp_def split: res.splits)

lemma kwlpD: "kwlp m Q s \<Longrightarrow> m s = Ret x t \<Longrightarrow> Q x t"
  by (simp add: kwlp_def)

lemma kwlpI: "(\<And>x t. m s = Ret x t \<Longrightarrow> Q x t) \<Longrightarrow> kwlp m Q s"
  by (simp add: kwlp_def split: res.split)

lemma kwp_Ret: "m s = Ret x t \<Longrightarrow> kwp m Q B s = Q x t"
  by (simp add: kwp_def)

lemma kwlp_for_Nil [wp_rules]: "kwlp (kfor [] f) Q s = Q () s"
  by (simp only: kfor.simps kwlp_ret)

lemma kwlp_for_Cons [wp_rules]: "kwlp (kfor (i # is) f) Q s = kwlp (f i) (\<lambda>_. kwlp (kfor is f) Q) s"
  by (simp only: kfor.simps kwlp_seq)

lemma kwp_for_Nil [wp_rules]: "kwp (kfor [] f) Q B s = Q () s"
  by (simp only: kfor.simps kwp_ret)

lemma kwp_for_Cons [wp_rules]: "kwp (kfor (i # is) f) Q B s = kwp (f i) (\<lambda>_. kwp (kfor is f) Q B) B s"
  by (simp only: kfor.simps kwp_seq)

lemma kwlp_for:
  assumes "\<And>i t. i \<in> set is \<Longrightarrow> I t \<Longrightarrow> kwlp (f i) (\<lambda>_. I) t"
    and "I s"
  shows "kwlp (kfor is f) (\<lambda>_. I) s"
  using assms
proof (induction "is" arbitrary: s)
  case Nil
  then show ?case by (simp only: kwlp_for_Nil)
next
  case (Cons i js)
  have "kwlp (f i) (\<lambda>_. I) s" by (rule Cons.prems) (simp_all add: Cons.prems)
  then have "kwlp (f i) (\<lambda>_. kwlp (kfor js f) (\<lambda>_. I)) s"
  proof (rule kwlp_mono)
    fix x t assume "I t"
    then show "kwlp (kfor js f) (\<lambda>_. I) t"
      using Cons.prems(1) by (intro Cons.IH) auto
  qed
  then show ?case by (simp only: kwlp_for_Cons)
qed

end
