(* ===== verification/Spinlock.thy ===== *)
theory Spinlock
  imports Prelude
begin

text \<open>
  Harts, per-CPU state and spin locks: \<open>kernel/spinlock.c\<close>, \<open>kernel/spinlock.h\<close>, the \<open>struct cpu\<close>
  of \<open>kernel/proc.h\<close> and the CPU identification of \<open>kernel/proc.c\<close>.

  The record \<open>machine\<close> is the innermost part of the kernel state; every later component extends it
  with its own fields. A lock is named by its address, a value of \<open>lockid\<close>; the store \<open>locks\<close> maps
  the address to the \<open>struct spinlock\<close> there. \<open>tp\<close> is the hart executing the current computation.
  \<open>acquire\<close> of a lock that another hart holds is \<open>Spin\<close>: the \<open>amoswap\<close> loop ends only when that
  hart releases it.
\<close>

section \<open>State\<close>

text \<open>Addresses of the kernel's sleep locks and spin locks.\<close>

datatype sleepid = Buf_lock nat | Inode_lock nat

datatype lockid = Pid_lock | Wait_lock | Proc_lock nat | Kmem_lock | List_lock
  | Bcache_lock | Log_lock | Itable_lock | Ftable_lock | Tickslock | Vdisk_lock
  | Cons_lock | Uart_tx_lock | Pr_lock | Pipe_lock u64 | Sleep_lk sleepid

record spinlock =
  lk_locked :: u32
  lk_name :: string
  lk_cpu :: "nat option"

record kcontext =
  ctx_ra :: u64
  ctx_sp :: u64
  ctx_s :: "u64 list"

record cpu =
  cpu_proc :: "nat option"
  cpu_context :: kcontext
  noff :: int
  intena :: bool

record machine =
  tp :: nat
  sie :: "nat \<Rightarrow> bool"
  cpus :: "nat \<Rightarrow> cpu"
  locks :: "lockid \<Rightarrow> spinlock"

section \<open>Operations\<close>

text \<open>\<open>cpuid()\<close> and \<open>mycpu()\<close>: the hart's number and its \<open>struct cpu\<close>.\<close>

definition cpuid :: "'z machine_scheme \<Rightarrow> nat" where
  "cpuid s = tp s"

definition mycpu :: "'z machine_scheme \<Rightarrow> cpu" where
  "mycpu s = cpus s (cpuid s)"

definition set_mycpu :: "(cpu \<Rightarrow> cpu) \<Rightarrow> 'z machine_scheme \<Rightarrow> 'z machine_scheme" where
  "set_mycpu f s = s\<lparr>cpus := (cpus s)(cpuid s := f (mycpu s))\<rparr>"

definition intr_get :: "'z machine_scheme \<Rightarrow> bool" where
  "intr_get s = sie s (tp s)"

definition intr_on :: "('z machine_scheme, unit) kfun" where
  "intr_on = kmod (\<lambda>s. s\<lparr>sie := (sie s)(tp s := True)\<rparr>)"

definition intr_off :: "('z machine_scheme, unit) kfun" where
  "intr_off = kmod (\<lambda>s. s\<lparr>sie := (sie s)(tp s := False)\<rparr>)"

definition initlock :: "lockid \<Rightarrow> string \<Rightarrow> ('z machine_scheme, unit) kfun" where
  "initlock lk nm = kmod (\<lambda>s. s\<lparr>locks := (locks s)(lk := \<lparr>lk_locked = 0, lk_name = nm, lk_cpu = None\<rparr>)\<rparr>)"

definition push_off :: "('z machine_scheme, unit) kfun" where
  "push_off =
     kbind (kget intr_get) (\<lambda>old.
     kseq intr_off (
     kseq (kmod (\<lambda>s. if noff (mycpu s) = 0 then set_mycpu (\<lambda>c. c\<lparr>intena := old\<rparr>) s else s)) (
     kmod (set_mycpu (\<lambda>c. c\<lparr>noff := noff c + 1\<rparr>)))))"

definition pop_off :: "('z machine_scheme, unit) kfun" where
  "pop_off =
     kbind (kget intr_get) (\<lambda>on.
     if on then kpanic ''pop_off - interruptible'' else
     kbind (kget (\<lambda>s. noff (mycpu s))) (\<lambda>n.
     if n < 1 then kpanic ''pop_off'' else
     kseq (kmod (set_mycpu (\<lambda>c. c\<lparr>noff := noff c - 1\<rparr>))) (
     kbind (kget mycpu) (\<lambda>c.
     kwhen (noff c = 0 \<and> intena c) intr_on))))"

definition holding :: "lockid \<Rightarrow> 'z machine_scheme \<Rightarrow> bool" where
  "holding lk s = (lk_locked (locks s lk) \<noteq> 0 \<and> lk_cpu (locks s lk) = Some (cpuid s))"

definition set_lock :: "lockid \<Rightarrow> (spinlock \<Rightarrow> spinlock) \<Rightarrow> 'z machine_scheme \<Rightarrow> 'z machine_scheme" where
  "set_lock lk f s = s\<lparr>locks := (locks s)(lk := f (locks s lk))\<rparr>"

text \<open>
  Another hart can step in between any two accesses to the lock, so \<open>acquire\<close> and \<open>release\<close> are lists of
  statements with at most one access each. A statement gets the value of the preceding one and passes on
  its own: this is the register that holds the result of \<open>holding\<close>.
\<close>

type_synonym 's lock_stmt = "bool \<Rightarrow> ('s, bool) kfun"

primrec run_code :: "'s lock_stmt list \<Rightarrow> bool \<Rightarrow> ('s, unit) kfun" where
  "run_code [] r = kret ()"
| "run_code (c # cs) r = kbind (c r) (run_code cs)"

definition do_stmt :: "('s, unit) kfun \<Rightarrow> 's lock_stmt" where
  "do_stmt m = (\<lambda>_. kseq m (kret False))"

text \<open>\<open>lk->locked && lk->cpu == mycpu()\<close>, one load after the other.\<close>

definition holding_code :: "lockid \<Rightarrow> 'z machine_scheme lock_stmt list" where
  "holding_code lk =
     [\<lambda>_. kget (\<lambda>s. lk_locked (locks s lk) \<noteq> 0),
      \<lambda>r. kget (\<lambda>s. r \<and> lk_cpu (locks s lk) = Some (cpuid s))]"

text \<open>\<open>__sync_lock_test_and_set(&lk->locked, 1)\<close>: the atomic swap returns the old value.\<close>

definition test_and_set :: "lockid \<Rightarrow> ('z machine_scheme, u32) kfun" where
  "test_and_set lk =
     kbind (kget (\<lambda>s. lk_locked (locks s lk))) (\<lambda>old.
     kseq (kmod (set_lock lk (\<lambda>l. l\<lparr>lk_locked := 1\<rparr>))) (kret old))"

text \<open>A swap that returns something else than 0 is \<open>Spin\<close>: it is tried again.\<close>

definition acquire_code :: "lockid \<Rightarrow> 'z machine_scheme lock_stmt list" where
  "acquire_code lk =
     [do_stmt push_off] @ holding_code lk @
     [\<lambda>h. if h then kpanic ''acquire'' else kret False,
      do_stmt (kbind (test_and_set lk) (\<lambda>old. if old \<noteq> 0 then kspin else kret ())),
      do_stmt (kmod (\<lambda>s. set_lock lk (\<lambda>l. l\<lparr>lk_cpu := Some (cpuid s)\<rparr>) s))]"

definition acquire :: "lockid \<Rightarrow> ('z machine_scheme, unit) kfun" where
  "acquire lk = run_code (acquire_code lk) False"

definition release_code :: "lockid \<Rightarrow> 'z machine_scheme lock_stmt list" where
  "release_code lk =
     holding_code lk @
     [\<lambda>h. if \<not> h then kpanic ''release'' else kret False,
      do_stmt (kmod (set_lock lk (\<lambda>l. l\<lparr>lk_cpu := None\<rparr>))),
      do_stmt (kmod (set_lock lk (\<lambda>l. l\<lparr>lk_locked := 0\<rparr>))),
      do_stmt pop_off]"

definition release :: "lockid \<Rightarrow> ('z machine_scheme, unit) kfun" where
  "release lk = run_code (release_code lk) False"

lemma do_stmt_app [simp]:
  "do_stmt m r s = (case m s of Ret x s' \<Rightarrow> Ret False s' | Panic e \<Rightarrow> Panic e | Spin \<Rightarrow> Spin | Switch s' \<Rightarrow> Switch s')"
  by (simp add: do_stmt_def split: res.split)

text \<open>Run without interference, the statements are the call as a whole.\<close>

lemma acquire_whole:
  "acquire lk =
     kseq push_off (
     kbind (kget (holding lk)) (\<lambda>h.
     if h then kpanic ''acquire'' else
     kbind (test_and_set lk) (\<lambda>old.
     if old \<noteq> 0 then kspin else
     kmod (\<lambda>s. set_lock lk (\<lambda>l. l\<lparr>lk_cpu := Some (cpuid s)\<rparr>) s))))"
  by (rule ext) (simp add: acquire_def acquire_code_def holding_code_def holding_def test_and_set_def split: res.split)

lemma release_whole:
  "release lk =
     kbind (kget (holding lk)) (\<lambda>h.
     if \<not> h then kpanic ''release'' else
     kseq (kmod (set_lock lk (\<lambda>l. l\<lparr>lk_cpu := None\<rparr>))) (
     kseq (kmod (set_lock lk (\<lambda>l. l\<lparr>lk_locked := 0\<rparr>)))
     pop_off))"
  by (rule ext) (simp add: release_def release_code_def holding_code_def holding_def split: res.split)

section \<open>Behaviour of a single call\<close>

text \<open>
  A lock is \<open>unlocked\<close> when nobody holds it. A hart is \<open>cpu_quiet\<close> when its interrupt nesting is in
  order: the depth is not negative, interrupts are off inside a nesting, and outside one the saved
  flag agrees with the interrupt state (as it does after any completed \<open>push_off\<close>/\<open>pop_off\<close> pair).
\<close>

definition unlocked :: "lockid \<Rightarrow> 'z machine_scheme \<Rightarrow> bool" where
  "unlocked lk s \<longleftrightarrow> lk_locked (locks s lk) = 0 \<and> lk_cpu (locks s lk) = None"

definition cpu_quiet :: "'z machine_scheme \<Rightarrow> bool" where
  "cpu_quiet s \<longleftrightarrow> 0 \<le> noff (mycpu s)
     \<and> (if noff (mycpu s) = 0 then intena (mycpu s) = sie s (tp s) else \<not> sie s (tp s))"

text \<open>The state of a hart that has just taken a free lock.\<close>

definition push_state :: "'z machine_scheme \<Rightarrow> 'z machine_scheme" where
  "push_state s = s\<lparr>sie := (sie s)(tp s := False),
     cpus := (cpus s)(tp s := (cpus s (tp s))
       \<lparr>intena := if noff (cpus s (tp s)) = 0 then sie s (tp s) else intena (cpus s (tp s)),
        noff := noff (cpus s (tp s)) + 1\<rparr>)\<rparr>"

definition enter :: "lockid \<Rightarrow> 'z machine_scheme \<Rightarrow> 'z machine_scheme" where
  "enter lk s = (push_state s)\<lparr>locks := (locks s)(lk := (locks s lk)\<lparr>lk_locked := 1, lk_cpu := Some (tp s)\<rparr>)\<rparr>"

named_theorems lock_simps \<open>fields and predicates across push_state and enter\<close>

lemmas hart_defs = cpuid_def mycpu_def set_mycpu_def intr_get_def intr_on_def intr_off_def

lemma push_off_eq: "push_off s = Ret () (push_state s)"
  by (simp add: push_off_def hart_defs push_state_def)

lemma push_state_fields [lock_simps]:
  "tp (push_state s) = tp s"
  "locks (push_state s) = locks s"
  "sie (push_state s) = (sie s)(tp s := False)"
  "noff (cpus (push_state s) h) = (if h = tp s then noff (cpus s h) + 1 else noff (cpus s h))"
  "cpu_proc (cpus (push_state s) h) = cpu_proc (cpus s h)"
  "cpu_context (cpus (push_state s) h) = cpu_context (cpus s h)"
  by (simp_all add: push_state_def)

lemma enter_fields [lock_simps]:
  "tp (enter lk s) = tp s"
  "locks (enter lk s) = (locks s)(lk := (locks s lk)\<lparr>lk_locked := 1, lk_cpu := Some (tp s)\<rparr>)"
  "sie (enter lk s) = (sie s)(tp s := False)"
  "noff (cpus (enter lk s) h) = (if h = tp s then noff (cpus s h) + 1 else noff (cpus s h))"
  "cpu_proc (cpus (enter lk s) h) = cpu_proc (cpus s h)"
  "cpu_context (cpus (enter lk s) h) = cpu_context (cpus s h)"
  by (simp_all add: enter_def lock_simps)

lemma cpu_quiet_push [lock_simps]: "cpu_quiet s \<Longrightarrow> cpu_quiet (push_state s)"
  by (simp add: cpu_quiet_def hart_defs lock_simps)

lemma cpu_quiet_enter [lock_simps]: "cpu_quiet s \<Longrightarrow> cpu_quiet (enter lk s)"
  by (simp add: cpu_quiet_def hart_defs lock_simps)

lemma unlocked_push [lock_simps]: "unlocked lk (push_state s) = unlocked lk s"
  by (simp add: unlocked_def lock_simps)

lemma unlocked_enter [lock_simps]: "unlocked lk (enter lk' s) \<longleftrightarrow> lk \<noteq> lk' \<and> unlocked lk s"
  by (simp add: unlocked_def lock_simps)

lemma holding_enter [lock_simps]: "holding lk (enter lk' s) \<longleftrightarrow> lk = lk' \<or> holding lk s"
  by (simp add: holding_def cpuid_def lock_simps)

lemma acquire_unlocked:
  assumes "unlocked lk s"
  shows "acquire lk s = Ret () (enter lk s)"
  using assms
  by (simp add: acquire_whole push_off_eq holding_def test_and_set_def set_lock_def hart_defs
      unlocked_def lock_simps) (simp add: enter_def lock_simps)

lemma acquire_held_panics: "holding lk s \<Longrightarrow> acquire lk s = Panic ''acquire''"
  by (simp add: acquire_whole push_off_eq holding_def hart_defs lock_simps)

lemma acquire_other_spins:
  "lk_locked (locks s lk) \<noteq> 0 \<Longrightarrow> lk_cpu (locks s lk) \<noteq> Some (tp s) \<Longrightarrow> acquire lk s = Spin"
  by (simp add: acquire_whole push_off_eq holding_def test_and_set_def hart_defs lock_simps)

lemma cpu_eq_iff: "(c :: cpu) = d \<longleftrightarrow> cpu_proc c = cpu_proc d \<and> cpu_context c = cpu_context d
    \<and> noff c = noff d \<and> intena c = intena d"
  by auto

lemma pop_push:
  assumes "cpu_quiet s"
  shows "pop_off (push_state s) = Ret () s"
proof -
  have [simp]: "(cpus s)(tp s := (cpus s (tp s))\<lparr>noff := noff (cpus s (tp s)), intena := intena (cpus s (tp s))\<rparr>) = cpus s"
    by (simp add: fun_eq_iff)
  have [simp]: "\<not> sie s (tp s) \<Longrightarrow> (sie s)(tp s := False) = sie s"
    "sie s (tp s) \<Longrightarrow> (sie s)(tp s := True) = sie s"
    by (auto simp: fun_eq_iff)
  show ?thesis
    using assms
    by (cases "noff (cpus s (tp s)) = 0"; cases "sie s (tp s)")
      (auto simp: pop_off_def push_state_def cpu_quiet_def hart_defs kwhen_def fun_upd_idem_iff cpu_eq_iff
        intro!: machine.equality)
qed

text \<open>
  A weaker condition on the hart, which also holds after interrupts were switched on or off outside
  any nesting. A \<open>push_off\<close>/\<open>pop_off\<close> pair then only refreshes the saved flag.
\<close>

definition hart_ok :: "'z machine_scheme \<Rightarrow> bool" where
  "hart_ok s \<longleftrightarrow> 0 \<le> noff (cpus s (tp s)) \<and> (0 < noff (cpus s (tp s)) \<longrightarrow> \<not> sie s (tp s))"

definition sync :: "'z machine_scheme \<Rightarrow> 'z machine_scheme" where
  "sync s = (if noff (cpus s (tp s)) = 0
     then s\<lparr>cpus := (cpus s)(tp s := (cpus s (tp s))\<lparr>intena := sie s (tp s)\<rparr>)\<rparr> else s)"

lemma cpu_quiet_hart_ok: "cpu_quiet s \<Longrightarrow> hart_ok s"
  by (auto simp: cpu_quiet_def hart_ok_def hart_defs split: if_splits)

lemma cpu_quiet_sync: "hart_ok s \<Longrightarrow> cpu_quiet (sync s)"
  by (auto simp: cpu_quiet_def hart_ok_def sync_def hart_defs)

lemma sync_quiet: "cpu_quiet s \<Longrightarrow> sync s = s"
  by (auto simp: cpu_quiet_def sync_def hart_defs fun_eq_iff intro!: machine.equality)

lemma push_sync [lock_simps]: "push_state (sync s) = push_state s"
  by (auto simp: sync_def push_state_def fun_eq_iff intro!: machine.equality)

lemma sync_fields [lock_simps]:
  "tp (sync s) = tp s" "locks (sync s) = locks s" "sie (sync s) = sie s"
  "noff (cpus (sync s) h) = noff (cpus s h)"
  "cpu_proc (cpus (sync s) h) = cpu_proc (cpus s h)"
  by (simp_all add: sync_def)

lemma enter_sync [lock_simps]: "enter lk (sync s) = enter lk s"
  by (simp add: enter_def lock_simps)

lemma hart_ok_enter [lock_simps]: "hart_ok s \<Longrightarrow> hart_ok (enter lk s)"
  by (simp add: hart_ok_def lock_simps)

lemma hart_ok_push [lock_simps]: "hart_ok s \<Longrightarrow> hart_ok (push_state s)"
  by (simp add: hart_ok_def lock_simps)

lemma pop_push_sync: "hart_ok s \<Longrightarrow> pop_off (push_state s) = Ret () (sync s)"
  using pop_push [OF cpu_quiet_sync] by (simp add: lock_simps)

lemma release_enter:
  assumes "cpu_quiet s" and "unlocked lk s"
  shows "release lk (enter lk s) = Ret () s"
proof -
  have "set_lock lk (\<lambda>l. l\<lparr>lk_locked := 0\<rparr>) (set_lock lk (\<lambda>l. l\<lparr>lk_cpu := None\<rparr>) (enter lk s)) = push_state s"
    using assms(2)
    by (auto simp: set_lock_def enter_def unlocked_def lock_simps fun_eq_iff intro!: machine.equality)
  then show ?thesis
    using pop_push [OF assms(1)]
    by (simp add: release_whole lock_simps)
qed

lemma unlocked_sync [lock_simps]: "unlocked lk (sync s) = unlocked lk s"
  by (simp add: unlocked_def lock_simps)

lemma release_enter_sync:
  assumes "hart_ok s" and "unlocked lk s"
  shows "release lk (enter lk s) = Ret () (sync s)"
  using release_enter [OF cpu_quiet_sync, OF assms(1), of lk] assms(2) by (simp add: lock_simps)

lemma sync_enter [lock_simps]: "hart_ok s \<Longrightarrow> sync (enter lk s) = enter lk s"
  by (simp add: hart_ok_def sync_def lock_simps)

lemma enter_commute: "lk \<noteq> lk' \<Longrightarrow> hart_ok s \<Longrightarrow> enter lk (enter lk' s) = enter lk' (enter lk s)"
  by (auto simp: enter_def push_state_def hart_ok_def fun_eq_iff intro!: machine.equality)

lemma release_not_held_panics: "\<not> holding lk s \<Longrightarrow> release lk s = Panic ''release''"
  by (simp add: release_whole)

section \<open>The critical-section interface\<close>

text \<open>
  What a client of a lock relies on: taking a free lock succeeds, and releasing it afterwards leads
  back to the client's own state. A body that runs between the two and works on the client's part of
  the state behaves as if it ran alone.
\<close>

locale critical_section =
  fixes acq rel :: "('s, unit) kfun"
    and ent :: "'s \<Rightarrow> 's"
    and free quiet :: "'s \<Rightarrow> bool"
  assumes acq_free: "free s \<Longrightarrow> acq s = Ret () (ent s)"
    and rel_ent: "quiet s \<Longrightarrow> free s \<Longrightarrow> rel (ent s) = Ret () s"
begin

lemma critical_run:
  assumes "free s" and "body (ent s) = Ret x (ent t)" and "free t" and "quiet t"
  shows "kseq acq (kbind body (\<lambda>x. kseq rel (kret x))) s = Ret x t"
  using assms by (simp add: acq_free rel_ent)

lemma critical_read:
  assumes "free s" and "quiet s" and "\<And>u. f (ent u) = f u"
  shows "kseq acq (kbind (kget f) (\<lambda>x. kseq rel (kret x))) s = Ret (f s) s"
  using assms by (simp add: acq_free rel_ent)

end

interpretation spin: critical_section "acquire lk" "release lk" "enter lk" "unlocked lk" cpu_quiet for lk
  by unfold_locales (simp_all add: acquire_unlocked release_enter)

section \<open>Lock discipline over whole calls\<close>

text \<open>
  What the calls keep when each runs as a whole. \<open>H h\<close> is the set of locks whose \<open>acquire\<close> has returned on
  hart \<open>h\<close> and whose \<open>release\<close> has not been called, and \<open>n h\<close> is the number of plain \<open>push_off\<close> calls not yet
  undone.
\<close>

type_synonym 'z lock_sys = "'z machine_scheme \<times> (nat \<Rightarrow> lockid set) \<times> (nat \<Rightarrow> nat)"

definition lock_init :: "'z lock_sys \<Rightarrow> bool" where
  "lock_init = (\<lambda>(s, H, n). (\<forall>lk. unlocked lk s) \<and> (\<forall>h. noff (cpus s h) = 0 \<and> H h = {} \<and> n h = 0))"

definition lock_inv :: "'z lock_sys \<Rightarrow> bool" where
  "lock_inv = (\<lambda>(s, H, n).
     (\<forall>lk. if lk_locked (locks s lk) = 0 then lk_cpu (locks s lk) = None
           else (\<exists>h. lk_cpu (locks s lk) = Some h)) \<and>
     (\<forall>lk h. lk \<in> H h \<longleftrightarrow> lk_cpu (locks s lk) = Some h) \<and>
     (\<forall>h. finite (H h) \<and> noff (cpus s h) = int (card (H h)) + int (n h)) \<and>
     (\<forall>h. 0 < noff (cpus s h) \<longrightarrow> \<not> sie s h))"

lemma lock_inv_init: "lock_init x \<Longrightarrow> lock_inv x"
  by (auto simp: lock_init_def lock_inv_def unlocked_def)

lemma acquire_cases:
  "acquire lk s =
     (if lk_locked (locks s lk) = 0 then Ret () (enter lk s)
      else if lk_cpu (locks s lk) = Some (tp s) then Panic ''acquire'' else Spin)"
  by (simp add: acquire_whole push_off_eq holding_def test_and_set_def set_lock_def hart_defs enter_def lock_simps)

text \<open>The state after a \<open>pop_off\<close>, and after a \<open>release\<close>, that returns.\<close>

definition pop_state :: "'z machine_scheme \<Rightarrow> 'z machine_scheme" where
  "pop_state s = s\<lparr>cpus := (cpus s)(tp s := (cpus s (tp s))\<lparr>noff := noff (cpus s (tp s)) - 1\<rparr>),
     sie := (sie s)(tp s := noff (cpus s (tp s)) = 1 \<and> intena (cpus s (tp s)))\<rparr>"

lemma pop_off_cases:
  "pop_off s =
     (if sie s (tp s) then Panic ''pop_off - interruptible''
      else if noff (cpus s (tp s)) < 1 then Panic ''pop_off''
      else Ret () (pop_state s))"
  by (auto simp: pop_off_def hart_defs pop_state_def fun_eq_iff intro!: machine.equality)

lemma release_cases:
  "release lk s =
     (if \<not> holding lk s then Panic ''release''
      else pop_off (s\<lparr>locks := (locks s)(lk := (locks s lk)\<lparr>lk_cpu := None, lk_locked := 0\<rparr>)\<rparr>))"
  by (simp add: release_whole set_lock_def)

lemma lock_calls_stay [simp]:
  "acquire lk s \<noteq> Switch t" "release lk s \<noteq> Switch t" "pop_off s \<noteq> Switch t"
  by (simp_all add: acquire_cases release_cases pop_off_cases)

lemma card_pos_of_mem: "finite A \<Longrightarrow> x \<in> A \<Longrightarrow> 0 < card A"
  by (auto simp: card_gt_0_iff)

lemma lock_inv_acquire:
  assumes "lock_inv (s, H, n)" and "acquire lk (s\<lparr>tp := h\<rparr>) = Ret () t"
  shows "lock_inv (t, H(h := insert lk (H h)), n)"
proof -
  from assms(2) have free: "lk_locked (locks s lk) = 0" and t: "t = enter lk (s\<lparr>tp := h\<rparr>)"
    by (auto simp: acquire_cases split: if_splits)
  from assms(1) free have "lk_cpu (locks s lk) = None"
    by (auto simp: lock_inv_def split: if_splits)
  with assms(1) have new: "lk \<notin> H h'" for h'
    by (auto simp: lock_inv_def)
  from assms(1) new show ?thesis
    unfolding t by (auto simp: lock_inv_def enter_def push_state_def split: if_splits)
qed

lemma lock_inv_push:
  assumes "lock_inv (s, H, n)" and "push_off (s\<lparr>tp := h\<rparr>) = Ret () t"
  shows "lock_inv (t, H, n(h := Suc (n h)))"
proof -
  from assms(2) have t: "t = push_state (s\<lparr>tp := h\<rparr>)"
    by (simp add: push_off_eq)
  from assms(1) show ?thesis
    unfolding t by (auto simp: lock_inv_def push_state_def split: if_splits)
qed

lemma lock_inv_pop:
  assumes "lock_inv (s, H, n)" and "n h = Suc k" and "pop_off (s\<lparr>tp := h\<rparr>) = Ret () t"
  shows "lock_inv (t, H, n(h := k))"
proof -
  from assms(3) have t: "t = pop_state (s\<lparr>tp := h\<rparr>)"
    by (auto simp: pop_off_cases split: if_splits)
  from assms(1,2) show ?thesis
    unfolding t by (auto simp: lock_inv_def pop_state_def split: if_splits)
qed

lemma lock_inv_release:
  assumes inv: "lock_inv (s, H, n)" and mem: "lk \<in> H h" and rel: "release lk (s\<lparr>tp := h\<rparr>) = Ret () t"
  shows "lock_inv (t, H(h := H h - {lk}), n)"
proof -
  from rel have t: "t = pop_state (s\<lparr>tp := h, locks := (locks s)(lk := (locks s lk)\<lparr>lk_cpu := None, lk_locked := 0\<rparr>)\<rparr>)"
    by (auto simp: release_cases pop_off_cases split: if_splits)
  have other: "lk \<notin> H h'" if "h' \<noteq> h" for h'
    using inv mem that by (auto simp: lock_inv_def)
  have "int (card (H h - {lk})) = int (card (H h)) - 1"
    using inv mem card_pos_of_mem [of "H h" lk] by (simp add: lock_inv_def of_nat_diff)
  with inv mem other show ?thesis
    unfolding t by (auto simp: lock_inv_def pop_state_def split: if_splits)
qed

lemma lock_inv_intr:
  "lock_inv (s, H, n) \<Longrightarrow> noff (cpus s h) = 0 \<Longrightarrow> intr_on (s\<lparr>tp := h\<rparr>) = Ret () t \<Longrightarrow> lock_inv (t, H, n)"
  "lock_inv (s, H, n) \<Longrightarrow> intr_off (s\<lparr>tp := h\<rparr>) = Ret () t \<Longrightarrow> lock_inv (t, H, n)"
  by (auto simp: intr_on_def intr_off_def lock_inv_def split: if_splits)

section \<open>Harts that interleave inside the calls\<close>

text \<open>
  Where a hart is: outside the calls, or in \<open>acquire\<close> or \<open>release\<close> of a lock with \<open>k\<close> statements done and
  the register \<open>r\<close>. A step of the system is one statement of one hart, so every interleaving of the
  statements of all harts is a run; memory is sequentially consistent, as the fences make it for the
  critical section. A swap that fails is tried again later and leaves the state as it is. \<open>push_off\<close>,
  \<open>pop_off\<close> and the switches of the interrupt flag touch only the hart's own state. The rules assume what
  the callers do: a hart releases locks it was granted, undoes a \<open>push_off\<close> it made, and enables interrupts
  only outside any nesting (as \<open>scheduler()\<close> and \<open>usertrap()\<close> do).
\<close>

datatype lock_pc = Outside | Acq lockid nat bool | Rel lockid nat bool

type_synonym 'z spin_sys = "'z machine_scheme \<times> (nat \<Rightarrow> lockid set) \<times> (nat \<Rightarrow> nat) \<times> (nat \<Rightarrow> lock_pc)"

inductive spin_step :: "'z spin_sys \<Rightarrow> 'z spin_sys \<Rightarrow> bool" where
  sp_acquire: "pc h = Outside \<Longrightarrow> spin_step (s, H, n, pc) (s, H, n, pc(h := Acq lk 0 False))"
| sp_acquiring: "pc h = Acq lk k r \<Longrightarrow> k < length (acquire_code lk :: 'z machine_scheme lock_stmt list) \<Longrightarrow>
     (acquire_code lk ! k) r (s\<lparr>tp := h\<rparr>) = Ret r' t \<Longrightarrow>
     spin_step (s, H, n, pc) (t, H, n, pc(h := Acq lk (Suc k) r'))"
| sp_acquired: "pc h = Acq lk k r \<Longrightarrow> k = length (acquire_code lk :: 'z machine_scheme lock_stmt list) \<Longrightarrow>
     spin_step (s, H, n, pc) (s, H(h := insert lk (H h)), n, pc(h := Outside))"
| sp_release: "pc h = Outside \<Longrightarrow> lk \<in> H h \<Longrightarrow>
     spin_step (s, H, n, pc) (s, H(h := H h - {lk}), n, pc(h := Rel lk 0 False))"
| sp_releasing: "pc h = Rel lk k r \<Longrightarrow> k < length (release_code lk :: 'z machine_scheme lock_stmt list) \<Longrightarrow>
     (release_code lk ! k) r (s\<lparr>tp := h\<rparr>) = Ret r' t \<Longrightarrow>
     spin_step (s, H, n, pc) (t, H, n, pc(h := Rel lk (Suc k) r'))"
| sp_released: "pc h = Rel lk k r \<Longrightarrow> k = length (release_code lk :: 'z machine_scheme lock_stmt list) \<Longrightarrow>
     spin_step (s, H, n, pc) (s, H, n, pc(h := Outside))"
| sp_push: "pc h = Outside \<Longrightarrow> push_off (s\<lparr>tp := h\<rparr>) = Ret () t \<Longrightarrow>
     spin_step (s, H, n, pc) (t, H, n(h := Suc (n h)), pc)"
| sp_pop: "pc h = Outside \<Longrightarrow> n h = Suc k \<Longrightarrow> pop_off (s\<lparr>tp := h\<rparr>) = Ret () t \<Longrightarrow>
     spin_step (s, H, n, pc) (t, H, n(h := k), pc)"
| sp_intr_on: "pc h = Outside \<Longrightarrow> noff (cpus s h) = 0 \<Longrightarrow> intr_on (s\<lparr>tp := h\<rparr>) = Ret () t \<Longrightarrow>
     spin_step (s, H, n, pc) (t, H, n, pc)"
| sp_intr_off: "pc h = Outside \<Longrightarrow> intr_off (s\<lparr>tp := h\<rparr>) = Ret () t \<Longrightarrow> spin_step (s, H, n, pc) (t, H, n, pc)"

inductive spin_reach :: "'z spin_sys \<Rightarrow> bool" where
  spr_init: "lock_init (s, H, n) \<Longrightarrow> spin_reach (s, H, n, \<lambda>_. Outside)"
| spr_step: "spin_reach x \<Longrightarrow> spin_step x y \<Longrightarrow> spin_reach y"

text \<open>
  The word \<open>lk->locked\<close> belongs to a hart from its swap in \<open>acquire\<close> until it stores 0 in \<open>release\<close>, and
  \<open>lk->cpu\<close> names it from the next statement on until it is cleared.
\<close>

definition owns :: "(nat \<Rightarrow> lockid set) \<Rightarrow> (nat \<Rightarrow> lock_pc) \<Rightarrow> nat \<Rightarrow> lockid \<Rightarrow> bool" where
  "owns H pc h lk \<longleftrightarrow> lk \<in> H h \<or>
     (case pc h of Outside \<Rightarrow> False | Acq l k r \<Rightarrow> l = lk \<and> 5 \<le> k | Rel l k r \<Rightarrow> l = lk \<and> k \<le> 4)"

definition stamped :: "(nat \<Rightarrow> lockid set) \<Rightarrow> (nat \<Rightarrow> lock_pc) \<Rightarrow> nat \<Rightarrow> lockid \<Rightarrow> bool" where
  "stamped H pc h lk \<longleftrightarrow> lk \<in> H h \<or>
     (case pc h of Outside \<Rightarrow> False | Acq l k r \<Rightarrow> l = lk \<and> 6 \<le> k | Rel l k r \<Rightarrow> l = lk \<and> k \<le> 3)"

definition depth :: "lock_pc \<Rightarrow> nat" where
  "depth c = (case c of Outside \<Rightarrow> 0 | Acq l k r \<Rightarrow> if k = 0 then 0 else 1 | Rel l k r \<Rightarrow> if k \<le> 5 then 1 else 0)"

text \<open>The register agrees with what the hart holds, and a lock is not held twice.\<close>

definition pc_ok :: "lockid set \<Rightarrow> lock_pc \<Rightarrow> bool" where
  "pc_ok L c \<longleftrightarrow> (case c of
       Outside \<Rightarrow> True
     | Acq l k r \<Rightarrow> k \<le> 6 \<and> (k = 2 \<and> l \<in> L \<longrightarrow> r) \<and> (k = 3 \<longrightarrow> r = (l \<in> L)) \<and> (4 \<le> k \<longrightarrow> l \<notin> L)
     | Rel l k r \<Rightarrow> k \<le> 6 \<and> (k \<in> {1, 2} \<longrightarrow> r) \<and> l \<notin> L)"

definition spin_inv :: "'z spin_sys \<Rightarrow> bool" where
  "spin_inv = (\<lambda>(s, H, n, pc).
     (\<forall>lk. lk_locked (locks s lk) \<noteq> 0 \<longleftrightarrow> (\<exists>h. owns H pc h lk)) \<and>
     (\<forall>lk g h. owns H pc g lk \<and> owns H pc h lk \<longrightarrow> g = h) \<and>
     (\<forall>lk h. lk_cpu (locks s lk) = Some h \<longleftrightarrow> stamped H pc h lk) \<and>
     (\<forall>h. pc_ok (H h) (pc h) \<and> finite (H h) \<and> noff (cpus s h) = int (card (H h)) + int (n h) + int (depth (pc h))) \<and>
     (\<forall>h. 0 < noff (cpus s h) \<longrightarrow> \<not> sie s h))"

lemma spin_inv_init: "lock_init (s, H, n) \<Longrightarrow> spin_inv (s, H, n, \<lambda>_. Outside)"
  by (auto simp: lock_init_def spin_inv_def unlocked_def owns_def stamped_def depth_def pc_ok_def)

text \<open>A step of hart \<open>h\<close> changes its own part of the state and at most one lock.\<close>

definition hart_part :: "'z machine_scheme \<Rightarrow> nat \<Rightarrow> lockid set \<Rightarrow> nat \<Rightarrow> lock_pc \<Rightarrow> bool" where
  "hart_part s h L m c \<longleftrightarrow> pc_ok L c \<and> finite L \<and> noff (cpus s h) = int (card L) + int m + int (depth c)
     \<and> (0 < noff (cpus s h) \<longrightarrow> \<not> sie s h)"

lemma spin_inv_hart: "spin_inv (s, H, n, pc) \<Longrightarrow> hart_part s h (H h) (n h) (pc h)"
  by (simp add: spin_inv_def hart_part_def)

lemma spin_inv_lock:
  assumes "spin_inv (s, H, n, pc)"
  shows "lk_locked (locks s lk) \<noteq> 0 \<longleftrightarrow> (\<exists>h. owns H pc h lk)"
    and "owns H pc g lk \<Longrightarrow> owns H pc h lk \<Longrightarrow> g = h"
    and "lk_cpu (locks s lk) = Some h \<longleftrightarrow> stamped H pc h lk"
  using assms unfolding spin_inv_def by blast+

lemma spin_inv_upd:
  assumes inv: "spin_inv (s, H, n, pc)"
    and rest: "\<And>g. g \<noteq> h \<Longrightarrow> noff (cpus t g) = noff (cpus s g) \<and> sie t g = sie s g"
    and part: "hart_part t h L m c"
    and lks: "locks t = (locks s)(lk := l)"
    and same: "\<And>lk'. lk' \<noteq> lk \<Longrightarrow> owns (H(h := L)) (pc(h := c)) h lk' = owns H pc h lk'
      \<and> stamped (H(h := L)) (pc(h := c)) h lk' = stamped H pc h lk'"
    and word: "lk_locked l \<noteq> 0 \<longleftrightarrow> owns (H(h := L)) (pc(h := c)) h lk \<or> (\<exists>g. g \<noteq> h \<and> owns H pc g lk)"
    and alone: "\<And>g. owns (H(h := L)) (pc(h := c)) h lk \<Longrightarrow> g \<noteq> h \<Longrightarrow> \<not> owns H pc g lk"
    and cpu: "\<And>g. lk_cpu l = Some g \<longleftrightarrow> (if g = h then stamped (H(h := L)) (pc(h := c)) h lk else stamped H pc g lk)"
  shows "spin_inv (t, H(h := L), n(h := m), pc(h := c))"
proof -
  let ?H = "H(h := L)" and ?pc = "pc(h := c)"
  have o: "owns ?H ?pc g lk' = owns H pc g lk'" and sg: "stamped ?H ?pc g lk' = stamped H pc g lk'"
    if "g \<noteq> h \<or> lk' \<noteq> lk" for g lk'
    using that same [of lk'] by (cases "g = h"; simp add: owns_def stamped_def)+
  note lk = spin_inv_lock [OF inv]
  have "lk_locked (locks t lk') \<noteq> 0 \<longleftrightarrow> (\<exists>g. owns ?H ?pc g lk')" for lk'
  proof (cases "lk' = lk")
    case True
    then show ?thesis using word lks o by (metis fun_upd_same)
  next
    case False
    then show ?thesis using lk(1) [of lk'] lks o by simp
  qed
  moreover have "g = g'" if "owns ?H ?pc g lk'" "owns ?H ?pc g' lk'" for g g' lk'
    using that lk(2) [of g lk' g'] alone o by (metis (no_types))
  moreover have "lk_cpu (locks t lk') = Some g \<longleftrightarrow> stamped ?H ?pc g lk'" for g lk'
  proof (cases "lk' = lk")
    case True
    then show ?thesis using cpu [of g] lks sg by (cases "g = h") auto
  next
    case False
    then show ?thesis using lk(3) [of lk' g] lks sg by simp
  qed
  moreover have "hart_part t g (?H g) ((n(h := m)) g) (?pc g)" for g
    using part rest [of g] spin_inv_hart [OF inv, of g] by (cases "g = h") (simp_all add: hart_part_def)
  ultimately show ?thesis unfolding spin_inv_def hart_part_def by blast
qed

text \<open>A step that leaves the locks alone.\<close>

lemma spin_inv_local:
  assumes "spin_inv (s, H, n, pc)"
    and "\<And>g. g \<noteq> h \<Longrightarrow> noff (cpus t g) = noff (cpus s g) \<and> sie t g = sie s g"
    and "hart_part t h L m c" and "locks t = locks s"
    and "\<And>lk. owns (H(h := L)) (pc(h := c)) h lk = owns H pc h lk"
    and "\<And>lk. stamped (H(h := L)) (pc(h := c)) h lk = stamped H pc h lk"
  shows "spin_inv (t, H(h := L), n(h := m), pc(h := c))"
proof (rule spin_inv_upd [OF assms(1,2,3), of Pid_lock "locks s Pid_lock"])
  show "(lk_locked (locks s Pid_lock) \<noteq> 0) = (owns (H(h := L)) (pc(h := c)) h Pid_lock \<or> (\<exists>g. g \<noteq> h \<and> owns H pc g Pid_lock))"
    using assms(5) spin_inv_lock(1) [OF assms(1), of Pid_lock] by metis
qed (use assms(4-6) spin_inv_lock [OF assms(1)] in auto)

lemmas pc_defs = owns_def stamped_def depth_def pc_ok_def

lemma acquire_code_length [simp]: "length (acquire_code lk) = 6" "length (release_code lk) = 6"
  by (simp_all add: acquire_code_def release_code_def holding_code_def)

lemma acquire_code_nth:
  "acquire_code lk ! 0 = do_stmt push_off"
  "acquire_code lk ! Suc 0 = holding_code lk ! 0"
  "acquire_code lk ! 2 = holding_code lk ! Suc 0"
  "acquire_code lk ! 3 = (\<lambda>h. if h then kpanic ''acquire'' else kret False)"
  "acquire_code lk ! 4 = do_stmt (kbind (test_and_set lk) (\<lambda>old. if old \<noteq> 0 then kspin else kret ()))"
  "acquire_code lk ! 5 = do_stmt (kmod (\<lambda>s. set_lock lk (\<lambda>l. l\<lparr>lk_cpu := Some (cpuid s)\<rparr>) s))"
  by (simp_all add: acquire_code_def holding_code_def)

lemma release_code_nth:
  "release_code lk ! 0 = holding_code lk ! 0"
  "release_code lk ! Suc 0 = holding_code lk ! Suc 0"
  "release_code lk ! 2 = (\<lambda>h. if \<not> h then kpanic ''release'' else kret False)"
  "release_code lk ! 3 = do_stmt (kmod (set_lock lk (\<lambda>l. l\<lparr>lk_cpu := None\<rparr>)))"
  "release_code lk ! 4 = do_stmt (kmod (set_lock lk (\<lambda>l. l\<lparr>lk_locked := 0\<rparr>)))"
  "release_code lk ! 5 = do_stmt pop_off"
  by (simp_all add: release_code_def holding_code_def)

lemma holding_code_nth:
  "(holding_code lk ! 0) r = kget (\<lambda>s. lk_locked (locks s lk) \<noteq> 0)"
  "(holding_code lk ! Suc 0) r = kget (\<lambda>s. r \<and> lk_cpu (locks s lk) = Some (cpuid s))"
  by (simp_all add: holding_code_def)

text \<open>The statements of \<open>acquire\<close>.\<close>

lemma acq_inv_local:
  assumes inv: "spin_inv (s, H, n, pc)" and pc: "pc h = Acq lk k r" and k: "k < 4"
    and st: "(acquire_code lk ! k) r (s\<lparr>tp := h\<rparr>) = Ret r' t"
  shows "spin_inv (t, H, n, pc(h := Acq lk (Suc k) r'))"
proof -
  note part = spin_inv_hart [OF inv, of h] and lks = spin_inv_lock [OF inv, where lk = lk]
  have o: "owns H (pc(h := Acq lk (Suc k) r')) h l = owns H pc h l" for l using pc k by (simp add: owns_def)
  have sg: "stamped H (pc(h := Acq lk (Suc k) r')) h l = stamped H pc h l" for l using pc k by (simp add: stamped_def)
  have mem: "lk \<in> H h \<Longrightarrow> lk_locked (locks s lk) \<noteq> 0" "lk_cpu (locks s lk) = Some h \<longleftrightarrow> lk \<in> H h"
    using lks pc k by (auto simp: owns_def stamped_def)
  consider "k = 0" | "k = 1" | "k = 2" | "k = 3" using k by linarith
  then have "hart_part t h (H h) (n h) (Acq lk (Suc k) r') \<and> locks t = locks s
      \<and> (\<forall>g. g \<noteq> h \<longrightarrow> noff (cpus t g) = noff (cpus s g) \<and> sie t g = sie s g)"
  proof cases
    case 1
    then show ?thesis using st part pc by (auto simp: acquire_code_nth push_off_eq lock_simps hart_part_def pc_ok_def depth_def)
  next
    case 2
    then show ?thesis using st part pc mem by (auto simp: acquire_code_nth holding_code_nth hart_part_def pc_ok_def depth_def)
  next
    case 3
    then show ?thesis using st part pc mem
      by (auto simp: acquire_code_nth holding_code_nth hart_part_def pc_ok_def depth_def cpuid_def)
  next
    case 4
    then show ?thesis using st part pc by (auto simp: acquire_code_nth hart_part_def pc_ok_def depth_def split: if_splits)
  qed
  then have "spin_inv (t, H(h := H h), n(h := n h), pc(h := Acq lk (Suc k) r'))"
    using o sg by (intro spin_inv_local [OF inv]) simp_all
  then show ?thesis by simp
qed

lemma acq_inv_swap:
  assumes inv: "spin_inv (s, H, n, pc)" and pc: "pc h = Acq lk 4 r"
    and st: "(acquire_code lk ! 4) r (s\<lparr>tp := h\<rparr>) = Ret r' t"
  shows "spin_inv (t, H, n, pc(h := Acq lk 5 r'))"
proof -
  note part = spin_inv_hart [OF inv, of h] and lks = spin_inv_lock [OF inv, where lk = lk]
  have t: "t = set_lock lk (\<lambda>l. l\<lparr>lk_locked := 1\<rparr>) (s\<lparr>tp := h\<rparr>)" and free: "lk_locked (locks s lk) = 0"
    using st by (auto simp: acquire_code_nth test_and_set_def split: if_splits)
  have none: "\<not> owns H pc g lk" for g using lks(1) free by blast
  have "spin_inv (t, H(h := H h), n(h := n h), pc(h := Acq lk 5 r'))"
  proof (rule spin_inv_upd [OF inv])
    show "hart_part t h (H h) (n h) (Acq lk 5 r')" using part pc by (simp add: t set_lock_def hart_part_def pc_ok_def depth_def)
    show "locks t = (locks s)(lk := (locks s lk)\<lparr>lk_locked := 1\<rparr>)" by (simp add: t set_lock_def)
    show "lk_cpu ((locks s lk)\<lparr>lk_locked := 1\<rparr>) = Some g \<longleftrightarrow>
        (if g = h then stamped (H(h := H h)) (pc(h := Acq lk 5 r')) h lk else stamped H pc g lk)" for g
      using lks(3) [of g] pc by (auto simp: stamped_def)
  qed (use none pc in \<open>auto simp: t set_lock_def owns_def stamped_def\<close>)
  then show ?thesis by simp
qed

lemma acq_inv_own:
  assumes inv: "spin_inv (s, H, n, pc)" and pc: "pc h = Acq lk 5 r"
    and st: "(acquire_code lk ! 5) r (s\<lparr>tp := h\<rparr>) = Ret r' t"
  shows "spin_inv (t, H, n, pc(h := Acq lk 6 r'))"
proof -
  note part = spin_inv_hart [OF inv, of h] and lks = spin_inv_lock [OF inv, where lk = lk]
  have t: "t = set_lock lk (\<lambda>l. l\<lparr>lk_cpu := Some h\<rparr>) (s\<lparr>tp := h\<rparr>)"
    using st by (auto simp: acquire_code_nth cpuid_def set_lock_def)
  have mine: "owns H pc h lk" using pc by (simp add: owns_def)
  then have locked: "lk_locked (locks s lk) \<noteq> 0" and other: "g \<noteq> h \<Longrightarrow> \<not> owns H pc g lk" for g using lks(1,2) by blast+
  have unsigned: "g \<noteq> h \<Longrightarrow> \<not> stamped H pc g lk" for g
    using other [of g] by (auto simp: owns_def stamped_def split: lock_pc.splits)
  have "spin_inv (t, H(h := H h), n(h := n h), pc(h := Acq lk 6 r'))"
  proof (rule spin_inv_upd [OF inv])
    show "hart_part t h (H h) (n h) (Acq lk 6 r')" using part pc by (simp add: t set_lock_def hart_part_def pc_ok_def depth_def)
    show "locks t = (locks s)(lk := (locks s lk)\<lparr>lk_cpu := Some h\<rparr>)" by (simp add: t set_lock_def)
    show "lk_locked ((locks s lk)\<lparr>lk_cpu := Some h\<rparr>) \<noteq> 0 \<longleftrightarrow>
        owns (H(h := H h)) (pc(h := Acq lk 6 r')) h lk \<or> (\<exists>g. g \<noteq> h \<and> owns H pc g lk)"
      using locked by (simp add: owns_def)
    show "lk_cpu ((locks s lk)\<lparr>lk_cpu := Some h\<rparr>) = Some g \<longleftrightarrow>
        (if g = h then stamped (H(h := H h)) (pc(h := Acq lk 6 r')) h lk else stamped H pc g lk)" for g
      using unsigned [of g] by (auto simp: stamped_def)
  qed (use other pc in \<open>auto simp: t set_lock_def owns_def stamped_def\<close>)
  then show ?thesis by simp
qed

text \<open>The statements of \<open>release\<close>.\<close>

lemma rel_inv_local:
  assumes inv: "spin_inv (s, H, n, pc)" and pc: "pc h = Rel lk k r" and k: "k < 3 \<or> k = 5"
    and st: "(release_code lk ! k) r (s\<lparr>tp := h\<rparr>) = Ret r' t"
  shows "spin_inv (t, H, n, pc(h := Rel lk (Suc k) r'))"
proof -
  note part = spin_inv_hart [OF inv, of h] and lks = spin_inv_lock [OF inv, where lk = lk]
  have o: "owns H (pc(h := Rel lk (Suc k) r')) h l = owns H pc h l" for l using pc k by (auto simp: owns_def)
  have sg: "stamped H (pc(h := Rel lk (Suc k) r')) h l = stamped H pc h l" for l using pc k by (auto simp: stamped_def)
  have mine: "k < 3 \<Longrightarrow> lk_locked (locks s lk) \<noteq> 0 \<and> lk_cpu (locks s lk) = Some h"
  proof -
    assume "k < 3"
    then have "owns H pc h lk" "stamped H pc h lk" using pc by (auto simp: owns_def stamped_def)
    then show ?thesis using lks(1,3) by blast
  qed
  consider "k = 0" | "k = Suc 0" | "k = 2" | "k = 5" using k by linarith
  then have "hart_part t h (H h) (n h) (Rel lk (Suc k) r') \<and> locks t = locks s
      \<and> (\<forall>g. g \<noteq> h \<longrightarrow> noff (cpus t g) = noff (cpus s g) \<and> sie t g = sie s g)"
  proof cases
    case 1
    then show ?thesis using st part pc mine
      by (auto simp: release_code_nth holding_code_nth hart_part_def pc_ok_def depth_def)
  next
    case 2
    then show ?thesis using st part pc mine
      by (auto simp: release_code_nth holding_code_nth hart_part_def pc_ok_def depth_def cpuid_def)
  next
    case 3
    then show ?thesis using st part pc by (auto simp: release_code_nth hart_part_def pc_ok_def depth_def split: if_splits)
  next
    case 4
    then show ?thesis using st part pc
      by (auto simp: release_code_nth pop_off_cases pop_state_def hart_part_def pc_ok_def depth_def split: if_splits)
  qed
  then have "spin_inv (t, H(h := H h), n(h := n h), pc(h := Rel lk (Suc k) r'))"
    using o sg by (intro spin_inv_local [OF inv]) simp_all
  then show ?thesis by simp
qed

lemma rel_inv_disown:
  assumes inv: "spin_inv (s, H, n, pc)" and pc: "pc h = Rel lk 3 r"
    and st: "(release_code lk ! 3) r (s\<lparr>tp := h\<rparr>) = Ret r' t"
  shows "spin_inv (t, H, n, pc(h := Rel lk 4 r'))"
proof -
  note part = spin_inv_hart [OF inv, of h] and lks = spin_inv_lock [OF inv, where lk = lk]
  have t: "t = set_lock lk (\<lambda>l. l\<lparr>lk_cpu := None\<rparr>) (s\<lparr>tp := h\<rparr>)" using st by (auto simp: release_code_nth)
  have mine: "owns H pc h lk" "lk_cpu (locks s lk) = Some h" using pc lks(3) by (auto simp: owns_def stamped_def)
  then have locked: "lk_locked (locks s lk) \<noteq> 0" and other: "g \<noteq> h \<Longrightarrow> \<not> owns H pc g lk" for g using lks(1,2) by blast+
  have unstamped: "g \<noteq> h \<Longrightarrow> \<not> stamped H pc g lk" for g using lks(3) [of g] mine(2) by auto
  have no: "lk \<notin> H h" using part pc by (simp add: hart_part_def pc_ok_def)
  have "spin_inv (t, H(h := H h), n(h := n h), pc(h := Rel lk 4 r'))"
  proof (rule spin_inv_upd [OF inv])
    show "hart_part t h (H h) (n h) (Rel lk 4 r')" using part pc by (simp add: t set_lock_def hart_part_def pc_ok_def depth_def)
    show "locks t = (locks s)(lk := (locks s lk)\<lparr>lk_cpu := None\<rparr>)" by (simp add: t set_lock_def)
    show "lk_locked ((locks s lk)\<lparr>lk_cpu := None\<rparr>) \<noteq> 0 \<longleftrightarrow>
        owns (H(h := H h)) (pc(h := Rel lk 4 r')) h lk \<or> (\<exists>g. g \<noteq> h \<and> owns H pc g lk)"
      using locked by (simp add: owns_def)
    show "lk_cpu ((locks s lk)\<lparr>lk_cpu := None\<rparr>) = Some g \<longleftrightarrow>
        (if g = h then stamped (H(h := H h)) (pc(h := Rel lk 4 r')) h lk else stamped H pc g lk)" for g
      using unstamped [of g] no by (auto simp: stamped_def)
  qed (use other pc in \<open>auto simp: t set_lock_def owns_def stamped_def\<close>)
  then show ?thesis by simp
qed

lemma rel_inv_unlock:
  assumes inv: "spin_inv (s, H, n, pc)" and pc: "pc h = Rel lk 4 r"
    and st: "(release_code lk ! 4) r (s\<lparr>tp := h\<rparr>) = Ret r' t"
  shows "spin_inv (t, H, n, pc(h := Rel lk 5 r'))"
proof -
  note part = spin_inv_hart [OF inv, of h] and lks = spin_inv_lock [OF inv, where lk = lk]
  have t: "t = set_lock lk (\<lambda>l. l\<lparr>lk_locked := 0\<rparr>) (s\<lparr>tp := h\<rparr>)" using st by (auto simp: release_code_nth)
  have "owns H pc h lk" using pc by (auto simp: owns_def)
  then have other: "g \<noteq> h \<Longrightarrow> \<not> owns H pc g lk" for g using lks(2) by blast
  have no: "lk \<notin> H h" using part pc by (simp add: hart_part_def pc_ok_def)
  have "spin_inv (t, H(h := H h), n(h := n h), pc(h := Rel lk 5 r'))"
  proof (rule spin_inv_upd [OF inv])
    show "hart_part t h (H h) (n h) (Rel lk 5 r')" using part pc by (simp add: t set_lock_def hart_part_def pc_ok_def depth_def)
    show "locks t = (locks s)(lk := (locks s lk)\<lparr>lk_locked := 0\<rparr>)" by (simp add: t set_lock_def)
    show "lk_locked ((locks s lk)\<lparr>lk_locked := 0\<rparr>) \<noteq> 0 \<longleftrightarrow>
        owns (H(h := H h)) (pc(h := Rel lk 5 r')) h lk \<or> (\<exists>g. g \<noteq> h \<and> owns H pc g lk)"
    proof -
      have "\<not> owns (H(h := H h)) (pc(h := Rel lk 5 r')) h lk" using no by (simp add: owns_def)
      then show ?thesis using other by auto
    qed
    show "lk_cpu ((locks s lk)\<lparr>lk_locked := 0\<rparr>) = Some g \<longleftrightarrow>
        (if g = h then stamped (H(h := H h)) (pc(h := Rel lk 5 r')) h lk else stamped H pc g lk)" for g
      using lks(3) [of g] pc by (auto simp: stamped_def)
  qed (use other pc in \<open>auto simp: t set_lock_def owns_def stamped_def\<close>)
  then show ?thesis by simp
qed

text \<open>Entering and leaving the calls, and the calls outside of them.\<close>

lemma spin_inv_call:
  assumes inv: "spin_inv (s, H, n, pc)"
  shows "pc h = Outside \<Longrightarrow> spin_inv (s, H, n, pc(h := Acq lk 0 False))"
    and "pc h = Acq lk 6 r \<Longrightarrow> spin_inv (s, H(h := insert lk (H h)), n, pc(h := Outside))"
    and "pc h = Outside \<Longrightarrow> lk \<in> H h \<Longrightarrow> spin_inv (s, H(h := H h - {lk}), n, pc(h := Rel lk 0 False))"
    and "pc h = Rel lk 6 r \<Longrightarrow> spin_inv (s, H, n, pc(h := Outside))"
proof -
  note part = spin_inv_hart [OF inv, of h]
  show "spin_inv (s, H, n, pc(h := Acq lk 0 False))" if "pc h = Outside"
    using spin_inv_local [OF inv, of h s "H h" "n h" "Acq lk 0 False"] part that
    by (simp add: hart_part_def pc_defs)
  show "spin_inv (s, H(h := insert lk (H h)), n, pc(h := Outside))" if "pc h = Acq lk 6 r"
  proof -
    have "hart_part s h (insert lk (H h)) (n h) Outside" using part that by (simp add: hart_part_def pc_ok_def depth_def)
    then show ?thesis using spin_inv_local [OF inv, of h s "insert lk (H h)" "n h" Outside] that
      by (auto simp: owns_def stamped_def)
  qed
  show "spin_inv (s, H(h := H h - {lk}), n, pc(h := Rel lk 0 False))" if "pc h = Outside" "lk \<in> H h"
  proof -
    have "finite (H h)" using part by (simp add: hart_part_def)
    then have "int (card (H h - {lk})) + 1 = int (card (H h))" using that(2) card_pos_of_mem [of "H h" lk] by simp
    then have "hart_part s h (H h - {lk}) (n h) (Rel lk 0 False)" using part that by (simp add: hart_part_def pc_ok_def depth_def)
    then show ?thesis using spin_inv_local [OF inv, of h s "H h - {lk}" "n h" "Rel lk 0 False"] that
      by (auto simp: owns_def stamped_def)
  qed
  show "spin_inv (s, H, n, pc(h := Outside))" if "pc h = Rel lk 6 r"
    using spin_inv_local [OF inv, of h s "H h" "n h" Outside] part that
    by (simp add: hart_part_def pc_defs)
qed

lemma spin_inv_flags:
  assumes inv: "spin_inv (s, H, n, pc)" and pc: "pc h = Outside"
  shows "push_off (s\<lparr>tp := h\<rparr>) = Ret () t \<Longrightarrow> spin_inv (t, H, n(h := Suc (n h)), pc)"
    and "n h = Suc k \<Longrightarrow> pop_off (s\<lparr>tp := h\<rparr>) = Ret () t \<Longrightarrow> spin_inv (t, H, n(h := k), pc)"
    and "noff (cpus s h) = 0 \<Longrightarrow> intr_on (s\<lparr>tp := h\<rparr>) = Ret () t \<Longrightarrow> spin_inv (t, H, n, pc)"
    and "intr_off (s\<lparr>tp := h\<rparr>) = Ret () t \<Longrightarrow> spin_inv (t, H, n, pc)"
proof -
  note part = spin_inv_hart [OF inv, of h]
  have step: "spin_inv (u, H, n(h := m), pc)"
    if "hart_part u h (H h) m (pc h)" "locks u = locks s" "\<And>g. g \<noteq> h \<Longrightarrow> noff (cpus u g) = noff (cpus s g) \<and> sie u g = sie s g" for u m
    using spin_inv_local [OF inv that(3,1,2)] by simp
  show "spin_inv (t, H, n(h := Suc (n h)), pc)" if "push_off (s\<lparr>tp := h\<rparr>) = Ret () t"
    by (rule step) (use that part in \<open>auto simp: push_off_eq lock_simps hart_part_def\<close>)
  show "spin_inv (t, H, n(h := k), pc)" if "n h = Suc k" "pop_off (s\<lparr>tp := h\<rparr>) = Ret () t"
    by (rule step) (use that part in \<open>auto simp: pop_off_cases pop_state_def hart_part_def split: if_splits\<close>)
  show "spin_inv (t, H, n, pc)" if "noff (cpus s h) = 0" "intr_on (s\<lparr>tp := h\<rparr>) = Ret () t"
    using step [of t "n h"] that part by (auto simp: intr_on_def hart_part_def)
  show "spin_inv (t, H, n, pc)" if "intr_off (s\<lparr>tp := h\<rparr>) = Ret () t"
    using step [of t "n h"] that part by (auto simp: intr_off_def hart_part_def)
qed

lemma acq_inv_stmt:
  assumes "spin_inv (s, H, n, pc)" and "pc h = Acq lk k r" and "k < 6"
    and "(acquire_code lk ! k) r (s\<lparr>tp := h\<rparr>) = Ret r' t"
  shows "spin_inv (t, H, n, pc(h := Acq lk (Suc k) r'))"
proof -
  consider "k < 4" | "k = 4" | "k = 5" using assms(3) by linarith
  then show ?thesis using assms acq_inv_local [OF assms(1,2)] acq_inv_swap [of s H n pc h lk r r' t] acq_inv_own [of s H n pc h lk r r' t]
    by cases simp_all
qed

lemma rel_inv_stmt:
  assumes "spin_inv (s, H, n, pc)" and "pc h = Rel lk k r" and "k < 6"
    and "(release_code lk ! k) r (s\<lparr>tp := h\<rparr>) = Ret r' t"
  shows "spin_inv (t, H, n, pc(h := Rel lk (Suc k) r'))"
proof -
  consider "k < 3 \<or> k = 5" | "k = 3" | "k = 4" using assms(3) by linarith
  then show ?thesis using assms rel_inv_local [OF assms(1,2)] rel_inv_disown [of s H n pc h lk r r' t] rel_inv_unlock [of s H n pc h lk r r' t]
    by cases simp_all
qed

lemma spin_step_inv: "spin_step x y \<Longrightarrow> spin_inv x \<Longrightarrow> spin_inv y"
proof (induction rule: spin_step.induct)
  case (sp_acquiring pc h lk k r s r' t H n)
  then show ?case by (intro acq_inv_stmt) simp_all
next
  case (sp_releasing pc h lk k r s r' t H n)
  then show ?case by (intro rel_inv_stmt) simp_all
next
  case (sp_acquired pc h lk k r s H n)
  then show ?case by (intro spin_inv_call(2)) simp_all
next
  case (sp_released pc h lk k r s H n)
  then show ?case by (intro spin_inv_call(4)) simp_all
qed (blast intro: spin_inv_call(1,3) spin_inv_flags)+

lemma spin_reach_inv: "spin_reach x \<Longrightarrow> spin_inv x"
  by (induction rule: spin_reach.induct) (blast intro: spin_inv_init spin_step_inv)+

text \<open>What the statements and the calls do in a state of the invariant.\<close>

lemma rel_stmt_returns:
  assumes inv: "spin_inv (s, H, n, pc)" and pc: "pc h = Rel lk k r" and "k < 6"
  shows "\<exists>r' t. (release_code lk ! k) r (s\<lparr>tp := h\<rparr>) = Ret r' t"
proof -
  have part: "hart_part s h (H h) (n h) (Rel lk k r)" using spin_inv_hart [OF inv, of h] pc by simp
  consider "k = 0" | "k = Suc 0" | "k = 2" | "k = 3" | "k = 4" | "k = 5" using assms(3) by linarith
  then show ?thesis
  proof cases
    case 3
    then have "r" using part by (simp add: hart_part_def pc_ok_def)
    then show ?thesis using 3 by (simp add: release_code_nth ex_bool_eq)
  next
    case 6
    then have "0 < noff (cpus s h)" "\<not> sie s h" using part by (auto simp: hart_part_def depth_def)
    then show ?thesis using 6 by (simp add: release_code_nth pop_off_cases ex_bool_eq)
  qed (simp_all add: release_code_nth holding_code_nth ex_bool_eq)
qed

lemma acq_stmt_outcome:
  assumes inv: "spin_inv (s, H, n, pc)" and pc: "pc h = Acq lk k r" and "k < 6"
  shows "if k = 3 \<and> lk \<in> H h then (acquire_code lk ! k) r (s\<lparr>tp := h\<rparr>) = Panic ''acquire''
         else if k = 4 \<and> (\<exists>g. owns H pc g lk) then (acquire_code lk ! k) r (s\<lparr>tp := h\<rparr>) = Spin
         else (\<exists>r' t. (acquire_code lk ! k) r (s\<lparr>tp := h\<rparr>) = Ret r' t)"
proof -
  have part: "hart_part s h (H h) (n h) (Acq lk k r)" using spin_inv_hart [OF inv, of h] pc by simp
  consider "k = 0" | "k = Suc 0" | "k = 2" | "k = 3" | "k = 4" | "k = 5" using assms(3) by linarith
  then show ?thesis
  proof cases
    case 4
    then have "r = (lk \<in> H h)" using part by (simp add: hart_part_def pc_ok_def)
    then show ?thesis using 4 by (simp add: acquire_code_nth ex_bool_eq)
  next
    case 5
    then show ?thesis using spin_inv_lock(1) [OF inv, of lk] by (simp add: acquire_code_nth test_and_set_def ex_bool_eq)
  qed (simp_all add: acquire_code_nth holding_code_nth push_off_eq ex_bool_eq)
qed

lemma release_outcome:
  assumes inv: "spin_inv (s, H, n, pc)" and pc: "pc h = Outside"
  shows "if lk \<in> H h then \<exists>t. release lk (s\<lparr>tp := h\<rparr>) = Ret () t \<and> unlocked lk t
           \<and> noff (cpus t h) = noff (cpus s h) - 1
         else release lk (s\<lparr>tp := h\<rparr>) = Panic ''release''"
proof (cases "lk \<in> H h")
  case True
  then have own: "owns H pc h lk" "stamped H pc h lk" by (simp_all add: owns_def stamped_def)
  have hold: "holding lk (s\<lparr>tp := h\<rparr>)"
    using spin_inv_lock(1,3) [OF inv] own by (auto simp: holding_def cpuid_def)
  have part: "hart_part s h (H h) (n h) Outside" using spin_inv_hart [OF inv, of h] pc by simp
  have "0 < card (H h)" using True part by (auto simp: hart_part_def intro: card_pos_of_mem)
  then have "0 < noff (cpus s h)" "\<not> sie s h" using part by (auto simp: hart_part_def)
  then show ?thesis using True hold by (simp add: release_cases pop_off_cases pop_state_def unlocked_def)
next
  case False
  then have "\<not> stamped H pc h lk" using pc by (simp add: stamped_def)
  then show ?thesis
    using False spin_inv_lock(3) [OF inv, of lk h] by (simp add: release_cases holding_def cpuid_def)
qed

lemma acquire_outcome:
  assumes inv: "spin_inv (s, H, n, pc)" and pc: "pc h = Outside"
  shows "acquire lk (s\<lparr>tp := h\<rparr>) =
    (if lk \<in> H h then Panic ''acquire'' else if \<exists>g. owns H pc g lk then Spin else Ret () (enter lk (s\<lparr>tp := h\<rparr>)))"
proof -
  have "lk \<in> H h \<longleftrightarrow> lk_cpu (locks s lk) = Some h"
    using spin_inv_lock(3) [OF inv, of lk h] pc by (simp add: stamped_def)
  moreover have "lk \<in> H h \<Longrightarrow> \<exists>g. owns H pc g lk" by (auto simp: owns_def)
  ultimately show ?thesis using spin_inv_lock(1) [OF inv, of lk] by (auto simp: acquire_cases)
qed

text \<open>A call of \<open>acquire\<close> that finds the lock free and is not interfered with, as a run of its statements.\<close>

lemma spin_acquire_run:
  assumes "spin_reach (s, H, n, pc)" and pc: "pc h = Outside" and free: "unlocked lk s"
  shows "spin_reach (enter lk (s\<lparr>tp := h\<rparr>), H(h := insert lk (H h)), n, pc)"
proof -
  let ?p = "push_state (s\<lparr>tp := h\<rparr>)"
  let ?q = "set_lock lk (\<lambda>l. l\<lparr>lk_locked := 1\<rparr>) ?p" and ?e = "enter lk (s\<lparr>tp := h\<rparr>)"
  have tp [simp]: "?p\<lparr>tp := h\<rparr> = ?p" "?q\<lparr>tp := h\<rparr> = ?q" by (simp_all add: push_state_def set_lock_def)
  have "spin_reach (s, H, n, pc(h := Acq lk 0 False))" using assms(1) pc by (blast intro: spr_step sp_acquire)
  then have "spin_reach (?p, H, n, pc(h := Acq lk (Suc 0) False))"
    by (rule spr_step) (use sp_acquiring [of "pc(h := Acq lk 0 False)" h lk 0 False s False ?p H n] in \<open>simp add: acquire_code_nth push_off_eq\<close>)
  then have "spin_reach (?p, H, n, pc(h := Acq lk 2 False))"
    by (rule spr_step) (use sp_acquiring [of "pc(h := Acq lk (Suc 0) False)" h lk "Suc 0" False ?p False ?p H n] free in
      \<open>simp add: acquire_code_nth holding_code_nth unlocked_def lock_simps numeral_2_eq_2\<close>)
  then have "spin_reach (?p, H, n, pc(h := Acq lk 3 False))"
    by (rule spr_step) (use sp_acquiring [of "pc(h := Acq lk 2 False)" h lk 2 False ?p False ?p H n] in
      \<open>simp add: acquire_code_nth holding_code_nth\<close>)
  then have "spin_reach (?p, H, n, pc(h := Acq lk 4 False))"
    by (rule spr_step) (use sp_acquiring [of "pc(h := Acq lk 3 False)" h lk 3 False ?p False ?p H n] in \<open>simp add: acquire_code_nth\<close>)
  then have "spin_reach (?q, H, n, pc(h := Acq lk 5 False))"
    by (rule spr_step) (use sp_acquiring [of "pc(h := Acq lk 4 False)" h lk 4 False ?p False ?q H n] free in
      \<open>simp add: acquire_code_nth test_and_set_def unlocked_def lock_simps\<close>)
  moreover have own: "set_lock lk (\<lambda>l. l\<lparr>lk_cpu := Some (cpuid ?q)\<rparr>) ?q = ?e"
    by (simp add: set_lock_def enter_def cpuid_def lock_simps)
  ultimately have "spin_reach (?e, H, n, pc(h := Acq lk 6 False))"
    by - (erule spr_step, use own sp_acquiring [of "pc(h := Acq lk 5 False)" h lk 5 False ?q False ?e H n] in \<open>simp add: acquire_code_nth\<close>)
  then have "spin_reach (enter lk (s\<lparr>tp := h\<rparr>), H(h := insert lk (H h)), n, pc(h := Acq lk 6 False, h := Outside))"
    by (rule spr_step) (rule sp_acquired [of _ h lk 6 False], simp_all)
  moreover have "pc(h := Acq lk 6 False, h := Outside) = pc" using pc by (simp add: fun_upd_idem)
  ultimately show ?thesis by simp
qed

definition boot_machine :: machine where
  "boot_machine = \<lparr>tp = 0, sie = (\<lambda>_. False),
     cpus = (\<lambda>_. \<lparr>cpu_proc = None, cpu_context = \<lparr>ctx_ra = 0, ctx_sp = 0, ctx_s = replicate 12 0\<rparr>,
       noff = 0, intena = False\<rparr>),
     locks = (\<lambda>_. \<lparr>lk_locked = 0, lk_name = [], lk_cpu = None\<rparr>)\<rparr>"

lemma boot_acquire_reach:
  "spin_reach (enter Wait_lock (boot_machine\<lparr>tp := 2\<rparr>), (\<lambda>_. {})(2 := {Wait_lock}), \<lambda>_. 0, \<lambda>_. Outside)"
proof -
  have "spin_reach (boot_machine, \<lambda>_. {}, \<lambda>_. 0, \<lambda>_. Outside)"
    by (rule spr_init) (simp add: lock_init_def boot_machine_def unlocked_def)
  from spin_acquire_run [OF this, where h = 2 and lk = Wait_lock] show ?thesis by (simp add: unlocked_def boot_machine_def)
qed

section \<open>Properties\<close>

text \<open>
  C3: Spin locks give mutual exclusion under every interleaving of the statements of \<open>acquire\<close> and \<open>release\<close> on
  the harts: while a hart \<open>h\<close> has been granted a lock, no other hart has been granted it, has won the swap on
  it, or still has to clear it; \<open>lk->locked\<close> is set and \<open>lk->cpu\<close> names \<open>h\<close>. The hart runs with interrupts
  off, and outside the calls its nesting depth \<open>noff\<close> is the number of locks it holds plus its open
  \<open>push_off\<close> calls.
\<close>

theorem spinlock_mutual_exclusion:
  assumes "spin_reach (s, H, n, pc)" and "lk \<in> H h"
  shows "(\<forall>g. lk \<in> H g \<or> owns H pc g lk \<longrightarrow> g = h) \<and> lk_locked (locks s lk) \<noteq> 0 \<and> lk_cpu (locks s lk) = Some h
    \<and> \<not> sie s h \<and> (pc h = Outside \<longrightarrow> noff (cpus s h) = int (card (H h)) + int (n h))"
proof -
  have inv: "spin_inv (s, H, n, pc)" using assms(1) by (rule spin_reach_inv)
  have own: "owns H pc h lk" "stamped H pc h lk" using assms(2) by (simp_all add: owns_def stamped_def)
  have part: "hart_part s h (H h) (n h) (pc h)" using inv by (rule spin_inv_hart)
  then have "0 < card (H h)" using assms(2) by (auto simp: hart_part_def intro: card_pos_of_mem)
  then have "\<not> sie s h" using part by (auto simp: hart_part_def)
  moreover have "\<forall>g. lk \<in> H g \<or> owns H pc g lk \<longrightarrow> g = h"
    using spin_inv_lock(2) [OF inv _ own(1)] by (auto simp: owns_def)
  moreover have "lk_locked (locks s lk) \<noteq> 0" "lk_cpu (locks s lk) = Some h"
    using spin_inv_lock(1,3) [OF inv] own by blast+
  ultimately show ?thesis using part by (simp add: hart_part_def depth_def)
qed

theorem spinlock_mutual_exclusion_witness:
  "\<not> sie (enter Wait_lock (boot_machine\<lparr>tp := 2\<rparr>)) 2
   \<and> noff (cpus (enter Wait_lock (boot_machine\<lparr>tp := 2\<rparr>)) 2) = 1"
  using spinlock_mutual_exclusion [OF boot_acquire_reach, of Wait_lock 2] by simp

text \<open>
  C24: What a spin lock call does in every reachable state. A \<open>release\<close> in progress never gets stuck, whatever the
  other harts do. An \<open>acquire\<close> in progress panics exactly at its test and exactly when its hart holds the
  lock already, and its swap spins exactly while some hart owns the lock. Called from outside and run to
  the end, \<open>release\<close> frees a lock that the hart was granted and panics on any other, and \<open>acquire\<close> panics on a
  lock of its own hart, spins on an owned one and takes a free one.
\<close>

theorem spinlock_outcomes:
  assumes "spin_reach (s, H, n, pc)"
  shows "(pc h = Rel lk k r \<and> k < 6 \<longrightarrow> (\<exists>r' t. (release_code lk ! k) r (s\<lparr>tp := h\<rparr>) = Ret r' t))
    \<and> (pc h = Acq lk k r \<and> k < 6 \<longrightarrow>
        (if k = 3 \<and> lk \<in> H h then (acquire_code lk ! k) r (s\<lparr>tp := h\<rparr>) = Panic ''acquire''
         else if k = 4 \<and> (\<exists>g. owns H pc g lk) then (acquire_code lk ! k) r (s\<lparr>tp := h\<rparr>) = Spin
         else (\<exists>r' t. (acquire_code lk ! k) r (s\<lparr>tp := h\<rparr>) = Ret r' t)))
    \<and> (pc h = Outside \<longrightarrow>
        (if lk \<in> H h then \<exists>t. release lk (s\<lparr>tp := h\<rparr>) = Ret () t \<and> unlocked lk t
           \<and> noff (cpus t h) = noff (cpus s h) - 1
         else release lk (s\<lparr>tp := h\<rparr>) = Panic ''release'')
      \<and> acquire lk (s\<lparr>tp := h\<rparr>) =
        (if lk \<in> H h then Panic ''acquire'' else if \<exists>g. owns H pc g lk then Spin
         else Ret () (enter lk (s\<lparr>tp := h\<rparr>))))"
proof -
  have inv: "spin_inv (s, H, n, pc)" using assms by (rule spin_reach_inv)
  show ?thesis using rel_stmt_returns [OF inv] acq_stmt_outcome [OF inv] release_outcome [OF inv] acquire_outcome [OF inv] by simp
qed

theorem spinlock_outcomes_witness:
  "acquire Wait_lock ((enter Wait_lock (boot_machine\<lparr>tp := 2\<rparr>))\<lparr>tp := 2\<rparr>) = Panic ''acquire''
   \<and> acquire Wait_lock ((enter Wait_lock (boot_machine\<lparr>tp := 2\<rparr>))\<lparr>tp := 0\<rparr>) = Spin
   \<and> release Wait_lock ((enter Wait_lock (boot_machine\<lparr>tp := 2\<rparr>))\<lparr>tp := 0\<rparr>) = Panic ''release''
   \<and> (\<exists>t. release Wait_lock ((enter Wait_lock (boot_machine\<lparr>tp := 2\<rparr>))\<lparr>tp := 2\<rparr>) = Ret () t)"
proof -
  have "owns ((\<lambda>_. {})(2 := {Wait_lock})) (\<lambda>_. Outside) 2 Wait_lock" by (simp add: owns_def)
  then have "\<exists>g. owns ((\<lambda>_. {})(2 := {Wait_lock})) (\<lambda>_. Outside) g Wait_lock" ..
  then show ?thesis
    using spinlock_outcomes [OF boot_acquire_reach, where h = 2 and lk = Wait_lock]
      spinlock_outcomes [OF boot_acquire_reach, where h = 0 and lk = Wait_lock]
    by auto
qed

end
