(* ===== verification/Printf.thy ===== *)
theory Printf
  imports Spinlock
begin

text \<open>
  Kernel console output: \<open>kernel/printf.c\<close>, with \<open>consputc\<close> of \<open>kernel/console.c\<close> and
  \<open>uartputc_sync\<close> of \<open>kernel/uart.c\<close>, on which it rests.

  The UART is a device: \<open>lsr_idle\<close> is what the kernel reads in the transmit-idle bit of the line
  status register, and \<open>thr\<close> lists the bytes written to the transmit holding register, oldest
  first. Waiting for a transmitter that is not idle is \<open>Spin\<close>. The variable arguments of \<open>printf\<close>
  are a list of tagged values; an argument missing or of another type than the format asks for
  (undefined in C) reads as zero or the null pointer.
\<close>

section \<open>State and device access\<close>

record console_out = machine +
  lsr_idle :: bool
  thr :: "u8 list"
  panicked :: bool
  pr_locking :: bool

lemma console_out_enter [lock_simps]:
  "lsr_idle (enter lk s) = lsr_idle s"
  "thr (enter lk s) = thr s"
  "panicked (enter lk s) = panicked s"
  "pr_locking (enter lk s) = pr_locking s"
  "(enter lk s)\<lparr>thr := x\<rparr> = enter lk (s\<lparr>thr := x\<rparr>)"
  "(enter lk s)\<lparr>panicked := p\<rparr> = enter lk (s\<lparr>panicked := p\<rparr>)"
  "(enter lk s)\<lparr>pr_locking := p\<rparr> = enter lk (s\<lparr>pr_locking := p\<rparr>)"
  by (simp_all add: enter_def push_state_def)

lemma console_out_push [lock_simps]:
  "lsr_idle (push_state s) = lsr_idle s"
  "thr (push_state s) = thr s"
  "panicked (push_state s) = panicked s"
  "(push_state s)\<lparr>thr := x\<rparr> = push_state (s\<lparr>thr := x\<rparr>)"
  by (simp_all add: push_state_def)

lemma console_out_preds [lock_simps]:
  "unlocked lk (s\<lparr>thr := x\<rparr>) = unlocked lk s"
  "unlocked lk (s\<lparr>panicked := p\<rparr>) = unlocked lk s"
  "unlocked lk (s\<lparr>pr_locking := p\<rparr>) = unlocked lk s"
  "cpu_quiet (s\<lparr>thr := x\<rparr>) = cpu_quiet s"
  "cpu_quiet (s\<lparr>panicked := p\<rparr>) = cpu_quiet s"
  "cpu_quiet (s\<lparr>pr_locking := p\<rparr>) = cpu_quiet s"
  by (simp_all add: unlocked_def cpu_quiet_def hart_defs)

definition uartputc_sync :: "int \<Rightarrow> ('z console_out_scheme, unit) kfun" where
  "uartputc_sync c =
     kseq push_off (
     kbind (kget panicked) (\<lambda>p.
     if p then kspin else
     kbind (kget lsr_idle) (\<lambda>idle.
     if \<not> idle then kspin else
     kseq (kmod (\<lambda>s. s\<lparr>thr := thr s @ [word_of_int c]\<rparr>))
     pop_off)))"

definition BACKSPACE :: int where
  "BACKSPACE = 256"

definition consputc :: "int \<Rightarrow> ('z console_out_scheme, unit) kfun" where
  "consputc c =
     (if c = BACKSPACE
      then kseq (uartputc_sync 8) (kseq (uartputc_sync 32) (uartputc_sync 8))
      else uartputc_sync c)"

section \<open>printf.c\<close>

definition digits :: string where
  "digits = ''0123456789abcdef''"

text \<open>The \<open>do ... while\<close> loop of \<open>printint\<close>: the digits of \<open>x\<close>, least significant first.\<close>

function printint_loop :: "nat \<Rightarrow> nat \<Rightarrow> string" where
  "printint_loop x base =
     digits ! (x mod base) #
     (if x div base = 0 \<or> base < 2 then [] else printint_loop (x div base) base)"
  by pat_completeness auto
termination
  by (relation "measure (\<lambda>(x, base). x)") (auto simp: div_greater_zero_iff intro!: div_less_dividend)

declare printint_loop.simps [simp del]

text \<open>The contents of \<open>buf\<close> when \<open>printint\<close> starts to print, and the printing itself.\<close>

definition printint_buf :: "int \<Rightarrow> nat \<Rightarrow> bool \<Rightarrow> string" where
  "printint_buf xx base sg =
     (let neg = (sg \<and> xx < 0);
          x = (if neg then word_of_int (- xx) else word_of_int xx) :: u32;
          buf = printint_loop (unat x) base
      in if neg then buf @ ''-'' else buf)"

definition putchars :: "string \<Rightarrow> ('z console_out_scheme, unit) kfun" where
  "putchars cs = kfor cs (\<lambda>c. consputc (of_char c))"

definition printint :: "int \<Rightarrow> nat \<Rightarrow> bool \<Rightarrow> ('z console_out_scheme, unit) kfun" where
  "printint xx base sg = putchars (rev (printint_buf xx base sg))"

primrec printptr_loop :: "nat \<Rightarrow> u64 \<Rightarrow> string" where
  "printptr_loop 0 x = []"
| "printptr_loop (Suc k) x = digits ! unat (drop_bit 60 x) # printptr_loop k (push_bit 4 x)"

definition printptr :: "u64 \<Rightarrow> ('z console_out_scheme, unit) kfun" where
  "printptr x = kseq (putchars ''0x'') (putchars (printptr_loop 16 x))"

datatype va = VInt int | VPtr u64 | VStr "string option"

fun va_int :: "va list \<Rightarrow> int" where
  "va_int (VInt i # _) = i"
| "va_int _ = 0"

fun va_ptr :: "va list \<Rightarrow> u64" where
  "va_ptr (VPtr p # _) = p"
| "va_ptr _ = 0"

fun va_str :: "va list \<Rightarrow> string option" where
  "va_str (VStr p # _) = p"
| "va_str _ = None"

text \<open>
  The format loop. The bytes of the format are read with \<open>& 0xff\<close>, and a NUL byte ends the loop;
  a \<open>%\<close> at the end of the format ends it too.
\<close>

definition printf_dir :: "char \<Rightarrow> va list \<Rightarrow> ('z console_out_scheme, unit) kfun" where
  "printf_dir c ap =
     (if c = CHR ''d'' then printint (va_int ap) 10 True
      else if c = CHR ''x'' then printint (va_int ap) 16 True
      else if c = CHR ''p'' then printptr (va_ptr ap)
      else if c = CHR ''s'' then putchars (case va_str ap of None \<Rightarrow> ''(null)'' | Some str \<Rightarrow> str)
      else if c = CHR ''%'' then consputc (of_char CHR ''%'')
      else kseq (consputc (of_char CHR ''%'')) (consputc (of_char c)))"

definition va_next :: "char \<Rightarrow> va list \<Rightarrow> va list" where
  "va_next c ap = (if c \<in> {CHR ''d'', CHR ''x'', CHR ''p'', CHR ''s''} then tl ap else ap)"

fun printf_loop :: "string \<Rightarrow> va list \<Rightarrow> ('z console_out_scheme, unit) kfun" where
  "printf_loop [] ap = kret ()"
| "printf_loop (c # fmt) ap =
     (if c = CHR 0x00 then kret ()
      else if c \<noteq> CHR ''%'' then kseq (consputc (of_char c)) (printf_loop fmt ap)
      else (case fmt of
        [] \<Rightarrow> kret ()
      | d # fmt' \<Rightarrow>
          if d = CHR 0x00 then kret ()
          else kseq (printf_dir d ap) (printf_loop fmt' (va_next d ap))))"

definition printf :: "string option \<Rightarrow> va list \<Rightarrow> ('z console_out_scheme, unit) kfun" where
  "printf fmt ap =
     kbind (kget pr_locking) (\<lambda>locking.
     kseq (kwhen locking (acquire Pr_lock)) (
     case fmt of
       None \<Rightarrow> kpanic ''null fmt''
     | Some f \<Rightarrow>
         kseq (printf_loop f ap)
         (kwhen locking (release Pr_lock))))"

text \<open>What \<open>panic(s)\<close> does before it loops forever; the loop itself is the outcome \<open>Panic\<close>.\<close>

definition panic_report :: "string \<Rightarrow> ('z console_out_scheme, unit) kfun" where
  "panic_report e =
     kseq (kmod (\<lambda>s. s\<lparr>pr_locking := False\<rparr>)) (
     kseq (printf (Some ''panic: '') []) (
     kseq (printf (Some e) []) (
     kseq (printf (Some [CHR 0x0A]) []) (
     kmod (\<lambda>s. s\<lparr>panicked := True\<rparr>)))))"

definition printfinit :: "('z console_out_scheme, unit) kfun" where
  "printfinit =
     kseq (initlock Pr_lock ''pr'')
     (kmod (\<lambda>s. s\<lparr>pr_locking := True\<rparr>))"

section \<open>What is printed\<close>

text \<open>A console that can take a byte now: the transmitter is idle and no CPU has panicked.\<close>

definition console_ready :: "'z console_out_scheme \<Rightarrow> bool" where
  "console_ready s \<longleftrightarrow> cpu_quiet s \<and> lsr_idle s \<and> \<not> panicked s"

lemma console_ready_thr [lock_simps]: "console_ready (s\<lparr>thr := x\<rparr>) = console_ready s"
  by (simp add: console_ready_def lock_simps)

lemma console_ready_enter [lock_simps]: "console_ready s \<Longrightarrow> console_ready (enter lk s)"
  by (simp add: console_ready_def lock_simps)

lemma uartputc_sync_ready:
  "console_ready s \<Longrightarrow> uartputc_sync c s = Ret () (s\<lparr>thr := thr s @ [word_of_int c]\<rparr>)"
  by (simp add: uartputc_sync_def console_ready_def push_off_eq lock_simps pop_push)

lemma consputc_ready:
  "console_ready s \<Longrightarrow> c \<noteq> BACKSPACE \<Longrightarrow> consputc c s = Ret () (s\<lparr>thr := thr s @ [word_of_int c]\<rparr>)"
  by (simp add: consputc_def uartputc_sync_ready)

definition bytes_of :: "string \<Rightarrow> u8 list" where
  "bytes_of cs = map (\<lambda>c. word_of_int (of_char c)) cs"

lemma bytes_of_simps [simp]:
  "bytes_of [] = []"
  "bytes_of (c # cs) = word_of_int (of_char c) # bytes_of cs"
  "bytes_of (xs @ ys) = bytes_of xs @ bytes_of ys"
  by (simp_all add: bytes_of_def)

lemma of_char_not_256 [simp]: "of_char c \<noteq> (256 :: int)"
  using nat_of_char_less_256 [of c] of_nat_of_char [of c, where 'a = int] by linarith

lemma of_char_not_BACKSPACE [simp]: "of_char c \<noteq> BACKSPACE"
  by (simp add: BACKSPACE_def)

lemma putchars_ready: "console_ready s \<Longrightarrow> putchars cs s = Ret () (s\<lparr>thr := thr s @ bytes_of cs\<rparr>)"
  unfolding putchars_def
proof (induction cs arbitrary: s)
  case Nil
  then show ?case by (simp add: kfor.simps)
next
  case (Cons c cs)
  then show ?case by (simp add: consputc_ready lock_simps)
qed

text \<open>The text a format denotes.\<close>

definition dir_text :: "char \<Rightarrow> va list \<Rightarrow> string" where
  "dir_text c ap =
     (if c = CHR ''d'' then rev (printint_buf (va_int ap) 10 True)
      else if c = CHR ''x'' then rev (printint_buf (va_int ap) 16 True)
      else if c = CHR ''p'' then ''0x'' @ printptr_loop 16 (va_ptr ap)
      else if c = CHR ''s'' then (case va_str ap of None \<Rightarrow> ''(null)'' | Some str \<Rightarrow> str)
      else if c = CHR ''%'' then ''%''
      else [CHR ''%'', c])"

fun kformat :: "string \<Rightarrow> va list \<Rightarrow> string" where
  "kformat [] ap = []"
| "kformat (c # fmt) ap =
     (if c = CHR 0x00 then []
      else if c \<noteq> CHR ''%'' then c # kformat fmt ap
      else (case fmt of
        [] \<Rightarrow> []
      | d # fmt' \<Rightarrow> if d = CHR 0x00 then [] else dir_text d ap @ kformat fmt' (va_next d ap)))"

lemma printf_dir_ready:
  "console_ready s \<Longrightarrow> printf_dir c ap s = Ret () (s\<lparr>thr := thr s @ bytes_of (dir_text c ap)\<rparr>)"
  by (simp add: printf_dir_def dir_text_def printint_def printptr_def consputc_ready putchars_ready
      lock_simps BACKSPACE_def)

lemma printf_loop_ready:
  "console_ready s \<Longrightarrow> printf_loop f ap s = Ret () (s\<lparr>thr := thr s @ bytes_of (kformat f ap)\<rparr>)"
proof (induction f ap arbitrary: s rule: kformat.induct)
  case (1 ap)
  then show ?case by simp
next
  case (2 c fmt ap)
  show ?case
  proof (cases "c = CHR 0x00 \<or> c \<noteq> CHR ''%''")
    case True
    then show ?thesis using 2 by (auto simp: consputc_ready lock_simps)
  next
    case False
    then show ?thesis using 2
      by (cases fmt) (auto simp: printf_dir_ready lock_simps)
  qed
qed

lemma printf_ready:
  assumes "console_ready s" and "unlocked Pr_lock s"
  shows "printf (Some f) ap s = Ret () (s\<lparr>thr := thr s @ bytes_of (kformat f ap)\<rparr>)"
  using assms
  by (auto simp: printf_def acquire_unlocked printf_loop_ready lock_simps release_enter console_ready_def)

section \<open>Properties\<close>

text \<open>The digits of a base up to 16 and the value of a numeral, most significant digit first.\<close>

definition digit_val :: "char \<Rightarrow> nat" where
  "digit_val c = (if of_char c < (58 :: nat) then of_char c - 48 else of_char c - 87)"

definition is_digit :: "nat \<Rightarrow> char \<Rightarrow> bool" where
  "is_digit base c \<longleftrightarrow> of_char c \<in> {48 ..< 58 :: nat} \<union> {97 ..< 103} \<and> digit_val c < base"

definition num_val :: "nat \<Rightarrow> string \<Rightarrow> nat" where
  "num_val base ds = foldl (\<lambda>a d. a * base + digit_val d) 0 ds"

lemma digit_val_digits: "d < 16 \<Longrightarrow> digit_val (digits ! d) = d"
proof -
  have "\<forall>d \<in> {..<16}. digit_val (digits ! d) = d"
    by (simp add: digits_def digit_val_def lessThan_nat_numeral lessThan_Suc)
  then show "d < 16 \<Longrightarrow> digit_val (digits ! d) = d" by simp
qed

lemma is_digit_digits: "d < base \<Longrightarrow> base \<le> 16 \<Longrightarrow> is_digit base (digits ! d)"
proof -
  have "\<forall>d \<in> {..<16}. of_char (digits ! d) \<in> {48 ..< 58 :: nat} \<union> {97 ..< 103}"
    by (simp add: digits_def lessThan_nat_numeral lessThan_Suc)
  then show "d < base \<Longrightarrow> base \<le> 16 \<Longrightarrow> is_digit base (digits ! d)"
    using digit_val_digits [of d] by (simp add: is_digit_def)
qed

lemma printint_loop_digits:
  "2 \<le> base \<Longrightarrow> base \<le> 16 \<Longrightarrow> c \<in> set (printint_loop x base) \<Longrightarrow> is_digit base c"
proof (induction x base rule: printint_loop.induct)
  case (1 x base)
  have d: "is_digit base (digits ! (x mod base))" using "1.prems" by (intro is_digit_digits) simp_all
  have "c = digits ! (x mod base) \<or> x div base \<noteq> 0 \<and> c \<in> set (printint_loop (x div base) base)"
    using "1.prems" by (subst (asm) printint_loop.simps) (auto split: if_splits)
  then show ?case using d 1 by auto
qed

lemma digit_zero: "is_digit base c \<Longrightarrow> digit_val c \<noteq> 0 \<Longrightarrow> c \<noteq> CHR ''0''"
  by (auto simp: digit_val_def)

lemma num_val_printint_loop:
  "2 \<le> base \<Longrightarrow> base \<le> 16 \<Longrightarrow> num_val base (rev (printint_loop x base)) = x"
proof (induction x base rule: printint_loop.induct)
  case (1 x base)
  have "x mod base < 16" using "1.prems" mod_less_divisor [of base x] by linarith
  then have d: "digit_val (digits ! (x mod base)) = x mod base" by (rule digit_val_digits)
  show ?case
  proof (cases "x div base = 0")
    case True
    then have "x mod base = x" by (metis div_mult_mod_eq mult_0 add_0)
    with True d show ?thesis by (subst printint_loop.simps) (simp add: num_val_def)
  next
    case False
    with 1 have "num_val base (rev (printint_loop (x div base) base)) = x div base" by simp
    with False "1.prems" d show ?thesis
      by (subst printint_loop.simps) (simp add: num_val_def)
  qed
qed

lemma length_printint_loop:
  "2 \<le> base \<Longrightarrow> x < base ^ k \<Longrightarrow> 0 < k \<Longrightarrow> length (printint_loop x base) \<le> k"
proof (induction k arbitrary: x)
  case 0
  then show ?case by simp
next
  case (Suc k)
  show ?case
  proof (cases "x div base = 0")
    case True
    then show ?thesis by (subst printint_loop.simps) simp
  next
    case False
    have lt: "x div base < base ^ k"
      using Suc.prems by (simp add: less_mult_imp_div_less mult.commute)
    with False have "0 < k" by (cases k) auto
    with Suc.IH [OF Suc.prems(1) lt] False show ?thesis
      by (subst printint_loop.simps) simp
  qed
qed

lemma printint_loop_no_leading_zero:
  "2 \<le> base \<Longrightarrow> base \<le> 16 \<Longrightarrow> x \<noteq> 0 \<Longrightarrow> digit_val (last (printint_loop x base)) \<noteq> 0"
proof (induction x base rule: printint_loop.induct)
  case (1 x base)
  have "x mod base < 16" using "1.prems" mod_less_divisor [of base x] by linarith
  then have d: "digit_val (digits ! (x mod base)) = x mod base" by (rule digit_val_digits)
  show ?case
  proof (cases "x div base = 0")
    case True
    then have "x mod base = x" by (metis div_mult_mod_eq mult_0 add_0)
    with True d "1.prems" show ?thesis by (subst printint_loop.simps) simp
  next
    case False
    have "printint_loop (x div base) base \<noteq> []" by (subst printint_loop.simps) simp
    with 1 False show ?thesis by (subst printint_loop.simps) simp
  qed
qed

text \<open>
  C26: \<open>printint\<close> prints every \<open>int\<close> correctly in the two bases \<open>printf\<close> uses: the bytes it sends to the UART are a
  minus sign for a negative value followed by a numeral of that base without leading zeros whose value is
  the magnitude (the most negative \<open>int\<close> included); it returns and changes nothing else, and the conversion
  never writes past the 16 bytes of its local \<open>buf\<close>.
\<close>

theorem printint_correct:
  assumes "console_ready s" and "- (2 ^ 31) \<le> xx" and "xx < 2 ^ 31" and "base \<in> {10, 16}"
  shows "\<exists>ds. printint xx base True s = Ret () (s\<lparr>thr := thr s @ bytes_of ((if xx < 0 then ''-'' else []) @ ds)\<rparr>)
      \<and> list_all (is_digit base) ds \<and> num_val base ds = nat \<bar>xx\<bar> \<and> ds \<noteq> [] \<and> (xx \<noteq> 0 \<longrightarrow> hd ds \<noteq> CHR ''0'')
      \<and> length (printint_buf xx base True) \<le> 16"
proof -
  define x :: u32 where "x = word_of_int \<bar>xx\<bar>"
  have u: "unat x = nat \<bar>xx\<bar>"
    using assms(2,3) by (simp add: x_def unat_eq_nat_uint uint_word_of_int_eq take_bit_int_eq_self)
  define ds where "ds = rev (printint_loop (unat x) base)"
  have base: "2 \<le> base" "base \<le> 16" using assms(4) by auto
  have "unat x < 2 ^ 32" using u assms(2,3) by simp
  then have "unat x < base ^ 10" using assms(4) by auto
  then have len: "length (printint_loop (unat x) base) \<le> 10"
    using length_printint_loop [OF base(1)] by simp
  have ne: "printint_loop (unat x) base \<noteq> []" by (subst printint_loop.simps) simp
  have buf: "printint_buf xx base True = (if xx < 0 then printint_loop (unat x) base @ ''-'' else printint_loop (unat x) base)"
    by (simp add: printint_buf_def x_def Let_def)
  have "num_val base ds = nat \<bar>xx\<bar>"
    unfolding ds_def using num_val_printint_loop [OF base] u by simp
  moreover have digs: "list_all (is_digit base) ds"
    unfolding ds_def list_all_iff using printint_loop_digits [OF base] by auto
  moreover have "xx \<noteq> 0 \<longrightarrow> hd ds \<noteq> CHR ''0''"
  proof
    assume "xx \<noteq> 0"
    then have "digit_val (hd ds) \<noteq> 0"
      unfolding ds_def using printint_loop_no_leading_zero [OF base, of "unat x"] u ne by (simp add: hd_rev)
    moreover have "is_digit base (hd ds)" using digs ne by (simp add: ds_def list_all_iff hd_rev)
    ultimately show "hd ds \<noteq> CHR ''0''" by (rule digit_zero [rotated])
  qed
  moreover have "printint xx base True s = Ret () (s\<lparr>thr := thr s @ bytes_of ((if xx < 0 then ''-'' else []) @ ds)\<rparr>)"
    using putchars_ready [OF assms(1)] by (simp add: printint_def buf ds_def)
  ultimately show ?thesis
    using buf len ne by (intro exI [of _ ds]) (auto simp: ds_def)
qed

definition boot_console :: console_out where
  "boot_console = machine.extend boot_machine \<lparr>lsr_idle = True, thr = [], panicked = False, pr_locking = True\<rparr>"

theorem printint_correct_witness:
  "\<exists>ds t. printint (-2147483648) 10 True boot_console = Ret () t \<and> thr t = bytes_of (''-'' @ ds) \<and> num_val 10 ds = 2147483648"
proof -
  have "console_ready boot_console"
    by (simp add: console_ready_def cpu_quiet_def hart_defs boot_console_def boot_machine_def machine.defs)
  from printint_correct [OF this, of "-2147483648" 10] show ?thesis
    by (auto simp: boot_console_def machine.defs)
qed

end
