(* ===== verification/Memory.thy ===== *)
theory Memory
  imports Prelude
begin

text \<open>
  Byte-addressed memory and the block operations of \<open>kernel/string.c\<close> on it: \<open>memset\<close>, \<open>memcmp\<close>,
  \<open>memmove\<close>, \<open>memcpy\<close>.

  Memory is a function from 64-bit addresses to bytes. \<open>mread\<close> and \<open>mwrite\<close> are the reference
  semantics of reading and writing a run of bytes; the loops of \<open>string.c\<close> are proved equal to
  them. Integers are stored in little-endian byte order, as the RISC-V loads and stores do.
\<close>

unbundle bit_operations_syntax

type_synonym mem = "u64 \<Rightarrow> u8"

section \<open>Runs of bytes\<close>

definition mread :: "mem \<Rightarrow> u64 \<Rightarrow> nat \<Rightarrow> u8 list" where
  "mread m a k = map (\<lambda>i. m (a + of_nat i)) [0..<k]"

definition mwrite :: "mem \<Rightarrow> u64 \<Rightarrow> u8 list \<Rightarrow> mem" where
  "mwrite m a bs = (\<lambda>x. if unat (x - a) < length bs then bs ! unat (x - a) else m x)"

lemma length_mread [simp]: "length (mread m a k) = k"
  by (simp add: mread_def)

lemma mread_nth [simp]: "i < k \<Longrightarrow> mread m a k ! i = m (a + of_nat i)"
  by (simp add: mread_def)

lemma unat_of_nat_small: "i < 2 ^ 64 \<Longrightarrow> unat (of_nat i :: u64) = i"
  by (simp add: unsigned_of_nat take_bit_nat_eq_self)

lemma of_nat_unat_word [simp]: "of_nat (unat (w :: 'a::len word)) = w"
  by simp

lemma mread_mwrite_same:
  assumes "length bs = k" and "k \<le> 2 ^ 64"
  shows "mread (mwrite m a bs) a k = bs"
proof (rule nth_equalityI)
  show "length (mread (mwrite m a bs) a k) = length bs" by (simp add: assms)
next
  fix i assume "i < length (mread (mwrite m a bs) a k)"
  then have i: "i < k" by simp
  then have "unat (of_nat i :: u64) = i" using assms(2) by (intro unat_of_nat_small) simp
  with i show "mread (mwrite m a bs) a k ! i = bs ! i" by (simp add: mwrite_def assms(1))
qed

text \<open>A run of \<open>n\<close> bytes at \<open>a\<close> contains the address \<open>x\<close>.\<close>

definition inrun :: "u64 \<Rightarrow> nat \<Rightarrow> u64 \<Rightarrow> bool" where
  "inrun a n x \<longleftrightarrow> unat (x - a) < n"

lemma mwrite_outside: "\<not> inrun a (length bs) x \<Longrightarrow> mwrite m a bs x = m x"
  by (simp add: mwrite_def inrun_def)

lemma mread_mwrite_other:
  "(\<And>i. i < k \<Longrightarrow> \<not> inrun a (length bs) (b + of_nat i)) \<Longrightarrow> mread (mwrite m a bs) b k = mread m b k"
  by (simp add: mread_def mwrite_def inrun_def)

section \<open>Little-endian integers\<close>

fun le_val :: "u8 list \<Rightarrow> nat" where
  "le_val [] = 0"
| "le_val (b # bs) = unat b + 256 * le_val bs"

fun le_bytes :: "nat \<Rightarrow> nat \<Rightarrow> u8 list" where
  "le_bytes 0 n = []"
| "le_bytes (Suc k) n = of_nat n # le_bytes k (n div 256)"

lemma length_le_bytes [simp]: "length (le_bytes k n) = k"
  by (induction k arbitrary: n) auto

lemma le_val_bytes: "le_val (le_bytes k n) = n mod 256 ^ k"
proof (induction k arbitrary: n)
  case 0
  then show ?case by simp
next
  case (Suc k)
  have "unat (of_nat n :: u8) = n mod 256"
    by (simp add: unsigned_of_nat take_bit_eq_mod)
  then show ?case
    using Suc by (simp add: mod_mult2_eq)
qed

lemma le_bytes_val: "le_bytes (length bs) (le_val bs) = bs"
proof (induction bs)
  case Nil
  then show ?case by simp
next
  case (Cons b bs)
  have b: "unat b < 256" using unsigned_less [of b, where ?'a = nat] by simp
  then have "(unat b + 256 * le_val bs) div 256 = le_val bs" by simp
  moreover have "(of_nat (unat b + 256 * le_val bs) :: u8) = b"
  proof -
    have "(of_nat 256 :: u8) = 0" by simp
    then have "(of_nat (256 * le_val bs) :: u8) = 0" by (simp only: of_nat_mult mult_zero_left)
    then show ?thesis by (simp only: of_nat_add add_0_right of_nat_unat_word)
  qed
  ultimately show ?case using Cons by simp
qed

lemma le_val_bound: "le_val bs < 256 ^ length bs"
proof (induction bs)
  case Nil
  then show ?case by simp
next
  case (Cons b bs)
  have "unat b < 256" using unsigned_less [of b, where ?'a = nat] by simp
  with Cons show ?case by simp
qed

definition load64 :: "mem \<Rightarrow> u64 \<Rightarrow> u64" where
  "load64 m a = of_nat (le_val (mread m a 8))"

definition store64 :: "mem \<Rightarrow> u64 \<Rightarrow> u64 \<Rightarrow> mem" where
  "store64 m a v = mwrite m a (le_bytes 8 (unat v))"

definition load32 :: "mem \<Rightarrow> u64 \<Rightarrow> u32" where
  "load32 m a = of_nat (le_val (mread m a 4))"

definition store32 :: "mem \<Rightarrow> u64 \<Rightarrow> u32 \<Rightarrow> mem" where
  "store32 m a v = mwrite m a (le_bytes 4 (unat v))"

lemma load64_store64 [simp]: "load64 (store64 m a v) a = v"
proof -
  have "unat v < 256 ^ 8" using unsigned_less [of v, where ?'a = nat] by simp
  then show ?thesis by (simp add: load64_def store64_def mread_mwrite_same le_val_bytes)
qed

lemma load32_store32 [simp]: "load32 (store32 m a v) a = v"
proof -
  have "unat v < 256 ^ 4" using unsigned_less [of v, where ?'a = nat] by simp
  then show ?thesis by (simp add: load32_def store32_def mread_mwrite_same le_val_bytes)
qed

text \<open>Two runs at different offsets from one address, as the fields of a structure are.\<close>

lemma mread_mwrite_off:
  assumes "o1 + length bs \<le> 2 ^ 32" and "o2 + k \<le> 2 ^ 32" and "o1 + length bs \<le> o2 \<or> o2 + k \<le> o1"
  shows "mread (mwrite m (p + of_nat o1) bs) (p + of_nat o2) k = mread m (p + of_nat o2) k"
proof (rule mread_mwrite_other)
  fix i assume i: "i < k"
  have e: "p + of_nat o2 + of_nat i - (p + of_nat o1) = (of_nat (o2 + i) - of_nat o1 :: u64)" by simp
  have u1: "unat (of_nat (o2 + i) :: u64) = o2 + i"
    by (rule unat_of_nat_small) (use i assms(2) in simp)
  have u2: "unat (of_nat o1 :: u64) = o1"
    by (rule unat_of_nat_small) (use assms(1) in simp)
  show "\<not> inrun (p + of_nat o1) (length bs) (p + of_nat o2 + of_nat i)"
    unfolding inrun_def e unat_sub_if' u1 u2 using assms i by auto
qed

lemma load64_store64_off:
  "o1 + 8 \<le> 2 ^ 32 \<Longrightarrow> o2 + 8 \<le> 2 ^ 32 \<Longrightarrow> o1 + 8 \<le> o2 \<or> o2 + 8 \<le> o1 \<Longrightarrow>
   load64 (store64 m (p + of_nat o1) v) (p + of_nat o2) = load64 m (p + of_nat o2)"
  by (simp add: load64_def store64_def mread_mwrite_off)

lemma load64_store32_off:
  "o1 + 4 \<le> 2 ^ 32 \<Longrightarrow> o2 + 8 \<le> 2 ^ 32 \<Longrightarrow> o1 + 4 \<le> o2 \<or> o2 + 8 \<le> o1 \<Longrightarrow>
   load64 (store32 m (p + of_nat o1) v) (p + of_nat o2) = load64 m (p + of_nat o2)"
  by (simp add: load64_def store32_def mread_mwrite_off)

lemma load32_store64_off:
  "o1 + 8 \<le> 2 ^ 32 \<Longrightarrow> o2 + 4 \<le> 2 ^ 32 \<Longrightarrow> o1 + 8 \<le> o2 \<or> o2 + 4 \<le> o1 \<Longrightarrow>
   load32 (store64 m (p + of_nat o1) v) (p + of_nat o2) = load32 m (p + of_nat o2)"
  by (simp add: load32_def store64_def mread_mwrite_off)

lemma take_le_bytes: "take j (le_bytes k n) = le_bytes (min j k) n"
proof (induction k arbitrary: j n)
  case 0
  then show ?case by simp
next
  case (Suc k)
  then show ?case by (cases j) auto
qed

lemma load32_store64_low: "load32 (store64 m a v) a = ucast v"
proof -
  have "mread (store64 m a v) a 4 = take 4 (mread (store64 m a v) a 8)"
    by (rule nth_equalityI) simp_all
  also have "\<dots> = le_bytes 4 (unat v)" by (simp add: store64_def mread_mwrite_same take_le_bytes)
  finally have "load32 (store64 m a v) a = of_nat (take_bit 32 (unat v))"
    by (simp add: load32_def le_val_bytes take_bit_eq_mod)
  also have "\<dots> = ucast v" by (rule bit_word_eqI) (simp add: bit_simps)
  finally show ?thesis .
qed

section \<open>The loops of string.c\<close>

text \<open>A length is a \<open>uint\<close>: what the caller passes is reduced to 32 bits.\<close>

definition uint_len :: "nat \<Rightarrow> nat" where
  "uint_len n = n mod 2 ^ 32"

lemma uint_len_id [simp]: "n < 2 ^ 32 \<Longrightarrow> uint_len n = n"
  by (simp add: uint_len_def)

lemma uint_len_less: "uint_len n < 2 ^ 32"
  by (simp add: uint_len_def)

primrec memset_loop :: "nat \<Rightarrow> u64 \<Rightarrow> u8 \<Rightarrow> mem \<Rightarrow> mem" where
  "memset_loop 0 p c m = m"
| "memset_loop (Suc n) p c m = memset_loop n (p + 1) c (m(p := c))"

definition memset :: "u64 \<Rightarrow> int \<Rightarrow> nat \<Rightarrow> mem \<Rightarrow> mem" where
  "memset dst c n m = memset_loop (uint_len n) dst (word_of_int c) m"

primrec memcmp_loop :: "nat \<Rightarrow> u64 \<Rightarrow> u64 \<Rightarrow> mem \<Rightarrow> int" where
  "memcmp_loop 0 s1 s2 m = 0"
| "memcmp_loop (Suc n) s1 s2 m =
     (if m s1 \<noteq> m s2 then int (unat (m s1)) - int (unat (m s2)) else memcmp_loop n (s1 + 1) (s2 + 1) m)"

definition memcmp :: "u64 \<Rightarrow> u64 \<Rightarrow> nat \<Rightarrow> mem \<Rightarrow> int" where
  "memcmp v1 v2 n m = memcmp_loop (uint_len n) v1 v2 m"

primrec move_up :: "nat \<Rightarrow> u64 \<Rightarrow> u64 \<Rightarrow> mem \<Rightarrow> mem" where
  "move_up 0 d s m = m"
| "move_up (Suc n) d s m = move_up n (d + 1) (s + 1) (m(d := m s))"

primrec move_down :: "nat \<Rightarrow> u64 \<Rightarrow> u64 \<Rightarrow> mem \<Rightarrow> mem" where
  "move_down 0 d s m = m"
| "move_down (Suc n) d s m = move_down n (d - 1) (s - 1) (m(d - 1 := m (s - 1)))"

definition memmove :: "u64 \<Rightarrow> u64 \<Rightarrow> nat \<Rightarrow> mem \<Rightarrow> mem" where
  "memmove dst src len m =
     (let n = uint_len len in
      if n = 0 then m
      else if src < dst \<and> src + of_nat n > dst then move_down n (dst + of_nat n) (src + of_nat n) m
      else move_up n dst src m)"

definition memcpy :: "u64 \<Rightarrow> u64 \<Rightarrow> nat \<Rightarrow> mem \<Rightarrow> mem" where
  "memcpy dst src n m = memmove dst src n m"

section \<open>The loops compute the reference operations\<close>

lemma inrun_Suc: "inrun p (Suc n) x \<longleftrightarrow> x = p \<or> (x \<noteq> p \<and> inrun (p + 1) n x)"
proof (cases "x = p")
  case True
  then show ?thesis by (simp add: inrun_def)
next
  case False
  then have "x - p \<noteq> 0" by simp
  then have "unat (x - p - 1) = unat (x - p) - 1" and "unat (x - p) > 0"
    by (simp_all add: unat_minus_one unat_gt_0)
  then have "unat (x - p) < Suc n \<longleftrightarrow> unat (x - p - 1) < n" by linarith
  then show ?thesis using False by (simp add: inrun_def diff_diff_eq)
qed

lemma memset_loop_apply:
  "n \<le> 2 ^ 64 \<Longrightarrow> memset_loop n p c m x = (if inrun p n x then c else m x)"
proof (induction n arbitrary: p m)
  case 0
  then show ?case by (simp add: inrun_def)
next
  case (Suc n)
  have "memset_loop n (p + 1) c (m(p := c)) x = (if inrun (p + 1) n x then c else (m(p := c)) x)"
    using Suc.prems by (intro Suc.IH) simp
  then show ?case
    using inrun_Suc [of p n x] by simp
qed

lemma memset_mwrite:
  "n < 2 ^ 32 \<Longrightarrow> memset dst c n m = mwrite m dst (replicate n (word_of_int c))"
  by (rule ext) (simp add: memset_def memset_loop_apply mwrite_def inrun_def)

lemma move_up_apply:
  assumes "\<forall>i < n. \<forall>j < i. s + of_nat i \<noteq> d + of_nat j" and "n \<le> 2 ^ 64"
  shows "move_up n d s m x = (if inrun d n x then m (s + (x - d)) else m x)"
  using assms
proof (induction n arbitrary: d s m)
  case 0
  then show ?case by (simp add: inrun_def)
next
  case (Suc n)
  let ?m = "m(d := m s)"
  have pre: "\<forall>i < n. \<forall>j < i. (s + 1) + of_nat i \<noteq> (d + 1) + of_nat j"
  proof (intro allI impI)
    fix i j assume "i < n" and "j < i"
    then have "s + of_nat (Suc i) \<noteq> d + of_nat (Suc j)" using Suc.prems(1) by blast
    then show "(s + 1) + of_nat i \<noteq> (d + 1) + of_nat j" by (simp add: add.assoc)
  qed
  have IH: "move_up n (d + 1) (s + 1) ?m x
      = (if inrun (d + 1) n x then ?m (s + 1 + (x - (d + 1))) else ?m x)"
    using Suc.IH [OF pre] Suc.prems(2) by simp
  have unread: "s + (x - d) \<noteq> d" if "inrun (d + 1) n x"
  proof -
    let ?i = "Suc (unat (x - (d + 1)))"
    have "?i < Suc n" using that by (simp add: inrun_def)
    then have "s + of_nat ?i \<noteq> d + of_nat 0" using Suc.prems(1) by blast
    moreover have "of_nat ?i = x - d" by (simp add: algebra_simps)
    ultimately show ?thesis by simp
  qed
  have "s + 1 + (x - (d + 1)) = s + (x - d)" by (simp add: algebra_simps)
  then show ?case
    using IH inrun_Suc [of d n x] unread by (auto simp: inrun_def)
qed

lemma inrun_last:
  assumes "n < 2 ^ 64"
  shows "inrun b (Suc n) x \<longleftrightarrow> x = b + of_nat n \<or> inrun b n x"
proof -
  have "x = b + of_nat n \<longleftrightarrow> unat (x - b) = n"
  proof
    assume "x = b + of_nat n"
    then show "unat (x - b) = n" using unat_of_nat_small [OF assms] by simp
  next
    assume "unat (x - b) = n"
    then have "of_nat n = x - b" by auto
    then show "x = b + of_nat n" by simp
  qed
  then show ?thesis by (auto simp: inrun_def)
qed

lemma move_down_apply:
  assumes "\<forall>i < n. \<forall>j < i. s + of_nat j \<noteq> d + of_nat i" and "n \<le> 2 ^ 64"
  shows "move_down n (d + of_nat n) (s + of_nat n) m x = (if inrun d n x then m (s + (x - d)) else m x)"
  using assms
proof (induction n arbitrary: m)
  case 0
  then show ?case by (simp add: inrun_def)
next
  case (Suc n)
  let ?m = "m(d + of_nat n := m (s + of_nat n))"
  have step: "move_down (Suc n) (d + of_nat (Suc n)) (s + of_nat (Suc n)) m
      = move_down n (d + of_nat n) (s + of_nat n) ?m"
    by (simp add: algebra_simps)
  have IH: "move_down n (d + of_nat n) (s + of_nat n) ?m x
      = (if inrun d n x then ?m (s + (x - d)) else ?m x)"
    using Suc.prems by (intro Suc.IH) auto
  have unread: "s + (x - d) \<noteq> d + of_nat n" if "inrun d n x"
  proof -
    have "s + of_nat (unat (x - d)) \<noteq> d + of_nat n"
      using Suc.prems(1) that unfolding inrun_def by blast
    then show ?thesis by simp
  qed
  have last: "inrun d (Suc n) x \<longleftrightarrow> x = d + of_nat n \<or> inrun d n x"
    using Suc.prems(2) by (intro inrun_last) simp
  have "\<not> inrun d n (d + of_nat n)"
    using Suc.prems(2) by (simp add: inrun_def unat_of_nat_small)
  then show ?case
    using IH last unread by (auto simp only: step fun_upd_apply add_diff_cancel_left' split: if_splits)
qed

text \<open>A run does not wrap around the end of the address space.\<close>

definition nowrap :: "u64 \<Rightarrow> nat \<Rightarrow> bool" where
  "nowrap a n \<longleftrightarrow> unat a + n < 2 ^ 64"

lemma unat_add_nowrap: "nowrap a n \<Longrightarrow> i \<le> n \<Longrightarrow> unat (a + of_nat i) = unat a + i"
  by (simp add: nowrap_def unat_word_ariths unat_of_nat_small)

lemma mread_off: "inrun d n x \<Longrightarrow> mread m s n ! unat (x - d) = m (s + (x - d))"
  by (simp add: inrun_def)

lemma memmove_mwrite:
  assumes "nowrap dst n" and "nowrap src n" and "n < 2 ^ 32"
  shows "memmove dst src n m = mwrite m dst (mread m src n)"
proof (rule ext)
  fix x
  have small: "n \<le> 2 ^ 64" using assms(1) by (simp add: nowrap_def)
  have idx: "src + of_nat i = dst + of_nat j \<longleftrightarrow> unat src + i = unat dst + j" if "i < n" "j < n" for i j
    using that assms by (simp add: word_unat_eq_iff unat_add_nowrap)
  have key: "memmove dst src n m x = (if inrun dst n x then m (src + (x - dst)) else m x)"
  proof (cases "n = 0")
    case True
    then show ?thesis by (simp add: memmove_def inrun_def uint_len_def)
  next
    case False
    show ?thesis
    proof (cases "src < dst \<and> src + of_nat n > dst")
      case True
      then have "unat src < unat dst" by (simp add: word_less_nat_alt)
      then have "\<forall>i < n. \<forall>j < i. src + of_nat j \<noteq> dst + of_nat i" by (auto simp: idx)
      then show ?thesis using True False small assms(3) by (simp add: memmove_def move_down_apply)
    next
      case False
      then have "unat dst \<le> unat src \<or> unat src + n \<le> unat dst"
        using unat_add_nowrap [OF assms(2), of n] by (auto simp: word_less_nat_alt)
      then have "\<forall>i < n. \<forall>j < i. src + of_nat i \<noteq> dst + of_nat j" by (auto simp: idx)
      moreover have "memmove dst src n m = move_up n dst src m"
        using False \<open>n \<noteq> 0\<close> assms(3) by (auto simp: memmove_def)
      ultimately show ?thesis using small by (simp add: move_up_apply)
    qed
  qed
  then show "memmove dst src n m x = mwrite m dst (mread m src n) x"
    by (simp add: mwrite_def inrun_def)
qed

lemma memcmp_loop_zero:
  "memcmp_loop n s1 s2 m = 0 \<longleftrightarrow> (\<forall>i < n. m (s1 + of_nat i) = m (s2 + of_nat i))"
proof (induction n arbitrary: s1 s2)
  case 0
  then show ?case by simp
next
  case (Suc n)
  have "(\<forall>i < Suc n. m (s1 + of_nat i) = m (s2 + of_nat i))
      \<longleftrightarrow> m s1 = m s2 \<and> (\<forall>i < n. m (s1 + 1 + of_nat i) = m (s2 + 1 + of_nat i))"
    by (simp add: All_less_Suc2 add.assoc)
  moreover have "m s1 \<noteq> m s2 \<Longrightarrow> int (unat (m s1)) - int (unat (m s2)) \<noteq> 0"
    by (simp add: word_uint_eq_iff)
  ultimately show ?case using Suc by (simp only: memcmp_loop.simps) (auto split: if_splits)
qed

section \<open>Pages\<close>

definition PGSIZE :: nat where
  "PGSIZE = 4096"

definition PGSHIFT :: nat where
  "PGSHIFT = 12"

definition PGROUNDUP :: "u64 \<Rightarrow> u64" where
  "PGROUNDUP sz = (sz + of_nat PGSIZE - 1) AND NOT (of_nat PGSIZE - 1)"

definition PGROUNDDOWN :: "u64 \<Rightarrow> u64" where
  "PGROUNDDOWN a = a AND NOT (of_nat PGSIZE - 1)"

text \<open>The layout of the address spaces: \<open>memlayout.h\<close> and \<open>MAXVA\<close> of \<open>riscv.h\<close>.\<close>

definition KERNBASE :: u64 where
  "KERNBASE = 0x80000000"

definition PHYSTOP :: u64 where
  "PHYSTOP = KERNBASE + 128 * 1024 * 1024"

definition MAXVA :: u64 where
  "MAXVA = push_bit (9 + 9 + 9 + 12 - 1) 1"

definition TRAMPOLINE :: u64 where
  "TRAMPOLINE = MAXVA - of_nat PGSIZE"

definition KSTACK :: "nat \<Rightarrow> u64" where
  "KSTACK p = TRAMPOLINE - of_nat ((p + 1) * 2 * PGSIZE)"

definition TRAPFRAME :: u64 where
  "TRAPFRAME = TRAMPOLINE - of_nat PGSIZE"

text \<open>The number of the page that an address lies on, and the offset in it.\<close>

definition pageno :: "u64 \<Rightarrow> nat" where
  "pageno a = unat a div PGSIZE"

definition pgoff :: "u64 \<Rightarrow> nat" where
  "pgoff a = unat a mod PGSIZE"

abbreviation page_aligned :: "u64 \<Rightarrow> bool" where
  "page_aligned a \<equiv> pgoff a = 0"

lemma unat_page: "unat a = PGSIZE * pageno a + pgoff a"
  by (simp add: pageno_def pgoff_def)

lemma PGROUNDDOWN_unat: "unat (PGROUNDDOWN a) = PGSIZE * pageno a"
proof -
  have mask: "(of_nat PGSIZE - 1 :: u64) = mask 12" by (simp add: PGSIZE_def mask_eq_exp_minus_1)
  have "a AND NOT (mask 12) = push_bit 12 (drop_bit 12 a)"
    by (rule bit_word_eqI) (auto simp: bit_simps)
  then have "unat (PGROUNDDOWN a) = unat (push_bit 12 (drop_bit 12 a))"
    by (simp only: PGROUNDDOWN_def mask)
  also have "\<dots> = unat a div 4096 * 4096"
  proof -
    have "unat a < 2 ^ 64" using unsigned_less [of a, where ?'a = nat] by simp
    then have "unat a div 4096 * 4096 < 2 ^ 64" by linarith
    then show ?thesis
      by (simp add: push_bit_eq_mult drop_bit_eq_div unat_word_ariths unat_div_distrib)
  qed
  finally show ?thesis by (simp add: PGSIZE_def pageno_def)
qed

lemma PGROUNDDOWN_le: "unat (PGROUNDDOWN a) \<le> unat a"
  by (simp add: PGROUNDDOWN_unat) (simp add: unat_page)

lemma pageno_PGROUNDDOWN [simp]: "pageno (PGROUNDDOWN a) = pageno a"
  by (simp add: pageno_def [of "PGROUNDDOWN a"] PGROUNDDOWN_unat) (simp add: PGSIZE_def)

lemma pgoff_PGROUNDDOWN [simp]: "pgoff (PGROUNDDOWN a) = 0"
  by (simp add: pgoff_def PGROUNDDOWN_unat)

lemma sub_PGROUNDDOWN: "unat (a - PGROUNDDOWN a) = pgoff a"
proof -
  have "PGROUNDDOWN a \<le> a" using PGROUNDDOWN_le by (simp add: word_le_nat_alt)
  then show ?thesis using unat_page [of a] by (simp add: unat_sub PGROUNDDOWN_unat)
qed

lemma pgoff_less: "pgoff a < PGSIZE"
  by (simp add: pgoff_def PGSIZE_def)

lemma page_aligned_iff: "page_aligned a \<longleftrightarrow> a mod of_nat PGSIZE = 0"
  by (simp add: pgoff_def word_unat_eq_iff unat_mod_distrib PGSIZE_def)

lemma page_aligned_unat: "page_aligned a \<Longrightarrow> unat a = PGSIZE * pageno a"
  by (simp add: unat_page)

lemma page_aligned_eqI: "page_aligned a \<Longrightarrow> page_aligned b \<Longrightarrow> pageno a = pageno b \<Longrightarrow> a = b"
  by (simp add: word_unat_eq_iff page_aligned_unat)

text \<open>
  A run that stays on one page: the accesses the kernel makes to page-table entries, free-list
  links and the parts of user pages that it copies.
\<close>

definition onpage :: "u64 \<Rightarrow> nat \<Rightarrow> bool" where
  "onpage a n \<longleftrightarrow> pgoff a + n \<le> PGSIZE"

lemma onpage_add:
  assumes "onpage a n" and "i < n"
  shows "unat (a + of_nat i) = unat a + i" and "pageno (a + of_nat i) = pageno a"
proof -
  have "unat a < 2 ^ 64" using unsigned_less [of a, where ?'a = nat] by simp
  then have "pageno a < 2 ^ 52" by (simp add: pageno_def PGSIZE_def)
  then have "unat a + i < 2 ^ 64"
    using assms unat_page [of a] by (simp add: onpage_def PGSIZE_def)
  then show eq: "unat (a + of_nat i) = unat a + i"
    by (simp add: unat_word_ariths unat_of_nat_small)
  have "pgoff a + i < PGSIZE" using assms by (simp add: onpage_def)
  then have "(PGSIZE * pageno a + (pgoff a + i)) div PGSIZE = pageno a"
    by (simp add: PGSIZE_def)
  then show "pageno (a + of_nat i) = pageno a"
    using eq by (simp only: pageno_def [of "a + of_nat i"] unat_page [of a] add.assoc)
qed

lemma onpage_run:
  assumes "onpage a n" and "inrun a n x"
  shows "pageno x = pageno a"
  using onpage_add(2) [OF assms(1), of "unat (x - a)"] assms(2) by (simp add: inrun_def)

lemma mwrite_other_page:
  assumes "onpage a (length bs)" and "pageno x \<noteq> pageno a"
  shows "mwrite m a bs x = m x"
  using assms onpage_run mwrite_outside by blast

lemma mread_other_page:
  assumes "onpage a (length bs)" and "onpage b k" and "pageno a \<noteq> pageno b"
  shows "mread (mwrite m a bs) b k = mread m b k"
  using assms by (intro mread_mwrite_other) (metis onpage_add(2) onpage_run)

text \<open>Two runs on one page that do not meet.\<close>

lemma mread_same_page:
  assumes "onpage a (length bs)" and "onpage b k"
    and "unat a + length bs \<le> unat b \<or> unat b + k \<le> unat a"
  shows "mread (mwrite m a bs) b k = mread m b k"
proof (rule mread_mwrite_other)
  fix i assume i: "i < k"
  show "\<not> inrun a (length bs) (b + of_nat i)"
  proof
    assume r: "inrun a (length bs) (b + of_nat i)"
    let ?j = "unat (b + of_nat i - a)"
    have "?j < length bs" using r by (simp add: inrun_def)
    then have "unat (a + of_nat ?j) = unat a + ?j" using assms(1) by (intro onpage_add(1))
    moreover have "a + of_nat ?j = b + of_nat i" by simp
    ultimately have "unat b + i = unat a + ?j" using onpage_add(1) [OF assms(2) i] by simp
    with assms(3) \<open>?j < length bs\<close> i show False by linarith
  qed
qed

text \<open>Memories that agree on a page.\<close>

definition agree :: "nat \<Rightarrow> mem \<Rightarrow> mem \<Rightarrow> bool" where
  "agree pg m m' \<longleftrightarrow> (\<forall>x. pageno x = pg \<longrightarrow> m' x = m x)"

lemma mread_agree: "onpage a n \<Longrightarrow> agree (pageno a) m m' \<Longrightarrow> mread m' a n = mread m a n"
  unfolding agree_def mread_def using onpage_add(2) by (intro map_cong) auto

lemma load64_agree: "onpage a 8 \<Longrightarrow> agree (pageno a) m m' \<Longrightarrow> load64 m' a = load64 m a"
  by (simp add: load64_def mread_agree)

lemma load32_agree: "onpage a 4 \<Longrightarrow> agree (pageno a) m m' \<Longrightarrow> load32 m' a = load32 m a"
  by (simp add: load32_def mread_agree)

lemma agree_mwrite: "onpage a (length bs) \<Longrightarrow> pg \<noteq> pageno a \<Longrightarrow> agree pg m (mwrite m a bs)"
  by (simp add: agree_def mwrite_other_page)

lemma agree_store:
  "onpage a 8 \<Longrightarrow> pg \<noteq> pageno a \<Longrightarrow> agree pg m (store64 m a v)"
  "onpage a 4 \<Longrightarrow> pg \<noteq> pageno a \<Longrightarrow> agree pg m (store32 m a w)"
  by (simp_all add: store64_def store32_def agree_mwrite)

lemma agree_trans: "agree pg m m' \<Longrightarrow> agree pg m' m'' \<Longrightarrow> agree pg m m''"
  by (simp add: agree_def)

lemma agree_refl [simp]: "agree pg m m"
  by (simp add: agree_def)

text \<open>A field of a structure that starts a page.\<close>

lemma field_onpage:
  assumes "page_aligned a" and "k + n \<le> PGSIZE"
  shows "onpage (a + of_nat k) n" and "0 < n \<Longrightarrow> pageno (a + of_nat k) = pageno a"
    and "unat (a + of_nat k) = unat a + k \<or> n = 0"
proof -
  have on: "onpage a (k + n)" using assms by (simp add: onpage_def)
  show pg: "pageno (a + of_nat k) = pageno a" if "0 < n" using onpage_add(2) [OF on, of k] that by simp
  show u: "unat (a + of_nat k) = unat a + k \<or> n = 0" using onpage_add(1) [OF on, of k] by (cases "n = 0") simp_all
  show "onpage (a + of_nat k) n"
  proof (cases "n = 0")
    case True
    then show ?thesis using pgoff_less [of "a + of_nat k"] by (simp add: onpage_def)
  next
    case False
    then have "pgoff (a + of_nat k) = (unat a + k) mod PGSIZE" using u by (simp add: pgoff_def)
    also have "\<dots> = k" using assms False by (simp add: pgoff_def PGSIZE_def mod_add_left_eq [symmetric])
    finally show ?thesis using assms(2) by (simp add: onpage_def)
  qed
qed

end
