(* ===== verification/Kstring.thy ===== *)
theory Kstring
  imports Memory
begin

text \<open>
  The string half of \<open>kernel/string.c\<close>: \<open>strncmp\<close>, \<open>strncpy\<close>, \<open>safestrcpy\<close>, \<open>strlen\<close>.

  A \<open>char *\<close> that is only read is the function from an index to the byte found there, so one
  definition serves pointers into memory (\<open>at\<close>) and the character arrays inside kernel structures
  (\<open>chars\<close>). An array that is written is the list of its bytes.
\<close>

type_synonym cstr = "nat \<Rightarrow> u8"

definition at :: "mem \<Rightarrow> u64 \<Rightarrow> cstr" where
  "at m a = (\<lambda>i. m (a + of_nat i))"

text \<open>The bytes of an array, followed by zeroes.\<close>

definition chars :: "u8 list \<Rightarrow> cstr" where
  "chars bs = (\<lambda>i. if i < length bs then bs ! i else 0)"

primrec strncmp_loop :: "nat \<Rightarrow> cstr \<Rightarrow> cstr \<Rightarrow> nat \<Rightarrow> int" where
  "strncmp_loop 0 p q i = 0"
| "strncmp_loop (Suc n) p q i =
     (if p i \<noteq> 0 \<and> p i = q i then strncmp_loop n p q (Suc i)
      else int (unat (p i)) - int (unat (q i)))"

definition strncmp :: "cstr \<Rightarrow> cstr \<Rightarrow> nat \<Rightarrow> int" where
  "strncmp p q n = strncmp_loop (uint_len n) p q 0"

text \<open>The first loop copies up to and including a NUL, the second pads with zeroes.\<close>

primrec strncpy_loop :: "nat \<Rightarrow> cstr \<Rightarrow> nat \<Rightarrow> u8 list" where
  "strncpy_loop 0 t i = []"
| "strncpy_loop (Suc n) t i =
     (if t i \<noteq> 0 then t i # strncpy_loop n t (Suc i) else t i # replicate n 0)"

definition strncpy :: "u8 list \<Rightarrow> cstr \<Rightarrow> int \<Rightarrow> u8 list" where
  "strncpy s t n = strncpy_loop (nat n) t 0 @ drop (nat n) s"

primrec safestrcpy_loop :: "nat \<Rightarrow> cstr \<Rightarrow> nat \<Rightarrow> u8 list" where
  "safestrcpy_loop 0 t i = [0]"
| "safestrcpy_loop (Suc n) t i =
     (if t i \<noteq> 0 then t i # safestrcpy_loop n t (Suc i) else [t i, 0])"

definition safestrcpy :: "u8 list \<Rightarrow> cstr \<Rightarrow> int \<Rightarrow> u8 list" where
  "safestrcpy s t n =
     (if n \<le> 0 then s
      else let w = safestrcpy_loop (nat (n - 1)) t 0 in w @ drop (length w) s)"

partial_function (option) strlen_loop :: "cstr \<Rightarrow> nat \<Rightarrow> nat option" where
  "strlen_loop s n = (if s n \<noteq> 0 then strlen_loop s (Suc n) else Some n)"

definition strlen :: "cstr \<Rightarrow> nat option" where
  "strlen s = strlen_loop s 0"

section \<open>The text a C string denotes\<close>

text \<open>The bytes before the first NUL, at most \<open>n\<close> of them.\<close>

definition text_upto :: "nat \<Rightarrow> cstr \<Rightarrow> u8 list" where
  "text_upto n p = takeWhile (\<lambda>b. b \<noteq> 0) (map p [0..<n])"

lemma map_upt_shift: "map p [i..<i + Suc n] = p i # map p [Suc i..<Suc i + n]"
  by (simp add: upt_conv_Cons del: upt_Suc)

lemma byte_diff: "int (unat a) - int (unat b) = 0 \<longleftrightarrow> a = b" for a b :: u8
  by (simp add: word_uint_eq_iff)

lemma strncmp_loop_zero:
  "strncmp_loop n p q i = 0 \<longleftrightarrow>
     takeWhile (\<lambda>b. b \<noteq> 0) (map p [i..<i + n]) = takeWhile (\<lambda>b. b \<noteq> 0) (map q [i..<i + n])"
proof (induction n arbitrary: i)
  case 0
  then show ?case by simp
next
  case (Suc n)
  show ?case
  proof (cases "p i \<noteq> 0 \<and> p i = q i")
    case True
    then show ?thesis
      by (simp add: map_upt_shift Suc [of "Suc i"] del: upt_Suc add_Suc add_Suc_right)
  next
    case False
    then show ?thesis
      by (auto simp only: strncmp_loop.simps map_upt_shift takeWhile.simps byte_diff if_False
          list.inject list.distinct split: if_splits)
  qed
qed

lemma strncmp_zero: "n < 2 ^ 32 \<Longrightarrow> strncmp p q n = 0 \<longleftrightarrow> text_upto n p = text_upto n q"
  using strncmp_loop_zero [of n p q 0] by (simp add: strncmp_def text_upto_def)

lemma strncpy_loop_text:
  "strncpy_loop n t i = (let w = takeWhile (\<lambda>b. b \<noteq> 0) (map t [i..<i + n])
                         in w @ replicate (n - length w) 0)"
proof (induction n arbitrary: i)
  case 0
  then show ?case by simp
next
  case (Suc n)
  then show ?case by (simp only: strncpy_loop.simps map_upt_shift) (auto simp: Let_def)
qed

lemma length_strncpy_loop [simp]: "length (strncpy_loop n t i) = n"
  by (induction n arbitrary: i) auto

lemma length_strncpy [simp]: "length (strncpy s t n) = max (nat n) (length s)"
  by (simp add: strncpy_def)

lemma strncpy_exact:
  "length s = nat n \<Longrightarrow> strncpy s t n =
     text_upto (nat n) t @ replicate (nat n - length (text_upto (nat n) t)) 0"
  using strncpy_loop_text [of "nat n" t 0] by (simp add: strncpy_def text_upto_def Let_def)

lemma takeWhile_text: "takeWhile (\<lambda>b. b \<noteq> 0) (takeWhile (\<lambda>b. b \<noteq> 0) w @ replicate k (0 :: u8))
    = takeWhile (\<lambda>b. b \<noteq> 0) w"
proof -
  have "takeWhile (\<lambda>b. b \<noteq> (0 :: u8)) (replicate k 0) = []" by (cases k) auto
  then show ?thesis by (simp add: takeWhile_append)
qed

lemma text_upto_chars: "length bs = n \<Longrightarrow> text_upto n (chars bs) = takeWhile (\<lambda>b. b \<noteq> 0) bs"
proof -
  assume "length bs = n"
  then have "map (chars bs) [0..<n] = bs" by (intro nth_equalityI) (auto simp: chars_def)
  then show ?thesis by (simp add: text_upto_def)
qed

lemma text_upto_strncpy:
  "length s = nat n \<Longrightarrow> text_upto (nat n) (chars (strncpy s t n)) = text_upto (nat n) t"
  by (simp add: text_upto_chars) (simp add: strncpy_exact takeWhile_text text_upto_def)

lemma safestrcpy_loop_text:
  "\<exists>z. safestrcpy_loop n t i = takeWhile (\<lambda>b. b \<noteq> 0) (map t [i..<i + n]) @ 0 # z \<and> length (safestrcpy_loop n t i) \<le> Suc n"
proof (induction n arbitrary: i)
  case 0
  then show ?case by simp
next
  case (Suc n)
  show ?case
    using Suc [of "Suc i"] by (simp only: safestrcpy_loop.simps map_upt_shift) auto
qed

lemma safestrcpy_text:
  assumes "0 < n" and "nat n \<le> length s"
  obtains z where "safestrcpy s t n = text_upto (nat (n - 1)) t @ 0 # z"
    and "length (safestrcpy s t n) = length s"
    and "drop (nat n) (safestrcpy s t n) = drop (nat n) s"
proof -
  let ?w = "safestrcpy_loop (nat (n - 1)) t 0"
  obtain z where z: "?w = text_upto (nat (n - 1)) t @ 0 # z" and len: "length ?w \<le> Suc (nat (n - 1))"
    using safestrcpy_loop_text [of "nat (n - 1)" t 0] by (auto simp: text_upto_def)
  have r: "safestrcpy s t n = ?w @ drop (length ?w) s" using assms(1) by (simp add: safestrcpy_def Let_def)
  have w: "length ?w \<le> nat n" using len assms(1) by linarith
  show ?thesis
  proof (rule that [of "z @ drop (length ?w) s"])
    show "safestrcpy s t n = text_upto (nat (n - 1)) t @ 0 # z @ drop (length ?w) s" using r z by simp
    show "length (safestrcpy s t n) = length s" using r w assms(2) by simp
    show "drop (nat n) (safestrcpy s t n) = drop (nat n) s" using r w by simp
  qed
qed

lemma strlen_loop_text:
  "s (n + k) = 0 \<Longrightarrow> (\<And>i. i < k \<Longrightarrow> s (n + i) \<noteq> 0) \<Longrightarrow> strlen_loop s n = Some (n + k)"
proof (induction k arbitrary: n)
  case 0
  then show ?case by (subst strlen_loop.simps) simp
next
  case (Suc k)
  have "s n \<noteq> 0" using Suc.prems(2) [of 0] by simp
  moreover have "strlen_loop s (Suc n) = Some (Suc n + k)"
    using Suc.prems by (intro Suc.IH) (force+)
  ultimately show ?case by (subst strlen_loop.simps) simp
qed

lemma strlen_text: "s k = 0 \<Longrightarrow> (\<And>i. i < k \<Longrightarrow> s i \<noteq> 0) \<Longrightarrow> strlen s = Some k"
  using strlen_loop_text [of s 0 k] by (simp add: strlen_def)

end
