(* ===== verification/Proc.thy ===== *)
theory Proc
  imports Printf Kstring
begin

text \<open>
  The process table and the scheduling core of \<open>kernel/proc.c\<close>: \<open>myproc\<close>, \<open>allocpid\<close>, \<open>sched\<close>,
  \<open>yield\<close>, \<open>scheduler\<close>, \<open>sleep\<close>, \<open>wakeup\<close>, \<open>kill\<close>, \<open>setkilled\<close>, \<open>killed\<close>, \<open>reparent\<close> and \<open>procdump\<close>.

  A \<open>struct proc *\<close> is the index of the process in the table \<open>proc[NPROC]\<close>. The wait channels, which
  are kernel addresses in the source, are the values of \<open>chan\<close>. \<open>sched\<close> ends in the outcome
  \<open>Switch\<close>; the code that runs when the scheduler resumes the thread is a definition of its own
  (\<open>sched_resume\<close>, \<open>yield_resume\<close>, \<open>sleep_resume\<close>). A use of the null pointer where the source
  expects a process is a page fault at an unmapped address, on which \<open>kerneltrap\<close> panics.
\<close>

section \<open>State\<close>

definition NPROC :: nat where
  "NPROC = 64"

definition NOFILE :: nat where
  "NOFILE = 16"

datatype procstate = UNUSED | USED | SLEEPING | RUNNABLE | RUNNING | ZOMBIE

datatype chan = Chan_proc nat | Chan_ticks | Chan_sleeplock sleepid | Chan_log
  | Chan_pipe_read u64 | Chan_pipe_write u64 | Chan_cons | Chan_uart_tx | Chan_disk_free | Chan_buf nat

record proc =
  p_state :: procstate
  p_chan :: "chan option"
  p_killed :: int
  p_xstate :: int
  p_pid :: int
  p_parent :: "nat option"
  p_kstack :: u64
  p_sz :: u64
  p_pagetable :: u64
  p_trapframe :: u64
  p_context :: kcontext
  p_ofile :: "nat option list"
  p_cwd :: "nat option"
  p_name :: "u8 list"
  p_cpu_affinity :: int
  p_is_thread :: int

record ptable = console_out +
  procs :: "nat \<Rightarrow> proc"
  nextpid :: int
  initproc :: "nat option"
  forkret_first :: bool

lemma ptable_enter [lock_simps]:
  "procs (enter lk s) = procs s"
  "nextpid (enter lk s) = nextpid s"
  "initproc (enter lk s) = initproc s"
  "forkret_first (enter lk s) = forkret_first s"
  "(enter lk s)\<lparr>procs := x\<rparr> = enter lk (s\<lparr>procs := x\<rparr>)"
  "(enter lk s)\<lparr>nextpid := n\<rparr> = enter lk (s\<lparr>nextpid := n\<rparr>)"
  "(enter lk s)\<lparr>initproc := p\<rparr> = enter lk (s\<lparr>initproc := p\<rparr>)"
  by (simp_all add: enter_def push_state_def)

lemma ptable_push [lock_simps]:
  "procs (push_state s) = procs s"
  "nextpid (push_state s) = nextpid s"
  "initproc (push_state s) = initproc s"
  "(push_state s)\<lparr>procs := x\<rparr> = push_state (s\<lparr>procs := x\<rparr>)"
  by (simp_all add: push_state_def)

lemma ptable_preds [lock_simps]:
  "unlocked lk (s\<lparr>procs := x\<rparr>) = unlocked lk s"
  "unlocked lk (s\<lparr>nextpid := n\<rparr>) = unlocked lk s"
  "unlocked lk (s\<lparr>initproc := p\<rparr>) = unlocked lk s"
  "cpu_quiet (s\<lparr>procs := x\<rparr>) = cpu_quiet s"
  "cpu_quiet (s\<lparr>nextpid := n\<rparr>) = cpu_quiet s"
  "cpu_quiet (s\<lparr>initproc := p\<rparr>) = cpu_quiet s"
  "console_ready (s\<lparr>procs := x\<rparr>) = console_ready s"
  "console_ready (s\<lparr>nextpid := n\<rparr>) = console_ready s"
  by (simp_all add: unlocked_def cpu_quiet_def hart_defs console_ready_def)

text \<open>Reading and writing one process of the table.\<close>

definition pget :: "nat \<Rightarrow> (proc \<Rightarrow> 'a) \<Rightarrow> ('z ptable_scheme, 'a) kfun" where
  "pget p f = kget (\<lambda>s. f (procs s p))"

definition pset :: "nat \<Rightarrow> (proc \<Rightarrow> proc) \<Rightarrow> ('z ptable_scheme, unit) kfun" where
  "pset p f = kmod (\<lambda>s. s\<lparr>procs := (procs s)(p := f (procs s p))\<rparr>)"

lemma pget_app [simp]: "pget p f s = Ret (f (procs s p)) s"
  by (simp add: pget_def)

lemma pset_app [simp]: "pset p f s = Ret () (s\<lparr>procs := (procs s)(p := f (procs s p))\<rparr>)"
  by (simp add: pset_def)

lemma pget_wp [wp_rules]:
  "kwp (pget p f) Q B s = Q (f (procs s p)) s"
  "kwlp (pget p f) Q s = Q (f (procs s p)) s"
  by (simp_all add: kwp_def kwlp_def)

lemma pset_wp [wp_rules]:
  "kwp (pset p f) Q B s = Q () (s\<lparr>procs := (procs s)(p := f (procs s p))\<rparr>)"
  "kwlp (pset p f) Q s = Q () (s\<lparr>procs := (procs s)(p := f (procs s p))\<rparr>)"
  by (simp_all add: kwp_def kwlp_def)

section \<open>Current process and process identifiers\<close>

definition myproc :: "('z ptable_scheme, nat option) kfun" where
  "myproc =
     kseq push_off (
     kbind (kget (\<lambda>s. cpu_proc (mycpu s))) (\<lambda>p.
     kseq pop_off (kret p)))"

text \<open>\<open>myproc()\<close> where the result is dereferenced.\<close>

definition curproc :: "('z ptable_scheme, nat) kfun" where
  "curproc = kbind myproc (\<lambda>p. case p of None \<Rightarrow> kpanic ''kerneltrap'' | Some i \<Rightarrow> kret i)"

definition procinit :: "('z ptable_scheme, unit) kfun" where
  "procinit =
     kseq (initlock Pid_lock ''nextpid'') (
     kseq (initlock Wait_lock ''wait_lock'') (
     kfor [0..<NPROC] (\<lambda>p.
       kseq (initlock (Proc_lock p) ''proc'') (
       kseq (pset p (\<lambda>q. q\<lparr>p_state := UNUSED\<rparr>))
       (pset p (\<lambda>q. q\<lparr>p_kstack := KSTACK p\<rparr>))))))"

definition allocpid :: "('z ptable_scheme, int) kfun" where
  "allocpid =
     kseq (acquire Pid_lock) (
     kbind (kget nextpid) (\<lambda>pid.
     kseq (kmod (\<lambda>s. s\<lparr>nextpid := s32 (nextpid s + 1)\<rparr>)) (
     kseq (release Pid_lock)
     (kret pid))))"

section \<open>Switching\<close>

definition sched :: "('z ptable_scheme, unit) kfun" where
  "sched =
     kbind curproc (\<lambda>p.
     kbind (kget (holding (Proc_lock p))) (\<lambda>h.
     if \<not> h then kpanic ''sched p->lock'' else
     kbind (kget (\<lambda>s. noff (mycpu s))) (\<lambda>n.
     if n \<noteq> 1 then kpanic ''sched locks'' else
     kbind (pget p p_state) (\<lambda>st.
     if st = RUNNING then kpanic ''sched running'' else
     kbind (kget intr_get) (\<lambda>on.
     if on then kpanic ''sched interruptible'' else
     kswitch)))))"

text \<open>After \<open>swtch\<close> comes back, perhaps on another hart: the saved \<open>intena\<close> of this thread.\<close>

definition sched_resume :: "bool \<Rightarrow> ('z ptable_scheme, unit) kfun" where
  "sched_resume saved = kmod (set_mycpu (\<lambda>c. c\<lparr>intena := saved\<rparr>))"

definition yield :: "('z ptable_scheme, unit) kfun" where
  "yield =
     kbind curproc (\<lambda>p.
     kseq (acquire (Proc_lock p)) (
     kseq (pset p (\<lambda>q. q\<lparr>p_state := RUNNABLE\<rparr>))
     sched))"

definition yield_resume :: "nat \<Rightarrow> bool \<Rightarrow> ('z ptable_scheme, unit) kfun" where
  "yield_resume p saved = kseq (sched_resume saved) (release (Proc_lock p))"

text \<open>
  One turn of the scan in \<open>scheduler()\<close>. It ends in \<open>Switch\<close> when the process is chosen, and
  \<open>scheduler_back\<close> is the rest of the turn when that process has switched back.
\<close>

definition scheduler_try :: "nat \<Rightarrow> ('z ptable_scheme, unit) kfun" where
  "scheduler_try p =
     kbind (kget cpuid) (\<lambda>cpu_id.
     kseq (acquire (Proc_lock p)) (
     kbind (pget p p_cpu_affinity) (\<lambda>aff.
     if aff \<noteq> -1 \<and> aff \<noteq> int cpu_id then release (Proc_lock p) else
     kbind (pget p p_state) (\<lambda>st.
     if st = RUNNABLE then
       kseq (pset p (\<lambda>q. q\<lparr>p_state := RUNNING\<rparr>)) (
       kseq (kmod (set_mycpu (\<lambda>c. c\<lparr>cpu_proc := Some p\<rparr>)))
       kswitch)
     else release (Proc_lock p)))))"

definition scheduler_back :: "nat \<Rightarrow> ('z ptable_scheme, unit) kfun" where
  "scheduler_back p =
     kseq (kmod (set_mycpu (\<lambda>c. c\<lparr>cpu_proc := None\<rparr>)))
     (release (Proc_lock p))"

text \<open>\<open>scheduler()\<close> up to its first switch: the prologue, and one pass over the table.\<close>

definition scheduler_pass :: "('z ptable_scheme, unit) kfun" where
  "scheduler_pass = kseq intr_on (kfor [0..<NPROC] scheduler_try)"

definition scheduler :: "('z ptable_scheme, unit) kfun" where
  "scheduler = kseq (kmod (set_mycpu (\<lambda>c. c\<lparr>cpu_proc := None\<rparr>))) scheduler_pass"

section \<open>Sleep and wakeup\<close>

definition sleep :: "chan \<Rightarrow> lockid \<Rightarrow> ('z ptable_scheme, unit) kfun" where
  "sleep ch lk =
     kbind curproc (\<lambda>p.
     kseq (acquire (Proc_lock p)) (
     kseq (release lk) (
     kseq (pset p (\<lambda>q. q\<lparr>p_chan := Some ch\<rparr>)) (
     kseq (pset p (\<lambda>q. q\<lparr>p_state := SLEEPING\<rparr>))
     sched))))"

definition sleep_wake :: "nat \<Rightarrow> bool \<Rightarrow> ('z ptable_scheme, unit) kfun" where
  "sleep_wake p saved =
     kseq (sched_resume saved) (
     kseq (pset p (\<lambda>q. q\<lparr>p_chan := None\<rparr>))
     (release (Proc_lock p)))"

definition sleep_resume :: "nat \<Rightarrow> lockid \<Rightarrow> bool \<Rightarrow> ('z ptable_scheme, unit) kfun" where
  "sleep_resume p lk saved = kseq (sleep_wake p saved) (acquire lk)"

definition wakeup_one :: "chan option \<Rightarrow> nat \<Rightarrow> ('z ptable_scheme, unit) kfun" where
  "wakeup_one ch p =
     kbind myproc (\<lambda>me.
     kwhen (me \<noteq> Some p) (
       kseq (acquire (Proc_lock p)) (
       kbind (pget p (\<lambda>q. p_state q = SLEEPING \<and> p_chan q = ch)) (\<lambda>b.
       kseq (kwhen b (pset p (\<lambda>q. q\<lparr>p_state := RUNNABLE\<rparr>)))
       (release (Proc_lock p))))))"

definition wakeup :: "chan option \<Rightarrow> ('z ptable_scheme, unit) kfun" where
  "wakeup ch = kfor [0..<NPROC] (wakeup_one ch)"

section \<open>Killing\<close>

fun kill_from :: "nat list \<Rightarrow> int \<Rightarrow> ('z ptable_scheme, int) kfun" where
  "kill_from [] pid = kret (-1)"
| "kill_from (p # ps) pid =
     kseq (acquire (Proc_lock p)) (
     kbind (pget p p_pid) (\<lambda>i.
     if i = pid then
       kseq (pset p (\<lambda>q. q\<lparr>p_killed := 1\<rparr>)) (
       kbind (pget p p_state) (\<lambda>st.
       kseq (kwhen (st = SLEEPING) (pset p (\<lambda>q. q\<lparr>p_state := RUNNABLE\<rparr>))) (
       kseq (release (Proc_lock p))
       (kret 0))))
     else kseq (release (Proc_lock p)) (kill_from ps pid)))"

definition kill :: "int \<Rightarrow> ('z ptable_scheme, int) kfun" where
  "kill pid = kill_from [0..<NPROC] pid"

definition setkilled :: "nat \<Rightarrow> ('z ptable_scheme, unit) kfun" where
  "setkilled p =
     kseq (acquire (Proc_lock p)) (
     kseq (pset p (\<lambda>q. q\<lparr>p_killed := 1\<rparr>))
     (release (Proc_lock p)))"

definition killed :: "nat \<Rightarrow> ('z ptable_scheme, int) kfun" where
  "killed p =
     kseq (acquire (Proc_lock p)) (
     kbind (pget p p_killed) (\<lambda>k.
     kseq (release (Proc_lock p))
     (kret k)))"

definition reparent :: "nat \<Rightarrow> ('z ptable_scheme, unit) kfun" where
  "reparent p =
     kfor [0..<NPROC] (\<lambda>pp.
       kbind (pget pp p_parent) (\<lambda>par.
       kwhen (par = Some p) (
         kbind (kget initproc) (\<lambda>init.
         kseq (pset pp (\<lambda>q. q\<lparr>p_parent := init\<rparr>))
         (wakeup (map_option Chan_proc init))))))"

text \<open>The end of \<open>exit\<close> and \<open>thread_exit\<close>, entered with \<open>wait_lock\<close> held.\<close>

definition exit_tail :: "nat \<Rightarrow> int \<Rightarrow> ('z ptable_scheme, unit) kfun" where
  "exit_tail p status =
     kseq (acquire (Proc_lock p)) (
     kseq (pset p (\<lambda>q. q\<lparr>p_xstate := status\<rparr>)) (
     kseq (pset p (\<lambda>q. q\<lparr>p_state := ZOMBIE\<rparr>)) (
     kseq (release Wait_lock) (
     kseq sched
     (kpanic ''zombie exit'')))))"

section \<open>procdump\<close>

fun state_name :: "procstate \<Rightarrow> string" where
  "state_name UNUSED = ''unused''"
| "state_name USED = ''used''"
| "state_name SLEEPING = ''sleep ''"
| "state_name RUNNABLE = ''runble''"
| "state_name RUNNING = ''run   ''"
| "state_name ZOMBIE = ''zombie''"

text \<open>The bytes of a character array up to its NUL, as \<open>printf\<close> prints a \<open>%s\<close> argument.\<close>

definition name_text :: "u8 list \<Rightarrow> string" where
  "name_text bs = map (\<lambda>b. char_of (unat b)) (takeWhile (\<lambda>b. b \<noteq> 0) bs)"

definition procdump :: "('z ptable_scheme, unit) kfun" where
  "procdump =
     kseq (printf (Some [CHR 0x0A]) []) (
     kfor [0..<NPROC] (\<lambda>p.
       kbind (pget p (\<lambda>q. q)) (\<lambda>q.
       kwhen (p_state q \<noteq> UNUSED) (
         kseq (printf (Some ''%d %s %s'')
                 [VInt (p_pid q), VStr (Some (state_name (p_state q))), VStr (Some (name_text (p_name q)))])
         (printf (Some [CHR 0x0A]) [])))))"

section \<open>Behaviour of single calls\<close>

lemma ptable_sync [lock_simps]:
  "procs (sync s) = procs s" "nextpid (sync s) = nextpid s" "initproc (sync s) = initproc s"
  "hart_ok (s\<lparr>procs := x\<rparr>) = hart_ok s"
  "sync (s\<lparr>procs := x\<rparr>) = (sync s)\<lparr>procs := x\<rparr>"
  by (simp_all add: sync_def hart_ok_def)

lemma myproc_sync: "hart_ok s \<Longrightarrow> myproc s = Ret (cpu_proc (cpus s (tp s))) (sync s)"
  by (simp add: myproc_def push_off_eq hart_defs lock_simps pop_push_sync)

lemma myproc_quiet: "cpu_quiet s \<Longrightarrow> myproc s = Ret (cpu_proc (cpus s (tp s))) s"
  by (simp add: myproc_sync cpu_quiet_hart_ok sync_quiet)

lemma curproc_sync:
  "hart_ok s \<Longrightarrow> cpu_proc (cpus s (tp s)) = Some p \<Longrightarrow> curproc s = Ret p (sync s)"
  by (simp add: curproc_def myproc_sync)

lemma curproc_quiet:
  "cpu_quiet s \<Longrightarrow> cpu_proc (cpus s (tp s)) = Some p \<Longrightarrow> curproc s = Ret p s"
  by (simp add: curproc_sync cpu_quiet_hart_ok sync_quiet)

lemma allocpid_quiet:
  "cpu_quiet s \<Longrightarrow> unlocked Pid_lock s \<Longrightarrow>
   allocpid s = Ret (nextpid s) (s\<lparr>nextpid := s32 (nextpid s + 1)\<rparr>)"
  by (simp add: allocpid_def acquire_unlocked lock_simps release_enter)

text \<open>
  \<open>sched\<close> reaches \<open>swtch\<close> only for a thread that holds its own process lock and nothing else, whose
  state it has changed; in every other case it panics.
\<close>

lemma sched_cases:
  assumes "hart_ok s" and "cpu_proc (cpus s (tp s)) = Some p"
  shows "sched s =
    (if \<not> holding (Proc_lock p) s then Panic ''sched p->lock''
     else if noff (cpus s (tp s)) \<noteq> 1 then Panic ''sched locks''
     else if p_state (procs s p) = RUNNING then Panic ''sched running''
     else Switch s)"
proof -
  have "holding (Proc_lock p) (sync s) = holding (Proc_lock p) s"
    by (simp add: holding_def cpuid_def lock_simps)
  moreover have "noff (cpus s (tp s)) = 1 \<Longrightarrow> sync s = s" by (simp add: sync_def)
  moreover have "noff (cpus s (tp s)) = 1 \<Longrightarrow> \<not> sie s (tp s)" using assms(1) by (simp add: hart_ok_def)
  ultimately show ?thesis
    using assms by (simp add: sched_def curproc_sync hart_defs lock_simps)
qed

lemma sched_never_returns [simp]: "sched s \<noteq> Ret u t"
  by (simp add: sched_def split: res.split)

lemma yield_never_returns [simp]: "yield s \<noteq> Ret u t"
  by (simp add: yield_def split: res.split)

lemma sleep_never_returns [simp]: "sleep ch lk s \<noteq> Ret u t"
  by (simp add: sleep_def split: res.split)

lemma yield_cases:
  assumes "hart_ok s" and "cpu_proc (cpus s (tp s)) = Some p" and "lk_locked (locks s (Proc_lock p)) = 0"
  shows "yield s =
    (if noff (cpus s (tp s)) \<noteq> 0 then Panic ''sched locks''
     else Switch ((enter (Proc_lock p) s)\<lparr>procs := (procs s)(p := (procs s p)\<lparr>p_state := RUNNABLE\<rparr>)\<rparr>))"
  using assms
  by (simp add: yield_def curproc_sync acquire_cases lock_simps sched_cases)

lemma sleep_switch:
  assumes "hart_ok u" and "noff (cpus u (tp u)) = 0" and "cpu_proc (cpus u (tp u)) = Some p"
    and "unlocked (Proc_lock p) u" and "unlocked lk u" and "lk \<noteq> Proc_lock p"
  shows "sleep ch lk (enter lk u) =
    Switch ((enter (Proc_lock p) u)\<lparr>procs := (procs u)(p := (procs u p)\<lparr>p_chan := Some ch, p_state := SLEEPING\<rparr>)\<rparr>)"
proof -
  have "release lk (enter (Proc_lock p) (enter lk u)) = Ret () (enter (Proc_lock p) u)"
    using assms release_enter_sync [of "enter (Proc_lock p) u" lk]
    by (simp add: enter_commute [of "Proc_lock p" lk] lock_simps)
  with assms show ?thesis
    by (simp add: sleep_def curproc_sync acquire_unlocked lock_simps sched_cases)
qed

text \<open>The table locks that a caller which holds none of them finds free.\<close>

definition procs_unlocked :: "'z machine_scheme \<Rightarrow> bool" where
  "procs_unlocked s \<longleftrightarrow> (\<forall>p < NPROC. unlocked (Proc_lock p) s)"

lemma procs_unlocked_simps [lock_simps]:
  "procs_unlocked (s\<lparr>procs := x\<rparr>) = procs_unlocked (s :: 'z ptable_scheme)"
  "procs_unlocked (enter lk m) = ((\<forall>p < NPROC. lk \<noteq> Proc_lock p) \<and> procs_unlocked m)"
  by (auto simp: procs_unlocked_def lock_simps)

text \<open>What \<open>wakeup\<close> does to one process of the table.\<close>

definition wake :: "chan option \<Rightarrow> proc \<Rightarrow> proc" where
  "wake ch q = (if p_state q = SLEEPING \<and> p_chan q = ch then q\<lparr>p_state := RUNNABLE\<rparr> else q)"

definition woken :: "chan option \<Rightarrow> nat option \<Rightarrow> (nat \<Rightarrow> proc) \<Rightarrow> nat \<Rightarrow> proc" where
  "woken ch me ps = (\<lambda>p. if p < NPROC \<and> me \<noteq> Some p then wake ch (ps p) else ps p)"

lemma wakeup_one_eq:
  assumes "cpu_quiet s" and "cpu_proc (cpus s (tp s)) \<noteq> Some p \<longrightarrow> unlocked (Proc_lock p) s"
  shows "wakeup_one ch p s = Ret () (s\<lparr>procs := (procs s)(p :=
    if cpu_proc (cpus s (tp s)) \<noteq> Some p then wake ch (procs s p) else procs s p)\<rparr>)"
  using assms
  by (simp add: wakeup_one_def myproc_quiet acquire_unlocked release_enter lock_simps wake_def)

lemma wakeup_upto:
  assumes "cpu_quiet s" and "\<forall>p < k. cpu_proc (cpus s (tp s)) \<noteq> Some p \<longrightarrow> unlocked (Proc_lock p) s"
  shows "kfor [0..<k] (wakeup_one ch) s
    = Ret () (s\<lparr>procs := \<lambda>p. if p < k \<and> cpu_proc (cpus s (tp s)) \<noteq> Some p then wake ch (procs s p) else procs s p\<rparr>)"
  using assms(2)
proof (induction k)
  case 0
  then show ?case by (simp add: kfor.simps)
next
  case (Suc k)
  let ?w = "\<lambda>k. \<lambda>p. if p < k \<and> cpu_proc (cpus s (tp s)) \<noteq> Some p then wake ch (procs s p) else procs s p"
  have same: "(?w k)(k := if cpu_proc (cpus s (tp s)) \<noteq> Some k then wake ch (?w k k) else ?w k k) = ?w (Suc k)"
    by (auto simp: fun_eq_iff less_Suc_eq)
  have "kfor [0..<k] (wakeup_one ch) s = Ret () (s\<lparr>procs := ?w k\<rparr>)"
    using Suc by simp
  moreover have "wakeup_one ch k (s\<lparr>procs := ?w k\<rparr>) = Ret () (s\<lparr>procs := ?w (Suc k)\<rparr>)"
    using assms(1) Suc.prems unfolding same [symmetric]
    by (subst wakeup_one_eq) (simp_all add: lock_simps)
  ultimately show ?case by (simp only: kfor_snoc res.case)
qed

lemma wakeup_eq:
  assumes "cpu_quiet s" and "\<forall>p < NPROC. cpu_proc (cpus s (tp s)) \<noteq> Some p \<longrightarrow> unlocked (Proc_lock p) s"
  shows "wakeup ch s = Ret () (s\<lparr>procs := woken ch (cpu_proc (cpus s (tp s))) (procs s)\<rparr>)"
  unfolding wakeup_def woken_def by (rule wakeup_upto [OF assms])

lemma kill_from_eq:
  assumes "cpu_quiet s" and "\<forall>p \<in> set ps. unlocked (Proc_lock p) s"
  shows "kill_from ps pid s =
    (case find (\<lambda>p. p_pid (procs s p) = pid) ps of
       None \<Rightarrow> Ret (-1) s
     | Some p \<Rightarrow> Ret 0 (s\<lparr>procs := (procs s)(p := (procs s p)\<lparr>p_killed := 1,
           p_state := if p_state (procs s p) = SLEEPING then RUNNABLE else p_state (procs s p)\<rparr>)\<rparr>))"
  using assms
proof (induction ps)
  case Nil
  then show ?case by simp
next
  case (Cons p ps)
  then show ?case
    by (simp add: acquire_unlocked release_enter lock_simps)
qed

lemma killed_quiet:
  "cpu_quiet s \<Longrightarrow> unlocked (Proc_lock p) s \<Longrightarrow> killed p s = Ret (p_killed (procs s p)) s"
  by (simp add: killed_def acquire_unlocked release_enter lock_simps)

lemma setkilled_quiet:
  "cpu_quiet s \<Longrightarrow> unlocked (Proc_lock p) s \<Longrightarrow>
   setkilled p s = Ret () (s\<lparr>procs := (procs s)(p := (procs s p)\<lparr>p_killed := 1\<rparr>)\<rparr>)"
  by (simp add: setkilled_def acquire_unlocked release_enter lock_simps)

text \<open>The table after \<open>reparent\<close>: the children of \<open>p\<close> belong to \<open>initproc\<close>, which is awake if there were any.\<close>

definition adopt :: "nat \<Rightarrow> nat option \<Rightarrow> proc \<Rightarrow> proc" where
  "adopt p init q = (if p_parent q = Some p then q\<lparr>p_parent := init\<rparr> else q)"

lemma wake_idem: "wake ch (wake ch q) = wake ch q"
  by (simp add: wake_def)

lemma woken_idem: "woken ch me (woken ch me ps) = woken ch me ps"
  by (auto simp: woken_def wake_idem fun_eq_iff)

lemma woken_upd:
  "woken ch me (ps(p := f (ps p))) = (woken ch me ps)(p := f (woken ch me ps p))"
  if "\<And>q. wake ch (f q) = f (wake ch q)"
  using that by (auto simp: woken_def fun_eq_iff)

section \<open>A machine at rest\<close>

text \<open>A machine with two runnable processes, 0 and 1, and idle harts.\<close>

definition idle_proc :: "procstate \<Rightarrow> proc" where
  "idle_proc st = \<lparr>p_state = st, p_chan = None, p_killed = 0, p_xstate = 0, p_pid = 0, p_parent = None,
     p_kstack = 0, p_sz = 0, p_pagetable = 0, p_trapframe = 0,
     p_context = \<lparr>ctx_ra = 0, ctx_sp = 0, ctx_s = []\<rparr>, p_ofile = [], p_cwd = None, p_name = [],
     p_cpu_affinity = -1, p_is_thread = 0\<rparr>"

definition boot_ptable :: ptable where
  "boot_ptable = machine.extend boot_machine
     \<lparr>lsr_idle = True, thr = [], panicked = False, pr_locking = False,
      procs = \<lambda>p. idle_proc (if p < 2 then RUNNABLE else UNUSED),
      nextpid = 1, initproc = None, forkret_first = True\<rparr>"

lemma boot_ptable_simps [simp]:
  "cpu_quiet boot_ptable" "unlocked lk boot_ptable" "procs_unlocked boot_ptable" "console_ready boot_ptable"
  "tp boot_ptable = 0" "procs boot_ptable = (\<lambda>p. idle_proc (if p < 2 then RUNNABLE else UNUSED))"
  by (simp_all add: boot_ptable_def boot_machine_def machine.defs cpu_quiet_def unlocked_def hart_defs
      procs_unlocked_def console_ready_def)

end
