(* ===== verification/Kalloc.thy ===== *)
theory Kalloc
  imports Proc
begin

text \<open>
  The physical page allocator: \<open>kernel/kalloc.c\<close>.

  The free list is kept inside the free pages themselves, as in the source: \<open>freelist\<close> is the address
  of the first free page, and the first eight bytes of a free page hold the address of the next one.
  \<open>kend\<close> is the linker symbol \<open>end\<close>, the first address after the kernel image. The abstract state of
  the allocator is the list of the free pages, and each operation is proved to refine the operation on
  that list.
\<close>

section \<open>State and operations\<close>

record kmem = ptable +
  mem :: mem
  freelist :: u64
  kend :: u64

lemma kmem_enter [lock_simps]:
  "mem (enter lk s) = mem s" "freelist (enter lk s) = freelist s" "kend (enter lk s) = kend s"
  "(enter lk s)\<lparr>mem := x\<rparr> = enter lk (s\<lparr>mem := x\<rparr>)"
  "(enter lk s)\<lparr>freelist := f\<rparr> = enter lk (s\<lparr>freelist := f\<rparr>)"
  by (simp_all add: enter_def push_state_def)

lemma kmem_push [lock_simps]:
  "mem (push_state s) = mem s" "freelist (push_state s) = freelist s" "kend (push_state s) = kend s"
  "mem (sync s) = mem s" "freelist (sync s) = freelist s" "kend (sync s) = kend s"
  by (simp_all add: push_state_def sync_def)

lemma kmem_preds [lock_simps]:
  "unlocked lk (s\<lparr>mem := x\<rparr>) = unlocked lk s" "unlocked lk (s\<lparr>freelist := f\<rparr>) = unlocked lk s"
  "cpu_quiet (s\<lparr>mem := x\<rparr>) = cpu_quiet s" "cpu_quiet (s\<lparr>freelist := f\<rparr>) = cpu_quiet s"
  "console_ready (s\<lparr>mem := x\<rparr>) = console_ready s" "console_ready (s\<lparr>freelist := f\<rparr>) = console_ready s"
  "procs_unlocked (s\<lparr>mem := x\<rparr>) = procs_unlocked s" "procs_unlocked (s\<lparr>freelist := f\<rparr>) = procs_unlocked s"
  by (simp_all add: unlocked_def cpu_quiet_def hart_defs console_ready_def procs_unlocked_def)

definition mmod :: "(mem \<Rightarrow> mem) \<Rightarrow> ('z kmem_scheme, unit) kfun" where
  "mmod f = kmod (\<lambda>s. s\<lparr>mem := f (mem s)\<rparr>)"

lemma mmod_app [simp]: "mmod f s = Ret () (s\<lparr>mem := f (mem s)\<rparr>)"
  by (simp add: mmod_def)

definition kfree :: "u64 \<Rightarrow> ('z kmem_scheme, unit) kfun" where
  "kfree pa =
     kbind (kget kend) (\<lambda>kstart.
     if pa mod of_nat PGSIZE \<noteq> 0 \<or> pa < kstart \<or> pa \<ge> PHYSTOP then kpanic ''kfree'' else
     kseq (mmod (memset pa 1 PGSIZE)) (
     kseq (acquire Kmem_lock) (
     kseq (kmod (\<lambda>s. s\<lparr>mem := store64 (mem s) pa (freelist s)\<rparr>)) (
     kseq (kmod (\<lambda>s. s\<lparr>freelist := pa\<rparr>))
     (release Kmem_lock)))))"

definition kalloc :: "('z kmem_scheme, u64) kfun" where
  "kalloc =
     kseq (acquire Kmem_lock) (
     kbind (kget freelist) (\<lambda>r.
     kseq (kwhen (r \<noteq> 0) (kmod (\<lambda>s. s\<lparr>freelist := load64 (mem s) r\<rparr>))) (
     kseq (release Kmem_lock) (
     kseq (kwhen (r \<noteq> 0) (mmod (memset r 5 PGSIZE)))
     (kret r)))))"

text \<open>
  The loop of \<open>freerange\<close>. The first argument bounds the number of turns; \<open>freerange\<close> passes one more
  than the number of pages below \<open>pa_end\<close>, and running out of it stands for a loop that does not end.
\<close>

primrec freerange_loop :: "nat \<Rightarrow> u64 \<Rightarrow> u64 \<Rightarrow> ('z kmem_scheme, unit) kfun" where
  "freerange_loop 0 p pa_end = kspin"
| "freerange_loop (Suc n) p pa_end =
     (if p + of_nat PGSIZE \<le> pa_end then kseq (kfree p) (freerange_loop n (p + of_nat PGSIZE) pa_end)
      else kret ())"

definition freerange :: "u64 \<Rightarrow> u64 \<Rightarrow> ('z kmem_scheme, unit) kfun" where
  "freerange pa_start pa_end = freerange_loop (Suc (pageno pa_end)) (PGROUNDUP pa_start) pa_end"

definition kinit :: "('z kmem_scheme, unit) kfun" where
  "kinit =
     kseq (initlock Kmem_lock ''kmem'') (
     kbind (kget kend) (\<lambda>kstart. freerange kstart PHYSTOP))"

text \<open>The walk over the free list counts in a C \<open>int\<close>; on a cyclic list it would not end.\<close>

partial_function (option) count_free :: "mem \<Rightarrow> u64 \<Rightarrow> int \<Rightarrow> int option" where
  "count_free m r count = (if r \<noteq> 0 then count_free m (load64 m r) (s32 (count + 1)) else Some count)"

definition get_total_free_pages :: "('z kmem_scheme, int) kfun" where
  "get_total_free_pages = (\<lambda>s. case count_free (mem s) (freelist s) 0 of
     None \<Rightarrow> Spin | Some n \<Rightarrow> Ret n s)"

section \<open>The list of free pages\<close>

fun flist :: "mem \<Rightarrow> u64 \<Rightarrow> u64 list \<Rightarrow> bool" where
  "flist m p [] \<longleftrightarrow> p = 0"
| "flist m p (x # xs) \<longleftrightarrow> p = x \<and> x \<noteq> 0 \<and> flist m (load64 m x) xs"

definition kpage :: "'z kmem_scheme \<Rightarrow> u64 \<Rightarrow> bool" where
  "kpage s pa \<longleftrightarrow> page_aligned pa \<and> kend s \<le> pa \<and> pa < PHYSTOP \<and> pa \<noteq> 0"

definition free_pages :: "'z kmem_scheme \<Rightarrow> u64 list \<Rightarrow> bool" where
  "free_pages s ps \<longleftrightarrow> flist (mem s) (freelist s) ps \<and> distinct ps \<and> (\<forall>p \<in> set ps. kpage s p)"

text \<open>The allocator is idle: its lock is free and the hart's interrupt nesting is in order.\<close>

definition kmem_idle :: "'z kmem_scheme \<Rightarrow> bool" where
  "kmem_idle s \<longleftrightarrow> cpu_quiet s \<and> unlocked Kmem_lock s \<and> 0 < kend s"

lemma kmem_idle_simps [lock_simps]:
  "kmem_idle (s\<lparr>mem := x\<rparr>) = kmem_idle s" "kmem_idle (s\<lparr>freelist := f\<rparr>) = kmem_idle s"
  "kmem_idle (enter lk s) = (cpu_quiet (enter lk s) \<and> lk \<noteq> Kmem_lock \<and> unlocked Kmem_lock s \<and> 0 < kend s)"
  by (auto simp: kmem_idle_def lock_simps)

lemma kpage_simps [simp]:
  "kpage (s\<lparr>mem := x\<rparr>) = kpage s" "kpage (s\<lparr>freelist := f\<rparr>) = kpage s"
  by (simp_all add: kpage_def fun_eq_iff)

lemma aligned_onpage: "page_aligned a \<Longrightarrow> n \<le> PGSIZE \<Longrightarrow> onpage a n"
  by (simp add: onpage_def)

lemma load64_other_page:
  assumes "page_aligned a" and "page_aligned b" and "a \<noteq> b" and "length bs \<le> PGSIZE"
  shows "load64 (mwrite m a bs) b = load64 m b"
proof -
  have "pageno a \<noteq> pageno b" using assms(1-3) page_aligned_eqI by blast
  then have "mread (mwrite m a bs) b 8 = mread m b 8"
    using assms by (intro mread_other_page aligned_onpage) (simp_all add: PGSIZE_def)
  then show ?thesis by (simp add: load64_def)
qed

lemma flist_frame:
  assumes "\<And>x. x \<in> set ps \<Longrightarrow> load64 m' x = load64 m x"
  shows "flist m' p ps = flist m p ps"
  using assms by (induction ps arbitrary: p) auto

lemma flist_mwrite:
  assumes "page_aligned a" and "\<forall>p \<in> set ps. page_aligned p" and "a \<notin> set ps" and "length bs \<le> PGSIZE"
  shows "flist (mwrite m a bs) p ps = flist m p ps"
  using assms by (intro flist_frame load64_other_page) auto

lemma memset_page: "memset p c PGSIZE m = mwrite m p (replicate PGSIZE (word_of_int c))"
  by (rule memset_mwrite) (simp add: PGSIZE_def)

lemma kfree_eq:
  assumes "kmem_idle s" and "kpage s pa"
  shows "kfree pa s = Ret () (s\<lparr>mem := store64 (memset pa 1 PGSIZE (mem s)) pa (freelist s), freelist := pa\<rparr>)"
proof -
  have "\<not> (pa mod of_nat PGSIZE \<noteq> 0 \<or> pa < kend s \<or> pa \<ge> PHYSTOP)"
    using assms(2) by (auto simp: kpage_def page_aligned_iff)
  then show ?thesis
    using assms(1) by (simp add: kfree_def kmem_idle_def acquire_unlocked release_enter lock_simps)
qed

lemma kfree_bad:
  "\<not> page_aligned pa \<or> pa < kend s \<or> PHYSTOP \<le> pa \<Longrightarrow> kfree pa s = Panic ''kfree''"
  by (auto simp: kfree_def page_aligned_iff)

lemma kalloc_eq:
  assumes "kmem_idle s"
  shows "kalloc s = (let r = freelist s in
     if r = 0 then Ret 0 s
     else Ret r (s\<lparr>freelist := load64 (mem s) r, mem := memset r 5 PGSIZE (mem s)\<rparr>))"
  using assms by (simp add: kalloc_def kmem_idle_def acquire_unlocked release_enter lock_simps Let_def)

lemma free_pages_kfree:
  assumes "free_pages s ps" and "kpage s pa" and "pa \<notin> set ps"
  shows "free_pages (s\<lparr>mem := store64 (memset pa 1 PGSIZE (mem s)) pa (freelist s), freelist := pa\<rparr>) (pa # ps)"
proof -
  have al: "page_aligned pa" "\<forall>p \<in> set ps. page_aligned p" using assms by (auto simp: free_pages_def kpage_def)
  have "flist (store64 (memset pa 1 PGSIZE (mem s)) pa (freelist s)) (freelist s) ps"
    using assms al unfolding store64_def memset_page
    by (simp add: flist_mwrite free_pages_def PGSIZE_def)
  then show ?thesis
    using assms by (auto simp: free_pages_def kpage_def)
qed

lemma free_pages_kalloc:
  assumes "free_pages s (p # ps)"
  shows "free_pages (s\<lparr>freelist := load64 (mem s) p, mem := memset p 5 PGSIZE (mem s)\<rparr>) ps"
  using assms unfolding memset_page
  by (auto simp: free_pages_def flist_mwrite kpage_def)

section \<open>The allocator interface\<close>

text \<open>
  What the clients of the allocator (page tables, processes, pipes, the kernel list) rely on:
  \<open>frees s ps\<close> says that \<open>ps\<close> are the pages that can be handed out.
\<close>

primrec alloc_many :: "('s, u64) kfun \<Rightarrow> nat \<Rightarrow> ('s, u64 list) kfun" where
  "alloc_many alloc 0 = kret []"
| "alloc_many alloc (Suc k) = kbind alloc (\<lambda>p. kbind (alloc_many alloc k) (\<lambda>ps. kret (p # ps)))"

locale page_allocator =
  fixes alloc :: "('s, u64) kfun"
    and dealloc :: "u64 \<Rightarrow> ('s, unit) kfun"
    and frees :: "'s \<Rightarrow> u64 list \<Rightarrow> bool"
    and owned :: "'s \<Rightarrow> u64 \<Rightarrow> bool"
  assumes alloc_empty: "frees s [] \<Longrightarrow> alloc s = Ret 0 s"
    and alloc_page: "frees s (p # ps) \<Longrightarrow> \<exists>t. alloc s = Ret p t \<and> frees t ps \<and> owned t = owned s"
    and dealloc_page: "frees s ps \<Longrightarrow> owned s p \<Longrightarrow> p \<notin> set ps \<Longrightarrow>
          \<exists>t. dealloc p s = Ret () t \<and> frees t (p # ps) \<and> owned t = owned s"
    and frees_owned: "frees s ps \<Longrightarrow> distinct ps \<and> (\<forall>p \<in> set ps. owned s p \<and> p \<noteq> 0)"
begin

text \<open>A page that was allocated can be given back, which restores the free pages.\<close>

lemma alloc_dealloc:
  assumes "frees s (p # ps)"
  shows "\<exists>t. kbind alloc (\<lambda>q. dealloc q) s = Ret () t \<and> frees t (p # ps)"
proof -
  obtain t where t: "alloc s = Ret p t" "frees t ps" "owned t = owned s"
    using alloc_page [OF assms] by blast
  have "owned t p" and "p \<notin> set ps" using frees_owned [OF assms] t(3) by auto
  with dealloc_page [OF t(2)] t(1) show ?thesis by fastforce
qed

text \<open>Allocating \<open>k\<close> pages in a row gives \<open>k\<close> different pages, as long as there are so many.\<close>

lemma alloc_many_distinct:
  "frees s ps \<Longrightarrow> k \<le> length ps \<Longrightarrow>
   \<exists>t. alloc_many alloc k s = Ret (take k ps) t \<and> frees t (drop k ps) \<and> distinct (take k ps)"
proof (induction k arbitrary: s ps)
  case 0
  then show ?case by simp
next
  case (Suc k)
  then obtain p ps' where ps: "ps = p # ps'" by (cases ps) auto
  with Suc.prems obtain t where t: "alloc s = Ret p t" "frees t ps'" using alloc_page by blast
  from Suc.IH [OF t(2)] Suc.prems ps
  obtain u where "alloc_many alloc k t = Ret (take k ps') u" "frees u (drop k ps')" by auto
  with t ps frees_owned [OF Suc.prems(1)] show ?case by (auto dest: in_set_takeD)
qed

end

definition allocatable :: "'z kmem_scheme \<Rightarrow> u64 list \<Rightarrow> bool" where
  "allocatable s ps \<longleftrightarrow> kmem_idle s \<and> free_pages s ps"

lemma freelist_Nil: "free_pages s [] \<Longrightarrow> freelist s = 0"
  by (simp add: free_pages_def)

lemma freelist_Cons: "free_pages s (p # ps) \<Longrightarrow> freelist s = p \<and> p \<noteq> 0"
  by (simp add: free_pages_def)

interpretation kmem_pages: page_allocator kalloc kfree allocatable kpage
proof
  fix s :: "'z kmem_scheme"
  assume "allocatable s []"
  then show "kalloc s = Ret 0 s" by (simp add: allocatable_def kalloc_eq freelist_Nil)
next
  fix s :: "'z kmem_scheme" and p ps
  assume a: "allocatable s (p # ps)"
  then show "\<exists>t. kalloc s = Ret p t \<and> allocatable t ps \<and> kpage t = kpage s"
    using freelist_Cons [of s p ps] free_pages_kalloc [of s p ps]
    by (simp add: allocatable_def kalloc_eq lock_simps Let_def)
next
  fix s :: "'z kmem_scheme" and ps p
  assume "allocatable s ps" and "kpage s p" and "p \<notin> set ps"
  then show "\<exists>t. kfree p s = Ret () t \<and> allocatable t (p # ps) \<and> kpage t = kpage s"
    using free_pages_kfree [of s ps p] by (simp add: allocatable_def kfree_eq lock_simps)
next
  fix s :: "'z kmem_scheme" and ps
  assume "allocatable s ps"
  then show "distinct ps \<and> (\<forall>p \<in> set ps. kpage s p \<and> p \<noteq> 0)"
    by (auto simp: allocatable_def free_pages_def kpage_def)
qed

section \<open>Initialisation and counting\<close>

lemma PHYSTOP_unat: "unat PHYSTOP = 2281701376"
  by (simp add: PHYSTOP_def KERNBASE_def)

lemma unat_add_page:
  fixes p :: u64
  assumes "unat p \<le> unat PHYSTOP"
  shows "unat (p + of_nat PGSIZE) = unat p + PGSIZE"
  using assms by (simp add: unat_word_ariths PHYSTOP_unat PGSIZE_def)

lemma freerange_loop_frees:
  assumes "kmem_idle s" and "free_pages s ps" and "page_aligned p" and "kend s \<le> p" and "p \<noteq> 0"
    and "\<forall>q \<in> set ps. unat q < unat p"
    and "unat p + k * PGSIZE \<le> unat PHYSTOP" and "unat PHYSTOP < unat p + Suc k * PGSIZE" and "k < n"
  shows "\<exists>t. freerange_loop n p PHYSTOP s = Ret () t \<and> kmem_idle t \<and> kend t = kend s \<and>
    free_pages t (rev (map (\<lambda>i. p + of_nat (i * PGSIZE)) [0..<k]) @ ps)"
  using assms
proof (induction k arbitrary: n p s ps)
  case 0
  obtain m where n: "n = Suc m" using "0.prems"(9) by (cases n) auto
  have "\<not> p + of_nat PGSIZE \<le> PHYSTOP"
    using "0.prems"(7,8) unat_add_page [of p] by (simp add: word_le_nat_alt)
  with "0.prems" show ?case by (simp add: n)
next
  case (Suc k)
  obtain m where n: "n = Suc m" and m: "k < m" using Suc.prems(9) by (cases n) auto
  let ?q = "p + of_nat PGSIZE"
  let ?t = "s\<lparr>mem := store64 (memset p 1 PGSIZE (mem s)) p (freelist s), freelist := p\<rparr>"
  have q: "unat ?q = unat p + PGSIZE" using Suc.prems(7) by (intro unat_add_page) simp
  have le: "?q \<le> PHYSTOP" using q Suc.prems(7) by (simp add: word_le_nat_alt)
  have lt: "p < PHYSTOP" using Suc.prems(7) by (simp add: word_less_nat_alt PGSIZE_def)
  have kp: "kpage s p" using Suc.prems lt by (simp add: kpage_def)
  have new: "p \<notin> set ps" using Suc.prems(6) by blast
  have run: "kfree p s = Ret () ?t" using kfree_eq [OF Suc.prems(1) kp] .
  have "kmem_idle ?t" using Suc.prems(1) by (simp add: lock_simps)
  moreover have "free_pages ?t (p # ps)" using free_pages_kfree [OF Suc.prems(2) kp new] .
  moreover have "page_aligned ?q" using Suc.prems(3) q by (simp add: pgoff_def)
  moreover have "kend ?t \<le> ?q" and "?q \<noteq> 0"
    using Suc.prems(4,5) q by (auto simp: word_le_nat_alt word_unat_eq_iff)
  moreover have "\<forall>r \<in> set (p # ps). unat r < unat ?q" using Suc.prems(6) q by (auto simp: PGSIZE_def)
  moreover have "unat ?q + k * PGSIZE \<le> unat PHYSTOP" and "unat PHYSTOP < unat ?q + Suc k * PGSIZE"
    using Suc.prems(7,8) q by (simp_all add: algebra_simps)
  ultimately obtain t where t: "freerange_loop m ?q PHYSTOP ?t = Ret () t" "kmem_idle t" "kend t = kend s"
    "free_pages t (rev (map (\<lambda>i. ?q + of_nat (i * PGSIZE)) [0..<k]) @ p # ps)"
    using Suc.IH [of ?t "p # ps" ?q m] m by auto
  have "map (\<lambda>i. p + of_nat (i * PGSIZE)) [0..<Suc k] = p # map (\<lambda>i. ?q + of_nat (i * PGSIZE)) [0..<k]"
    by (subst upt_conv_Cons, simp, subst map_Suc_upt [symmetric]) (simp add: algebra_simps del: upt_Suc)
  then show ?case using t run le by (simp add: n del: upt_Suc)
qed

lemma flist_unique: "flist m p ps \<Longrightarrow> flist m p qs \<Longrightarrow> ps = qs"
  by (induction ps arbitrary: p qs) (case_tac qs; auto)+

lemma count_free_flist:
  assumes "flist m p ps" and "0 \<le> c" and "c + int (length ps) < 2 ^ 31"
  shows "count_free m p c = Some (c + int (length ps))"
  using assms
proof (induction ps arbitrary: p c)
  case Nil
  then show ?case by (simp add: count_free.simps)
next
  case (Cons x xs)
  then have "count_free m (load64 m x) (c + 1) = Some (c + 1 + int (length xs))" by (intro Cons.IH) auto
  with Cons.prems show ?case by (subst count_free.simps) simp
qed

section \<open>Writing to pages that are not free\<close>

lemma flist_agree:
  assumes "\<forall>p \<in> set ps. page_aligned p \<and> agree (pageno p) m m'"
  shows "flist m' q ps = flist m q ps"
  using assms by (intro flist_frame) (auto intro!: load64_agree aligned_onpage simp: PGSIZE_def)

lemma other_page_agree:
  assumes "page_aligned p" and "page_aligned a" and "a \<noteq> p" and "\<forall>x. pageno x \<noteq> pageno p \<longrightarrow> m' x = m x"
  shows "agree (pageno a) m m'"
proof -
  have "pageno a \<noteq> pageno p" using assms(1-3) page_aligned_eqI [of a p] by blast
  then show ?thesis using assms(4) by (simp add: agree_def)
qed

lemma allocatable_mem:
  assumes "allocatable s ps" and "\<forall>q \<in> set ps. agree (pageno q) (mem s) m'"
  shows "allocatable (s\<lparr>mem := m'\<rparr>) ps"
proof -
  have "\<forall>q \<in> set ps. page_aligned q" using assms(1) by (auto simp: allocatable_def free_pages_def kpage_def)
  then have "flist m' (freelist s) ps = flist (mem s) (freelist s) ps" using assms(2) by (intro flist_agree) blast
  then show ?thesis
    using assms(1) by (simp add: allocatable_def free_pages_def lock_simps)
qed

text \<open>A page \<open>p\<close> other than the free pages is written.\<close>

lemma allocatable_agree:
  assumes "allocatable s ps" and "page_aligned p" and "p \<notin> set ps"
    and "\<forall>x. pageno x \<noteq> pageno p \<longrightarrow> m' x = mem s x"
  shows "allocatable (s\<lparr>mem := m'\<rparr>) ps"
proof (rule allocatable_mem [OF assms(1)])
  have "\<forall>q \<in> set ps. page_aligned q" using assms(1) by (auto simp: allocatable_def free_pages_def kpage_def)
  then show "\<forall>q \<in> set ps. agree (pageno q) (mem s) m'" using assms(2-4) by (metis other_page_agree)
qed

section \<open>Properties\<close>

lemma page_run: "page_aligned p \<Longrightarrow> inrun p PGSIZE a \<longleftrightarrow> pageno a = pageno p"
proof
  assume "page_aligned p" and "inrun p PGSIZE a"
  then show "pageno a = pageno p" by (intro onpage_run aligned_onpage) simp_all
next
  assume p: "page_aligned p" and "pageno a = pageno p"
  then have "unat a = unat p + pgoff a" using unat_page [of a] page_aligned_unat [of p] by simp
  moreover have "pgoff a < PGSIZE" by (simp add: pgoff_def PGSIZE_def)
  ultimately show "inrun p PGSIZE a" by (simp add: inrun_def unat_sub word_le_nat_alt)
qed

lemma memset_page_apply:
  "page_aligned p \<Longrightarrow> memset p c PGSIZE m a = (if pageno a = pageno p then word_of_int c else m a)"
  using page_run [of p a] by (simp add: memset_page mwrite_def inrun_def)

lemma store64_other_page: "page_aligned p \<Longrightarrow> pageno a \<noteq> pageno p \<Longrightarrow> store64 m p v a = m a"
  unfolding store64_def by (rule mwrite_other_page) (simp_all add: aligned_onpage PGSIZE_def)

text \<open>
  C7: \<open>kalloc\<close> refines taking the head of the list of free pages: it returns 0 and changes nothing
  when no page is free; otherwise it returns the first free page, which leaves the list, fills
  exactly that page with 5 and touches no other byte of memory.
\<close>

theorem kalloc_refines:
  assumes "allocatable s ps"
  shows "case ps of [] \<Rightarrow> kalloc s = Ret 0 s
    | p # qs \<Rightarrow> \<exists>t. kalloc s = Ret p t \<and> p \<noteq> 0 \<and> kpage s p \<and> p \<notin> set qs \<and> allocatable t qs
        \<and> (\<forall>a. mem t a = (if pageno a = pageno p then 5 else mem s a))"
proof (cases ps)
  case Nil
  then show ?thesis using assms kmem_pages.alloc_empty [of s] by simp
next
  case (Cons p qs)
  let ?t = "s\<lparr>freelist := load64 (mem s) p, mem := memset p 5 PGSIZE (mem s)\<rparr>"
  have f: "freelist s = p" "p \<noteq> 0" using assms Cons freelist_Cons [of s p qs] by (auto simp: allocatable_def)
  then have "kalloc s = Ret p ?t" using assms by (simp add: allocatable_def kalloc_eq Let_def)
  moreover have "allocatable ?t qs"
    using assms Cons free_pages_kalloc [of s p qs] by (simp add: allocatable_def lock_simps)
  moreover have "kpage s p" and "p \<notin> set qs" using assms Cons by (auto simp: allocatable_def free_pages_def)
  moreover from this(1) have "\<forall>a. mem ?t a = (if pageno a = pageno p then 5 else mem s a)"
    by (simp add: memset_page_apply kpage_def)
  ultimately show ?thesis using Cons f(2) by auto
qed

text \<open>
  C8: \<open>kfree\<close> refines putting a page at the head of the list of free pages, and changes no byte outside
  that page; it panics exactly on an address that is not page aligned or lies outside the memory
  between the end of the kernel and \<open>PHYSTOP\<close>.
\<close>

theorem kfree_refines:
  assumes "allocatable s ps" and "pa \<notin> set ps"
  shows "if page_aligned pa \<and> kend s \<le> pa \<and> pa < PHYSTOP
    then \<exists>t. kfree pa s = Ret () t \<and> allocatable t (pa # ps) \<and> (\<forall>a. pageno a \<noteq> pageno pa \<longrightarrow> mem t a = mem s a)
    else kfree pa s = Panic ''kfree''"
proof (cases "page_aligned pa \<and> kend s \<le> pa \<and> pa < PHYSTOP")
  case True
  have "0 < kend s" using assms(1) by (simp add: allocatable_def kmem_idle_def)
  with True have kp: "kpage s pa" by (auto simp: kpage_def word_less_nat_alt word_le_nat_alt)
  let ?t = "s\<lparr>mem := store64 (memset pa 1 PGSIZE (mem s)) pa (freelist s), freelist := pa\<rparr>"
  have "kfree pa s = Ret () ?t" using assms(1) kp by (simp add: allocatable_def kfree_eq)
  moreover have "allocatable ?t (pa # ps)"
    using assms kp free_pages_kfree [of s ps pa] by (simp add: allocatable_def lock_simps)
  moreover have "\<forall>a. pageno a \<noteq> pageno pa \<longrightarrow> mem ?t a = mem s a"
    using True by (simp add: store64_other_page memset_page_apply)
  ultimately show ?thesis using True by auto
next
  case False
  then show ?thesis using kfree_bad [of pa s] by (auto simp: not_le not_less)
qed

definition all_pages :: "'z kmem_scheme \<Rightarrow> u64 list" where
  "all_pages s = (let p = PGROUNDUP (kend s); k = (unat PHYSTOP - unat p) div PGSIZE
     in rev (map (\<lambda>i. p + of_nat (i * PGSIZE)) [0..<k]))"

lemma PGROUNDUP_unat:
  fixes a :: u64
  assumes "unat a + PGSIZE \<le> 2 ^ 64"
  shows "unat (PGROUNDUP a) = PGSIZE * ((unat a + PGSIZE - 1) div PGSIZE)"
proof -
  have "PGROUNDUP a = PGROUNDDOWN (a + of_nat PGSIZE - 1)"
    by (simp add: PGROUNDUP_def PGROUNDDOWN_def)
  moreover have "unat (a + of_nat PGSIZE - 1) = unat a + PGSIZE - 1"
  proof -
    have "a + of_nat PGSIZE - 1 = a + of_nat (PGSIZE - 1)" by (simp add: PGSIZE_def)
    then show ?thesis using assms by (simp add: unat_word_ariths PGSIZE_def)
  qed
  ultimately show ?thesis by (simp add: PGROUNDDOWN_unat pageno_def)
qed

text \<open>
  C23: After \<open>kinit\<close> on a machine with an empty free list, the free pages are exactly the whole pages
  between the end of the kernel and \<open>PHYSTOP\<close>, none missing and none twice, and \<open>get_total_free_pages\<close>
  returns their number.
\<close>

theorem kinit_frees_all:
  assumes "cpu_quiet s" and "freelist s = 0" and "0 < kend s" and "kend s \<le> PHYSTOP"
  shows "\<exists>t. kinit s = Ret () t \<and> allocatable t (all_pages s)
    \<and> get_total_free_pages t = Ret (int (length (all_pages s))) t"
proof -
  let ?p = "PGROUNDUP (kend s)"
  let ?k = "(unat PHYSTOP - unat ?p) div PGSIZE"
  let ?u = "s\<lparr>locks := (locks s)(Kmem_lock := \<lparr>lk_locked = 0, lk_name = ''kmem'', lk_cpu = None\<rparr>)\<rparr>"
  have le: "unat (kend s) \<le> 2281701376" and pos: "0 < unat (kend s)"
    using assms(3,4) by (auto simp: word_le_nat_alt word_less_nat_alt PHYSTOP_unat)
  have p: "unat ?p = PGSIZE * ((unat (kend s) + PGSIZE - 1) div PGSIZE)"
    using le by (intro PGROUNDUP_unat) (simp add: PGSIZE_def)
  have up: "unat (kend s) \<le> unat ?p" and top: "unat ?p \<le> unat PHYSTOP"
    using le unfolding p by (simp_all add: PGSIZE_def PHYSTOP_unat)
  have "kmem_idle ?u" and "free_pages ?u []"
    using assms(1-3)
    by (simp_all add: kmem_idle_def cpu_quiet_def hart_defs unlocked_def free_pages_def cong: if_cong)
  moreover have "page_aligned ?p" by (simp add: pgoff_def p)
  moreover have "kend ?u \<le> ?p" and "?p \<noteq> 0" using up pos by (auto simp: word_le_nat_alt)
  moreover have "unat ?p + ?k * PGSIZE \<le> unat PHYSTOP" and "unat PHYSTOP < unat ?p + Suc ?k * PGSIZE"
    using top by (simp_all add: PGSIZE_def)
  moreover have "?k < Suc (pageno PHYSTOP)" by (simp add: pageno_def div_le_mono less_Suc_eq_le)
  ultimately obtain t where t: "freerange_loop (Suc (pageno PHYSTOP)) ?p PHYSTOP ?u = Ret () t" "kmem_idle t"
    "free_pages t (all_pages s)"
    using freerange_loop_frees [of ?u "[]" ?p ?k "Suc (pageno PHYSTOP)"] by (auto simp: all_pages_def Let_def)
  have "length (all_pages s) \<le> 557056"
    by (simp add: all_pages_def Let_def PHYSTOP_unat PGSIZE_def)
  then have "count_free (mem t) (freelist t) 0 = Some (int (length (all_pages s)))"
    using count_free_flist [of "mem t" "freelist t" "all_pages s" 0] t(3) by (simp add: free_pages_def)
  with t show ?thesis
    by (simp add: kinit_def initlock_def freerange_def allocatable_def get_total_free_pages_def)
qed

definition boot_kmem :: kmem where
  "boot_kmem = ptable.extend boot_ptable \<lparr>mem = \<lambda>_. 0, freelist = 0, kend = 0x80021000\<rparr>"

lemma boot_kmem_simps [simp]:
  "cpu_quiet boot_kmem" "unlocked lk boot_kmem" "procs_unlocked boot_kmem" "freelist boot_kmem = 0"
  "kend boot_kmem = 0x80021000" "mem boot_kmem = (\<lambda>_. 0)" "tp boot_kmem = 0"
  "cpus boot_kmem = cpus boot_ptable" "procs boot_kmem = procs boot_ptable"
  by (simp_all add: boot_kmem_def boot_ptable_def boot_machine_def machine.defs ptable.defs cpu_quiet_def
      unlocked_def hart_defs procs_unlocked_def)

theorem kinit_frees_all_witness:
  "\<exists>t. kinit boot_kmem = Ret () t \<and> get_total_free_pages t = Ret 32735 t"
proof -
  have "length (all_pages boot_kmem) = 32735"
    by (simp add: all_pages_def Let_def PGROUNDUP_def PGSIZE_def PHYSTOP_unat)
  with kinit_frees_all [of boot_kmem] show ?thesis by (auto simp: PHYSTOP_def KERNBASE_def)
qed

lemma boot_allocatable: "allocatable boot_kmem []"
  by (simp add: allocatable_def kmem_idle_def free_pages_def)

lemma boot_one_page: "\<exists>s :: kmem. allocatable s [0x80022000]"
proof -
  have "kpage boot_kmem 0x80022000"
    by (simp add: kpage_def pgoff_def PGSIZE_def PHYSTOP_def KERNBASE_def)
  then show ?thesis using kmem_pages.dealloc_page [OF boot_allocatable, of "0x80022000"] by auto
qed

theorem kalloc_refines_witness:
  "kalloc boot_kmem = Ret 0 boot_kmem
   \<and> (\<exists>(s :: kmem) t. kalloc s = Ret 0x80022000 t \<and> allocatable t [] \<and> mem t 0x80022fff = 5)"
proof -
  obtain s :: kmem where "allocatable s [0x80022000]" using boot_one_page by blast
  from kalloc_refines [OF this] obtain t where "kalloc s = Ret 0x80022000 t" and "allocatable t []"
    and "mem t 0x80022fff = 5" by (auto simp: pageno_def PGSIZE_def)
  with kalloc_refines [OF boot_allocatable] show ?thesis by auto
qed

theorem kfree_refines_witness:
  "(\<exists>t. kfree 0x80022000 boot_kmem = Ret () t \<and> allocatable t [0x80022000])
   \<and> kfree 0x80022001 boot_kmem = Panic ''kfree''"
  using kfree_refines [OF boot_allocatable, where pa = "0x80022000"]
    kfree_refines [OF boot_allocatable, where pa = "0x80022001"]
  by (auto simp: pgoff_def PGSIZE_def PHYSTOP_def KERNBASE_def)

end
