(* ===== verification/Vm.thy ===== *)
theory Vm
  imports Kalloc
begin

text \<open>
  Virtual memory: \<open>kernel/vm.c\<close>.

  Page tables live in physical memory, and every function reads and writes them there, entry by entry,
  as the source does; the kernel reaches physical memory through its direct map. A kernel buffer that
  is copied to or from user memory is the list of its bytes: \<open>copyout\<close> takes the bytes, \<open>copyin\<close> and
  \<open>copyinstr\<close> return those they have stored at \<open>dst\<close> together with the result. Loops that the source
  bounds only through the panic in \<open>walk\<close> for addresses from \<open>MAXVA\<close> on take one turn more than there
  are pages below \<open>MAXVA\<close>.
\<close>

unbundle bit_operations_syntax

section \<open>Page-table entries\<close>

definition PTE_V :: u64 where "PTE_V = 1"
definition PTE_R :: u64 where "PTE_R = 2"
definition PTE_W :: u64 where "PTE_W = 4"
definition PTE_X :: u64 where "PTE_X = 8"
definition PTE_U :: u64 where "PTE_U = 16"

lemmas PTE_bits = PTE_V_def PTE_R_def PTE_W_def PTE_X_def PTE_U_def

definition PA2PTE :: "u64 \<Rightarrow> u64" where
  "PA2PTE pa = push_bit 10 (drop_bit 12 pa)"

definition PTE2PA :: "u64 \<Rightarrow> u64" where
  "PTE2PA pte = push_bit 12 (drop_bit 10 pte)"

definition PTE_FLAGS :: "u64 \<Rightarrow> u64" where
  "PTE_FLAGS pte = pte AND 0x3FF"

definition PX :: "nat \<Rightarrow> u64 \<Rightarrow> u64" where
  "PX level va = drop_bit (PGSHIFT + 9 * level) va AND 0x1FF"

text \<open>The address of entry \<open>i\<close> of a page-table page.\<close>

definition pte_addr :: "u64 \<Rightarrow> u64 \<Rightarrow> u64" where
  "pte_addr pt i = pt + 8 * i"

definition mget64 :: "u64 \<Rightarrow> ('z kmem_scheme, u64) kfun" where
  "mget64 a = kget (\<lambda>s. load64 (mem s) a)"

definition mset64 :: "u64 \<Rightarrow> u64 \<Rightarrow> ('z kmem_scheme, unit) kfun" where
  "mset64 a v = mmod (\<lambda>m. store64 m a v)"

lemma mget64_app [simp]: "mget64 a s = Ret (load64 (mem s) a) s"
  by (simp add: mget64_def)

lemma mset64_app [simp]: "mset64 a v s = Ret () (s\<lparr>mem := store64 (mem s) a v\<rparr>)"
  by (simp add: mset64_def)

text \<open>Enough turns for any loop over user pages: one more than the pages below \<open>MAXVA\<close>.\<close>

definition VPAGES :: nat where
  "VPAGES = Suc (pageno MAXVA)"

section \<open>Walking the tree\<close>

primrec walk_level :: "nat \<Rightarrow> u64 \<Rightarrow> u64 \<Rightarrow> bool \<Rightarrow> ('z kmem_scheme, u64) kfun" where
  "walk_level 0 pagetable va alloc = kret (pte_addr pagetable (PX 0 va))"
| "walk_level (Suc l) pagetable va alloc =
     (let pte = pte_addr pagetable (PX (Suc l) va) in
      kbind (mget64 pte) (\<lambda>v.
      if v AND PTE_V \<noteq> 0 then walk_level l (PTE2PA v) va alloc
      else if \<not> alloc then kret 0
      else kbind kalloc (\<lambda>pt.
        if pt = 0 then kret 0
        else kseq (mmod (memset pt 0 PGSIZE)) (
             kseq (mset64 pte (PA2PTE pt OR PTE_V))
             (walk_level l pt va alloc)))))"

definition walk :: "u64 \<Rightarrow> u64 \<Rightarrow> bool \<Rightarrow> ('z kmem_scheme, u64) kfun" where
  "walk pagetable va alloc =
     (if va \<ge> MAXVA then kpanic ''walk'' else walk_level 2 pagetable va alloc)"

definition walkaddr :: "u64 \<Rightarrow> u64 \<Rightarrow> ('z kmem_scheme, u64) kfun" where
  "walkaddr pagetable va =
     (if va \<ge> MAXVA then kret 0 else
      kbind (walk pagetable va False) (\<lambda>pte.
      if pte = 0 then kret 0 else
      kbind (mget64 pte) (\<lambda>v.
      if v AND PTE_V = 0 then kret 0
      else if v AND PTE_U = 0 then kret 0
      else kret (PTE2PA v))))"

section \<open>Mapping and unmapping\<close>

primrec mappages_loop :: "nat \<Rightarrow> u64 \<Rightarrow> u64 \<Rightarrow> u64 \<Rightarrow> u64 \<Rightarrow> u64 \<Rightarrow> ('z kmem_scheme, int) kfun" where
  "mappages_loop 0 pagetable a lst pa perm = kspin"
| "mappages_loop (Suc n) pagetable a lst pa perm =
     kbind (walk pagetable a True) (\<lambda>pte.
     if pte = 0 then kret (-1) else
     kbind (mget64 pte) (\<lambda>v.
     if v AND PTE_V \<noteq> 0 then kpanic ''mappages: remap'' else
     kseq (mset64 pte (PA2PTE pa OR perm OR PTE_V)) (
     if a = lst then kret 0
     else mappages_loop n pagetable (a + of_nat PGSIZE) lst (pa + of_nat PGSIZE) perm)))"

definition mappages :: "u64 \<Rightarrow> u64 \<Rightarrow> u64 \<Rightarrow> u64 \<Rightarrow> u64 \<Rightarrow> ('z kmem_scheme, int) kfun" where
  "mappages pagetable va sz pa perm =
     (if sz = 0 then kpanic ''mappages: size''
      else mappages_loop VPAGES pagetable (PGROUNDDOWN va) (PGROUNDDOWN (va + sz - 1)) pa perm)"

definition kvmmap :: "u64 \<Rightarrow> u64 \<Rightarrow> u64 \<Rightarrow> u64 \<Rightarrow> u64 \<Rightarrow> ('z kmem_scheme, unit) kfun" where
  "kvmmap kpgtbl va pa sz perm =
     kbind (mappages kpgtbl va sz pa perm) (\<lambda>r.
     if r \<noteq> 0 then kpanic ''kvmmap'' else kret ())"

primrec uvmunmap_loop :: "nat \<Rightarrow> u64 \<Rightarrow> u64 \<Rightarrow> u64 \<Rightarrow> bool \<Rightarrow> ('z kmem_scheme, unit) kfun" where
  "uvmunmap_loop 0 pagetable a e do_free = kspin"
| "uvmunmap_loop (Suc n) pagetable a e do_free =
     (if \<not> a < e then kret () else
      kbind (walk pagetable a False) (\<lambda>pte.
      if pte = 0 then kpanic ''uvmunmap: walk'' else
      kbind (mget64 pte) (\<lambda>v.
      if v AND PTE_V = 0 then kpanic ''uvmunmap: not mapped''
      else if PTE_FLAGS v = PTE_V then kpanic ''uvmunmap: not a leaf''
      else kseq (kwhen do_free (kfree (PTE2PA v))) (
           kseq (mset64 pte 0)
           (uvmunmap_loop n pagetable (a + of_nat PGSIZE) e do_free)))))"

definition uvmunmap :: "u64 \<Rightarrow> u64 \<Rightarrow> u64 \<Rightarrow> bool \<Rightarrow> ('z kmem_scheme, unit) kfun" where
  "uvmunmap pagetable va npages do_free =
     (if va mod of_nat PGSIZE \<noteq> 0 then kpanic ''uvmunmap: not aligned''
      else uvmunmap_loop VPAGES pagetable va (va + npages * of_nat PGSIZE) do_free)"

definition uvmcreate :: "('z kmem_scheme, u64) kfun" where
  "uvmcreate =
     kbind kalloc (\<lambda>pagetable.
     if pagetable = 0 then kret 0
     else kseq (mmod (memset pagetable 0 PGSIZE)) (kret pagetable))"

text \<open>\<open>memmove\<close> from a kernel object outside the modelled memory: its bytes are stored.\<close>

definition mput :: "u64 \<Rightarrow> u8 list \<Rightarrow> ('z kmem_scheme, unit) kfun" where
  "mput a bs = mmod (\<lambda>m. mwrite m a bs)"

lemma mput_app [simp]: "mput a bs s = Ret () (s\<lparr>mem := mwrite (mem s) a bs\<rparr>)"
  by (simp add: mput_def)

text \<open>
  The result of \<open>kalloc\<close> is not checked: a null pointer is a store to an address that the kernel does
  not map, on which \<open>kerneltrap\<close> panics.
\<close>

definition uvmfirst :: "u64 \<Rightarrow> u8 list \<Rightarrow> ('z kmem_scheme, unit) kfun" where
  "uvmfirst pagetable src =
     (if length src \<ge> PGSIZE then kpanic ''uvmfirst: more than a page'' else
      kbind kalloc (\<lambda>m.
      if m = 0 then kpanic ''kerneltrap'' else
      kseq (mmod (memset m 0 PGSIZE)) (
      kseq (kbind (mappages pagetable 0 (of_nat PGSIZE) m (PTE_W OR PTE_R OR PTE_X OR PTE_U)) (\<lambda>_. kret ()))
      (mput m src))))"

section \<open>Growing and shrinking\<close>

definition uvmdealloc :: "u64 \<Rightarrow> u64 \<Rightarrow> u64 \<Rightarrow> ('z kmem_scheme, u64) kfun" where
  "uvmdealloc pagetable oldsz newsz =
     (if newsz \<ge> oldsz then kret oldsz else
      kseq (kwhen (PGROUNDUP newsz < PGROUNDUP oldsz)
        (let npages = (PGROUNDUP oldsz - PGROUNDUP newsz) div of_nat PGSIZE
         in uvmunmap pagetable (PGROUNDUP newsz) (scast (ucast npages :: u32)) True))
      (kret newsz))"

primrec uvmalloc_loop :: "nat \<Rightarrow> u64 \<Rightarrow> u64 \<Rightarrow> u64 \<Rightarrow> u64 \<Rightarrow> u64 \<Rightarrow> ('z kmem_scheme, u64) kfun" where
  "uvmalloc_loop 0 pagetable a oldsz newsz xperm = kspin"
| "uvmalloc_loop (Suc n) pagetable a oldsz newsz xperm =
     (if \<not> a < newsz then kret newsz else
      kbind kalloc (\<lambda>m.
      if m = 0 then kseq (kbind (uvmdealloc pagetable a oldsz) (\<lambda>_. kret ())) (kret 0) else
      kseq (mmod (memset m 0 PGSIZE)) (
      kbind (mappages pagetable a (of_nat PGSIZE) m (PTE_R OR PTE_U OR xperm)) (\<lambda>r.
      if r \<noteq> 0 then
        kseq (kfree m) (kseq (kbind (uvmdealloc pagetable a oldsz) (\<lambda>_. kret ())) (kret 0))
      else uvmalloc_loop n pagetable (a + of_nat PGSIZE) oldsz newsz xperm))))"

definition uvmalloc :: "u64 \<Rightarrow> u64 \<Rightarrow> u64 \<Rightarrow> u64 \<Rightarrow> ('z kmem_scheme, u64) kfun" where
  "uvmalloc pagetable oldsz newsz xperm =
     (if newsz < oldsz then kret oldsz
      else uvmalloc_loop VPAGES pagetable (PGROUNDUP oldsz) (PGROUNDUP oldsz) newsz xperm)"

text \<open>The recursion of \<open>freewalk\<close> down the tree; the first argument counts the levels left.\<close>

primrec freewalk_depth :: "nat \<Rightarrow> u64 \<Rightarrow> ('z kmem_scheme, unit) kfun" where
  "freewalk_depth 0 pagetable = kspin"
| "freewalk_depth (Suc d) pagetable =
     kseq (kfor [0..<512] (\<lambda>i.
       kbind (mget64 (pte_addr pagetable (of_nat i))) (\<lambda>pte.
       if pte AND PTE_V \<noteq> 0 \<and> pte AND (PTE_R OR PTE_W OR PTE_X) = 0 then
         kseq (freewalk_depth d (PTE2PA pte)) (mset64 (pte_addr pagetable (of_nat i)) 0)
       else if pte AND PTE_V \<noteq> 0 then kpanic ''freewalk: leaf''
       else kret ())))
     (kfree pagetable)"

definition freewalk :: "u64 \<Rightarrow> ('z kmem_scheme, unit) kfun" where
  "freewalk pagetable = freewalk_depth 3 pagetable"

definition uvmfree :: "u64 \<Rightarrow> u64 \<Rightarrow> ('z kmem_scheme, unit) kfun" where
  "uvmfree pagetable sz =
     kseq (kwhen (sz > 0) (uvmunmap pagetable 0 (PGROUNDUP sz div of_nat PGSIZE) True))
     (freewalk pagetable)"

primrec uvmcopy_loop :: "nat \<Rightarrow> u64 \<Rightarrow> u64 \<Rightarrow> u64 \<Rightarrow> u64 \<Rightarrow> ('z kmem_scheme, int) kfun" where
  "uvmcopy_loop 0 old new i sz = kspin"
| "uvmcopy_loop (Suc n) old new i sz =
     (if \<not> i < sz then kret 0 else
      kbind (walk old i False) (\<lambda>pte.
      if pte = 0 then kpanic ''uvmcopy: pte should exist'' else
      kbind (mget64 pte) (\<lambda>v.
      if v AND PTE_V = 0 then kpanic ''uvmcopy: page not present'' else
      kbind kalloc (\<lambda>m.
      if m = 0 then kseq (uvmunmap new 0 (i div of_nat PGSIZE) True) (kret (-1)) else
      kseq (mmod (memmove m (PTE2PA v) PGSIZE)) (
      kbind (mappages new i (of_nat PGSIZE) m (PTE_FLAGS v)) (\<lambda>r.
      if r \<noteq> 0 then kseq (kfree m) (kseq (uvmunmap new 0 (i div of_nat PGSIZE) True) (kret (-1)))
      else uvmcopy_loop n old new (i + of_nat PGSIZE) sz))))))"

definition uvmcopy :: "u64 \<Rightarrow> u64 \<Rightarrow> u64 \<Rightarrow> ('z kmem_scheme, int) kfun" where
  "uvmcopy old new sz = uvmcopy_loop VPAGES old new 0 sz"

definition uvmclear :: "u64 \<Rightarrow> u64 \<Rightarrow> ('z kmem_scheme, unit) kfun" where
  "uvmclear pagetable va =
     kbind (walk pagetable va False) (\<lambda>pte.
     if pte = 0 then kpanic ''uvmclear'' else
     kbind (mget64 pte) (\<lambda>v. mset64 pte (v AND NOT PTE_U)))"

section \<open>Copying between kernel and user memory\<close>

text \<open>The number of bytes from \<open>va\<close> to the end of its page, but at most \<open>len\<close>.\<close>

definition chunk :: "u64 \<Rightarrow> nat \<Rightarrow> nat" where
  "chunk va len = min (PGSIZE - unat (va - PGROUNDDOWN va)) len"

lemma chunk_pos: "0 < len \<Longrightarrow> 0 < chunk va len"
  using pgoff_less [of va] by (simp add: chunk_def sub_PGROUNDDOWN)

lemma chunk_le: "chunk va len \<le> len"
  by (simp add: chunk_def)

function copyout :: "u64 \<Rightarrow> u64 \<Rightarrow> u8 list \<Rightarrow> ('z kmem_scheme, int) kfun" where
  "copyout pagetable dstva src =
     (if src = [] then kret 0 else
      let va0 = PGROUNDDOWN dstva in
      kbind (walkaddr pagetable va0) (\<lambda>pa0.
      if pa0 = 0 then kret (-1) else
      let n = chunk dstva (length src) in
      kseq (mput (pa0 + (dstva - va0)) (take n src))
      (copyout pagetable (va0 + of_nat PGSIZE) (drop n src))))"
  by pat_completeness auto
termination
  by (relation "measure (\<lambda>(pt, va, src). length src)") (simp_all add: chunk_pos)

function copyin :: "u64 \<Rightarrow> u64 \<Rightarrow> nat \<Rightarrow> ('z kmem_scheme, int \<times> u8 list) kfun" where
  "copyin pagetable srcva len =
     (if len = 0 then kret (0, []) else
      let va0 = PGROUNDDOWN srcva in
      kbind (walkaddr pagetable va0) (\<lambda>pa0.
      if pa0 = 0 then kret (-1, []) else
      let n = chunk srcva len in
      kbind (kget (\<lambda>s. mread (mem s) (pa0 + (srcva - va0)) n)) (\<lambda>bs.
      kbind (copyin pagetable (va0 + of_nat PGSIZE) (len - n)) (\<lambda>(r, rest).
      kret (r, bs @ rest)))))"
  by pat_completeness auto
termination
  by (relation "measure (\<lambda>(pt, va, len). len)") (auto simp: chunk_pos)

function copyinstr :: "u64 \<Rightarrow> u64 \<Rightarrow> nat \<Rightarrow> ('z kmem_scheme, int \<times> u8 list) kfun" where
  "copyinstr pagetable srcva maxlen =
     (if maxlen = 0 then kret (-1, []) else
      let va0 = PGROUNDDOWN srcva in
      kbind (walkaddr pagetable va0) (\<lambda>pa0.
      if pa0 = 0 then kret (-1, []) else
      let n = chunk srcva maxlen in
      kbind (kget (\<lambda>s. mread (mem s) (pa0 + (srcva - va0)) n)) (\<lambda>bs.
      if 0 \<in> set bs then kret (0, takeWhile (\<lambda>b. b \<noteq> 0) bs @ [0])
      else kbind (copyinstr pagetable (va0 + of_nat PGSIZE) (maxlen - n)) (\<lambda>(r, rest).
           kret (r, bs @ rest)))))"
  by pat_completeness auto
termination
  by (relation "measure (\<lambda>(pt, va, m). m)") (auto simp: chunk_pos)

declare copyout.simps [simp del] copyin.simps [simp del] copyinstr.simps [simp del]

section \<open>The kernel page table\<close>

definition UART0 :: u64 where "UART0 = 0x10000000"
definition VIRTIO0 :: u64 where "VIRTIO0 = 0x10001000"
definition PLIC :: u64 where "PLIC = 0x0c000000"

text \<open>\<open>proc_mapstacks\<close> of \<open>kernel/proc.c\<close>.\<close>

definition proc_mapstacks :: "u64 \<Rightarrow> ('z kmem_scheme, unit) kfun" where
  "proc_mapstacks kpgtbl =
     kfor [0..<NPROC] (\<lambda>p.
       kbind kalloc (\<lambda>pa.
       if pa = 0 then kpanic ''kalloc'' else
       kvmmap kpgtbl (KSTACK p) pa (of_nat PGSIZE) (PTE_R OR PTE_W)))"

text \<open>\<open>etext\<close> and \<open>trampoline\<close> are symbols of the linker and of the assembly files.\<close>

definition kvmmake :: "u64 \<Rightarrow> u64 \<Rightarrow> ('z kmem_scheme, u64) kfun" where
  "kvmmake etext trampoline =
     kbind kalloc (\<lambda>kpgtbl.
     kseq (mmod (memset kpgtbl 0 PGSIZE)) (
     kseq (kvmmap kpgtbl UART0 UART0 (of_nat PGSIZE) (PTE_R OR PTE_W)) (
     kseq (kvmmap kpgtbl VIRTIO0 VIRTIO0 (of_nat PGSIZE) (PTE_R OR PTE_W)) (
     kseq (kvmmap kpgtbl PLIC PLIC 0x400000 (PTE_R OR PTE_W)) (
     kseq (kvmmap kpgtbl KERNBASE KERNBASE (etext - KERNBASE) (PTE_R OR PTE_X)) (
     kseq (kvmmap kpgtbl etext etext (PHYSTOP - etext) (PTE_R OR PTE_W)) (
     kseq (kvmmap kpgtbl TRAMPOLINE trampoline (of_nat PGSIZE) (PTE_R OR PTE_X)) (
     kseq (proc_mapstacks kpgtbl)
     (kret kpgtbl)))))))))"

end
