(* ===== verification/Rwlock.thy ===== *)
theory Rwlock
  imports Vm
begin

text \<open>
  The reader-writer spin lock of \<open>kernel/rwlock.c\<close>, used by the lock-based variant of the kernel list.

  The functions are given twice, from the same atomic actions: as kernel computations on a lock in
  memory, for a caller that runs alone (a loop that would wait is \<open>Spin\<close>), and as a transition system
  of any number of threads that take the atomic actions in any order, on which mutual exclusion is
  proved.
\<close>

section \<open>The lock and its atomic actions\<close>

record rwlock =
  rw_readers :: u64
  rw_writer :: int

definition rw_lock_init :: rwlock where
  "rw_lock_init = \<lparr>rw_readers = 0, rw_writer = 0\<rparr>"

text \<open>\<open>__atomic_add_fetch(&rwlock->readers, 1)\<close> and \<open>__atomic_add_fetch(&rwlock->readers, -1)\<close>.\<close>

definition add_reader :: "rwlock \<Rightarrow> rwlock" where
  "add_reader l = l\<lparr>rw_readers := rw_readers l + 1\<rparr>"

definition drop_reader :: "rwlock \<Rightarrow> rwlock" where
  "drop_reader l = l\<lparr>rw_readers := rw_readers l - 1\<rparr>"

text \<open>\<open>__sync_lock_test_and_set(&rwlock->writer, 1)\<close> and \<open>__sync_lock_release(&rwlock->writer)\<close>.\<close>

definition swap_writer :: "rwlock \<Rightarrow> int \<times> rwlock" where
  "swap_writer l = (rw_writer l, l\<lparr>rw_writer := 1\<rparr>)"

definition clear_writer :: "rwlock \<Rightarrow> rwlock" where
  "clear_writer l = l\<lparr>rw_writer := 0\<rparr>"

section \<open>The functions for a caller that runs alone\<close>

text \<open>The lock at address \<open>a\<close>: the counter in the first eight bytes, the flag in the next four.\<close>

definition rw_load :: "mem \<Rightarrow> u64 \<Rightarrow> rwlock" where
  "rw_load m a = \<lparr>rw_readers = load64 m a, rw_writer = sint (load32 m (a + 8))\<rparr>"

definition rw_store :: "u64 \<Rightarrow> rwlock \<Rightarrow> mem \<Rightarrow> mem" where
  "rw_store a l m = store32 (store64 m a (rw_readers l)) (a + 8) (word_of_int (rw_writer l))"

definition rw_update :: "u64 \<Rightarrow> (rwlock \<Rightarrow> rwlock) \<Rightarrow> ('z kmem_scheme, unit) kfun" where
  "rw_update a f = kmod (\<lambda>s. s\<lparr>mem := rw_store a (f (rw_load (mem s) a)) (mem s)\<rparr>)"

definition rwlock_init :: "u64 \<Rightarrow> ('z kmem_scheme, unit) kfun" where
  "rwlock_init a = rw_update a (\<lambda>_. rw_lock_init)"

definition read_lock :: "u64 \<Rightarrow> ('z kmem_scheme, unit) kfun" where
  "read_lock a =
     kseq (rw_update a add_reader) (
     kbind (kget (\<lambda>s. rw_writer (rw_load (mem s) a))) (\<lambda>w.
     if w \<noteq> 0 then kseq (rw_update a drop_reader) kspin else kret ()))"

definition read_unlock :: "u64 \<Rightarrow> ('z kmem_scheme, unit) kfun" where
  "read_unlock a = rw_update a drop_reader"

definition write_lock :: "u64 \<Rightarrow> ('z kmem_scheme, unit) kfun" where
  "write_lock a =
     kbind (kget (\<lambda>s. fst (swap_writer (rw_load (mem s) a)))) (\<lambda>old.
     kseq (rw_update a (\<lambda>l. snd (swap_writer l))) (
     if old \<noteq> 0 then kspin else
     kbind (kget (\<lambda>s. rw_readers (rw_load (mem s) a))) (\<lambda>r.
     if r > 0 then kspin else kret ())))"

definition write_unlock :: "u64 \<Rightarrow> ('z kmem_scheme, unit) kfun" where
  "write_unlock a = rw_update a clear_writer"

section \<open>Any number of threads\<close>

text \<open>
  Where a thread is: outside; in \<open>read_lock\<close> before the increment, at the test of \<open>writer\<close>, before the
  decrement that cancels, in the loop that waits for the writer; holding the lock as a reader; in
  \<open>write_lock\<close> before the test-and-set, in the loop that waits for the flag, in the loop that waits for
  the readers; holding the lock as a writer.
\<close>

datatype rwpc = Out | RAdd | RTest | RCancel | RWait | Reading | WSwap | WWait | WDrain | Writing

text \<open>One atomic action of a thread that is inside a function; a waiting loop may take a turn in place.\<close>

fun rw_act :: "rwpc \<Rightarrow> rwlock \<Rightarrow> rwpc \<times> rwlock" where
  "rw_act RAdd l = (RTest, add_reader l)"
| "rw_act RTest l = (if rw_writer l \<noteq> 0 then RCancel else Reading, l)"
| "rw_act RCancel l = (RWait, drop_reader l)"
| "rw_act RWait l = (if rw_writer l \<noteq> 0 then RWait else RAdd, l)"
| "rw_act WSwap l = (if fst (swap_writer l) \<noteq> 0 then WWait else WDrain, snd (swap_writer l))"
| "rw_act WWait l = (if rw_writer l \<noteq> 0 then WWait else WSwap, l)"
| "rw_act WDrain l = (if rw_readers l > 0 then WDrain else Writing, l)"
| "rw_act Reading l = (Out, drop_reader l)"
| "rw_act Writing l = (Out, clear_writer l)"
| "rw_act Out l = (Out, l)"

type_synonym rw_sys = "rwlock \<times> (nat \<Rightarrow> rwpc)"

inductive rw_step :: "nat \<Rightarrow> rw_sys \<Rightarrow> rw_sys \<Rightarrow> bool" for N :: nat where
  rw_call_read: "i < N \<Longrightarrow> pc i = Out \<Longrightarrow> rw_step N (l, pc) (l, pc(i := RAdd))"
| rw_call_write: "i < N \<Longrightarrow> pc i = Out \<Longrightarrow> rw_step N (l, pc) (l, pc(i := WSwap))"
| rw_action: "i < N \<Longrightarrow> rw_act (pc i) l = (c, l') \<Longrightarrow> rw_step N (l, pc) (l', pc(i := c))"

inductive rw_reach :: "nat \<Rightarrow> rw_sys \<Rightarrow> bool" for N :: nat where
  rw_start: "rw_reach N (rw_lock_init, \<lambda>_. Out)"
| rw_next: "rw_reach N x \<Longrightarrow> rw_step N x y \<Longrightarrow> rw_reach N y"

text \<open>
  The counter counts the threads that have added themselves; the flag is set exactly while a thread
  drains or writes, which is then alone; a writer and a reader never hold the lock together.
\<close>

definition counted :: "rwpc \<Rightarrow> bool" where
  "counted c \<longleftrightarrow> c \<in> {RTest, RCancel, Reading}"

definition claims :: "rwpc \<Rightarrow> bool" where
  "claims c \<longleftrightarrow> c \<in> {WDrain, Writing}"

definition rw_inv :: "nat \<Rightarrow> rw_sys \<Rightarrow> bool" where
  "rw_inv N = (\<lambda>(l, pc).
     rw_readers l = of_nat (card {i. i < N \<and> counted (pc i)}) \<and>
     rw_writer l = (if \<exists>i < N. claims (pc i) then 1 else 0) \<and>
     (\<forall>i < N. \<forall>j < N. claims (pc i) \<and> claims (pc j) \<longrightarrow> i = j) \<and>
     (\<forall>i < N. \<forall>j < N. pc i = Writing \<longrightarrow> pc j \<noteq> Reading))"

lemma card_counted_upd:
  fixes pc :: "nat \<Rightarrow> rwpc"
  assumes "i < N"
  shows "card {j. j < N \<and> counted ((pc(i := c)) j)} =
    (if counted c then card ({j. j < N \<and> counted (pc j)} - {i}) + 1
     else card ({j. j < N \<and> counted (pc j)} - {i}))"
proof -
  let ?A = "{j. j < N \<and> counted (pc j)}"
  have "{j. j < N \<and> counted ((pc(i := c)) j)} = (if counted c then insert i (?A - {i}) else ?A - {i})"
    using assms by auto
  moreover have "card (insert i (?A - {i})) = card (?A - {i}) + 1" by (subst card_insert_disjoint) auto
  ultimately show ?thesis by simp
qed

lemma card_counted_self:
  fixes pc :: "nat \<Rightarrow> rwpc"
  assumes "i < N" and "counted (pc i)"
  shows "card {j. j < N \<and> counted (pc j)} = card ({j. j < N \<and> counted (pc j)} - {i}) + 1"
proof -
  have "card {j. j < N \<and> counted (pc j)} = card (insert i ({j. j < N \<and> counted (pc j)} - {i}))"
    using assms by (simp add: insert_absorb)
  also have "\<dots> = card ({j. j < N \<and> counted (pc j)} - {i}) + 1" by (subst card_insert_disjoint) auto
  finally show ?thesis .
qed

lemma card_counted_other:
  assumes "\<not> counted (pc i)"
  shows "{j. j < N \<and> counted (pc j)} - {i} = {j. j < N \<and> counted (pc j)}"
  using assms by auto

lemma counted_simps [simp]:
  "counted RTest" "counted RCancel" "counted Reading" "\<not> counted Out" "\<not> counted RAdd" "\<not> counted RWait"
  "\<not> counted WSwap" "\<not> counted WWait" "\<not> counted WDrain" "\<not> counted Writing"
  by (simp_all add: counted_def)

lemma claims_simps [simp]:
  "claims WDrain" "claims Writing" "\<not> claims Out" "\<not> claims RAdd" "\<not> claims RTest" "\<not> claims RCancel"
  "\<not> claims RWait" "\<not> claims Reading" "\<not> claims WSwap" "\<not> claims WWait"
  by (simp_all add: claims_def)

lemmas rw_defs = add_reader_def drop_reader_def swap_writer_def clear_writer_def

lemma rw_readers_act:
  fixes pc :: "nat \<Rightarrow> rwpc"
  assumes "rw_readers l = of_nat (card {j. j < N \<and> counted (pc j)})" and "i < N" and "rw_act (pc i) l = (c, l')"
  shows "rw_readers l' = of_nat (card {j. j < N \<and> counted ((pc(i := c)) j)})"
proof -
  define n where "n = card ({j. j < N \<and> counted (pc j)} - {i})"
  have "card {j. j < N \<and> counted (pc j)} = n + (if counted (pc i) then 1 else 0)"
    unfolding n_def using card_counted_self [of i N pc] card_counted_other [of pc i N] assms(2) by presburger
  with assms(1) have "rw_readers l = of_nat n + (if counted (pc i) then 1 else 0)" by simp
  moreover have "rw_readers l' = rw_readers l + (if counted c then 1 else 0) - (if counted (pc i) then 1 else 0)"
    using assms(3) by (cases "pc i") (simp_all add: rw_defs split: if_splits, auto)
  moreover have "card {j. j < N \<and> counted ((pc(i := c)) j)} = n + (if counted c then 1 else 0)"
    unfolding n_def card_counted_upd [OF assms(2)] by presburger
  ultimately show ?thesis by simp
qed

lemma rw_writer_act:
  fixes pc :: "nat \<Rightarrow> rwpc"
  assumes w: "rw_writer l = (if \<exists>j < N. claims (pc j) then 1 else 0)"
    and u: "\<forall>j < N. \<forall>k < N. claims (pc j) \<and> claims (pc k) \<longrightarrow> j = k"
    and i: "i < N" and act: "rw_act (pc i) l = (c, l')"
  shows "rw_writer l' = (if \<exists>j < N. claims ((pc(i := c)) j) then 1 else 0)
    \<and> (\<forall>j < N. \<forall>k < N. claims ((pc(i := c)) j) \<and> claims ((pc(i := c)) k) \<longrightarrow> j = k)"
proof (cases "claims (pc i) \<or> claims c")
  case True
  then consider "pc i = WDrain" | "pc i = Writing" | "pc i = WSwap" and "rw_writer l = 0"
    using act by (cases "pc i") (auto simp: swap_writer_def split: if_splits)
  then show ?thesis
    using w u i act by cases (auto simp: rw_defs split: if_splits)
next
  case False
  then have "rw_writer l' = rw_writer l \<and> (\<forall>j. claims ((pc(i := c)) j) = claims (pc j))"
    using act w i by (cases "pc i") (auto simp: rw_defs split: if_splits)
  then show ?thesis using w u by simp
qed

lemma rw_excl_act:
  assumes inv: "rw_inv N (l, pc)" and i: "i < N" and act: "rw_act (pc i) l = (c, l')" and N: "N < 2 ^ 64"
  shows "\<forall>j < N. \<forall>k < N. (pc(i := c)) j = Writing \<longrightarrow> (pc(i := c)) k \<noteq> Reading"
proof (intro allI impI notI)
  fix j k
  assume j: "j < N" and k: "k < N" and wr: "(pc(i := c)) j = Writing" and rd: "(pc(i := c)) k = Reading"
  have old: "pc j = Writing \<Longrightarrow> pc k \<noteq> Reading" using inv j k by (auto simp: rw_inv_def)
  consider (draining) "j = i" "pc i = WDrain" "rw_readers l = 0" "k \<noteq> i" | (entering) "k = i" "pc i = RTest" "rw_writer l = 0" "j \<noteq> i"
    | (still) "j \<noteq> i" "k \<noteq> i"
    using wr rd act by (cases "pc i"; cases "j = i"; cases "k = i") (auto simp: word_greater_zero_iff split: if_splits)
  then show False
  proof cases
    case draining
    have "card {j. j < N \<and> counted (pc j)} < 2 ^ 64"
      using N card_mono [of "{..<N}" "{j. j < N \<and> counted (pc j)}"] by (auto intro: le_less_trans)
    then have "card {j. j < N \<and> counted (pc j)} = 0"
      using inv draining(3) unat_of_nat_small by (metis (mono_tags, lifting) case_prodD rw_inv_def unsigned_0)
    then show False using k rd draining(4) by auto
  next
    case entering
    then have "claims (pc j)" using wr by simp
    then show False using inv j entering(3) by (auto simp: rw_inv_def split: if_splits)
  next
    case still
    then show False using old wr rd by simp
  qed
qed

lemma rw_inv_call:
  assumes "pc i = Out" and "c \<in> {RAdd, WSwap}"
  shows "rw_inv N (l, pc(i := c)) = rw_inv N (l, pc)"
proof -
  have "counted ((pc(i := c)) j) = counted (pc j)" and "claims ((pc(i := c)) j) = claims (pc j)"
    and "(pc(i := c)) j = Writing \<longleftrightarrow> pc j = Writing" and "(pc(i := c)) j = Reading \<longleftrightarrow> pc j = Reading" for j
    using assms by auto
  then show ?thesis by (simp only: rw_inv_def prod.case)
qed

lemma rw_inv_step:
  assumes "rw_step N x y" and "rw_inv N x" and "N < 2 ^ 64"
  shows "rw_inv N y"
  using assms
proof (induction rule: rw_step.induct)
  case (rw_call_read i pc l)
  then show ?case using rw_inv_call [of pc i RAdd] by simp
next
  case (rw_call_write i pc l)
  then show ?case using rw_inv_call [of pc i WSwap] by simp
next
  case (rw_action i pc l c l')
  then have "rw_readers l' = of_nat (card {j. j < N \<and> counted ((pc(i := c)) j)})"
    by (intro rw_readers_act [of l]) (simp_all add: rw_inv_def)
  moreover have "rw_writer l' = (if \<exists>j < N. claims ((pc(i := c)) j) then 1 else 0)
    \<and> (\<forall>j < N. \<forall>k < N. claims ((pc(i := c)) j) \<and> claims ((pc(i := c)) k) \<longrightarrow> j = k)"
    using rw_action by (intro rw_writer_act [of l]) (simp_all add: rw_inv_def)
  moreover have "\<forall>j < N. \<forall>k < N. (pc(i := c)) j = Writing \<longrightarrow> (pc(i := c)) k \<noteq> Reading"
    using rw_action by (intro rw_excl_act [of N l])
  ultimately show ?case unfolding rw_inv_def prod.case by blast
qed

lemma rw_reach_inv: "rw_reach N x \<Longrightarrow> N < 2 ^ 64 \<Longrightarrow> rw_inv N x"
proof (induction rule: rw_reach.induct)
  case rw_start
  then show ?case by (simp add: rw_inv_def rw_lock_init_def)
next
  case (rw_next x y)
  then show ?case by (blast intro: rw_inv_step)
qed

section \<open>Properties\<close>

text \<open>
  C14: The reader-writer lock excludes: under every interleaving of any number of threads below \<open>2 ^ 64\<close>,
  a thread that holds the lock for writing is the only writer and no thread holds it for reading, and
  the counter \<open>readers\<close> is zero exactly when no thread reads or has announced that it wants to.
\<close>

theorem rwlock_exclusion:
  assumes "rw_reach N (l, pc)" and "N < 2 ^ 64" and "i < N" and "j < N" and "pc i = Writing"
  shows "(pc j = Writing \<longrightarrow> j = i) \<and> pc j \<noteq> Reading \<and> rw_writer l = 1
    \<and> rw_readers l = of_nat (card {k. k < N \<and> counted (pc k)})"
proof -
  have inv: "rw_inv N (l, pc)" using rw_reach_inv [OF assms(1,2)] .
  have "claims (pc i)" using assms(5) by simp
  with inv assms(3-5) show ?thesis by (auto simp: rw_inv_def)
qed

text \<open>A writer enters an idle lock: \<open>write_lock\<close> takes the flag, sees no reader and holds the lock.\<close>

lemma rw_run_writer:
  "rw_reach 2 (rw_lock_init\<lparr>rw_writer := 1\<rparr>, (\<lambda>_. Out)(0 := Writing))"
proof -
  have "rw_reach 2 (rw_lock_init, (\<lambda>_. Out)(0 := WSwap))"
    by (rule rw_next [OF rw_start]) (rule rw_call_write, simp_all)
  then have "rw_reach 2 (rw_lock_init\<lparr>rw_writer := 1\<rparr>, (\<lambda>_. Out)(0 := WSwap, 0 := WDrain))"
    by (rule rw_next) (rule rw_action, simp_all add: swap_writer_def rw_lock_init_def)
  then have "rw_reach 2 (rw_lock_init\<lparr>rw_writer := 1\<rparr>, (\<lambda>_. Out)(0 := WSwap, 0 := WDrain, 0 := Writing))"
    by (rule rw_next) (rule rw_action, simp_all add: rw_lock_init_def)
  then show ?thesis by simp
qed

theorem rwlock_exclusion_witness:
  "((\<lambda>_. Out)(0 := Writing)) (1::nat) \<noteq> Reading \<and> rw_writer (rw_lock_init\<lparr>rw_writer := 1\<rparr>) = 1"
  using rwlock_exclusion [OF rw_run_writer, of 0 1] by simp

lemma load_store_rw [simp]: "rw_load (rw_store a l m) a = l" if "rw_writer l \<in> {0, 1}"
proof -
  have "load64 (rw_store a l m) a = rw_readers l"
    using load64_store32_off [of 8 0 "store64 m a (rw_readers l)" a] by (simp add: rw_store_def)
  moreover have "load32 (rw_store a l m) (a + 8) = word_of_int (rw_writer l)"
    by (simp add: rw_store_def)
  ultimately show ?thesis using that by (auto simp: rw_load_def)
qed

lemma rw_update_app:
  "rw_update a f s = Ret () (s\<lparr>mem := rw_store a (f (rw_load (mem s) a)) (mem s)\<rparr>)"
  by (simp add: rw_update_def)

text \<open>
  C25: The calls on a lock in memory do what the interleaved actions do for a caller that runs alone:
  \<open>read_lock\<close> returns exactly if no writer holds the flag and then has added one reader, \<open>write_lock\<close> returns
  exactly if the lock is free of writers and readers, and the unlock functions undo them.
\<close>

theorem rwlock_calls:
  assumes "rw_load (mem s) a = l" and "rw_writer l \<in> {0, 1}"
  shows "(if rw_writer l = 0 then \<exists>t. read_lock a s = Ret () t \<and> rw_load (mem t) a = add_reader l
            \<and> (\<exists>u. read_unlock a t = Ret () u \<and> rw_load (mem u) a = l)
          else read_lock a s = Spin)
    \<and> (if rw_writer l = 0 \<and> rw_readers l = 0 then \<exists>t. write_lock a s = Ret () t \<and> rw_load (mem t) a = l\<lparr>rw_writer := 1\<rparr>
            \<and> (\<exists>u. write_unlock a t = Ret () u \<and> rw_load (mem u) a = l)
          else write_lock a s = Spin)"
proof -
  have "rw_writer (add_reader l) = rw_writer l" and "drop_reader (add_reader l) = l"
    by (simp_all add: rw_defs)
  moreover have "\<not> 0 < rw_readers l \<longleftrightarrow> rw_readers l = 0" by (simp add: word_greater_zero_iff)
  ultimately show ?thesis
    using assms
    by (auto simp: read_lock_def read_unlock_def write_lock_def write_unlock_def rw_update_app
        swap_writer_def clear_writer_def)
qed

theorem rwlock_calls_witness:
  "\<exists>t. read_lock 0x80022000 boot_kmem = Ret () t \<and> rw_readers (rw_load (mem t) 0x80022000) = 1"
proof -
  have "rw_load (mem boot_kmem) 0x80022000 = rw_lock_init"
    by (simp add: rw_load_def rw_lock_init_def load64_def load32_def mread_def upt_rec)
  from rwlock_calls [OF this] show ?thesis by (auto simp: rw_lock_init_def add_reader_def)
qed

end
