(* ===== verification/Rcu.thy ===== *)
theory Rcu
  imports Proc
begin

text \<open>
  Read-copy update: \<open>kernel/rcu.c\<close>, over the scheduler of \<open>kernel/proc.c\<close>, and the waiting loop of the
  system call \<open>rcusync\<close> of \<open>kernel/sysproc.c\<close>. The theory RcuSystem puts these functions into a system of
  harts that interleave.
\<close>

section \<open>rcu.c\<close>

definition rcu_read_lock :: "('z machine_scheme, unit) kfun" where
  "rcu_read_lock = push_off"

definition rcu_read_unlock :: "('z machine_scheme, unit) kfun" where
  "rcu_read_unlock = pop_off"

text \<open>
  A waiting loop gives up the CPU in the middle and can be preempted between any two statements, so it is
  the list of the statements that it executes. The counter \<open>i\<close> is local and \<open>b\<close> is the bound of the loop.
\<close>

datatype rcu_stmt = Set_affinity int | Yield

primrec rcu_exec :: "nat \<Rightarrow> rcu_stmt \<Rightarrow> ('z ptable_scheme, unit) kfun" where
  "rcu_exec p (Set_affinity a) = pset p (\<lambda>q. q\<lparr>p_cpu_affinity := a\<rparr>)"
| "rcu_exec p Yield = yield"

function rcu_loop :: "nat \<Rightarrow> nat \<Rightarrow> rcu_stmt list" where
  "rcu_loop b i = (if i < b then Set_affinity (int i) # Yield # rcu_loop b (Suc i) else [Set_affinity (-1)])"
  by pat_completeness auto
termination
  by (relation "measure (\<lambda>(b, i). b - i)") auto

declare rcu_loop.simps [simp del]

definition synchronize_rcu :: "rcu_stmt list" where
  "synchronize_rcu = rcu_loop 3 0"

text \<open>The copy of the loop in \<open>sys_rcusync\<close>.\<close>

definition rcusync_wait :: "rcu_stmt list" where
  "rcusync_wait = rcu_loop 2 0"

text \<open>
  A call: \<open>p = myproc()\<close> and the statements up to the first \<open>yield\<close>, where the thread switches away, and what
  runs when the thread is resumed after the turn with the counter \<open>i\<close>.
\<close>

primrec rcu_run :: "nat \<Rightarrow> rcu_stmt list \<Rightarrow> ('z ptable_scheme, unit) kfun" where
  "rcu_run p [] = kret ()"
| "rcu_run p (c # cs) = kseq (rcu_exec p c) (rcu_run p cs)"

definition rcu_call :: "rcu_stmt list \<Rightarrow> ('z ptable_scheme, unit) kfun" where
  "rcu_call cs = kbind curproc (\<lambda>p. rcu_run p cs)"

definition rcu_resume :: "rcu_stmt list \<Rightarrow> nat \<Rightarrow> nat \<Rightarrow> bool \<Rightarrow> ('z ptable_scheme, unit) kfun" where
  "rcu_resume cs p i saved = kseq (yield_resume p saved) (rcu_run p (drop (2 * Suc i) cs))"

end
