(* ===== verification/Klist.thy ===== *)
theory Klist
  imports Rwlock Rcu
begin

text \<open>
  The kernel linked list of \<open>kernel/klinkedlist.c\<close>, in its RCU variant (\<open>insert\<close>, here \<open>insert_node\<close>, \<open>deleteNode\<close>,
  \<open>search\<close>) and its variant with one reader-writer lock per node.

  A node is a page from \<open>kalloc\<close>: \<open>data\<close> (a 32-bit \<open>int\<close>) at offset 0, \<open>next\<close> at offset 8, \<open>lock\<close> at
  offset 16. The results of \<open>kalloc\<close> are not checked by the source, and neither are some uses of a null
  node: an access through a null pointer is a page fault, on which \<open>kerneltrap\<close> panics.
  \<open>synchronize_rcu\<close> gives up the CPU, so the updates are also given as the part before that call and the
  part after it.
\<close>

section \<open>Nodes\<close>

record klist = kmem +
  head_ref :: u64

lemma klist_enter [lock_simps]:
  "head_ref (enter lk s) = head_ref s" "(enter lk s)\<lparr>head_ref := x\<rparr> = enter lk (s\<lparr>head_ref := x\<rparr>)"
  "head_ref (push_state s) = head_ref s" "head_ref (sync s) = head_ref s"
  by (simp_all add: enter_def push_state_def sync_def)

lemma klist_preds [lock_simps]:
  "unlocked lk (s\<lparr>head_ref := x\<rparr>) = unlocked lk s" "cpu_quiet (s\<lparr>head_ref := x\<rparr>) = cpu_quiet s"
  "kmem_idle (s\<lparr>head_ref := x\<rparr>) = kmem_idle s"
  by (simp_all add: unlocked_def cpu_quiet_def hart_defs kmem_idle_def)

definition node_data :: "mem \<Rightarrow> u64 \<Rightarrow> int" where
  "node_data m p = sint (load32 m p)"

definition node_next :: "mem \<Rightarrow> u64 \<Rightarrow> u64" where
  "node_next m p = load64 m (p + 8)"

definition node_lock :: "mem \<Rightarrow> u64 \<Rightarrow> u64" where
  "node_lock m p = load64 m (p + 16)"

text \<open>A statement that dereferences \<open>p\<close>.\<close>

definition kderef :: "u64 \<Rightarrow> ('s, 'a) kfun \<Rightarrow> ('s, 'a) kfun" where
  "kderef p m = (if p = 0 then kpanic ''kerneltrap'' else m)"

lemma kderef_app [simp]: "kderef p m s = (if p = 0 then Panic ''kerneltrap'' else m s)"
  by (simp add: kderef_def)

definition set_data :: "u64 \<Rightarrow> int \<Rightarrow> ('z kmem_scheme, unit) kfun" where
  "set_data p d = kderef p (mmod (\<lambda>m. store32 m p (word_of_int d)))"

definition set_next :: "u64 \<Rightarrow> u64 \<Rightarrow> ('z kmem_scheme, unit) kfun" where
  "set_next p q = kderef p (mset64 (p + 8) q)"

definition set_node_lock :: "u64 \<Rightarrow> u64 \<Rightarrow> ('z kmem_scheme, unit) kfun" where
  "set_node_lock p l = kderef p (mset64 (p + 16) l)"

definition set_head :: "u64 \<Rightarrow> ('z klist_scheme, unit) kfun" where
  "set_head p = kmod (\<lambda>s. s\<lparr>head_ref := p\<rparr>)"

section \<open>The RCU variant\<close>

definition init_lock :: "('z machine_scheme, unit) kfun" where
  "init_lock = initlock List_lock ''list_lock''"

definition init_list :: "('z klist_scheme, unit) kfun" where
  "init_list =
     kbind kalloc (\<lambda>p.
     kseq (set_head p) (
     kseq (set_data p 0)
     (set_next p 0)))"

text \<open>\<open>insert\<close> up to the call of \<open>synchronize_rcu\<close>, the statement after it, and the whole function.\<close>

definition insert_start :: "int \<Rightarrow> ('z klist_scheme, u64) kfun" where
  "insert_start new_data =
     kbind kalloc (\<lambda>new_node.
     kseq (set_data new_node new_data) (
     kseq (acquire List_lock) (
     kbind (kget head_ref) (\<lambda>h.
     kseq (set_next new_node h) (
     kseq (release List_lock)
     (kret new_node))))))"

definition insert_finish :: "u64 \<Rightarrow> ('z klist_scheme, unit) kfun" where
  "insert_finish new_node = set_head new_node"

definition insert_node :: "int \<Rightarrow> ('z klist_scheme, unit) kfun" where
  "insert_node new_data =
     kbind (insert_start new_data) (\<lambda>new_node.
     kseq (rcu_call synchronize_rcu) (insert_finish new_node))"

text \<open>
  The loop that walks the list. Nodes are different pages below \<open>PHYSTOP\<close>, so a list without a cycle has
  fewer nodes than there are pages; a walk that takes more turns does not end.
\<close>

definition KLIST_FUEL :: nat where
  "KLIST_FUEL = Suc (pageno PHYSTOP)"

primrec find_node :: "nat \<Rightarrow> mem \<Rightarrow> u64 \<Rightarrow> u64 \<Rightarrow> int \<Rightarrow> (u64 \<times> u64) option" where
  "find_node 0 m prev temp key = None"
| "find_node (Suc n) m prev temp key =
     (if temp \<noteq> 0 \<and> node_data m temp \<noteq> key then find_node n m temp (node_next m temp) key
      else Some (prev, temp))"

definition kwalk :: "u64 \<Rightarrow> u64 \<Rightarrow> int \<Rightarrow> ('z kmem_scheme, u64 \<times> u64) kfun" where
  "kwalk prev temp key = (\<lambda>s. case find_node KLIST_FUEL (mem s) prev temp key of
     None \<Rightarrow> Spin | Some r \<Rightarrow> Ret r s)"

text \<open>
  \<open>deleteNode\<close> after it has read \<open>head_ref\<close> into \<open>temp\<close>: it returns the node that has been unlinked and is to
  be freed after \<open>synchronize_rcu\<close>, or 0.
\<close>

definition delete_start :: "u64 \<Rightarrow> int \<Rightarrow> ('z klist_scheme, u64) kfun" where
  "delete_start temp key =
     kseq (acquire List_lock) (
     kbind (kget (\<lambda>s. node_data (mem s) temp)) (\<lambda>d.
     if temp \<noteq> 0 \<and> d = key then
       kbind (kget (\<lambda>s. node_next (mem s) temp)) (\<lambda>n.
       kseq (set_head n) (
       kseq (release List_lock)
       (kret temp)))
     else
       kbind (kwalk 0 temp key) (\<lambda>(prev, t).
       if t = 0 then kseq (release List_lock) (kret 0)
       else
         kbind (kget (\<lambda>s. node_next (mem s) t)) (\<lambda>n.
         kseq (set_next prev n) (
         kseq (release List_lock)
         (kret t))))))"

definition delete_finish :: "u64 \<Rightarrow> ('z kmem_scheme, unit) kfun" where
  "delete_finish t = (if t = 0 then kret () else kfree t)"

definition deleteNode :: "int \<Rightarrow> ('z klist_scheme, unit) kfun" where
  "deleteNode key =
     kbind (kget head_ref) (\<lambda>temp.
     kbind (delete_start temp key) (\<lambda>t.
     if t = 0 then kret () else kseq (rcu_call synchronize_rcu) (delete_finish t)))"

text \<open>\<open>search\<close> after it has read \<open>head_ref\<close>, and the whole function.\<close>

definition search_from :: "u64 \<Rightarrow> int \<Rightarrow> ('z kmem_scheme, u64) kfun" where
  "search_from current key =
     kseq rcu_read_lock (
     kbind (kwalk 0 current key) (\<lambda>(prev, p).
     kseq rcu_read_unlock
     (kret p)))"

definition search :: "int \<Rightarrow> ('z klist_scheme, u64) kfun" where
  "search key = kbind (kget head_ref) (\<lambda>current. search_from current key)"

definition updateNode :: "int \<Rightarrow> int \<Rightarrow> ('z klist_scheme, unit) kfun" where
  "updateNode key new_data =
     kbind (search key) (\<lambda>p.
     if p \<noteq> 0 then set_data p new_data
     else printf (Some (''Node with key %d not found.'' @ [CHR 0x0A])) [VInt key])"

primrec printList_loop :: "nat \<Rightarrow> u64 \<Rightarrow> ('z klist_scheme, unit) kfun" where
  "printList_loop 0 temp = kspin"
| "printList_loop (Suc n) temp =
     (if temp = 0 then kret ()
      else kbind (kget (\<lambda>s. node_data (mem s) temp)) (\<lambda>d.
           kseq (printf (Some ''%d -> '') [VInt d]) (
           kbind (kget (\<lambda>s. node_next (mem s) temp)) (\<lambda>q. printList_loop n q))))"

definition printList :: "('z klist_scheme, unit) kfun" where
  "printList =
     kseq (printf (Some ''Final Linked List: '') []) (
     kbind (kget head_ref) (\<lambda>temp.
     kseq (printList_loop KLIST_FUEL temp)
     (printf (Some (''NULL'' @ [CHR 0x0A])) [])))"

section \<open>The variant with a lock in every node\<close>

definition init_list_lock :: "('z klist_scheme, unit) kfun" where
  "init_list_lock =
     kbind kalloc (\<lambda>p.
     kseq (set_head p) (
     kbind kalloc (\<lambda>l.
     kseq (set_node_lock p l) (
     kseq (kderef l (rwlock_init l)) (
     kseq (set_data p 0)
     (set_next p 0))))))"

definition klock :: "u64 \<Rightarrow> (u64 \<Rightarrow> ('z kmem_scheme, unit) kfun) \<Rightarrow> ('z kmem_scheme, unit) kfun" where
  "klock p f = kderef p (kbind (kget (\<lambda>s. node_lock (mem s) p)) (\<lambda>l. kderef l (f l)))"

definition insert_lock :: "int \<Rightarrow> ('z klist_scheme, unit) kfun" where
  "insert_lock new_data =
     kbind kalloc (\<lambda>new_node.
     kbind kalloc (\<lambda>l.
     kseq (set_node_lock new_node l) (
     kseq (kderef l (rwlock_init l)) (
     kseq (set_data new_node new_data) (
     kbind (kget head_ref) (\<lambda>h.
     kseq (klock h write_lock) (
     kbind (kget head_ref) (\<lambda>h.
     kseq (set_next new_node h) (
     kseq (set_head new_node) (
     kbind (kget (\<lambda>s. node_next (mem s) new_node)) (\<lambda>q.
     klock q write_unlock)))))))))))"

text \<open>The loop of \<open>deleteNode_lock\<close>: the pair \<open>prev\<close>, \<open>temp\<close> with which it is left.\<close>

primrec delete_lock_loop :: "nat \<Rightarrow> u64 \<Rightarrow> u64 \<Rightarrow> int \<Rightarrow> ('z kmem_scheme, u64 \<times> u64) kfun" where
  "delete_lock_loop 0 prev temp key = kspin"
| "delete_lock_loop (Suc n) prev temp key =
     (if temp = 0 then kret (prev, temp)
      else kbind (kget (\<lambda>s. node_data (mem s) temp)) (\<lambda>d.
        if d \<noteq> key then
          kbind (kget (\<lambda>s. node_next (mem s) temp)) (\<lambda>q.
          if q \<noteq> 0 then
            kseq (klock q write_lock) (
            kseq (klock temp write_unlock)
            (delete_lock_loop n temp q key))
          else kseq (klock temp write_unlock) (kret (prev, temp)))
        else kret (prev, temp)))"

definition deleteNode_lock :: "int \<Rightarrow> ('z klist_scheme, unit) kfun" where
  "deleteNode_lock key =
     kbind (kget head_ref) (\<lambda>temp.
     kseq (klock temp write_lock) (
     kbind (kget (\<lambda>s. node_data (mem s) temp)) (\<lambda>d.
     if temp \<noteq> 0 \<and> d = key then
       kbind (kget (\<lambda>s. node_next (mem s) temp)) (\<lambda>q.
       kseq (set_head q)
       (klock temp write_unlock))
     else
       kbind (delete_lock_loop KLIST_FUEL 0 temp key) (\<lambda>(prev, t).
       if t = 0 then kwhen (prev \<noteq> 0) (klock prev write_unlock)
       else
         kbind (kget (\<lambda>s. node_next (mem s) t)) (\<lambda>q.
         kseq (set_next prev q) (
         kseq (klock prev write_unlock)
         (klock t write_unlock)))))))"

primrec search_lock_loop :: "nat \<Rightarrow> u64 \<Rightarrow> int \<Rightarrow> ('z kmem_scheme, u64) kfun" where
  "search_lock_loop 0 current key = kspin"
| "search_lock_loop (Suc n) current key =
     (if current = 0 then kret 0
      else kseq (klock current read_lock) (
           kbind (kget (\<lambda>s. node_data (mem s) current)) (\<lambda>d.
           kseq (klock current read_unlock) (
           if d = key then kret current
           else kbind (kget (\<lambda>s. node_next (mem s) current)) (\<lambda>q. search_lock_loop n q key)))))"

definition search_lock :: "int \<Rightarrow> ('z klist_scheme, u64) kfun" where
  "search_lock key = kbind (kget head_ref) (\<lambda>current. search_lock_loop KLIST_FUEL current key)"

section \<open>The list that the nodes represent\<close>

text \<open>The nodes reachable from \<open>p\<close>, with their addresses and data.\<close>

fun knodes :: "mem \<Rightarrow> u64 \<Rightarrow> (u64 \<times> int) list \<Rightarrow> bool" where
  "knodes m p [] \<longleftrightarrow> p = 0"
| "knodes m p ((a, d) # ns) \<longleftrightarrow> p = a \<and> a \<noteq> 0 \<and> node_data m a = d \<and> knodes m (node_next m a) ns"

text \<open>
  The list of the nodes \<open>ns\<close> beside an allocator with the free pages \<open>ps\<close>: the nodes are pages that are
  not free, no two of them the same.
\<close>

definition klist_rep :: "'z klist_scheme \<Rightarrow> (u64 \<times> int) list \<Rightarrow> u64 list \<Rightarrow> bool" where
  "klist_rep s ns ps \<longleftrightarrow> knodes (mem s) (head_ref s) ns \<and> distinct (map fst ns @ ps) \<and>
     (\<forall>a \<in> fst ` set ns. kpage s a) \<and> allocatable s ps \<and> unlocked List_lock s"

text \<open>The last node before the first one with \<open>key\<close>, and that node, or 0.\<close>

fun locate :: "u64 \<Rightarrow> (u64 \<times> int) list \<Rightarrow> int \<Rightarrow> u64 \<times> u64" where
  "locate prev [] key = (prev, 0)"
| "locate prev ((a, d) # ns) key = (if d = key then (prev, a) else locate a ns key)"

lemma find_node_locate:
  "knodes m temp ns \<Longrightarrow> length ns < n \<Longrightarrow> find_node n m prev temp key = Some (locate prev ns key)"
proof (induction ns arbitrary: n prev temp)
  case Nil
  then show ?case by (cases n) auto
next
  case (Cons x ns)
  then show ?case by (cases n; cases x) auto
qed

lemma fst_mem: "(a, d) \<in> set ns \<Longrightarrow> a \<in> fst ` set ns"
  by force

lemma kpages_bound:
  assumes "distinct ps" and "\<forall>p \<in> set ps. kpage s p"
  shows "length ps \<le> pageno PHYSTOP"
proof -
  have "inj_on pageno (set ps)"
    using assms(2) by (intro inj_onI) (auto simp: kpage_def intro: page_aligned_eqI)
  then have "length ps = card (pageno ` set ps)" using assms(1) by (simp add: card_image distinct_card)
  also have "\<dots> \<le> card {..<pageno PHYSTOP}"
  proof (rule card_mono)
    show "pageno ` set ps \<subseteq> {..<pageno PHYSTOP}"
    proof
      fix n assume "n \<in> pageno ` set ps"
      then obtain p where "n = pageno p" "page_aligned p" "unat p < unat PHYSTOP"
        using assms(2) by (auto simp: kpage_def word_less_nat_alt)
      then show "n \<in> {..<pageno PHYSTOP}"
        by (simp add: page_aligned_unat PHYSTOP_unat pageno_def [of PHYSTOP] PGSIZE_def)
    qed
  qed simp
  finally show ?thesis by simp
qed

lemma klist_rep_bound: "klist_rep s ns ps \<Longrightarrow> length ns < KLIST_FUEL"
  using kpages_bound [of "map fst ns" s] by (simp add: klist_rep_def KLIST_FUEL_def less_Suc_eq_le)

lemma kwalk_rep:
  assumes "klist_rep s ns ps" and "mem t = mem s"
  shows "kwalk prev (head_ref s) key t = Ret (locate prev ns key) t"
proof -
  have "knodes (mem s) (head_ref s) ns" using assms(1) by (simp add: klist_rep_def)
  from find_node_locate [OF this klist_rep_bound [OF assms(1)]] assms(2) show ?thesis
    by (simp add: kwalk_def)
qed

subsection \<open>Writes to pages that are no nodes\<close>

lemma node_agree:
  assumes "page_aligned a" and "agree (pageno a) m m'"
  shows "node_data m' a = node_data m a" and "node_next m' a = node_next m a" and "node_lock m' a = node_lock m a"
proof -
  have "onpage a 4" using assms(1) by (simp add: onpage_def PGSIZE_def)
  then show "node_data m' a = node_data m a" using assms(2) by (simp add: node_data_def load32_agree)
  have "onpage (a + 8) 8" "pageno (a + 8) = pageno a"
    using field_onpage [OF assms(1), of 8 8] by (simp_all add: PGSIZE_def)
  then show "node_next m' a = node_next m a" using assms(2) by (simp add: node_next_def load64_agree)
  have "onpage (a + 16) 8" "pageno (a + 16) = pageno a"
    using field_onpage [OF assms(1), of 16 8] by (simp_all add: PGSIZE_def)
  then show "node_lock m' a = node_lock m a" using assms(2) by (simp add: node_lock_def load64_agree)
qed

lemma knodes_agree:
  assumes "\<forall>(a, d) \<in> set ns. page_aligned a \<and> agree (pageno a) m m'"
  shows "knodes m' p ns = knodes m p ns"
  using assms by (induction ns arbitrary: p) (auto simp: node_agree)

subsection \<open>A node that is written\<close>

lemma node_set_data:
  assumes "page_aligned p"
  shows "node_data (store32 m p w) p = sint w" and "node_next (store32 m p w) p = node_next m p"
    and "\<forall>x. pageno x \<noteq> pageno p \<longrightarrow> store32 m p w x = m x"
proof -
  show "node_data (store32 m p w) p = sint w" by (simp add: node_data_def)
  show "node_next (store32 m p w) p = node_next m p"
    using load64_store32_off [of 0 8 m p w] by (simp add: node_next_def)
  show "\<forall>x. pageno x \<noteq> pageno p \<longrightarrow> store32 m p w x = m x"
    using assms by (simp add: store32_def mwrite_other_page onpage_def PGSIZE_def)
qed

lemma node_set_next:
  assumes "page_aligned p"
  shows "node_next (store64 m (p + 8) q) p = q" and "node_data (store64 m (p + 8) q) p = node_data m p"
    and "\<forall>x. pageno x \<noteq> pageno p \<longrightarrow> store64 m (p + 8) q x = m x"
proof -
  show "node_next (store64 m (p + 8) q) p = q" by (simp add: node_next_def)
  show "node_data (store64 m (p + 8) q) p = node_data m p"
    using load32_store64_off [of 8 0 m p q] by (simp add: node_data_def)
  have "onpage (p + 8) 8" "pageno (p + 8) = pageno p"
    using field_onpage [OF assms, of 8 8] by (simp_all add: PGSIZE_def)
  then show "\<forall>x. pageno x \<noteq> pageno p \<longrightarrow> store64 m (p + 8) q x = m x"
    by (simp add: store64_def mwrite_other_page)
qed

section \<open>The operations on the list\<close>

lemma search_rep:
  assumes "klist_rep s ns ps"
  shows "search key s = Ret (snd (locate 0 ns key)) s"
proof -
  have q: "cpu_quiet s" using assms by (simp add: klist_rep_def allocatable_def kmem_idle_def)
  have w: "kwalk 0 (head_ref s) key (push_state s) = Ret (locate 0 ns key) (push_state s)"
    using assms by (intro kwalk_rep) (simp_all add: lock_simps)
  show ?thesis
    using q w
    by (simp add: search_def search_from_def rcu_read_lock_def rcu_read_unlock_def push_off_eq
        pop_push split_beta)
qed

lemma insert_start_rep:
  assumes "klist_rep s ns (p # ps)"
  obtains t where "insert_start d s = Ret p t" and "head_ref t = head_ref s" and "kend t = kend s"
    and "allocatable t ps" and "unlocked List_lock t"
    and "node_data (mem t) p = s32 d" and "node_next (mem t) p = head_ref s"
    and "\<forall>x. pageno x \<noteq> pageno p \<longrightarrow> mem t x = mem s x"
proof -
  have al: "allocatable s (p # ps)" and lk: "unlocked List_lock s" using assms by (simp_all add: klist_rep_def)
  have pg: "page_aligned p" "p \<noteq> 0" "p \<notin> set ps" and q: "cpu_quiet s"
    using al by (auto simp: allocatable_def free_pages_def kpage_def kmem_idle_def)
  let ?u = "s\<lparr>freelist := load64 (mem s) p, mem := memset p 5 PGSIZE (mem s)\<rparr>"
  let ?m = "store64 (store32 (mem ?u) p (word_of_int d)) (p + 8) (head_ref s)"
  have fl: "freelist s = p" using al freelist_Cons by (auto simp: allocatable_def)
  have ka: "kalloc s = Ret p ?u" using al pg(2) fl by (simp add: allocatable_def kalloc_eq Let_def)
  have au: "allocatable ?u ps" using al free_pages_kalloc [of s p ps] by (simp add: allocatable_def lock_simps)
  have fr: "\<forall>x. pageno x \<noteq> pageno p \<longrightarrow> ?m x = mem s x"
    using node_set_next(3) [OF pg(1)] node_set_data(3) [OF pg(1)] pg(1) by (simp add: memset_page_apply)
  have run: "insert_start d s = Ret p (?u\<lparr>mem := ?m\<rparr>)"
    using pg(2) lk q
    by (simp add: insert_start_def ka set_data_def set_next_def acquire_unlocked release_enter lock_simps)
  moreover have "allocatable (?u\<lparr>mem := ?m\<rparr>) ps"
    using au pg(1,3) fr by (intro allocatable_agree [of ?u ps p]) (simp_all add: memset_page_apply)
  moreover have "node_data ?m p = s32 d" "node_next ?m p = head_ref s"
    using node_set_next [OF pg(1)] node_set_data [OF pg(1)] by (simp_all add: s32_def)
  ultimately show ?thesis
    using fr lk by (intro that [of "?u\<lparr>mem := ?m\<rparr>"]) (simp_all add: lock_simps)
qed

text \<open>Publishing a node that points to the current head.\<close>

lemma insert_finish_rep:
  assumes rep: "klist_rep s ns (p # ps)" and fr: "\<forall>x. pageno x \<noteq> pageno p \<longrightarrow> mem t x = mem s x"
    and "head_ref t = head_ref s" and "kend t = kend s"
    and "allocatable t ps" and "unlocked List_lock t" and "node_data (mem t) p = d" and "node_next (mem t) p = head_ref s"
  shows "insert_finish p t = Ret () (t\<lparr>head_ref := p\<rparr>) \<and> klist_rep (t\<lparr>head_ref := p\<rparr>) ((p, d) # ns) ps"
proof -
  have kp: "kpage s p" and "p \<noteq> 0" and dist: "distinct (map fst ns @ p # ps)"
    using rep by (auto simp: klist_rep_def allocatable_def free_pages_def kpage_def)
  have "\<forall>(a, d) \<in> set ns. page_aligned a \<and> agree (pageno a) (mem s) (mem t)"
    using rep kp dist fr by (auto simp: klist_rep_def kpage_def intro!: other_page_agree [of p] dest: fst_mem)
  then have "knodes (mem t) (head_ref s) ns" using rep by (simp add: knodes_agree klist_rep_def)
  moreover have "\<forall>a \<in> fst ` set ns. kpage t a" using rep assms(4) by (auto simp: klist_rep_def kpage_def)
  moreover have "kpage t p" using kp assms(4) by (simp add: kpage_def)
  moreover have "kpage (t\<lparr>head_ref := p\<rparr>) = kpage t" by (simp add: kpage_def fun_eq_iff)
  moreover have "allocatable (t\<lparr>head_ref := p\<rparr>) ps"
    using assms(5) by (simp add: allocatable_def free_pages_def lock_simps kpage_def)
  ultimately show ?thesis
    using assms(6-8) dist \<open>p \<noteq> 0\<close> by (simp add: klist_rep_def insert_finish_def set_head_def lock_simps)
qed

text \<open>The nodes without the first one that has \<open>key\<close>.\<close>

fun del :: "int \<Rightarrow> (u64 \<times> int) list \<Rightarrow> (u64 \<times> int) list" where
  "del key [] = []"
| "del key ((a, d) # ns) = (if d = key then ns else (a, d) # del key ns)"

lemma del_absent: "key \<notin> snd ` set ns \<Longrightarrow> del key ns = ns"
  by (induction key ns rule: del.induct) auto

lemma locate_absent: "key \<notin> snd ` set ns \<Longrightarrow> snd (locate prev ns key) = 0"
  by (induction prev ns key rule: locate.induct) auto

lemma split_key:
  assumes "key \<in> snd ` set ns"
  obtains xs a ys where "ns = xs @ (a, key) # ys" and "key \<notin> snd ` set xs"
proof -
  have "\<exists>x \<in> set ns. snd x = key" using assms by auto
  then obtain xs x ys where "ns = xs @ x # ys" "snd x = key" "\<forall>y \<in> set xs. snd y \<noteq> key"
    by (elim split_list_first_propE)
  then show ?thesis by (intro that [of xs "fst x" ys]) auto
qed

lemma del_split: "key \<notin> snd ` set xs \<Longrightarrow> del key (xs @ (a, key) # ys) = xs @ ys"
  by (induction key xs rule: del.induct) auto

lemma locate_split:
  "key \<notin> snd ` set xs \<Longrightarrow> locate prev (xs @ (a, key) # ys) key = (last (prev # map fst xs), a)"
  by (induction prev xs key rule: locate.induct) auto

lemma knodes_append:
  "knodes m p (xs @ (a, d) # ys) \<Longrightarrow> node_data m a = d \<and> a \<noteq> 0 \<and> knodes m (node_next m a) ys"
  by (induction m p xs rule: knodes.induct) auto

text \<open>Unlinking the node \<open>a\<close> behind the node \<open>b\<close>.\<close>

lemma knodes_unlink:
  assumes "knodes m p (xs @ (b, e) # (a, d) # ys)" and "distinct (map fst (xs @ (b, e) # (a, d) # ys))"
    and "\<forall>(q, d) \<in> set (xs @ (b, e) # (a, d) # ys). page_aligned q"
  shows "knodes (store64 m (b + 8) (node_next m a)) p (xs @ (b, e) # ys)"
  using assms
proof (induction xs arbitrary: p)
  case Nil
  have b: "page_aligned b" using Nil.prems(3) by simp
  have "knodes (store64 m (b + 8) (node_next m a)) (node_next m a) ys = knodes m (node_next m a) ys"
    using Nil.prems(2,3) node_set_next(3) [OF b]
    by (intro knodes_agree) (auto intro!: other_page_agree [OF b] dest: fst_mem)
  then show ?case using Nil.prems node_set_next [OF b] by simp
next
  case (Cons x xs)
  obtain c f where x: "x = (c, f)" by (cases x)
  have b: "page_aligned b" and c: "page_aligned c" and "c \<noteq> b" using Cons.prems(2,3) x by auto
  then have "agree (pageno c) m (store64 m (b + 8) (node_next m a))"
    using node_set_next(3) [OF b] by (intro other_page_agree [OF b]) auto
  with c Cons x show ?case by (simp add: node_agree)
qed

lemma allocatable_head [simp]: "allocatable (s\<lparr>head_ref := x\<rparr>) = allocatable s"
  by (simp add: allocatable_def free_pages_def kpage_def lock_simps fun_eq_iff)

lemma kpage_head [simp]: "kpage (s\<lparr>head_ref := x\<rparr>) = kpage s"
  by (simp add: kpage_def fun_eq_iff)

text \<open>Every node of a list leads on through the nodes after it.\<close>

lemma knodes_suffix: "knodes m p (xs @ (q, d) # zs) \<Longrightarrow> knodes m q ((q, d) # zs)"
  by (induction m p xs rule: knodes.induct) auto

lemma knodes_node:
  assumes "knodes m p ns" and "q \<in> fst ` set ns"
  shows "\<exists>zs. knodes m q zs \<and> set zs \<subseteq> set ns"
proof -
  from assms(2) obtain d where "(q, d) \<in> set ns" by auto
  then obtain xs zs where "ns = xs @ (q, d) # zs" by (meson split_list)
  with assms(1) knodes_suffix [of m p xs q d zs] show ?thesis
    by (intro exI [of _ "(q, d) # zs"]) auto
qed

lemma delete_start_rep:
  assumes rep: "klist_rep s ns ps"
  obtains t where "delete_start (head_ref s) key s = Ret (snd (locate 0 ns key)) t"
    and "klist_rep t (del key ns) ps" and "kend t = kend s"
    and "key \<in> snd ` set ns \<longrightarrow> (\<exists>zs. knodes (mem t) (snd (locate 0 ns key)) zs \<and> set zs \<subseteq> set ns)"
proof -
  have kn: "knodes (mem s) (head_ref s) ns" and dist: "distinct (map fst ns @ ps)"
    and kp: "\<forall>a \<in> fst ` set ns. kpage s a" and al: "allocatable s ps" and lk: "unlocked List_lock s"
    using rep by (simp_all add: klist_rep_def)
  have q: "cpu_quiet s" using al by (simp add: allocatable_def kmem_idle_def)
  have w: "kwalk 0 (head_ref s) key (enter List_lock s) = Ret (locate 0 ns key) (enter List_lock s)"
    using rep by (intro kwalk_rep) (simp_all add: lock_simps)
  show ?thesis
  proof (cases "key \<in> snd ` set ns")
    case False
    have "\<not> (head_ref s \<noteq> 0 \<and> node_data (mem s) (head_ref s) = key)"
      using kn False by (cases ns) auto
    then have "delete_start (head_ref s) key s = Ret 0 s"
      using w lk q locate_absent [OF False, of 0]
      by (auto simp: delete_start_def acquire_unlocked release_enter lock_simps split_beta)
    then show ?thesis
      using that [of s] rep del_absent [OF False] locate_absent [OF False, of 0] False by simp
  next
    case True
    then obtain xs a ys where ns: "ns = xs @ (a, key) # ys" and new: "key \<notin> snd ` set xs" by (rule split_key)
    show ?thesis
    proof (cases xs rule: rev_cases)
      case Nil
      then have "head_ref s = a" "a \<noteq> 0" "node_data (mem s) a = key" using kn ns by auto
      moreover from this have "delete_start (head_ref s) key s = Ret a (s\<lparr>head_ref := node_next (mem s) a\<rparr>)"
        using lk q by (simp add: delete_start_def acquire_unlocked release_enter lock_simps set_head_def)
      ultimately show ?thesis
        using Nil ns kn dist kp al lk
        by (intro that [of "s\<lparr>head_ref := node_next (mem s) a\<rparr>"])
          (auto simp: klist_rep_def lock_simps intro!: exI [of _ ns])
    next
      case (snoc zs z)
      obtain b e where z: "z = (b, e)" by (cases z)
      let ?m = "store64 (mem s) (b + 8) (node_next (mem s) a)"
      have loc: "locate 0 ns key = (b, a)" using locate_split [OF new, of 0 a ys] ns snoc z by simp
      have al': "\<forall>(q, d) \<in> set ns. page_aligned q" using kp by (auto simp: kpage_def)
      have b: "page_aligned b" "b \<noteq> 0" using kp ns snoc z by (auto simp: kpage_def)
      have a: "a \<noteq> 0" using kn ns knodes_append [of "mem s" "head_ref s" xs a key ys] by simp
      have "node_data (mem s) (head_ref s) \<noteq> key"
        using kn ns new snoc by (cases zs) (auto simp: z)
      then have run: "delete_start (head_ref s) key s = Ret a (s\<lparr>mem := ?m\<rparr>)"
        using w loc a b lk q
        by (simp add: delete_start_def acquire_unlocked release_enter lock_simps set_next_def)
      have "knodes ?m (head_ref s) (zs @ (b, e) # ys)"
        using kn dist al' ns snoc z by (intro knodes_unlink [of _ _ zs b e a key]) auto
      moreover have "allocatable (s\<lparr>mem := ?m\<rparr>) ps"
        using al dist ns snoc z node_set_next(3) [OF b(1)] b by (intro allocatable_agree [of s ps b]) auto
      ultimately have "klist_rep (s\<lparr>mem := ?m\<rparr>) (del key ns) ps"
        using dist kp lk ns snoc z del_split [OF new, of a ys] by (auto simp: klist_rep_def lock_simps)
      moreover have "knodes ?m a ((a, key) # ys)"
      proof -
        have "page_aligned a" "a \<noteq> b" using al' dist ns snoc z by auto
        then have "agree (pageno a) (mem s) ?m"
          using node_set_next(3) [OF b(1)] by (intro other_page_agree [OF b(1)]) auto
        then have "node_data ?m a = key" "node_next ?m a = node_next (mem s) a"
          using \<open>page_aligned a\<close> kn ns knodes_append [of "mem s" "head_ref s" xs a key ys] by (simp_all add: node_agree)
        moreover have "knodes ?m (node_next (mem s) a) ys"
          using knodes_append [OF \<open>knodes ?m (head_ref s) (zs @ (b, e) # ys)\<close>] node_set_next(1) [OF b(1)] by simp
        ultimately show ?thesis using a by simp
      qed
      then have "\<exists>zs. knodes ?m a zs \<and> set zs \<subseteq> set ns" by (intro exI [of _ "(a, key) # ys"]) (auto simp: ns)
      ultimately show ?thesis
        using run loc by (intro that [of "s\<lparr>mem := ?m\<rparr>"]) simp_all
    qed
  qed
qed

text \<open>A reader that stands on any node of the old list, the unlinked one included, can go on.\<close>

lemma delete_start_readers:
  assumes rep: "klist_rep s ns ps" and run: "delete_start (head_ref s) key s = Ret x t" and q: "q \<in> fst ` set ns"
  shows "\<exists>zs. knodes (mem t) q zs \<and> set zs \<subseteq> set ns"
proof -
  obtain t' where "delete_start (head_ref s) key s = Ret (snd (locate 0 ns key)) t'" and rep': "klist_rep t' (del key ns) ps"
    and "kend t' = kend s" and a: "key \<in> snd ` set ns \<longrightarrow> (\<exists>zs. knodes (mem t') (snd (locate 0 ns key)) zs \<and> set zs \<subseteq> set ns)"
    by (rule delete_start_rep [OF rep, of key])
  then have t: "t' = t" using run by simp
  show ?thesis
  proof (cases "q \<in> fst ` set (del key ns)")
    case True
    then obtain zs where "knodes (mem t) q zs" "set zs \<subseteq> set (del key ns)"
      using rep' t knodes_node [of "mem t" "head_ref t" "del key ns" q] by (auto simp: klist_rep_def)
    moreover have "set (del key ns) \<subseteq> set ns" by (induction key ns rule: del.induct) auto
    ultimately show ?thesis by blast
  next
    case False
    then have key: "key \<in> snd ` set ns" using q del_absent by fastforce
    then obtain xs a ys where "ns = xs @ (a, key) # ys" "key \<notin> snd ` set xs" by (rule split_key)
    then have "q = snd (locate 0 ns key)"
      using False q del_split [of key xs a ys] locate_split [of key xs 0 a ys] by auto
    then show ?thesis using a key t by simp
  qed
qed

lemma delete_finish_rep:
  assumes rep: "klist_rep t ns ps" and "kpage t a" and "a \<notin> fst ` set ns" and "a \<notin> set ps"
  obtains u where "delete_finish a t = Ret () u" and "klist_rep u ns (a # ps)"
    and "mem u = store64 (memset a 1 PGSIZE (mem t)) a (freelist t)" and "head_ref u = head_ref t"
proof -
  have al: "allocatable t ps" using rep by (simp add: klist_rep_def)
  let ?u = "t\<lparr>mem := store64 (memset a 1 PGSIZE (mem t)) a (freelist t), freelist := a\<rparr>"
  have pa: "page_aligned a" "a \<noteq> 0" using assms(2) by (simp_all add: kpage_def)
  have run: "delete_finish a t = Ret () ?u"
    using al assms(2) pa(2) by (simp add: delete_finish_def allocatable_def kfree_eq)
  have alu: "allocatable ?u (a # ps)"
    using al assms(2,4) free_pages_kfree [of t ps a] by (simp add: allocatable_def lock_simps)
  have fr: "\<forall>x. pageno x \<noteq> pageno a \<longrightarrow> mem ?u x = mem t x"
    using pa(1) by (simp add: store64_other_page memset_page_apply)
  have "\<forall>(c, d) \<in> set ns. page_aligned c \<and> agree (pageno c) (mem t) (mem ?u)"
    using rep assms(3) fr pa(1) by (auto simp: klist_rep_def kpage_def intro!: other_page_agree [of a] dest: fst_mem)
  then have "knodes (mem ?u) (head_ref t) ns" using rep knodes_agree by (auto simp: klist_rep_def)
  then have "klist_rep ?u ns (a # ps)"
    using rep alu assms(3,4) by (simp add: klist_rep_def lock_simps)
  then show ?thesis using that run by simp
qed

section \<open>Properties\<close>

text \<open>
  C21: \<open>search\<close> finds the first node with the key: on a well-formed list it returns its address, or 0 if
  there is none, changes nothing and leaves the read-side critical section it opened.
\<close>

theorem search_finds_first:
  assumes "klist_rep s ns ps"
  shows "search key s = Ret (case find (\<lambda>(a, d). d = key) ns of None \<Rightarrow> 0 | Some (a, d) \<Rightarrow> a) s"
proof -
  have "snd (locate prev ns key) = (case find (\<lambda>(a, d). d = key) ns of None \<Rightarrow> 0 | Some (a, d) \<Rightarrow> a)" for prev
    by (induction prev ns key rule: locate.induct) auto
  then show ?thesis using search_rep [OF assms] by simp
qed

text \<open>
  C22: An insertion that is not disturbed by another one puts the new node in front: between the two
  halves of \<open>insert\<close> (while \<open>synchronize_rcu\<close> waits) every reader still sees the old list, afterwards the
  list is the new node followed by the old one, and one page has left the allocator.
\<close>

theorem insert_prepends:
  assumes "klist_rep s ns (p # ps)"
  shows "\<exists>t u. insert_start d s = Ret p t \<and> knodes (mem t) (head_ref t) ns
     \<and> insert_finish p t = Ret () u \<and> klist_rep u ((p, s32 d) # ns) ps"
proof -
  obtain t where t: "insert_start d s = Ret p t" "head_ref t = head_ref s" "kend t = kend s" "allocatable t ps"
    "unlocked List_lock t" "node_data (mem t) p = s32 d" "node_next (mem t) p = head_ref s"
    "\<forall>x. pageno x \<noteq> pageno p \<longrightarrow> mem t x = mem s x"
    using insert_start_rep [OF assms] by blast
  have fin: "insert_finish p t = Ret () (t\<lparr>head_ref := p\<rparr>)" "klist_rep (t\<lparr>head_ref := p\<rparr>) ((p, s32 d) # ns) ps"
    using insert_finish_rep [OF assms t(8) t(2-7)] by blast+
  then have "knodes (mem t) (head_ref t) ns" using t(2,7) by (simp add: klist_rep_def)
  with t fin show ?thesis by blast
qed

text \<open>
  C4: A deletion that is not disturbed by another update removes the first node with the key and frees
  its page. After the unlinking, and until the page is freed, a reader that stands on any node of the old
  list, the unlinked one included, still reaches the end of the list over old nodes.
\<close>

theorem delete_removes:
  assumes "klist_rep s ns ps" and "key \<in> snd ` set ns"
  shows "\<exists>a t u. delete_start (head_ref s) key s = Ret a t \<and> (a, key) \<in> set ns \<and> klist_rep t (del key ns) ps
     \<and> (\<forall>q. q \<in> fst ` set ns \<longrightarrow> (\<exists>zs. knodes (mem t) q zs \<and> set zs \<subseteq> set ns))
     \<and> delete_finish a t = Ret () u \<and> klist_rep u (del key ns) (a # ps)"
proof -
  from assms(2) obtain xs a ys where ns: "ns = xs @ (a, key) # ys" and new: "key \<notin> snd ` set xs" by (rule split_key)
  have "snd (locate 0 ns key) = a" using locate_split [OF new, of 0 a ys] ns by simp
  then obtain t where run: "delete_start (head_ref s) key s = Ret a t" and rep: "klist_rep t (del key ns) ps"
    and "kend t = kend s" using delete_start_rep [OF assms(1), of key] by metis
  have "kpage s a" "a \<notin> set ps" "a \<notin> fst ` set (del key ns)"
    using assms(1) ns del_split [OF new, of a ys] by (auto simp: klist_rep_def)
  moreover from this(1) have "kpage t a" using \<open>kend t = kend s\<close> by (simp add: kpage_def)
  ultimately obtain u where "delete_finish a t = Ret () u" "klist_rep u (del key ns) (a # ps)"
    using delete_finish_rep [OF rep] by blast
  with run rep delete_start_readers [OF assms(1) run] ns show ?thesis by auto
qed

text \<open>
  C19: \<open>insert\<close> releases \<open>list_lock\<close> before it publishes its node, so two insertions that overlap lose one:
  the second node to be published still points to the old list, and the node published first is
  reachable no more (its page is leaked).
\<close>

theorem concurrent_inserts_lose_a_node:
  assumes "klist_rep s ns (p # r # ps)"
  shows "\<exists>t u v w. insert_start d s = Ret p t \<and> insert_start e t = Ret r u
     \<and> insert_finish p u = Ret () v \<and> insert_finish r v = Ret () w
     \<and> klist_rep w ((r, s32 e) # ns) ps \<and> p \<notin> fst ` set ((r, s32 e) # ns) \<and> p \<notin> set ps"
proof -
  obtain t where t: "insert_start d s = Ret p t" "head_ref t = head_ref s" "kend t = kend s" "allocatable t (r # ps)"
    "unlocked List_lock t" "\<forall>x. pageno x \<noteq> pageno p \<longrightarrow> mem t x = mem s x"
    using insert_start_rep [OF assms] by blast
  have kp: "kpage s p" and dist: "distinct (map fst ns @ p # r # ps)"
    using assms by (auto simp: klist_rep_def allocatable_def free_pages_def)
  have "\<forall>(a, d) \<in> set ns. page_aligned a \<and> agree (pageno a) (mem s) (mem t)"
    using assms kp dist t(6) by (auto simp: klist_rep_def kpage_def intro!: other_page_agree [of p] dest: fst_mem)
  then have "knodes (mem t) (head_ref t) ns" using assms t(2) by (simp add: knodes_agree klist_rep_def)
  then have rep: "klist_rep t ns (r # ps)"
    using assms t(3-5) dist by (auto simp: klist_rep_def kpage_def)
  obtain u where u: "insert_start e t = Ret r u" "head_ref u = head_ref t" "kend u = kend t" "allocatable u ps"
    "unlocked List_lock u" "node_data (mem u) r = s32 e" "node_next (mem u) r = head_ref t"
    "\<forall>x. pageno x \<noteq> pageno r \<longrightarrow> mem u x = mem t x"
    using insert_start_rep [OF rep] by blast
  have "klist_rep (u\<lparr>head_ref := r\<rparr>) ((r, s32 e) # ns) ps"
    using insert_finish_rep [OF rep u(8) u(2-7)] by blast
  then show ?thesis
    using t(1) u(1) dist by (auto simp: insert_finish_def set_head_def)
qed

text \<open>
  C20: \<open>search\<close> reads \<open>head_ref\<close> before it enters its read-side critical section, so a deletion can run
  to its end in between: the search then walks a page that has been freed, and may return it.
\<close>

theorem search_walks_a_freed_node:
  assumes "klist_rep s [(a, k)] []"
  shows "\<exists>t u. delete_start (head_ref s) k s = Ret a t \<and> delete_finish a t = Ret () u
     \<and> allocatable u [a] \<and> head_ref u = 0 \<and> search_from (head_ref s) 0 u = Ret a u"
proof -
  have a: "head_ref s = a" "a \<noteq> 0" "kpage s a" using assms by (simp_all add: klist_rep_def)
  obtain t where t: "delete_start (head_ref s) k s = Ret (snd (locate 0 [(a, k)] k)) t" "klist_rep t (del k [(a, k)]) []"
    "kend t = kend s" by (rule delete_start_rep [OF assms])
  have "kpage t a" using a t(3) by (simp add: kpage_def)
  moreover have "freelist t = 0" using t(2) freelist_Nil by (auto simp: klist_rep_def allocatable_def)
  ultimately obtain u where u: "delete_finish a t = Ret () u" "klist_rep u [] [a]"
    "mem u = store64 (memset a 1 PGSIZE (mem t)) a 0"
    using delete_finish_rep [of t "[]" "[]" a] t(2) by auto
  have "node_data (mem u) a = 0" by (simp add: u(3) node_data_def load32_store64_low)
  moreover have "cpu_quiet u" "allocatable u [a]" "head_ref u = 0"
    using u(2) by (simp_all add: klist_rep_def allocatable_def kmem_idle_def)
  ultimately have "search_from a 0 u = Ret a u"
    using a(2) by (simp add: search_from_def rcu_read_lock_def rcu_read_unlock_def push_off_eq pop_push
        kwalk_def KLIST_FUEL_def lock_simps)
  with t(1) u(1) a(1) \<open>allocatable u [a]\<close> \<open>head_ref u = 0\<close> show ?thesis by auto
qed

section \<open>Witnesses\<close>

text \<open>A list of two nodes, with two free pages.\<close>

definition list_mem :: mem where
  "list_mem = (\<lambda>_. 0)(0x80023000 := 7, 0x80023009 := 0x40, 0x8002300a := 0x02, 0x8002300b := 0x80,
     0x80024000 := 9, 0x80025001 := 0x60, 0x80025002 := 0x02, 0x80025003 := 0x80)"

definition boot_klist :: klist where
  "boot_klist = kmem.extend (boot_kmem\<lparr>mem := list_mem, freelist := 0x80025000\<rparr>) \<lparr>head_ref = 0x80023000\<rparr>"

lemma boot_klist_simps [simp]:
  "cpu_quiet boot_klist" "unlocked lk boot_klist" "kend boot_klist = 0x80021000" "mem boot_klist = list_mem"
  "freelist boot_klist = 0x80025000" "head_ref boot_klist = 0x80023000"
  by (simp_all add: boot_klist_def boot_kmem_def boot_ptable_def boot_machine_def machine.defs ptable.defs kmem.defs
      cpu_quiet_def unlocked_def hart_defs)

lemma list_mem_loads:
  "node_data list_mem 0x80023000 = 7" "node_next list_mem 0x80023000 = 0x80024000"
  "node_data list_mem 0x80024000 = 9" "node_next list_mem 0x80024000 = 0"
  "load64 list_mem 0x80025000 = 0x80026000" "load64 list_mem 0x80026000 = 0"
  by (simp_all add: list_mem_def node_data_def node_next_def load32_def load64_def mread_def upt_rec)

lemma boot_klist_rep: "klist_rep boot_klist [(0x80023000, 7), (0x80024000, 9)] [0x80025000, 0x80026000]"
  by (simp add: klist_rep_def list_mem_loads allocatable_def free_pages_def kmem_idle_def kpage_def pgoff_def
      PGSIZE_def PHYSTOP_def KERNBASE_def)

theorem search_finds_first_witness:
  "search 9 boot_klist = Ret 0x80024000 boot_klist \<and> search 8 boot_klist = Ret 0 boot_klist"
  using search_finds_first [OF boot_klist_rep, of 9] search_finds_first [OF boot_klist_rep, of 8] by simp

theorem insert_prepends_witness:
  "\<exists>t u. insert_start 5 boot_klist = Ret 0x80025000 t \<and> insert_finish 0x80025000 t = Ret () u
     \<and> klist_rep u [(0x80025000, 5), (0x80023000, 7), (0x80024000, 9)] [0x80026000]"
  using insert_prepends [OF boot_klist_rep, of 5] by (simp add: s32_def) blast

theorem delete_removes_witness:
  "\<exists>a t u. delete_start (head_ref boot_klist) 9 boot_klist = Ret a t \<and> delete_finish a t = Ret () u
     \<and> klist_rep u [(0x80023000, 7)] (a # [0x80025000, 0x80026000])"
  using delete_removes [OF boot_klist_rep, of 9] by (simp del: boot_klist_simps) blast

theorem concurrent_inserts_lose_a_node_witness:
  "\<exists>t u v w. insert_start 5 boot_klist = Ret 0x80025000 t \<and> insert_start 6 t = Ret 0x80026000 u
     \<and> insert_finish 0x80025000 u = Ret () v \<and> insert_finish 0x80026000 v = Ret () w
     \<and> klist_rep w [(0x80026000, 6), (0x80023000, 7), (0x80024000, 9)] []"
  using concurrent_inserts_lose_a_node [OF boot_klist_rep, of 5 6] by (simp add: s32_def)

definition one_node :: klist where
  "one_node = boot_klist\<lparr>head_ref := 0x80024000, freelist := 0\<rparr>"

lemma one_node_rep: "klist_rep one_node [(0x80024000, 9)] []"
  by (simp add: one_node_def klist_rep_def list_mem_loads allocatable_def free_pages_def kmem_idle_def kpage_def
      pgoff_def PGSIZE_def PHYSTOP_def KERNBASE_def lock_simps)

theorem search_walks_a_freed_node_witness:
  "\<exists>t u. delete_start (head_ref one_node) 9 one_node = Ret 0x80024000 t \<and> delete_finish 0x80024000 t = Ret () u
     \<and> allocatable u [0x80024000] \<and> head_ref u = 0 \<and> search_from (head_ref one_node) 0 u = Ret 0x80024000 u"
  using search_walks_a_freed_node [OF one_node_rep] .

end
