(* ===== verification/Sleeplock.thy ===== *)
theory Sleeplock
  imports Klist
begin

text \<open>
  Sleep locks: \<open>kernel/sleeplock.c\<close> and \<open>kernel/sleeplock.h\<close>. A sleep lock is named by its address, a
  value of \<open>sleepid\<close>; the spin lock inside it is \<open>Sleep_lk l\<close>. A caller that finds the lock taken
  sleeps, which is the outcome \<open>Switch\<close>; \<open>acquiresleep_resume\<close> is what it does when it runs again.

  The theory also names the state in which a process runs with no spin lock held anywhere, from which
  the calls of the file system start, and proves what a whole turn through the scheduler does to it.
\<close>

section \<open>State and operations\<close>

record sleeplock =
  sl_locked :: u32
  sl_name :: string
  sl_pid :: int

record sleeplocks = klist +
  sleeplk :: "sleepid \<Rightarrow> sleeplock"

lemma sleeplk_enter [lock_simps]:
  "sleeplk (enter lk s) = sleeplk s" "(enter lk s)\<lparr>sleeplk := x\<rparr> = enter lk (s\<lparr>sleeplk := x\<rparr>)"
  "sleeplk (push_state s) = sleeplk s" "sleeplk (sync s) = sleeplk s"
  by (simp_all add: enter_def push_state_def sync_def)

lemma sleeplk_preds [lock_simps]:
  "unlocked lk (s\<lparr>sleeplk := x\<rparr>) = unlocked lk s" "cpu_quiet (s\<lparr>sleeplk := x\<rparr>) = cpu_quiet s"
  "kmem_idle (s\<lparr>sleeplk := x\<rparr>) = kmem_idle s" "procs_unlocked (s\<lparr>sleeplk := x\<rparr>) = procs_unlocked s"
  "hart_ok (s\<lparr>sleeplk := x\<rparr>) = hart_ok s"
  by (simp_all add: unlocked_def cpu_quiet_def hart_defs kmem_idle_def procs_unlocked_def hart_ok_def)

definition slget :: "sleepid \<Rightarrow> (sleeplock \<Rightarrow> 'a) \<Rightarrow> ('z sleeplocks_scheme, 'a) kfun" where
  "slget l f = kget (\<lambda>s. f (sleeplk s l))"

definition slset :: "sleepid \<Rightarrow> (sleeplock \<Rightarrow> sleeplock) \<Rightarrow> ('z sleeplocks_scheme, unit) kfun" where
  "slset l f = kmod (\<lambda>s. s\<lparr>sleeplk := (sleeplk s)(l := f (sleeplk s l))\<rparr>)"

lemma slget_app [simp]: "slget l f s = Ret (f (sleeplk s l)) s"
  by (simp add: slget_def)

lemma slset_app [simp]: "slset l f s = Ret () (s\<lparr>sleeplk := (sleeplk s)(l := f (sleeplk s l))\<rparr>)"
  by (simp add: slset_def)

definition initsleeplock :: "sleepid \<Rightarrow> string \<Rightarrow> ('z sleeplocks_scheme, unit) kfun" where
  "initsleeplock l nm =
     kseq (initlock (Sleep_lk l) ''sleep lock'') (
     kseq (slset l (\<lambda>k. k\<lparr>sl_name := nm\<rparr>)) (
     kseq (slset l (\<lambda>k. k\<lparr>sl_locked := 0\<rparr>))
     (slset l (\<lambda>k. k\<lparr>sl_pid := 0\<rparr>))))"

text \<open>The loop of \<open>acquiresleep\<close> and what follows it, entered with the inner spin lock held.\<close>

definition acquiresleep_loop :: "sleepid \<Rightarrow> ('z sleeplocks_scheme, unit) kfun" where
  "acquiresleep_loop l =
     kbind (slget l sl_locked) (\<lambda>b.
     if b \<noteq> 0 then sleep (Chan_sleeplock l) (Sleep_lk l)
     else
       kseq (slset l (\<lambda>k. k\<lparr>sl_locked := 1\<rparr>)) (
       kbind curproc (\<lambda>p.
       kbind (pget p p_pid) (\<lambda>pid.
       kseq (slset l (\<lambda>k. k\<lparr>sl_pid := pid\<rparr>))
       (release (Sleep_lk l))))))"

definition acquiresleep :: "sleepid \<Rightarrow> ('z sleeplocks_scheme, unit) kfun" where
  "acquiresleep l = kseq (acquire (Sleep_lk l)) (acquiresleep_loop l)"

definition acquiresleep_resume :: "nat \<Rightarrow> bool \<Rightarrow> sleepid \<Rightarrow> ('z sleeplocks_scheme, unit) kfun" where
  "acquiresleep_resume p ena l = kseq (sleep_resume p (Sleep_lk l) ena) (acquiresleep_loop l)"

definition releasesleep :: "sleepid \<Rightarrow> ('z sleeplocks_scheme, unit) kfun" where
  "releasesleep l =
     kseq (acquire (Sleep_lk l)) (
     kseq (slset l (\<lambda>k. k\<lparr>sl_locked := 0\<rparr>)) (
     kseq (slset l (\<lambda>k. k\<lparr>sl_pid := 0\<rparr>)) (
     kseq (wakeup (Some (Chan_sleeplock l)))
     (release (Sleep_lk l)))))"

definition holdingsleep :: "sleepid \<Rightarrow> ('z sleeplocks_scheme, bool) kfun" where
  "holdingsleep l =
     kseq (acquire (Sleep_lk l)) (
     kbind (slget l sl_locked) (\<lambda>b.
     kbind (if b \<noteq> 0
            then kbind curproc (\<lambda>p. kbind (pget p p_pid) (\<lambda>pid. slget l (\<lambda>k. sl_pid k = pid)))
            else kret False) (\<lambda>r.
     kseq (release (Sleep_lk l))
     (kret r))))"

section \<open>A process that runs undisturbed\<close>

text \<open>
  \<open>calm p s\<close>: the hart runs process \<open>p\<close> outside every nesting of interrupt disabling, no spin lock is
  held by anyone, and the process may be scheduled on this hart.
\<close>

definition calm :: "nat \<Rightarrow> 'z ptable_scheme \<Rightarrow> bool" where
  "calm p s \<longleftrightarrow> p < NPROC \<and> cpu_quiet s \<and> (\<forall>lk. unlocked lk s) \<and> cpu_proc (cpus s (tp s)) = Some p
     \<and> noff (cpus s (tp s)) = 0 \<and> p_state (procs s p) = RUNNING \<and> p_chan (procs s p) = None
     \<and> (p_cpu_affinity (procs s p) = -1 \<or> p_cpu_affinity (procs s p) = int (tp s))"

lemma calmD:
  assumes "calm p s"
  shows "cpu_quiet s" and "unlocked lk s" and "cpu_proc (cpus s (tp s)) = Some p" and "hart_ok s"
    and "noff (cpus s (tp s)) = 0" and "procs_unlocked s" and "p < NPROC"
  using assms by (auto simp: calm_def procs_unlocked_def intro: cpu_quiet_hart_ok)

lemma calm_curproc: "calm p s \<Longrightarrow> curproc s = Ret p s"
  by (simp add: calm_def curproc_quiet)

lemma calm_acquire: "calm p s \<Longrightarrow> acquire lk s = Ret () (enter lk s)"
  by (simp add: calm_def acquire_unlocked)

lemma calm_release: "calm p s \<Longrightarrow> release lk (enter lk s) = Ret () s"
  by (simp add: calm_def release_enter)

lemma calm_curproc_enter: "calm p s \<Longrightarrow> curproc (enter lk s) = Ret p (enter lk s)"
  by (simp add: calm_def curproc_quiet lock_simps)

lemma calm_enter_facts:
  assumes "calm p s"
  shows "cpu_quiet (enter lk s)" and "cpu_proc (cpus (enter lk s) (tp (enter lk s))) = Some p"
    and "lk' \<noteq> lk \<Longrightarrow> acquire lk' (enter lk s) = Ret () (enter lk' (enter lk s))"
    and "lk' \<noteq> lk \<Longrightarrow> release lk' (enter lk' (enter lk s)) = Ret () (enter lk s)"
  using assms by (simp_all add: calm_def lock_simps acquire_unlocked release_enter)

lemma calm_wakeup: "calm p s \<Longrightarrow> wakeup ch s = Ret () (s\<lparr>procs := woken ch (Some p) (procs s)\<rparr>)"
  by (subst wakeup_eq) (auto simp: calm_def)

lemma calm_wakeup_enter:
  assumes "calm p s" and "\<And>q. lk \<noteq> Proc_lock q"
  shows "wakeup ch (enter lk s) = Ret () (enter lk (s\<lparr>procs := woken ch (Some p) (procs s)\<rparr>))"
  using assms by (subst wakeup_eq) (auto simp: calm_def lock_simps)

lemma woken_self [simp]: "woken ch (Some p) ps p = ps p"
  by (simp add: woken_def)

lemma calm_upd [lock_simps]:
  "calm p (s\<lparr>procs := woken ch (Some p) (procs s)\<rparr>) = calm p s"
  by (simp add: calm_def lock_simps)

lemma calm_sleeplk [lock_simps]: "calm p (s\<lparr>sleeplk := x\<rparr>) = calm p s"
  by (simp add: calm_def lock_simps)

subsection \<open>The sleep-lock calls\<close>

lemma acquiresleep_free:
  assumes "calm p s" and "sl_locked (sleeplk s l) = 0"
  shows "acquiresleep l s = Ret () (s\<lparr>sleeplk := (sleeplk s)(l :=
    (sleeplk s l)\<lparr>sl_locked := 1, sl_pid := p_pid (procs s p)\<rparr>)\<rparr>)"
proof -
  let ?u = "s\<lparr>sleeplk := (sleeplk s)(l := (sleeplk s l)\<lparr>sl_locked := 1\<rparr>)\<rparr>"
  have "calm p ?u" using assms(1) by (simp add: lock_simps)
  from calm_curproc_enter [OF this, of "Sleep_lk l"] show ?thesis
    using assms by (simp add: acquiresleep_def acquiresleep_loop_def calm_acquire lock_simps calm_release)
qed

lemma acquiresleep_busy:
  assumes "calm p s" and "sl_locked (sleeplk s l) \<noteq> 0"
  shows "acquiresleep l s = Switch (enter (Proc_lock p)
    (s\<lparr>procs := (procs s)(p := (procs s p)\<lparr>p_chan := Some (Chan_sleeplock l), p_state := SLEEPING\<rparr>)\<rparr>))"
  using assms sleep_switch [of s p "Sleep_lk l" "Chan_sleeplock l"]
  by (simp add: acquiresleep_def acquiresleep_loop_def calm_acquire calmD lock_simps)

lemma releasesleep_calm:
  assumes "calm p s"
  shows "releasesleep l s = Ret () (s\<lparr>sleeplk := (sleeplk s)(l := (sleeplk s l)\<lparr>sl_locked := 0, sl_pid := 0\<rparr>),
    procs := woken (Some (Chan_sleeplock l)) (Some p) (procs s)\<rparr>)"
proof -
  let ?u = "s\<lparr>sleeplk := (sleeplk s)(l := (sleeplk s l)\<lparr>sl_locked := 0, sl_pid := 0\<rparr>)\<rparr>"
  have u: "calm p ?u" using assms by (simp add: lock_simps)
  have "wakeup (Some (Chan_sleeplock l)) (enter (Sleep_lk l) ?u)
    = Ret () (enter (Sleep_lk l) (?u\<lparr>procs := woken (Some (Chan_sleeplock l)) (Some p) (procs ?u)\<rparr>))"
    by (rule calm_wakeup_enter [OF u]) simp
  moreover have "calm p (?u\<lparr>procs := woken (Some (Chan_sleeplock l)) (Some p) (procs ?u)\<rparr>)"
    using u by (simp only: calm_upd)
  ultimately show ?thesis
    using assms by (simp add: releasesleep_def calm_acquire lock_simps calm_release)
qed

lemma holdingsleep_calm:
  assumes "calm p s"
  shows "holdingsleep l s
    = Ret (sl_locked (sleeplk s l) \<noteq> 0 \<and> sl_pid (sleeplk s l) = p_pid (procs s p)) s"
  using assms by (simp add: holdingsleep_def calm_acquire calm_curproc_enter calm_release lock_simps)

section \<open>Properties\<close>

text \<open>
  C32: A sleep lock is taken and given back as a long-term lock: \<open>acquiresleep\<close> of a free lock returns with
  the lock owned by the caller, of a taken lock it puts the caller to sleep on the lock with every spin
  lock but its own process lock released; \<open>holdingsleep\<close> is true exactly for the owner; and after
  \<open>releasesleep\<close> the lock is free and no other process is asleep on it, so no wakeup is lost.
\<close>

theorem sleeplock_calls:
  assumes "calm p s"
  shows "(if sl_locked (sleeplk s l) = 0
          then \<exists>t. acquiresleep l s = Ret () t \<and> calm p t \<and> sl_locked (sleeplk t l) = 1
             \<and> holdingsleep l t = Ret True t \<and> (\<forall>k. k \<noteq> l \<longrightarrow> sleeplk t k = sleeplk s k)
          else \<exists>t. acquiresleep l s = Switch t \<and> p_state (procs t p) = SLEEPING
             \<and> p_chan (procs t p) = Some (Chan_sleeplock l) \<and> (\<forall>lk. lk \<noteq> Proc_lock p \<longrightarrow> unlocked lk t))
     \<and> (\<exists>t. releasesleep l s = Ret () t \<and> calm p t \<and> sl_locked (sleeplk t l) = 0 \<and> holdingsleep l t = Ret False t
         \<and> (\<forall>q < NPROC. q \<noteq> p \<longrightarrow> \<not> (p_state (procs t q) = SLEEPING \<and> p_chan (procs t q) = Some (Chan_sleeplock l))))"
proof (intro conjI)
  let ?u = "s\<lparr>sleeplk := (sleeplk s)(l := (sleeplk s l)\<lparr>sl_locked := 1, sl_pid := p_pid (procs s p)\<rparr>)\<rparr>"
  have "calm p ?u" using assms by (simp add: lock_simps)
  then show "if sl_locked (sleeplk s l) = 0
          then \<exists>t. acquiresleep l s = Ret () t \<and> calm p t \<and> sl_locked (sleeplk t l) = 1
             \<and> holdingsleep l t = Ret True t \<and> (\<forall>k. k \<noteq> l \<longrightarrow> sleeplk t k = sleeplk s k)
          else \<exists>t. acquiresleep l s = Switch t \<and> p_state (procs t p) = SLEEPING
             \<and> p_chan (procs t p) = Some (Chan_sleeplock l) \<and> (\<forall>lk. lk \<noteq> Proc_lock p \<longrightarrow> unlocked lk t)"
    using assms acquiresleep_free [OF assms, of l] acquiresleep_busy [OF assms, of l] holdingsleep_calm [of p ?u l]
    by (simp add: lock_simps calmD)
next
  let ?u = "s\<lparr>sleeplk := (sleeplk s)(l := (sleeplk s l)\<lparr>sl_locked := 0, sl_pid := 0\<rparr>),
    procs := woken (Some (Chan_sleeplock l)) (Some p) (procs s)\<rparr>"
  have "calm p (s\<lparr>sleeplk := (sleeplk s)(l := (sleeplk s l)\<lparr>sl_locked := 0, sl_pid := 0\<rparr>)\<rparr>)"
    using assms by (simp add: lock_simps)
  then have u: "calm p ?u" by (simp add: calm_def lock_simps)
  show "\<exists>t. releasesleep l s = Ret () t \<and> calm p t \<and> sl_locked (sleeplk t l) = 0 \<and> holdingsleep l t = Ret False t
         \<and> (\<forall>q < NPROC. q \<noteq> p \<longrightarrow> \<not> (p_state (procs t q) = SLEEPING \<and> p_chan (procs t q) = Some (Chan_sleeplock l)))"
    using releasesleep_calm [OF assms, of l] u holdingsleep_calm [OF u, of l]
    by (intro exI [of _ ?u]) (simp add: woken_def wake_def)
qed

text \<open>A machine on which hart 0 runs process 1, with every sleep lock free.\<close>

definition running :: "nat \<Rightarrow> 'z ptable_scheme \<Rightarrow> 'z ptable_scheme" where
  "running p s = s\<lparr>cpus := (cpus s)(tp s := (cpus s (tp s))\<lparr>cpu_proc := Some p\<rparr>),
     procs := (procs s)(p := (procs s p)\<lparr>p_state := RUNNING, p_pid := 7\<rparr>)\<rparr>"

lemma calm_running:
  assumes "cpu_quiet s" and "\<forall>lk. unlocked lk s" and "noff (cpus s (tp s)) = 0"
    and "p < NPROC" and "p_cpu_affinity (procs s p) = -1" and "p_chan (procs s p) = None"
  shows "calm p (running p s)"
  using assms by (simp add: calm_def running_def cpu_quiet_def unlocked_def hart_defs)

definition boot_sleeplocks :: sleeplocks where
  "boot_sleeplocks = running 1 (klist.extend boot_klist
     \<lparr>sleeplk = \<lambda>_. \<lparr>sl_locked = 0, sl_name = ''buffer'', sl_pid = 0\<rparr>\<rparr>)"

lemma boot_klist_more:
  "noff (cpus boot_klist 0) = 0" "procs boot_klist = procs boot_ptable" "tp boot_klist = 0"
  by (simp_all add: boot_klist_def boot_kmem_def boot_ptable_def boot_machine_def machine.defs ptable.defs kmem.defs)

lemma boot_sleeplocks_calm: "calm 1 boot_sleeplocks"
proof -
  let ?s = "klist.extend boot_klist \<lparr>sleeplk = \<lambda>_. \<lparr>sl_locked = 0, sl_name = ''buffer'', sl_pid = 0\<rparr>\<rparr>"
  have "cpu_quiet ?s = cpu_quiet boot_klist" "unlocked lk ?s = unlocked lk boot_klist" for lk
    by (simp_all add: cpu_quiet_def unlocked_def hart_defs klist.defs)
  moreover have "cpus ?s = cpus boot_klist" "tp ?s = tp boot_klist" "procs ?s = procs boot_klist"
    by (simp_all add: klist.defs)
  ultimately show ?thesis
    unfolding boot_sleeplocks_def
    by (intro calm_running) (simp_all add: boot_klist_more NPROC_def idle_proc_def)
qed

theorem sleeplock_calls_witness:
  "\<exists>t. acquiresleep (Buf_lock 0) boot_sleeplocks = Ret () t \<and> holdingsleep (Buf_lock 0) t = Ret True t"
proof -
  have "sl_locked (sleeplk boot_sleeplocks (Buf_lock 0)) = 0"
    by (simp add: boot_sleeplocks_def running_def klist.defs)
  with sleeplock_calls [OF boot_sleeplocks_calm, of "Buf_lock 0"] show ?thesis by auto
qed

end
