(* ===== verification/Virtio.thy ===== *)
theory Virtio
  imports Sleeplock
begin

text \<open>
  The disk driver \<open>kernel/virtio_disk.c\<close>, with the structures of \<open>kernel/virtio.h\<close> and \<open>kernel/buf.h\<close>.

  The memory that driver and device share (descriptors, rings, request headers, status bytes, the data
  of the buffers) is the record \<open>dma\<close>, together with the contents of the disk itself. The device is not
  part of the sources: it is the function \<open>device\<close> of the state, what the device does to \<open>dma\<close> between a
  notification and its interrupt, and \<open>vreg\<close>, the values its registers read as; nothing defines them.
  The documented behaviour of a virtio block device is the predicate \<open>serves\<close> of the theory \<open>Disk\<close>.

  A caller of \<open>virtio_disk_rw\<close> always sleeps until the interrupt. \<open>disk_rw\<close> is such a call together with
  what happens on a hart on which nothing else runs: the process leaves the CPU, the device serves the
  request, the interrupt handler wakes the process, and the scheduler picks it again.
\<close>

section \<open>State\<close>

definition NUM :: nat where "NUM = 8"

definition BSIZE :: nat where "BSIZE = 1024"

definition VRING_DESC_F_NEXT :: u16 where "VRING_DESC_F_NEXT = 1"
definition VRING_DESC_F_WRITE :: u16 where "VRING_DESC_F_WRITE = 2"
definition VIRTIO_BLK_T_IN :: u32 where "VIRTIO_BLK_T_IN = 0"
definition VIRTIO_BLK_T_OUT :: u32 where "VIRTIO_BLK_T_OUT = 1"

record buf =
  b_valid :: int
  b_disk :: int
  b_dev :: u32
  b_blockno :: u32
  b_refcnt :: u32
  b_prev :: nat
  b_next :: nat

text \<open>What a descriptor points to: \<open>ops[i]\<close>, the data of a buffer, or \<open>info[i].status\<close>.\<close>

datatype daddr = Null_addr | Ops_addr nat | Data_addr nat | Status_addr nat

record virtq_desc =
  d_addr :: daddr
  d_len :: u32
  d_flags :: u16
  d_next :: u16

record virtio_blk_req =
  r_type :: u32
  r_reserved :: u32
  r_sector :: u64

text \<open>
  The contents of a disk as a map from byte offsets to bytes. \<open>platter\<close> lists the contents the disk has
  had, one for each write that it completed, the newest first: after a power failure the machine finds
  one of them.
\<close>

type_synonym disk = "nat \<Rightarrow> u8"

record dma =
  q_desc :: "nat \<Rightarrow> virtq_desc"
  q_avail_idx :: u16
  q_avail_ring :: "nat \<Rightarrow> u16"
  q_used_idx :: u16
  q_used_ring :: "nat \<Rightarrow> u32"
  q_ops :: "nat \<Rightarrow> virtio_blk_req"
  q_status :: "nat \<Rightarrow> u8"
  q_data :: "nat \<Rightarrow> u8 list"
  platter :: "disk list"

record vdisk = sleeplocks +
  dma :: dma
  device :: "dma \<Rightarrow> dma"
  vreg :: "nat \<Rightarrow> u32"
  vwr :: "(nat \<times> u32) list"
  bufs :: "nat \<Rightarrow> buf"
  desc_free :: "nat \<Rightarrow> bool"
  used_seen :: u16
  info_b :: "nat \<Rightarrow> nat option"

definition dmod :: "(dma \<Rightarrow> dma) \<Rightarrow> ('z vdisk_scheme, unit) kfun" where
  "dmod f = kmod (\<lambda>s. s\<lparr>dma := f (dma s)\<rparr>)"

definition bufget :: "nat \<Rightarrow> (buf \<Rightarrow> 'a) \<Rightarrow> ('z vdisk_scheme, 'a) kfun" where
  "bufget b f = kget (\<lambda>s. f (bufs s b))"

definition bufset :: "nat \<Rightarrow> (buf \<Rightarrow> buf) \<Rightarrow> ('z vdisk_scheme, unit) kfun" where
  "bufset b f = kmod (\<lambda>s. s\<lparr>bufs := (bufs s)(b := f (bufs s b))\<rparr>)"

lemma dmod_app [simp]: "dmod f s = Ret () (s\<lparr>dma := f (dma s)\<rparr>)"
  by (simp add: dmod_def)

lemma bufget_app [simp]: "bufget b f s = Ret (f (bufs s b)) s"
  by (simp add: bufget_def)

lemma bufset_app [simp]: "bufset b f s = Ret () (s\<lparr>bufs := (bufs s)(b := f (bufs s b))\<rparr>)"
  by (simp add: bufset_def)

text \<open>Writing a register of the device.\<close>

definition vwrite :: "nat \<Rightarrow> u32 \<Rightarrow> ('z vdisk_scheme, unit) kfun" where
  "vwrite r v = kmod (\<lambda>s. s\<lparr>vwr := vwr s @ [(r, v)]\<rparr>)"

definition vread :: "nat \<Rightarrow> ('z vdisk_scheme, u32) kfun" where
  "vread r = kget (\<lambda>s. vreg s r)"

lemma vwrite_app [simp]: "vwrite r v s = Ret () (s\<lparr>vwr := vwr s @ [(r, v)]\<rparr>)"
  by (simp add: vwrite_def)

lemma vread_app [simp]: "vread r s = Ret (vreg s r) s"
  by (simp add: vread_def)

section \<open>Initialisation\<close>

definition null_desc :: virtq_desc where
  "null_desc = \<lparr>d_addr = Null_addr, d_len = 0, d_flags = 0, d_next = 0\<rparr>"

definition virtio_queue_init :: "u32 \<Rightarrow> ('z vdisk_scheme, unit) kfun" where
  "virtio_queue_init status =
     kbind kalloc (\<lambda>desc.
     kbind kalloc (\<lambda>avail.
     kbind kalloc (\<lambda>used.
     if desc = 0 \<or> avail = 0 \<or> used = 0 then kpanic ''virtio disk kalloc'' else
     kseq (dmod (\<lambda>d. d\<lparr>q_desc := \<lambda>_. null_desc\<rparr>)) (
     kseq (dmod (\<lambda>d. d\<lparr>q_avail_idx := 0, q_avail_ring := \<lambda>_. 0\<rparr>)) (
     kseq (dmod (\<lambda>d. d\<lparr>q_used_idx := 0, q_used_ring := \<lambda>_. 0\<rparr>)) (
     kseq (vwrite 0x038 (of_nat NUM)) (
     kseq (vwrite 0x080 (ucast desc)) (
     kseq (vwrite 0x084 (ucast (drop_bit 32 desc))) (
     kseq (vwrite 0x090 (ucast avail)) (
     kseq (vwrite 0x094 (ucast (drop_bit 32 avail))) (
     kseq (vwrite 0x0a0 (ucast used)) (
     kseq (vwrite 0x0a4 (ucast (drop_bit 32 used))) (
     kseq (vwrite 0x044 1) (
     kseq (kmod (\<lambda>s. s\<lparr>desc_free := \<lambda>i. i < NUM \<or> desc_free s i\<rparr>))
     (vwrite 0x070 (or status 4))))))))))))))))"

definition virtio_disk_init :: "('z vdisk_scheme, unit) kfun" where
  "virtio_disk_init =
     kseq (initlock Vdisk_lock ''virtio_disk'') (
     kbind (vread 0x000) (\<lambda>magic.
     kbind (vread 0x004) (\<lambda>version.
     kbind (vread 0x008) (\<lambda>did.
     kbind (vread 0x00c) (\<lambda>vendor.
     if magic \<noteq> 0x74726976 \<or> version \<noteq> 2 \<or> did \<noteq> 2 \<or> vendor \<noteq> 0x554d4551
     then kpanic ''could not find virtio disk'' else
     kseq (vwrite 0x070 0) (
     kseq (vwrite 0x070 1) (
     kseq (vwrite 0x070 3) (
     kbind (vread 0x010) (\<lambda>features.
     kseq (vwrite 0x020 (foldl (\<lambda>f i. and f (not (push_bit i 1))) features [5, 7, 11, 12, 27, 29, 28])) (
     kseq (vwrite 0x070 11) (
     kbind (vread 0x070) (\<lambda>status.
     if and status 8 = 0 then kpanic ''virtio disk FEATURES_OK unset'' else
     kseq (vwrite 0x030 0) (
     kbind (vread 0x044) (\<lambda>ready.
     if ready \<noteq> 0 then kpanic ''virtio disk should not be ready'' else
     kbind (vread 0x034) (\<lambda>mx.
     if mx = 0 then kpanic ''virtio disk has no queue 0'' else
     if mx < of_nat NUM then kpanic ''virtio disk max queue too short'' else
     virtio_queue_init status)))))))))))))))"

section \<open>Descriptors\<close>

text \<open>The result \<open>None\<close> of \<open>alloc_desc\<close> is the \<open>-1\<close> of the source.\<close>

definition alloc_desc :: "('z vdisk_scheme, nat option) kfun" where
  "alloc_desc =
     kbind (kget (\<lambda>s. find (desc_free s) [0..<NUM])) (\<lambda>r.
     case r of None \<Rightarrow> kret None
     | Some i \<Rightarrow> kseq (kmod (\<lambda>s. s\<lparr>desc_free := (desc_free s)(i := False)\<rparr>)) (kret (Some i)))"

definition free_desc :: "nat \<Rightarrow> ('z vdisk_scheme, unit) kfun" where
  "free_desc i =
     (if i \<ge> NUM then kpanic ''free_desc 1'' else
      kbind (kget (\<lambda>s. desc_free s i)) (\<lambda>f.
      if f then kpanic ''free_desc 2'' else
      kseq (dmod (\<lambda>d. d\<lparr>q_desc := (q_desc d)(i := null_desc)\<rparr>)) (
      kseq (kmod (\<lambda>s. s\<lparr>desc_free := (desc_free s)(i := True)\<rparr>))
      (wakeup (Some Chan_disk_free)))))"

text \<open>
  Every turn of \<open>free_chain\<close> frees a descriptor that was not free, so a chain that did not end would
  panic after at most \<open>NUM\<close> turns.
\<close>

primrec free_chain_loop :: "nat \<Rightarrow> nat \<Rightarrow> ('z vdisk_scheme, unit) kfun" where
  "free_chain_loop 0 i = kspin"
| "free_chain_loop (Suc n) i =
     kbind (kget (\<lambda>s. q_desc (dma s) i)) (\<lambda>d.
     kseq (free_desc i) (
     if and (d_flags d) VRING_DESC_F_NEXT \<noteq> 0 then free_chain_loop n (unat (d_next d)) else kret ()))"

definition free_chain :: "nat \<Rightarrow> ('z vdisk_scheme, unit) kfun" where
  "free_chain i = free_chain_loop (Suc NUM) i"

fun alloc3_loop :: "nat \<Rightarrow> nat list \<Rightarrow> ('z vdisk_scheme, nat list option) kfun" where
  "alloc3_loop 0 idx = kret (Some idx)"
| "alloc3_loop (Suc n) idx =
     kbind alloc_desc (\<lambda>r.
     case r of None \<Rightarrow> kseq (kfor idx free_desc) (kret None)
     | Some i \<Rightarrow> alloc3_loop n (idx @ [i]))"

definition alloc3_desc :: "('z vdisk_scheme, nat list option) kfun" where
  "alloc3_desc = alloc3_loop 3 []"

section \<open>Requests\<close>

text \<open>The lines of \<open>virtio_disk_rw\<close> that write the three descriptors and queue the request.\<close>

definition format_request :: "nat \<Rightarrow> bool \<Rightarrow> nat \<Rightarrow> nat \<Rightarrow> nat \<Rightarrow> u64 \<Rightarrow> dma \<Rightarrow> dma" where
  "format_request b w i0 i1 i2 sector d = d
     \<lparr>q_ops := (q_ops d)(i0 := \<lparr>r_type = (if w then VIRTIO_BLK_T_OUT else VIRTIO_BLK_T_IN),
        r_reserved = 0, r_sector = sector\<rparr>),
      q_desc := (q_desc d)(
        i0 := \<lparr>d_addr = Ops_addr i0, d_len = 16, d_flags = VRING_DESC_F_NEXT, d_next = of_nat i1\<rparr>,
        i1 := \<lparr>d_addr = Data_addr b, d_len = of_nat BSIZE,
          d_flags = or (if w then 0 else VRING_DESC_F_WRITE) VRING_DESC_F_NEXT, d_next = of_nat i2\<rparr>,
        i2 := \<lparr>d_addr = Status_addr i0, d_len = 1, d_flags = VRING_DESC_F_WRITE, d_next = 0\<rparr>),
      q_status := (q_status d)(i0 := 0xff)\<rparr>"

definition publish :: "nat \<Rightarrow> dma \<Rightarrow> dma" where
  "publish i d = d\<lparr>q_avail_ring := (q_avail_ring d)(unat (q_avail_idx d) mod NUM := of_nat i),
     q_avail_idx := q_avail_idx d + 1\<rparr>"

text \<open>
  \<open>virtio_disk_rw\<close> up to its second loop, with the first descriptor as result: the sector number is
  computed in 32 bits. The allocation loop sleeps when there are not three free descriptors, and
  starts over from \<open>submit_retry\<close>.
\<close>

definition submit_loop :: "nat \<Rightarrow> bool \<Rightarrow> ('z vdisk_scheme, nat) kfun" where
  "submit_loop b w =
     kbind alloc3_desc (\<lambda>r.
     case r of
       None \<Rightarrow> kseq (sleep Chan_disk_free Vdisk_lock) kspin
     | Some idx \<Rightarrow>
         kbind (bufget b (\<lambda>c. ucast (b_blockno c * 2))) (\<lambda>sector.
         kseq (dmod (format_request b w (idx ! 0) (idx ! 1) (idx ! 2) sector)) (
         kseq (bufset b (\<lambda>c. c\<lparr>b_disk := 1\<rparr>)) (
         kseq (kmod (\<lambda>s. s\<lparr>info_b := (info_b s)(idx ! 0 := Some b)\<rparr>)) (
         kseq (dmod (publish (idx ! 0))) (
         kseq (vwrite 0x050 0)
         (kret (idx ! 0))))))))"

definition submit :: "nat \<Rightarrow> bool \<Rightarrow> ('z vdisk_scheme, nat) kfun" where
  "submit b w = kseq (acquire Vdisk_lock) (submit_loop b w)"

definition submit_retry :: "nat \<Rightarrow> bool \<Rightarrow> nat \<Rightarrow> bool \<Rightarrow> ('z vdisk_scheme, nat) kfun" where
  "submit_retry p ena b w = kseq (sleep_resume p Vdisk_lock ena) (submit_loop b w)"

definition rw_wait :: "nat \<Rightarrow> nat \<Rightarrow> ('z vdisk_scheme, unit) kfun" where
  "rw_wait i b =
     kbind (bufget b b_disk) (\<lambda>d.
     if d = 1 then sleep (Chan_buf b) Vdisk_lock
     else
       kseq (kmod (\<lambda>s. s\<lparr>info_b := (info_b s)(i := None)\<rparr>)) (
       kseq (free_chain i)
       (release Vdisk_lock)))"

definition virtio_disk_rw :: "nat \<Rightarrow> bool \<Rightarrow> ('z vdisk_scheme, unit) kfun" where
  "virtio_disk_rw b w = kbind (submit b w) (\<lambda>i. rw_wait i b)"

definition rw_wait_resume :: "nat \<Rightarrow> bool \<Rightarrow> nat \<Rightarrow> nat \<Rightarrow> ('z vdisk_scheme, unit) kfun" where
  "rw_wait_resume p ena i b = kseq (sleep_resume p Vdisk_lock ena) (rw_wait i b)"

section \<open>The interrupt\<close>

definition intr_one :: "('z vdisk_scheme, unit) kfun" where
  "intr_one =
     kbind (kget (\<lambda>s. unat (q_used_ring (dma s) (unat (used_seen s) mod NUM)))) (\<lambda>i.
     kbind (kget (\<lambda>s. q_status (dma s) i)) (\<lambda>st.
     if st \<noteq> 0 then kpanic ''virtio_disk_intr status'' else
     kbind (kget (\<lambda>s. info_b s i)) (\<lambda>r.
     case r of None \<Rightarrow> kpanic ''kerneltrap''
     | Some b \<Rightarrow>
         kseq (bufset b (\<lambda>c. c\<lparr>b_disk := 0\<rparr>)) (
         kseq (wakeup (Some (Chan_buf b)))
         (kmod (\<lambda>s. s\<lparr>used_seen := used_seen s + 1\<rparr>))))))"

text \<open>
  The counters have 16 bits, so the loop takes fewer than \<open>2 ^ 16\<close> turns before they agree.
\<close>

primrec intr_loop :: "nat \<Rightarrow> ('z vdisk_scheme, unit) kfun" where
  "intr_loop 0 = kspin"
| "intr_loop (Suc n) =
     kbind (kget (\<lambda>s. used_seen s = q_used_idx (dma s))) (\<lambda>e.
     if e then kret () else kseq intr_one (intr_loop n))"

definition INTR_FUEL :: nat where
  "INTR_FUEL = 2 ^ 16"

definition virtio_disk_intr :: "('z vdisk_scheme, unit) kfun" where
  "virtio_disk_intr =
     kseq (acquire Vdisk_lock) (
     kbind (vread 0x060) (\<lambda>st.
     kseq (vwrite 0x064 (and st 3)) (
     kseq (intr_loop INTR_FUEL)
     (release Vdisk_lock))))"

section \<open>A request on a machine that does nothing else\<close>

text \<open>
  \<open>through m turn k\<close> runs \<open>m\<close>; if it gives up the CPU, the hart does \<open>turn\<close>, which is expected to end
  with a switch back into the thread, and the thread goes on with \<open>k\<close>. If the scheduler does not pick
  the thread, it waits on.
\<close>

definition through :: "('s, 'a) kfun \<Rightarrow> ('s, unit) kfun \<Rightarrow> ('s \<Rightarrow> ('s, 'a) kfun) \<Rightarrow> ('s, 'a) kfun" where
  "through m turn k = (\<lambda>s. case m s of
     Switch t \<Rightarrow> (case turn t of Switch u \<Rightarrow> k t u | Ret x u \<Rightarrow> Spin | Panic e \<Rightarrow> Panic e | Spin \<Rightarrow> Spin)
   | r \<Rightarrow> r)"

text \<open>
  The hart from the switch out of process \<open>p\<close> to the switch back into it: the rest of the turn in
  \<open>scheduler\<close>, the device, the interrupt (taken with interrupts off and left with them on), and the
  turn of \<open>scheduler\<close> that finds \<open>p\<close> runnable.
\<close>

definition disk_turn :: "nat \<Rightarrow> ('z vdisk_scheme, unit) kfun" where
  "disk_turn p =
     kseq (scheduler_back p) (
     kseq intr_on (
     kseq (kmod (\<lambda>s. s\<lparr>dma := device s (dma s)\<rparr>)) (
     kseq intr_off (
     kseq virtio_disk_intr (
     kseq intr_on
     (scheduler_try p))))))"

definition disk_rw :: "nat \<Rightarrow> bool \<Rightarrow> ('z vdisk_scheme, unit) kfun" where
  "disk_rw b w =
     kbind curproc (\<lambda>p.
     kbind (submit b w) (\<lambda>i.
     through (rw_wait i b) (disk_turn p) (\<lambda>t. rw_wait_resume p (intena (mycpu t)) i b)))"

end
