(* ===== verification/Bytes.thy ===== *)
theory Bytes
  imports Memory
begin

text \<open>
  Fields of structures in a byte array, as the code reads and writes them through a cast pointer into
  the data of a disk block: little-endian integers of two and four bytes at an offset, and arrays of
  bytes. All of them keep the length of the array as long as the field lies inside it.
\<close>

definition bytes_at :: "u8 list \<Rightarrow> nat \<Rightarrow> nat \<Rightarrow> u8 list" where
  "bytes_at bs off k = take k (drop off bs)"

definition set_bytes :: "u8 list \<Rightarrow> nat \<Rightarrow> u8 list \<Rightarrow> u8 list" where
  "set_bytes bs off ds = take off bs @ ds @ drop (off + length ds) bs"

definition ld16 :: "u8 list \<Rightarrow> nat \<Rightarrow> u16" where
  "ld16 bs off = of_nat (le_val (bytes_at bs off 2))"

definition st16 :: "u8 list \<Rightarrow> nat \<Rightarrow> u16 \<Rightarrow> u8 list" where
  "st16 bs off v = set_bytes bs off (le_bytes 2 (unat v))"

definition ld32 :: "u8 list \<Rightarrow> nat \<Rightarrow> u32" where
  "ld32 bs off = of_nat (le_val (bytes_at bs off 4))"

definition st32 :: "u8 list \<Rightarrow> nat \<Rightarrow> u32 \<Rightarrow> u8 list" where
  "st32 bs off v = set_bytes bs off (le_bytes 4 (unat v))"

definition ld64 :: "u8 list \<Rightarrow> nat \<Rightarrow> u64" where
  "ld64 bs off = of_nat (le_val (bytes_at bs off 8))"

named_theorems byte_simps \<open>reads of fields after writes of fields\<close>

lemma length_bytes_at [simp]: "off + k \<le> length bs \<Longrightarrow> length (bytes_at bs off k) = k"
  by (simp add: bytes_at_def)

lemma length_set_bytes [simp]: "off + length ds \<le> length bs \<Longrightarrow> length (set_bytes bs off ds) = length bs"
  by (simp add: set_bytes_def)

lemma length_st [simp]:
  "off + 2 \<le> length bs \<Longrightarrow> length (st16 bs off v) = length bs"
  "off + 4 \<le> length bs \<Longrightarrow> length (st32 bs off w) = length bs"
  by (simp_all add: st16_def st32_def)

lemma bytes_at_set_same [byte_simps]:
  assumes "off + length ds \<le> length bs"
  shows "bytes_at (set_bytes bs off ds) off (length ds) = ds"
  using assms by (simp add: bytes_at_def set_bytes_def)

lemma set_bytes_nth:
  assumes "off + length ds \<le> length bs" and "i < length bs"
  shows "set_bytes bs off ds ! i = (if off \<le> i \<and> i < off + length ds then ds ! (i - off) else bs ! i)"
  using assms by (auto simp: set_bytes_def nth_append min_def)

lemma bytes_at_nth: "off + k \<le> length bs \<Longrightarrow> i < k \<Longrightarrow> bytes_at bs off k ! i = bs ! (off + i)"
  by (simp add: bytes_at_def)

lemma bytes_at_set_other [byte_simps]:
  assumes "off + length ds \<le> length bs" and "off' + k \<le> length bs"
    and "off + length ds \<le> off' \<or> off' + k \<le> off"
  shows "bytes_at (set_bytes bs off ds) off' k = bytes_at bs off' k"
  using assms by (intro nth_equalityI) (auto simp: bytes_at_nth set_bytes_nth)

lemma ld_st_same [byte_simps]:
  "off + 2 \<le> length bs \<Longrightarrow> ld16 (st16 bs off v) off = v"
  "off + 4 \<le> length bs \<Longrightarrow> ld32 (st32 bs off w) off = w"
proof -
  have "unat v < 256 ^ 2" "unat w < 256 ^ 4"
    using unsigned_less [of v, where ?'a = nat] unsigned_less [of w, where ?'a = nat] by simp_all
  moreover assume "off + 2 \<le> length bs"
  ultimately show "ld16 (st16 bs off v) off = v"
    using bytes_at_set_same [of off "le_bytes 2 (unat v)" bs] by (simp add: ld16_def st16_def le_val_bytes)
next
  have "unat w < 256 ^ 4" using unsigned_less [of w, where ?'a = nat] by simp
  moreover assume "off + 4 \<le> length bs"
  ultimately show "ld32 (st32 bs off w) off = w"
    using bytes_at_set_same [of off "le_bytes 4 (unat w)" bs] by (simp add: ld32_def st32_def le_val_bytes)
qed

lemma ld_st_other [byte_simps]:
  "off + 2 \<le> length bs \<Longrightarrow> off' + 2 \<le> length bs \<Longrightarrow> off + 2 \<le> off' \<or> off' + 2 \<le> off \<Longrightarrow>
     ld16 (st16 bs off v) off' = ld16 bs off'"
  "off + 4 \<le> length bs \<Longrightarrow> off' + 2 \<le> length bs \<Longrightarrow> off + 4 \<le> off' \<or> off' + 2 \<le> off \<Longrightarrow>
     ld16 (st32 bs off w) off' = ld16 bs off'"
  "off + 2 \<le> length bs \<Longrightarrow> off' + 4 \<le> length bs \<Longrightarrow> off + 2 \<le> off' \<or> off' + 4 \<le> off \<Longrightarrow>
     ld32 (st16 bs off v) off' = ld32 bs off'"
  "off + 4 \<le> length bs \<Longrightarrow> off' + 4 \<le> length bs \<Longrightarrow> off + 4 \<le> off' \<or> off' + 4 \<le> off \<Longrightarrow>
     ld32 (st32 bs off w) off' = ld32 bs off'"
  by (simp_all add: ld16_def ld32_def st16_def st32_def bytes_at_set_other)

lemma bytes_at_st_other [byte_simps]:
  "off + 2 \<le> length bs \<Longrightarrow> off' + k \<le> length bs \<Longrightarrow> off + 2 \<le> off' \<or> off' + k \<le> off \<Longrightarrow>
     bytes_at (st16 bs off v) off' k = bytes_at bs off' k"
  "off + 4 \<le> length bs \<Longrightarrow> off' + k \<le> length bs \<Longrightarrow> off + 4 \<le> off' \<or> off' + k \<le> off \<Longrightarrow>
     bytes_at (st32 bs off w) off' k = bytes_at bs off' k"
  by (simp_all add: st16_def st32_def bytes_at_set_other)

lemma ld_set_bytes_other [byte_simps]:
  "off + length ds \<le> length bs \<Longrightarrow> off' + 2 \<le> length bs \<Longrightarrow> off + length ds \<le> off' \<or> off' + 2 \<le> off \<Longrightarrow>
     ld16 (set_bytes bs off ds) off' = ld16 bs off'"
  "off + length ds \<le> length bs \<Longrightarrow> off' + 4 \<le> length bs \<Longrightarrow> off + length ds \<le> off' \<or> off' + 4 \<le> off \<Longrightarrow>
     ld32 (set_bytes bs off ds) off' = ld32 bs off'"
  by (simp_all add: ld16_def ld32_def bytes_at_set_other)

end
