(* ===== verification/Bio.thy ===== *)
theory Bio
  imports Virtio Bytes
begin

text \<open>
  The buffer cache \<open>kernel/bio.c\<close>. The buffers are \<open>bufs s b\<close> for \<open>b < NBUF\<close> and the head of the list of
  recently used buffers is \<open>bufs s BHEAD\<close>; a \<open>struct buf *\<close> is such an index. Their data is the part
  \<open>q_data\<close> of the memory shared with the disk.

  The calls of \<open>virtio_disk_rw\<close> are \<open>disk_rw\<close>: the call together with the wait for the device.
\<close>

section \<open>Operations\<close>

definition MAXOPBLOCKS :: nat where "MAXOPBLOCKS = 10"

definition NBUF :: nat where "NBUF = MAXOPBLOCKS * 3"

definition BHEAD :: nat where "BHEAD = NBUF"

definition bdata :: "'z vdisk_scheme \<Rightarrow> nat \<Rightarrow> u8 list" where
  "bdata s b = q_data (dma s) b"

definition set_bdata :: "nat \<Rightarrow> (u8 list \<Rightarrow> u8 list) \<Rightarrow> ('z vdisk_scheme, unit) kfun" where
  "set_bdata b f = dmod (\<lambda>d. d\<lparr>q_data := (q_data d)(b := f (q_data d b))\<rparr>)"

text \<open>Inserting a buffer right behind the head of the list.\<close>

definition link_front :: "nat \<Rightarrow> (nat \<Rightarrow> buf) \<Rightarrow> nat \<Rightarrow> buf" where
  "link_front b bs =
     (let bs = bs(b := (bs b)\<lparr>b_next := b_next (bs BHEAD)\<rparr>);
          bs = bs(b := (bs b)\<lparr>b_prev := BHEAD\<rparr>);
          n = b_next (bs BHEAD);
          bs = bs(n := (bs n)\<lparr>b_prev := b\<rparr>)
      in bs(BHEAD := (bs BHEAD)\<lparr>b_next := b\<rparr>))"

definition binit :: "('z vdisk_scheme, unit) kfun" where
  "binit =
     kseq (initlock Bcache_lock ''bcache'') (
     kseq (bufset BHEAD (\<lambda>c. c\<lparr>b_prev := BHEAD\<rparr>)) (
     kseq (bufset BHEAD (\<lambda>c. c\<lparr>b_next := BHEAD\<rparr>)) (
     kfor [0..<NBUF] (\<lambda>b.
       kseq (initsleeplock (Buf_lock b) ''buffer'')
       (kmod (\<lambda>s. s\<lparr>bufs := link_front b (bufs s)\<rparr>))))))"

text \<open>
  A walk along the list from \<open>b\<close> to the first buffer with \<open>P\<close>: \<open>Some None\<close> when it reaches the head
  again. The list holds \<open>NBUF\<close> buffers and the head, so a walk that takes more turns does not end.
\<close>

primrec bscan :: "nat \<Rightarrow> (nat \<Rightarrow> buf) \<Rightarrow> (buf \<Rightarrow> nat) \<Rightarrow> (buf \<Rightarrow> bool) \<Rightarrow> nat \<Rightarrow> nat option option" where
  "bscan 0 bs dir P b = None"
| "bscan (Suc n) bs dir P b =
     (if b = BHEAD then Some None else if P (bs b) then Some (Some b) else bscan n bs dir P (dir (bs b)))"

definition kscan :: "(buf \<Rightarrow> nat) \<Rightarrow> (buf \<Rightarrow> bool) \<Rightarrow> ('z vdisk_scheme, nat option) kfun" where
  "kscan dir P = (\<lambda>s. case bscan (Suc NBUF) (bufs s) dir P (dir (bufs s BHEAD)) of
     None \<Rightarrow> Spin | Some r \<Rightarrow> Ret r s)"

definition bget :: "u32 \<Rightarrow> u32 \<Rightarrow> ('z vdisk_scheme, nat) kfun" where
  "bget dev blockno =
     kseq (acquire Bcache_lock) (
     kbind (kscan b_next (\<lambda>c. b_dev c = dev \<and> b_blockno c = blockno)) (\<lambda>r.
     case r of
       Some b \<Rightarrow>
         kseq (bufset b (\<lambda>c. c\<lparr>b_refcnt := b_refcnt c + 1\<rparr>)) (
         kseq (release Bcache_lock) (
         kseq (acquiresleep (Buf_lock b))
         (kret b)))
     | None \<Rightarrow>
         kbind (kscan b_prev (\<lambda>c. b_refcnt c = 0)) (\<lambda>r.
         case r of
           Some b \<Rightarrow>
             kseq (bufset b (\<lambda>c. c\<lparr>b_dev := dev\<rparr>)) (
             kseq (bufset b (\<lambda>c. c\<lparr>b_blockno := blockno\<rparr>)) (
             kseq (bufset b (\<lambda>c. c\<lparr>b_valid := 0\<rparr>)) (
             kseq (bufset b (\<lambda>c. c\<lparr>b_refcnt := 1\<rparr>)) (
             kseq (release Bcache_lock) (
             kseq (acquiresleep (Buf_lock b))
             (kret b))))))
         | None \<Rightarrow> kpanic ''bget: no buffers'')))"

definition bread :: "u32 \<Rightarrow> u32 \<Rightarrow> ('z vdisk_scheme, nat) kfun" where
  "bread dev blockno =
     kbind (bget dev blockno) (\<lambda>b.
     kbind (bufget b b_valid) (\<lambda>v.
     kseq (kwhen (v = 0) (
       kseq (disk_rw b False)
       (bufset b (\<lambda>c. c\<lparr>b_valid := 1\<rparr>))))
     (kret b)))"

definition bwrite :: "nat \<Rightarrow> ('z vdisk_scheme, unit) kfun" where
  "bwrite b =
     kbind (holdingsleep (Buf_lock b)) (\<lambda>h.
     if \<not> h then kpanic ''bwrite'' else disk_rw b True)"

text \<open>Taking a buffer out of the list.\<close>

definition unlink_buf :: "nat \<Rightarrow> (nat \<Rightarrow> buf) \<Rightarrow> nat \<Rightarrow> buf" where
  "unlink_buf b bs =
     (let n = b_next (bs b);
          bs = bs(n := (bs n)\<lparr>b_prev := b_prev (bs b)\<rparr>);
          p = b_prev (bs b)
      in bs(p := (bs p)\<lparr>b_next := b_next (bs b)\<rparr>))"

definition brelse :: "nat \<Rightarrow> ('z vdisk_scheme, unit) kfun" where
  "brelse b =
     kbind (holdingsleep (Buf_lock b)) (\<lambda>h.
     if \<not> h then kpanic ''brelse'' else
     kseq (releasesleep (Buf_lock b)) (
     kseq (acquire Bcache_lock) (
     kseq (bufset b (\<lambda>c. c\<lparr>b_refcnt := b_refcnt c - 1\<rparr>)) (
     kbind (bufget b b_refcnt) (\<lambda>r.
     kseq (kwhen (r = 0) (kmod (\<lambda>s. s\<lparr>bufs := link_front b (unlink_buf b (bufs s))\<rparr>)))
     (release Bcache_lock))))))"

definition bpin :: "nat \<Rightarrow> ('z vdisk_scheme, unit) kfun" where
  "bpin b =
     kseq (acquire Bcache_lock) (
     kseq (bufset b (\<lambda>c. c\<lparr>b_refcnt := b_refcnt c + 1\<rparr>))
     (release Bcache_lock))"

definition bunpin :: "nat \<Rightarrow> ('z vdisk_scheme, unit) kfun" where
  "bunpin b =
     kseq (acquire Bcache_lock) (
     kseq (bufset b (\<lambda>c. c\<lparr>b_refcnt := b_refcnt c - 1\<rparr>))
     (release Bcache_lock))"

end
