(* ===== verification/Log.thy ===== *)
theory Log
  imports Bio
begin

text \<open>
  The redo log \<open>kernel/log.c\<close>: transactions of the file system calls, the commit, and the recovery after
  a crash. The on-disk header is the block \<open>log_start\<close>, the logged blocks follow it.
  \<open>begin_op\<close> sleeps while a commit runs or the log may run out of space; \<open>begin_op_loop\<close> is the loop
  that it re-enters when it wakes.

  The array \<open>lh_block\<close> has \<open>LOGSIZE\<close> elements in the source. \<open>read_head\<close> copies as many elements as the
  header block says without comparing the number with \<open>LOGSIZE\<close>; the lemmas assume a header within
  that bound.
\<close>

section \<open>State\<close>

definition LOGSIZE :: nat where "LOGSIZE = MAXOPBLOCKS * 3"

record logstate =
  log_start :: int
  log_size :: int
  outstanding :: int
  committing :: int
  log_dev :: int
  lh_n :: int
  lh_block :: "nat \<Rightarrow> int"

record logs = vdisk +
  klog :: logstate

definition logget :: "(logstate \<Rightarrow> 'a) \<Rightarrow> ('z logs_scheme, 'a) kfun" where
  "logget f = kget (\<lambda>s. f (klog s))"

definition logset :: "(logstate \<Rightarrow> logstate) \<Rightarrow> ('z logs_scheme, unit) kfun" where
  "logset f = kmod (\<lambda>s. s\<lparr>klog := f (klog s)\<rparr>)"

lemma logget_app [simp]: "logget f s = Ret (f (klog s)) s"
  by (simp add: logget_def)

lemma logset_app [simp]: "logset f s = Ret () (s\<lparr>klog := f (klog s)\<rparr>)"
  by (simp add: logset_def)

text \<open>The fields of the superblock that the log needs are arguments of \<open>initlog\<close>.\<close>

definition u32_of :: "int \<Rightarrow> u32" where
  "u32_of i = word_of_int i"

section \<open>Installing and recovering\<close>

definition install_one :: "bool \<Rightarrow> nat \<Rightarrow> ('z logs_scheme, unit) kfun" where
  "install_one recovering tail =
     kbind (logget id) (\<lambda>l.
     kbind (bread (u32_of (log_dev l)) (u32_of (log_start l + int tail + 1))) (\<lambda>lbuf.
     kbind (bread (u32_of (log_dev l)) (u32_of (lh_block l tail))) (\<lambda>dbuf.
     kbind (kget (\<lambda>s. bdata s lbuf)) (\<lambda>bs.
     kseq (set_bdata dbuf (\<lambda>_. bs)) (
     kseq (bwrite dbuf) (
     kseq (kwhen (\<not> recovering) (bunpin dbuf)) (
     kseq (brelse lbuf)
     (brelse dbuf))))))))"

definition install_trans :: "bool \<Rightarrow> ('z logs_scheme, unit) kfun" where
  "install_trans recovering =
     kbind (logget lh_n) (\<lambda>n. kfor [0..<nat n] (install_one recovering))"

text \<open>The header block: the number of logged blocks, then their block numbers, four bytes each.\<close>

definition head_n :: "u8 list \<Rightarrow> int" where
  "head_n bs = sint (ld32 bs 0)"

definition head_block :: "u8 list \<Rightarrow> nat \<Rightarrow> int" where
  "head_block bs i = sint (ld32 bs (4 + 4 * i))"

definition read_head :: "('z logs_scheme, unit) kfun" where
  "read_head =
     kbind (logget id) (\<lambda>l.
     kbind (bread (u32_of (log_dev l)) (u32_of (log_start l))) (\<lambda>b.
     kbind (kget (\<lambda>s. bdata s b)) (\<lambda>bs.
     kseq (logset (\<lambda>l. l\<lparr>lh_n := head_n bs\<rparr>)) (
     kseq (kfor [0..<nat (head_n bs)] (\<lambda>i. logset (\<lambda>l. l\<lparr>lh_block := (lh_block l)(i := head_block bs i)\<rparr>)))
     (brelse b)))))"

primrec put_blocks :: "nat \<Rightarrow> (nat \<Rightarrow> int) \<Rightarrow> u8 list \<Rightarrow> u8 list" where
  "put_blocks 0 f bs = bs"
| "put_blocks (Suc n) f bs = st32 (put_blocks n f bs) (4 + 4 * n) (u32_of (f n))"

definition write_head :: "('z logs_scheme, unit) kfun" where
  "write_head =
     kbind (logget id) (\<lambda>l.
     kbind (bread (u32_of (log_dev l)) (u32_of (log_start l))) (\<lambda>b.
     kseq (set_bdata b (\<lambda>bs. put_blocks (nat (lh_n l)) (lh_block l) (st32 bs 0 (u32_of (lh_n l))))) (
     kseq (bwrite b)
     (brelse b))))"

definition recover_from_log :: "('z logs_scheme, unit) kfun" where
  "recover_from_log =
     kseq read_head (
     kseq (install_trans True) (
     kseq (logset (\<lambda>l. l\<lparr>lh_n := 0\<rparr>))
     write_head))"

definition initlog :: "int \<Rightarrow> u32 \<Rightarrow> u32 \<Rightarrow> ('z logs_scheme, unit) kfun" where
  "initlog dev logstart nlog =
     (if 4 + 4 * LOGSIZE \<ge> BSIZE then kpanic ''initlog: too big logheader'' else
      kseq (initlock Log_lock ''log'') (
      kseq (logset (\<lambda>l. l\<lparr>log_start := sint logstart\<rparr>)) (
      kseq (logset (\<lambda>l. l\<lparr>log_size := sint nlog\<rparr>)) (
      kseq (logset (\<lambda>l. l\<lparr>log_dev := dev\<rparr>))
      recover_from_log))))"

section \<open>Transactions\<close>

definition begin_op_loop :: "('z logs_scheme, unit) kfun" where
  "begin_op_loop =
     kbind (logget id) (\<lambda>l.
     if committing l \<noteq> 0 then sleep Chan_log Log_lock
     else if lh_n l + (outstanding l + 1) * int MAXOPBLOCKS > int LOGSIZE then sleep Chan_log Log_lock
     else
       kseq (logset (\<lambda>l. l\<lparr>outstanding := outstanding l + 1\<rparr>))
       (release Log_lock))"

definition begin_op :: "('z logs_scheme, unit) kfun" where
  "begin_op = kseq (acquire Log_lock) begin_op_loop"

definition begin_op_resume :: "nat \<Rightarrow> bool \<Rightarrow> ('z logs_scheme, unit) kfun" where
  "begin_op_resume p ena = kseq (sleep_resume p Log_lock ena) begin_op_loop"

definition write_log_one :: "nat \<Rightarrow> ('z logs_scheme, unit) kfun" where
  "write_log_one tail =
     kbind (logget id) (\<lambda>l.
     kbind (bread (u32_of (log_dev l)) (u32_of (log_start l + int tail + 1))) (\<lambda>to.
     kbind (bread (u32_of (log_dev l)) (u32_of (lh_block l tail))) (\<lambda>fr.
     kbind (kget (\<lambda>s. bdata s fr)) (\<lambda>bs.
     kseq (set_bdata to (\<lambda>_. bs)) (
     kseq (bwrite to) (
     kseq (brelse fr)
     (brelse to)))))))"

definition write_log :: "('z logs_scheme, unit) kfun" where
  "write_log = kbind (logget lh_n) (\<lambda>n. kfor [0..<nat n] write_log_one)"

definition commit :: "('z logs_scheme, unit) kfun" where
  "commit =
     kbind (logget lh_n) (\<lambda>n.
     kwhen (n > 0) (
       kseq write_log (
       kseq write_head (
       kseq (install_trans False) (
       kseq (logset (\<lambda>l. l\<lparr>lh_n := 0\<rparr>))
       write_head)))))"

definition end_op :: "('z logs_scheme, unit) kfun" where
  "end_op =
     kseq (acquire Log_lock) (
     kseq (logset (\<lambda>l. l\<lparr>outstanding := outstanding l - 1\<rparr>)) (
     kbind (logget id) (\<lambda>l.
     if committing l \<noteq> 0 then kpanic ''log.committing'' else
     if outstanding l = 0 then
       kseq (logset (\<lambda>l. l\<lparr>committing := 1\<rparr>)) (
       kseq (release Log_lock) (
       kseq commit (
       kseq (acquire Log_lock) (
       kseq (logset (\<lambda>l. l\<lparr>committing := 0\<rparr>)) (
       kseq (wakeup (Some Chan_log))
       (release Log_lock))))))
     else
       kseq (wakeup (Some Chan_log))
       (release Log_lock))))"

text \<open>The position of a block in the log, or the end of the log.\<close>

primrec log_index :: "nat \<Rightarrow> nat \<Rightarrow> (nat \<Rightarrow> int) \<Rightarrow> int \<Rightarrow> nat" where
  "log_index 0 i f blockno = i"
| "log_index (Suc k) i f blockno = (if f i = blockno then i else log_index k (Suc i) f blockno)"

definition log_write :: "nat \<Rightarrow> ('z logs_scheme, unit) kfun" where
  "log_write b =
     kseq (acquire Log_lock) (
     kbind (logget id) (\<lambda>l.
     if lh_n l \<ge> int LOGSIZE \<or> lh_n l \<ge> log_size l - 1 then kpanic ''too big a transaction'' else
     if outstanding l < 1 then kpanic ''log_write outside of trans'' else
     kbind (bufget b (\<lambda>c. sint (b_blockno c))) (\<lambda>blockno.
     let i = log_index (nat (lh_n l)) 0 (lh_block l) blockno in
     kseq (logset (\<lambda>l. l\<lparr>lh_block := (lh_block l)(i := blockno)\<rparr>)) (
     kseq (kwhen (int i = lh_n l) (
       kseq (bpin b)
       (logset (\<lambda>l. l\<lparr>lh_n := lh_n l + 1\<rparr>))))
     (release Log_lock)))))"

end
