(* ===== verification/Fs.thy ===== *)
theory Fs
  imports Log
begin

text \<open>
  The file system below directories: \<open>kernel/fs.c\<close> from the superblock to \<open>writei\<close>, with the structures
  of \<open>kernel/fs.h\<close>, \<open>kernel/file.h\<close> and \<open>kernel/stat.h\<close>, and \<open>either_copyout\<close>, \<open>either_copyin\<close> of
  \<open>kernel/proc.c\<close>.

  A \<open>struct inode *\<close> is an index of the inode table. On-disk structures are read and written at their
  offsets in the data of a buffer. The destination of a read is a user address, a kernel address, or a
  local variable of the caller, whose new bytes are part of the result; the source of a write is a user
  address or the bytes of a kernel object.
\<close>

section \<open>On-disk structures\<close>

definition ROOTINO :: u32 where "ROOTINO = 1"
definition ROOTDEV :: u32 where "ROOTDEV = 1"
definition FSMAGIC :: u32 where "FSMAGIC = 0x10203040"
definition NDIRECT :: nat where "NDIRECT = 12"
definition NINDIRECT :: nat where "NINDIRECT = BSIZE div 4"
definition MAXFILE :: nat where "MAXFILE = NDIRECT + NINDIRECT"
definition IPB :: nat where "IPB = BSIZE div 64"
definition BPB :: nat where "BPB = BSIZE * 8"
definition NINODE :: nat where "NINODE = 50"

record superblock =
  sb_magic :: u32
  sb_size :: u32
  sb_nblocks :: u32
  sb_ninodes :: u32
  sb_nlog :: u32
  sb_logstart :: u32
  sb_inodestart :: u32
  sb_bmapstart :: u32

definition superblock_of :: "u8 list \<Rightarrow> superblock" where
  "superblock_of bs = \<lparr>sb_magic = ld32 bs 0, sb_size = ld32 bs 4, sb_nblocks = ld32 bs 8, sb_ninodes = ld32 bs 12,
     sb_nlog = ld32 bs 16, sb_logstart = ld32 bs 20, sb_inodestart = ld32 bs 24, sb_bmapstart = ld32 bs 28\<rparr>"

definition IBLOCK :: "u32 \<Rightarrow> superblock \<Rightarrow> u32" where
  "IBLOCK i sb = i div of_nat IPB + sb_inodestart sb"

definition BBLOCK :: "u32 \<Rightarrow> superblock \<Rightarrow> u32" where
  "BBLOCK b sb = b div of_nat BPB + sb_bmapstart sb"

record dinode =
  di_type :: int
  di_major :: int
  di_minor :: int
  di_nlink :: int
  di_size :: u32
  di_addrs :: "u32 list"

text \<open>The dinode at byte \<open>o\<close> of a block: four \<open>short\<close>, the size, and \<open>NDIRECT + 1\<close> addresses.\<close>

definition dinode_of :: "u8 list \<Rightarrow> nat \<Rightarrow> dinode" where
  "dinode_of bs k = \<lparr>di_type = sint (ld16 bs k), di_major = sint (ld16 bs (k + 2)), di_minor = sint (ld16 bs (k + 4)),
     di_nlink = sint (ld16 bs (k + 6)), di_size = ld32 bs (k + 8),
     di_addrs = map (\<lambda>i. ld32 bs (k + 12 + 4 * i)) [0..<NDIRECT + 1]\<rparr>"

primrec put_addrs :: "u32 list \<Rightarrow> nat \<Rightarrow> u8 list \<Rightarrow> u8 list" where
  "put_addrs [] k bs = bs"
| "put_addrs (a # as) k bs = put_addrs as (k + 4) (st32 bs k a)"

definition put_dinode :: "dinode \<Rightarrow> nat \<Rightarrow> u8 list \<Rightarrow> u8 list" where
  "put_dinode d k bs =
     (let bs = st16 bs k (word_of_int (di_type d));
          bs = st16 bs (k + 2) (word_of_int (di_major d));
          bs = st16 bs (k + 4) (word_of_int (di_minor d));
          bs = st16 bs (k + 6) (word_of_int (di_nlink d));
          bs = st32 bs (k + 8) (di_size d)
      in put_addrs (di_addrs d) (k + 12) bs)"

definition dinode_pos :: "u32 \<Rightarrow> nat" where
  "dinode_pos inum = 64 * (unat inum mod IPB)"

section \<open>State\<close>

record inode =
  i_dev :: u32
  i_inum :: u32
  i_ref :: int
  i_valid :: int
  i_type :: int
  i_major :: int
  i_minor :: int
  i_nlink :: int
  i_size :: u32
  i_addrs :: "u32 list"

record fsys = logs +
  sb :: superblock
  itable :: "nat \<Rightarrow> inode"

definition iget_f :: "nat \<Rightarrow> (inode \<Rightarrow> 'a) \<Rightarrow> ('z fsys_scheme, 'a) kfun" where
  "iget_f i f = kget (\<lambda>s. f (itable s i))"

definition iset :: "nat \<Rightarrow> (inode \<Rightarrow> inode) \<Rightarrow> ('z fsys_scheme, unit) kfun" where
  "iset i f = kmod (\<lambda>s. s\<lparr>itable := (itable s)(i := f (itable s i))\<rparr>)"

lemma iget_f_app [simp]: "iget_f i f s = Ret (f (itable s i)) s"
  by (simp add: iget_f_def)

lemma iset_app [simp]: "iset i f s = Ret () (s\<lparr>itable := (itable s)(i := f (itable s i))\<rparr>)"
  by (simp add: iset_def)

section \<open>Blocks\<close>

definition readsb :: "int \<Rightarrow> ('z fsys_scheme, unit) kfun" where
  "readsb dev =
     kbind (bread (u32_of dev) 1) (\<lambda>b.
     kbind (kget (\<lambda>s. bdata s b)) (\<lambda>bs.
     kseq (kmod (\<lambda>s. s\<lparr>sb := superblock_of bs\<rparr>))
     (brelse b)))"

definition fsinit :: "int \<Rightarrow> ('z fsys_scheme, unit) kfun" where
  "fsinit dev =
     kseq (readsb dev) (
     kbind (kget sb) (\<lambda>b.
     if sb_magic b \<noteq> FSMAGIC then kpanic ''invalid file system'' else
     initlog dev (sb_logstart b) (sb_nlog b)))"

definition bzero :: "u32 \<Rightarrow> u32 \<Rightarrow> ('z fsys_scheme, unit) kfun" where
  "bzero dev bno =
     kbind (bread dev bno) (\<lambda>b.
     kseq (set_bdata b (\<lambda>bs. replicate BSIZE 0)) (
     kseq (log_write b)
     (brelse b)))"

definition bit_of :: "u8 list \<Rightarrow> nat \<Rightarrow> bool" where
  "bit_of bs bi \<longleftrightarrow> and (bs ! (bi div 8)) (push_bit (bi mod 8) 1) \<noteq> 0"

definition set_bit_of :: "nat \<Rightarrow> u8 list \<Rightarrow> u8 list" where
  "set_bit_of bi bs = bs[bi div 8 := or (bs ! (bi div 8)) (push_bit (bi mod 8) 1)]"

definition clear_bit_of :: "nat \<Rightarrow> u8 list \<Rightarrow> u8 list" where
  "clear_bit_of bi bs = bs[bi div 8 := and (bs ! (bi div 8)) (not (push_bit (bi mod 8) 1))]"

text \<open>The outer loop of \<open>balloc\<close>, at the block number \<open>b\<close>; it runs once for each block of the bitmap.\<close>

primrec balloc_loop :: "nat \<Rightarrow> u32 \<Rightarrow> nat \<Rightarrow> ('z fsys_scheme, u32) kfun" where
  "balloc_loop 0 dev b = kspin"
| "balloc_loop (Suc k) dev b =
     kbind (kget sb) (\<lambda>sb.
     if b < unat (sb_size sb) then
       kbind (bread dev (BBLOCK (of_nat b) sb)) (\<lambda>bp.
       kbind (kget (\<lambda>s. bdata s bp)) (\<lambda>bs.
       case find (\<lambda>bi. b + bi < unat (sb_size sb) \<and> \<not> bit_of bs bi) [0..<BPB] of
         Some bi \<Rightarrow>
           kseq (set_bdata bp (set_bit_of bi)) (
           kseq (log_write bp) (
           kseq (brelse bp) (
           kseq (bzero dev (of_nat (b + bi)))
           (kret (of_nat (b + bi))))))
       | None \<Rightarrow> kseq (brelse bp) (balloc_loop k dev (b + BPB))))
     else
       kseq (printf (Some (''balloc: out of blocks'' @ [CHR 0x0A])) [])
       (kret 0))"

definition balloc :: "u32 \<Rightarrow> ('z fsys_scheme, u32) kfun" where
  "balloc dev = kbind (kget sb) (\<lambda>b. balloc_loop (unat (sb_size b) div BPB + 2) dev 0)"

definition bfree :: "u32 \<Rightarrow> u32 \<Rightarrow> ('z fsys_scheme, unit) kfun" where
  "bfree dev b =
     kbind (kget sb) (\<lambda>sb.
     kbind (bread dev (BBLOCK b sb)) (\<lambda>bp.
     let bi = unat b mod BPB in
     kbind (kget (\<lambda>s. bdata s bp)) (\<lambda>bs.
     if \<not> bit_of bs bi then kpanic ''freeing free block'' else
     kseq (set_bdata bp (clear_bit_of bi)) (
     kseq (log_write bp)
     (brelse bp)))))"

section \<open>Inodes\<close>

definition iinit :: "('z fsys_scheme, unit) kfun" where
  "iinit =
     kseq (initlock Itable_lock ''itable'')
     (kfor [0..<NINODE] (\<lambda>i. initsleeplock (Inode_lock i) ''inode''))"

text \<open>The scan of \<open>iget\<close>: the entry that holds the inode, or else the first entry that is not in use.\<close>

definition iget_hit :: "(nat \<Rightarrow> inode) \<Rightarrow> u32 \<Rightarrow> u32 \<Rightarrow> nat option" where
  "iget_hit tab dev inum = find (\<lambda>i. 0 < i_ref (tab i) \<and> i_dev (tab i) = dev \<and> i_inum (tab i) = inum) [0..<NINODE]"

definition iget_empty :: "(nat \<Rightarrow> inode) \<Rightarrow> nat option" where
  "iget_empty tab = find (\<lambda>i. i_ref (tab i) = 0) [0..<NINODE]"

definition iget :: "u32 \<Rightarrow> u32 \<Rightarrow> ('z fsys_scheme, nat) kfun" where
  "iget dev inum =
     kseq (acquire Itable_lock) (
     kbind (kget itable) (\<lambda>tab.
     case iget_hit tab dev inum of
       Some ip \<Rightarrow>
         kseq (iset ip (\<lambda>n. n\<lparr>i_ref := i_ref n + 1\<rparr>)) (
         kseq (release Itable_lock)
         (kret ip))
     | None \<Rightarrow> (case iget_empty tab of
         None \<Rightarrow> kpanic ''iget: no inodes''
       | Some ip \<Rightarrow>
           kseq (iset ip (\<lambda>n. n\<lparr>i_dev := dev\<rparr>)) (
           kseq (iset ip (\<lambda>n. n\<lparr>i_inum := inum\<rparr>)) (
           kseq (iset ip (\<lambda>n. n\<lparr>i_ref := 1\<rparr>)) (
           kseq (iset ip (\<lambda>n. n\<lparr>i_valid := 0\<rparr>)) (
           kseq (release Itable_lock)
           (kret ip))))))))"

definition zero_dinode :: "nat \<Rightarrow> u8 list \<Rightarrow> u8 list" where
  "zero_dinode k bs = set_bytes bs k (replicate 64 0)"

fun ialloc_loop :: "nat list \<Rightarrow> u32 \<Rightarrow> int \<Rightarrow> ('z fsys_scheme, nat option) kfun" where
  "ialloc_loop [] dev type =
     kseq (printf (Some (''ialloc: no inodes'' @ [CHR 0x0A])) []) (kret None)"
| "ialloc_loop (inum # inums) dev type =
     kbind (kget sb) (\<lambda>sb.
     kbind (bread dev (IBLOCK (of_nat inum) sb)) (\<lambda>bp.
     let k = dinode_pos (of_nat inum) in
     kbind (kget (\<lambda>s. dinode_of (bdata s bp) k)) (\<lambda>dip.
     if di_type dip = 0 then
       kseq (set_bdata bp (zero_dinode k)) (
       kseq (set_bdata bp (\<lambda>bs. st16 bs k (word_of_int type))) (
       kseq (log_write bp) (
       kseq (brelse bp) (
       kbind (iget dev (of_nat inum)) (\<lambda>ip.
       kret (Some ip))))))
     else kseq (brelse bp) (ialloc_loop inums dev type))))"

definition ialloc :: "u32 \<Rightarrow> int \<Rightarrow> ('z fsys_scheme, nat option) kfun" where
  "ialloc dev type = kbind (kget sb) (\<lambda>sb. ialloc_loop [1..<unat (sb_ninodes sb)] dev type)"

definition dinode_copy :: "inode \<Rightarrow> dinode" where
  "dinode_copy n = \<lparr>di_type = i_type n, di_major = i_major n, di_minor = i_minor n, di_nlink = i_nlink n,
     di_size = i_size n, di_addrs = i_addrs n\<rparr>"

definition iupdate :: "nat \<Rightarrow> ('z fsys_scheme, unit) kfun" where
  "iupdate ip =
     kbind (iget_f ip id) (\<lambda>n.
     kbind (kget sb) (\<lambda>sb.
     kbind (bread (i_dev n) (IBLOCK (i_inum n) sb)) (\<lambda>bp.
     kseq (set_bdata bp (put_dinode (dinode_copy n) (dinode_pos (i_inum n)))) (
     kseq (log_write bp)
     (brelse bp)))))"

definition idup :: "nat \<Rightarrow> ('z fsys_scheme, nat) kfun" where
  "idup ip =
     kseq (acquire Itable_lock) (
     kseq (iset ip (\<lambda>n. n\<lparr>i_ref := i_ref n + 1\<rparr>)) (
     kseq (release Itable_lock)
     (kret ip)))"

definition load_inode :: "dinode \<Rightarrow> inode \<Rightarrow> inode" where
  "load_inode d n = n\<lparr>i_type := di_type d, i_major := di_major d, i_minor := di_minor d, i_nlink := di_nlink d,
     i_size := di_size d, i_addrs := di_addrs d\<rparr>"

definition ilock :: "nat option \<Rightarrow> ('z fsys_scheme, unit) kfun" where
  "ilock r = (case r of None \<Rightarrow> kpanic ''ilock'' | Some ip \<Rightarrow>
     kbind (iget_f ip i_ref) (\<lambda>ref.
     if ref < 1 then kpanic ''ilock'' else
     kseq (acquiresleep (Inode_lock ip)) (
     kbind (iget_f ip id) (\<lambda>n.
     kwhen (i_valid n = 0) (
       kbind (kget sb) (\<lambda>sb.
       kbind (bread (i_dev n) (IBLOCK (i_inum n) sb)) (\<lambda>bp.
       kbind (kget (\<lambda>s. dinode_of (bdata s bp) (dinode_pos (i_inum n)))) (\<lambda>d.
       kseq (iset ip (load_inode d)) (
       kseq (brelse bp) (
       kseq (iset ip (\<lambda>n. n\<lparr>i_valid := 1\<rparr>)) (
       kbind (iget_f ip i_type) (\<lambda>t.
       kwhen (t = 0) (kpanic ''ilock: no type'')))))))))))))"

definition iunlock :: "nat option \<Rightarrow> ('z fsys_scheme, unit) kfun" where
  "iunlock r = (case r of None \<Rightarrow> kpanic ''iunlock'' | Some ip \<Rightarrow>
     kbind (holdingsleep (Inode_lock ip)) (\<lambda>h.
     kbind (iget_f ip i_ref) (\<lambda>ref.
     if \<not> h \<or> ref < 1 then kpanic ''iunlock'' else
     releasesleep (Inode_lock ip))))"

section \<open>Inode content\<close>

definition block_addr :: "u8 list \<Rightarrow> nat \<Rightarrow> u32" where
  "block_addr bs i = ld32 bs (4 * i)"

definition bmap_indirect :: "nat \<Rightarrow> nat \<Rightarrow> u32 \<Rightarrow> ('z fsys_scheme, u32) kfun" where
  "bmap_indirect ip bn ind =
     kbind (iget_f ip i_dev) (\<lambda>dev.
     kbind (bread dev ind) (\<lambda>bp.
     kbind (kget (\<lambda>s. block_addr (bdata s bp) bn)) (\<lambda>a.
     kbind (if a = 0 then
              kbind (balloc dev) (\<lambda>a.
              kseq (kwhen (a \<noteq> 0) (
                kseq (set_bdata bp (\<lambda>bs. st32 bs (4 * bn) a))
                (log_write bp)))
              (kret a))
            else kret a) (\<lambda>a.
     kseq (brelse bp)
     (kret a)))))"

definition bmap :: "nat \<Rightarrow> nat \<Rightarrow> ('z fsys_scheme, u32) kfun" where
  "bmap ip bn =
     kbind (iget_f ip id) (\<lambda>n.
     if bn < NDIRECT then
       if i_addrs n ! bn = 0 then
         kbind (balloc (i_dev n)) (\<lambda>a.
         if a = 0 then kret 0 else
         kseq (iset ip (\<lambda>n. n\<lparr>i_addrs := (i_addrs n)[bn := a]\<rparr>))
         (kret a))
       else kret (i_addrs n ! bn)
     else if bn - NDIRECT < NINDIRECT then
       if i_addrs n ! NDIRECT = 0 then
         kbind (balloc (i_dev n)) (\<lambda>a.
         if a = 0 then kret 0 else
         kseq (iset ip (\<lambda>n. n\<lparr>i_addrs := (i_addrs n)[NDIRECT := a]\<rparr>))
         (bmap_indirect ip (bn - NDIRECT) a))
       else bmap_indirect ip (bn - NDIRECT) (i_addrs n ! NDIRECT)
     else kpanic ''bmap: out of range'')"

definition itrunc_direct :: "nat \<Rightarrow> nat \<Rightarrow> ('z fsys_scheme, unit) kfun" where
  "itrunc_direct ip i =
     kbind (iget_f ip id) (\<lambda>n.
     kwhen (i_addrs n ! i \<noteq> 0) (
       kseq (bfree (i_dev n) (i_addrs n ! i))
       (iset ip (\<lambda>n. n\<lparr>i_addrs := (i_addrs n)[i := 0]\<rparr>))))"

definition free_indirect :: "u32 \<Rightarrow> nat \<Rightarrow> nat \<Rightarrow> ('z fsys_scheme, unit) kfun" where
  "free_indirect dev bp j =
     kbind (kget (\<lambda>s. block_addr (bdata s bp) j)) (\<lambda>a.
     kwhen (a \<noteq> 0) (bfree dev a))"

definition itrunc :: "nat \<Rightarrow> ('z fsys_scheme, unit) kfun" where
  "itrunc ip =
     kseq (kfor [0..<NDIRECT] (itrunc_direct ip)) (
     kbind (iget_f ip id) (\<lambda>n.
     kseq (kwhen (i_addrs n ! NDIRECT \<noteq> 0) (
       kbind (bread (i_dev n) (i_addrs n ! NDIRECT)) (\<lambda>bp.
       kseq (kfor [0..<NINDIRECT] (free_indirect (i_dev n) bp)) (
       kseq (brelse bp) (
       kseq (bfree (i_dev n) (i_addrs n ! NDIRECT))
       (iset ip (\<lambda>n. n\<lparr>i_addrs := (i_addrs n)[NDIRECT := 0]\<rparr>)))))))
     (kseq (iset ip (\<lambda>n. n\<lparr>i_size := 0\<rparr>))
     (iupdate ip))))"

definition iput :: "nat \<Rightarrow> ('z fsys_scheme, unit) kfun" where
  "iput ip =
     kseq (acquire Itable_lock) (
     kbind (iget_f ip id) (\<lambda>n.
     kseq (kwhen (i_ref n = 1 \<and> i_valid n \<noteq> 0 \<and> i_nlink n = 0) (
       kseq (acquiresleep (Inode_lock ip)) (
       kseq (release Itable_lock) (
       kseq (itrunc ip) (
       kseq (iset ip (\<lambda>n. n\<lparr>i_type := 0\<rparr>)) (
       kseq (iupdate ip) (
       kseq (iset ip (\<lambda>n. n\<lparr>i_valid := 0\<rparr>)) (
       kseq (releasesleep (Inode_lock ip))
       (acquire Itable_lock)))))))))
     (kseq (iset ip (\<lambda>n. n\<lparr>i_ref := i_ref n - 1\<rparr>))
     (release Itable_lock))))"

definition iunlockput :: "nat \<Rightarrow> ('z fsys_scheme, unit) kfun" where
  "iunlockput ip = kseq (iunlock (Some ip)) (iput ip)"

section \<open>Reading and writing content\<close>

record stat =
  st_dev :: int
  st_ino :: u32
  st_type :: int
  st_nlink :: int
  st_size :: u64

definition stati :: "nat \<Rightarrow> ('z fsys_scheme, stat) kfun" where
  "stati ip = iget_f ip (\<lambda>n. \<lparr>st_dev = sint (i_dev n), st_ino = i_inum n, st_type = i_type n,
     st_nlink = i_nlink n, st_size = ucast (i_size n)\<rparr>)"

datatype kdst = User_dst u64 | Kern_dst u64 | Local_dst

datatype ksrc = User_src u64 | Kern_src "u8 list"

definition either_copyout :: "kdst \<Rightarrow> u8 list \<Rightarrow> ('z kmem_scheme, int) kfun" where
  "either_copyout dst bs =
     kbind myproc (\<lambda>me.
     case dst of
       User_dst va \<Rightarrow> (case me of None \<Rightarrow> kpanic ''kerneltrap''
         | Some p \<Rightarrow> kbind (pget p p_pagetable) (\<lambda>pt. copyout pt va bs))
     | Kern_dst a \<Rightarrow> kseq (mput a bs) (kret 0)
     | Local_dst \<Rightarrow> kret 0)"

text \<open>The bytes that \<open>either_copyin\<close> has stored, also when it fails half way.\<close>

definition either_copyin :: "ksrc \<Rightarrow> nat \<Rightarrow> ('z kmem_scheme, int \<times> u8 list) kfun" where
  "either_copyin src len =
     kbind myproc (\<lambda>me.
     case src of
       User_src va \<Rightarrow> (case me of None \<Rightarrow> kpanic ''kerneltrap''
         | Some p \<Rightarrow> kbind (pget p p_pagetable) (\<lambda>pt. copyin pt va len))
     | Kern_src bs \<Rightarrow> kret (0, take len bs))"

definition dst_plus :: "kdst \<Rightarrow> nat \<Rightarrow> kdst" where
  "dst_plus dst m = (case dst of User_dst a \<Rightarrow> User_dst (a + of_nat m) | Kern_dst a \<Rightarrow> Kern_dst (a + of_nat m)
     | Local_dst \<Rightarrow> Local_dst)"

definition src_plus :: "ksrc \<Rightarrow> nat \<Rightarrow> ksrc" where
  "src_plus src m = (case src of User_src a \<Rightarrow> User_src (a + of_nat m) | Kern_src bs \<Rightarrow> Kern_src (drop m bs))"

text \<open>How much of the block at offset \<open>off\<close> one turn of the loops moves.\<close>

definition bchunk :: "nat \<Rightarrow> nat \<Rightarrow> nat" where
  "bchunk rest off = min rest (BSIZE - off mod BSIZE)"

lemma bchunk_pos: "0 < rest \<Longrightarrow> 0 < bchunk rest off"
  by (simp add: bchunk_def BSIZE_def)

text \<open>
  The loops of \<open>readi\<close> and \<open>writei\<close> with \<open>rest = n - tot\<close> bytes to go. They return the final \<open>tot\<close> (\<open>-1\<close> after
  a failed copy), and the bytes that were delivered or the final \<open>off\<close>. The guards of the callers keep
  \<open>off + rest\<close> below \<open>2 ^ 32\<close>.
\<close>

function readi_loop :: "nat \<Rightarrow> kdst \<Rightarrow> nat \<Rightarrow> nat \<Rightarrow> int \<Rightarrow> ('z fsys_scheme, int \<times> u8 list) kfun" where
  "readi_loop ip dst off rest tot =
     (if rest = 0 then kret (tot, []) else
      kbind (bmap ip (off div BSIZE)) (\<lambda>addr.
      if addr = 0 then kret (tot, []) else
      kbind (iget_f ip i_dev) (\<lambda>dev.
      kbind (bread dev addr) (\<lambda>bp.
      let m = bchunk rest off in
      kbind (kget (\<lambda>s. bytes_at (bdata s bp) (off mod BSIZE) m)) (\<lambda>bs.
      kbind (either_copyout dst bs) (\<lambda>r.
      if r = -1 then kseq (brelse bp) (kret (-1, [])) else
      kseq (brelse bp) (
      kbind (readi_loop ip (dst_plus dst m) (off + m) (rest - m) (tot + int m)) (\<lambda>(tot, more).
      kret (tot, bs @ more)))))))))"
  by pat_completeness auto
termination
  by (relation "measure (\<lambda>(ip, dst, off, rest, tot). rest)") (auto simp: bchunk_pos)

definition readi :: "nat \<Rightarrow> kdst \<Rightarrow> u32 \<Rightarrow> u32 \<Rightarrow> ('z fsys_scheme, int \<times> u8 list) kfun" where
  "readi ip dst off n =
     kbind (iget_f ip i_size) (\<lambda>sz.
     if off > sz \<or> off + n < off then kret (0, []) else
     let n = (if off + n > sz then sz - off else n) in
     readi_loop ip dst (unat off) (unat n) 0)"

function writei_loop :: "nat \<Rightarrow> ksrc \<Rightarrow> nat \<Rightarrow> nat \<Rightarrow> int \<Rightarrow> ('z fsys_scheme, int \<times> nat) kfun" where
  "writei_loop ip src off rest tot =
     (if rest = 0 then kret (tot, off) else
      kbind (bmap ip (off div BSIZE)) (\<lambda>addr.
      if addr = 0 then kret (tot, off) else
      kbind (iget_f ip i_dev) (\<lambda>dev.
      kbind (bread dev addr) (\<lambda>bp.
      let m = bchunk rest off in
      kbind (either_copyin src m) (\<lambda>(r, bs).
      kseq (set_bdata bp (\<lambda>old. set_bytes old (off mod BSIZE) bs)) (
      if r = -1 then kseq (brelse bp) (kret (tot, off)) else
      kseq (log_write bp) (
      kseq (brelse bp)
      (writei_loop ip (src_plus src m) (off + m) (rest - m) (tot + int m)))))))))"
  by pat_completeness auto
termination
  by (relation "measure (\<lambda>(ip, src, off, rest, tot). rest)") (auto simp: bchunk_pos)

declare readi_loop.simps [simp del] writei_loop.simps [simp del]

definition writei :: "nat \<Rightarrow> ksrc \<Rightarrow> u32 \<Rightarrow> u32 \<Rightarrow> ('z fsys_scheme, int) kfun" where
  "writei ip src off n =
     kbind (iget_f ip i_size) (\<lambda>sz.
     if off > sz \<or> off + n < off then kret (-1) else
     if off + n > of_nat (MAXFILE * BSIZE) then kret (-1) else
     kbind (writei_loop ip src (unat off) (unat n) 0) (\<lambda>(tot, off).
     kbind (iget_f ip i_size) (\<lambda>sz.
     kseq (kwhen (off > unat sz) (iset ip (\<lambda>n. n\<lparr>i_size := of_nat off\<rparr>))) (
     kseq (iupdate ip)
     (kret tot)))))"

end
