(* ===== verification/Console.thy ===== *)
theory Console
  imports Fs
begin

text \<open>
  The console: \<open>kernel/console.c\<close> and the buffered transmitter and the receiver of \<open>kernel/uart.c\<close>.

  The UART is a device: \<open>tx_idle k\<close> is what the transmit-idle bit of the line status register reads
  after \<open>k\<close> bytes have been written to the transmitter, \<open>rx\<close> the bytes that wait in the receiver, and
  \<open>uart_wr\<close> the writes to its configuration registers. The table \<open>devsw\<close> of the source has an entry
  only for the console, set by \<open>consoleinit\<close>; the entry is the flag \<open>cons_dev\<close>.
\<close>

section \<open>State\<close>

definition UART_TX_BUF_SIZE :: nat where "UART_TX_BUF_SIZE = 32"

definition INPUT_BUF_SIZE :: nat where "INPUT_BUF_SIZE = 128"

record consoles = fsys +
  tx_idle :: "nat \<Rightarrow> bool"
  rx :: "u8 list"
  uart_wr :: "(nat \<times> u8) list"
  uart_tx_buf :: "nat \<Rightarrow> u8"
  uart_tx_w :: u64
  uart_tx_r :: u64
  cons_buf :: "nat \<Rightarrow> u8"
  cons_r :: u32
  cons_w :: u32
  cons_e :: u32
  cons_dev :: bool

section \<open>The UART\<close>

definition uart_write :: "nat \<Rightarrow> u8 \<Rightarrow> ('z consoles_scheme, unit) kfun" where
  "uart_write r v = kmod (\<lambda>s. s\<lparr>uart_wr := uart_wr s @ [(r, v)]\<rparr>)"

definition uartinit :: "('z consoles_scheme, unit) kfun" where
  "uartinit =
     kseq (uart_write 1 0) (
     kseq (uart_write 3 0x80) (
     kseq (uart_write 0 3) (
     kseq (uart_write 1 0) (
     kseq (uart_write 3 3) (
     kseq (uart_write 2 7) (
     kseq (uart_write 1 3)
     (initlock Uart_tx_lock ''uart'')))))))"

text \<open>One turn of \<open>uartstart\<close> sends a character.\<close>

definition uart_send :: "('z consoles_scheme, unit) kfun" where
  "uart_send =
     kbind (kget (\<lambda>s. uart_tx_buf s (unat (uart_tx_r s) mod UART_TX_BUF_SIZE))) (\<lambda>c.
     kseq (kmod (\<lambda>s. s\<lparr>uart_tx_r := uart_tx_r s + 1\<rparr>)) (
     kseq (wakeup (Some Chan_uart_tx))
     (kmod (\<lambda>s. s\<lparr>thr := thr s @ [c]\<rparr>))))"

text \<open>
  Each turn of \<open>uartstart\<close> takes one of the \<open>uart_tx_w - uart_tx_r\<close> characters in the buffer.
\<close>

primrec uartstart_loop :: "nat \<Rightarrow> ('z consoles_scheme, unit) kfun" where
  "uartstart_loop 0 = kspin"
| "uartstart_loop (Suc n) =
     kbind (kget (\<lambda>s. uart_tx_w s = uart_tx_r s)) (\<lambda>empty.
     if empty then kret () else
     kbind (kget (\<lambda>s. tx_idle s (length (thr s)))) (\<lambda>idle.
     if \<not> idle then kret () else
     kseq uart_send (uartstart_loop n)))"

definition uartstart :: "('z consoles_scheme, unit) kfun" where
  "uartstart = kbind (kget (\<lambda>s. unat (uart_tx_w s - uart_tx_r s))) (\<lambda>n. uartstart_loop (Suc n))"

definition uartputc_loop :: "u8 \<Rightarrow> ('z consoles_scheme, unit) kfun" where
  "uartputc_loop c =
     kbind (kget (\<lambda>s. uart_tx_w s = uart_tx_r s + of_nat UART_TX_BUF_SIZE)) (\<lambda>full.
     if full then sleep Chan_uart_tx Uart_tx_lock
     else
       kseq (kmod (\<lambda>s. s\<lparr>uart_tx_buf := (uart_tx_buf s)(unat (uart_tx_w s) mod UART_TX_BUF_SIZE := c)\<rparr>)) (
       kseq (kmod (\<lambda>s. s\<lparr>uart_tx_w := uart_tx_w s + 1\<rparr>)) (
       kseq uartstart
       (release Uart_tx_lock))))"

definition uartputc :: "u8 \<Rightarrow> ('z consoles_scheme, unit) kfun" where
  "uartputc c =
     kseq (acquire Uart_tx_lock) (
     kbind (kget panicked) (\<lambda>p.
     if p then kspin else uartputc_loop c))"

definition uartputc_resume :: "nat \<Rightarrow> bool \<Rightarrow> u8 \<Rightarrow> ('z consoles_scheme, unit) kfun" where
  "uartputc_resume p ena c = kseq (sleep_resume p Uart_tx_lock ena) (uartputc_loop c)"

definition uartgetc :: "('z consoles_scheme, int) kfun" where
  "uartgetc =
     kbind (kget rx) (\<lambda>bs.
     case bs of [] \<Rightarrow> kret (-1)
     | c # cs \<Rightarrow> kseq (kmod (\<lambda>s. s\<lparr>rx := cs\<rparr>)) (kret (int (unat c))))"

section \<open>The console\<close>

definition CTRL_D :: int where "CTRL_D = 4"
definition CTRL_H :: int where "CTRL_H = 8"
definition CTRL_P :: int where "CTRL_P = 16"
definition CTRL_U :: int where "CTRL_U = 21"

text \<open>\<open>consolewrite\<close> with \<open>rest\<close> characters to go after \<open>i\<close>.\<close>

primrec consolewrite_loop :: "nat \<Rightarrow> ksrc \<Rightarrow> int \<Rightarrow> ('z consoles_scheme, int) kfun" where
  "consolewrite_loop 0 src i = kret i"
| "consolewrite_loop (Suc rest) src i =
     kbind (either_copyin (src_plus src (nat i)) 1) (\<lambda>(r, bs).
     if r = -1 then kret i else
     kseq (uartputc (hd bs))
     (consolewrite_loop rest src (i + 1)))"

text \<open>When \<open>uartputc\<close> slept with the character \<open>c\<close>: the rest of the write.\<close>

definition consolewrite_resume :: "nat \<Rightarrow> bool \<Rightarrow> u8 \<Rightarrow> nat \<Rightarrow> ksrc \<Rightarrow> int \<Rightarrow> ('z consoles_scheme, int) kfun" where
  "consolewrite_resume p ena c rest src i =
     kseq (uartputc_resume p ena c)
     (consolewrite_loop rest src (i + 1))"

definition consolewrite :: "ksrc \<Rightarrow> int \<Rightarrow> ('z consoles_scheme, int) kfun" where
  "consolewrite src n = consolewrite_loop (nat n) src 0"

text \<open>
  The outer loop of \<open>consoleread\<close> with \<open>n\<close> bytes to go; \<open>target\<close> is the number asked for (for a negative
  number the loop is not entered and the result is 0). A reader that finds no complete line sleeps and
  re-enters the loop.
\<close>

definition consoleread_end :: "int \<Rightarrow> nat \<Rightarrow> ('z consoles_scheme, int) kfun" where
  "consoleread_end target n = kseq (release Cons_lock) (kret (target - int n))"

primrec consoleread_loop :: "nat \<Rightarrow> int \<Rightarrow> kdst \<Rightarrow> ('z consoles_scheme, int) kfun" where
  "consoleread_loop 0 target dst = consoleread_end target 0"
| "consoleread_loop (Suc n) target dst =
     kbind (kget (\<lambda>s. cons_r s = cons_w s)) (\<lambda>empty.
     if empty then
       kbind curproc (\<lambda>p.
       kbind (killed p) (\<lambda>k.
       if k \<noteq> 0 then kseq (release Cons_lock) (kret (-1))
       else kseq (sleep Chan_cons Cons_lock) kspin))
     else
       kbind (kget (\<lambda>s. cons_buf s (unat (cons_r s) mod INPUT_BUF_SIZE))) (\<lambda>c.
       kseq (kmod (\<lambda>s. s\<lparr>cons_r := cons_r s + 1\<rparr>)) (
       if int (unat c) = CTRL_D then
         kseq (kwhen (int (Suc n) < target) (kmod (\<lambda>s. s\<lparr>cons_r := cons_r s - 1\<rparr>)))
         (consoleread_end target (Suc n))
       else
         kbind (either_copyout dst [c]) (\<lambda>r.
         if r = -1 then consoleread_end target (Suc n)
         else if c = 0x0a then consoleread_end target n
         else consoleread_loop n target (dst_plus dst 1)))))"

definition consoleread :: "kdst \<Rightarrow> int \<Rightarrow> ('z consoles_scheme, int) kfun" where
  "consoleread dst n = kseq (acquire Cons_lock) (consoleread_loop (nat n) (int (nat n)) dst)"

definition consoleread_resume :: "nat \<Rightarrow> bool \<Rightarrow> nat \<Rightarrow> int \<Rightarrow> kdst \<Rightarrow> ('z consoles_scheme, int) kfun" where
  "consoleread_resume p ena n target dst = kseq (sleep_resume p Cons_lock ena) (consoleread_loop n target dst)"

text \<open>The loop that erases a line, with at most \<open>n\<close> characters to erase.\<close>

primrec kill_line :: "nat \<Rightarrow> ('z consoles_scheme, unit) kfun" where
  "kill_line 0 = kret ()"
| "kill_line (Suc n) =
     kbind (kget (\<lambda>s. cons_e s \<noteq> cons_w s \<and> cons_buf s (unat (cons_e s - 1) mod INPUT_BUF_SIZE) \<noteq> 0x0a)) (\<lambda>go.
     kwhen go (
       kseq (kmod (\<lambda>s. s\<lparr>cons_e := cons_e s - 1\<rparr>)) (
       kseq (consputc BACKSPACE)
       (kill_line n))))"

definition cons_store :: "int \<Rightarrow> ('z consoles_scheme, unit) kfun" where
  "cons_store c =
     kseq (consputc c) (
     kseq (kmod (\<lambda>s. s\<lparr>cons_buf := (cons_buf s)(unat (cons_e s) mod INPUT_BUF_SIZE := word_of_int c),
       cons_e := cons_e s + 1\<rparr>)) (
     kbind (kget (\<lambda>s. cons_e s - cons_r s = of_nat INPUT_BUF_SIZE)) (\<lambda>full.
     kwhen (c = 10 \<or> c = CTRL_D \<or> full) (
       kseq (kmod (\<lambda>s. s\<lparr>cons_w := cons_e s\<rparr>))
       (wakeup (Some Chan_cons))))))"

definition consoleintr :: "int \<Rightarrow> ('z consoles_scheme, unit) kfun" where
  "consoleintr c =
     kseq (acquire Cons_lock) (
     kseq (if c = CTRL_P then procdump
           else if c = CTRL_U then
             kbind (kget (\<lambda>s. unat (cons_e s - cons_w s))) kill_line
           else if c = CTRL_H \<or> c = 0x7f then
             kbind (kget (\<lambda>s. cons_e s \<noteq> cons_w s)) (\<lambda>b.
             kwhen b (
               kseq (kmod (\<lambda>s. s\<lparr>cons_e := cons_e s - 1\<rparr>))
               (consputc BACKSPACE)))
           else
             kbind (kget (\<lambda>s. cons_e s - cons_r s < of_nat INPUT_BUF_SIZE)) (\<lambda>room.
             kwhen (c \<noteq> 0 \<and> room) (cons_store (if c = 13 then 10 else c))))
     (release Cons_lock))"

text \<open>The first loop of \<open>uartintr\<close> takes the bytes that wait in the receiver.\<close>

primrec uartintr_loop :: "nat \<Rightarrow> ('z consoles_scheme, unit) kfun" where
  "uartintr_loop 0 = kspin"
| "uartintr_loop (Suc n) =
     kbind uartgetc (\<lambda>c.
     if c = -1 then kret () else kseq (consoleintr c) (uartintr_loop n))"

definition uartintr :: "('z consoles_scheme, unit) kfun" where
  "uartintr =
     kbind (kget (\<lambda>s. length (rx s))) (\<lambda>n.
     kseq (uartintr_loop (Suc n)) (
     kseq (acquire Uart_tx_lock) (
     kseq uartstart
     (release Uart_tx_lock))))"

definition consoleinit :: "('z consoles_scheme, unit) kfun" where
  "consoleinit =
     kseq (initlock Cons_lock ''cons'') (
     kseq uartinit
     (kmod (\<lambda>s. s\<lparr>cons_dev := True\<rparr>)))"

end
