(* ===== verification/Pipe.thy ===== *)
theory Pipe
  imports Console
begin

text \<open>
  Pipes: \<open>kernel/pipe.c\<close> without \<open>pipealloc\<close>, which is in the theory File. A pipe is a page from \<open>kalloc\<close>;
  \<open>pipes s pi\<close> is the structure in the page \<open>pi\<close>. Reader and writer sleep in loops that they re-enter
  when they wake.
\<close>

section \<open>State and operations\<close>

definition PIPESIZE :: nat where "PIPESIZE = 512"

record pipe =
  pi_data :: "nat \<Rightarrow> u8"
  pi_nread :: u32
  pi_nwrite :: u32
  pi_readopen :: int
  pi_writeopen :: int

record pipes = consoles +
  pipes :: "u64 \<Rightarrow> pipe"

definition piget :: "u64 \<Rightarrow> (pipe \<Rightarrow> 'a) \<Rightarrow> ('z pipes_scheme, 'a) kfun" where
  "piget pi f = kget (\<lambda>s. f (pipes s pi))"

definition piset :: "u64 \<Rightarrow> (pipe \<Rightarrow> pipe) \<Rightarrow> ('z pipes_scheme, unit) kfun" where
  "piset pi f = kmod (\<lambda>s. s\<lparr>pipes := (pipes s)(pi := f (pipes s pi))\<rparr>)"

lemma piget_app [simp]: "piget pi f s = Ret (f (pipes s pi)) s"
  by (simp add: piget_def)

lemma piset_app [simp]: "piset pi f s = Ret () (s\<lparr>pipes := (pipes s)(pi := f (pipes s pi))\<rparr>)"
  by (simp add: piset_def)

definition pipeclose :: "u64 \<Rightarrow> bool \<Rightarrow> ('z pipes_scheme, unit) kfun" where
  "pipeclose pi writable =
     kseq (acquire (Pipe_lock pi)) (
     kseq (if writable then
             kseq (piset pi (\<lambda>q. q\<lparr>pi_writeopen := 0\<rparr>)) (wakeup (Some (Chan_pipe_read pi)))
           else
             kseq (piset pi (\<lambda>q. q\<lparr>pi_readopen := 0\<rparr>)) (wakeup (Some (Chan_pipe_write pi)))) (
     kbind (piget pi (\<lambda>q. pi_readopen q = 0 \<and> pi_writeopen q = 0)) (\<lambda>dead.
     if dead then kseq (release (Pipe_lock pi)) (kfree pi)
     else release (Pipe_lock pi))))"

text \<open>Appending a byte to the ring and taking one from it.\<close>

definition pipe_put :: "u8 \<Rightarrow> pipe \<Rightarrow> pipe" where
  "pipe_put c q = q\<lparr>pi_data := (pi_data q)(unat (pi_nwrite q) mod PIPESIZE := c), pi_nwrite := pi_nwrite q + 1\<rparr>"

definition pipe_top :: "pipe \<Rightarrow> u8" where
  "pipe_top q = pi_data q (unat (pi_nread q) mod PIPESIZE)"

definition pipe_drop :: "pipe \<Rightarrow> pipe" where
  "pipe_drop q = q\<lparr>pi_nread := pi_nread q + 1\<rparr>"

definition pipewrite_end :: "u64 \<Rightarrow> int \<Rightarrow> ('z pipes_scheme, int) kfun" where
  "pipewrite_end pi i =
     kseq (wakeup (Some (Chan_pipe_read pi))) (
     kseq (release (Pipe_lock pi))
     (kret i))"

text \<open>The loop of \<open>pipewrite\<close> with \<open>rest = n - i\<close> bytes to go.\<close>

primrec pipewrite_loop :: "nat \<Rightarrow> u64 \<Rightarrow> nat \<Rightarrow> u64 \<Rightarrow> int \<Rightarrow> ('z pipes_scheme, int) kfun" where
  "pipewrite_loop 0 pi pr addr i = pipewrite_end pi i"
| "pipewrite_loop (Suc rest) pi pr addr i =
     kbind (piget pi pi_readopen) (\<lambda>ro.
     kbind (if ro = 0 then kret 1 else killed pr) (\<lambda>dead.
     if dead \<noteq> 0 then kseq (release (Pipe_lock pi)) (kret (-1)) else
     kbind (piget pi (\<lambda>q. pi_nwrite q = pi_nread q + of_nat PIPESIZE)) (\<lambda>full.
     if full then
       kseq (wakeup (Some (Chan_pipe_read pi))) (
       kseq (sleep (Chan_pipe_write pi) (Pipe_lock pi))
       kspin)
     else
       kbind (pget pr p_pagetable) (\<lambda>pt.
       kbind (copyin pt (addr + word_of_int i) 1) (\<lambda>(r, bs).
       if r = -1 then pipewrite_end pi i else
       kseq (piset pi (pipe_put (hd bs)))
       (pipewrite_loop rest pi pr addr (i + 1)))))))"

definition pipewrite :: "u64 \<Rightarrow> u64 \<Rightarrow> int \<Rightarrow> ('z pipes_scheme, int) kfun" where
  "pipewrite pi addr n =
     kbind curproc (\<lambda>pr.
     kseq (acquire (Pipe_lock pi))
     (pipewrite_loop (nat n) pi pr addr 0))"

definition pipewrite_resume :: "nat \<Rightarrow> bool \<Rightarrow> nat \<Rightarrow> u64 \<Rightarrow> u64 \<Rightarrow> int \<Rightarrow> ('z pipes_scheme, int) kfun" where
  "pipewrite_resume pr ena rest pi addr i =
     kseq (sleep_resume pr (Pipe_lock pi) ena) (pipewrite_loop rest pi pr addr i)"

text \<open>The copying loop of \<open>piperead\<close>, and the wait before it.\<close>

definition piperead_end :: "u64 \<Rightarrow> int \<Rightarrow> ('z pipes_scheme, int) kfun" where
  "piperead_end pi i =
     kseq (wakeup (Some (Chan_pipe_write pi))) (
     kseq (release (Pipe_lock pi))
     (kret i))"

primrec piperead_copy :: "nat \<Rightarrow> u64 \<Rightarrow> nat \<Rightarrow> u64 \<Rightarrow> int \<Rightarrow> ('z pipes_scheme, int) kfun" where
  "piperead_copy 0 pi pr addr i = piperead_end pi i"
| "piperead_copy (Suc rest) pi pr addr i =
     kbind (piget pi (\<lambda>q. pi_nread q = pi_nwrite q)) (\<lambda>empty.
     if empty then piperead_end pi i else
     kbind (piget pi pipe_top) (\<lambda>ch.
     kseq (piset pi pipe_drop) (
     kbind (pget pr p_pagetable) (\<lambda>pt.
     kbind (copyout pt (addr + word_of_int i) [ch]) (\<lambda>r.
     if r = -1 then piperead_end pi i else
     piperead_copy rest pi pr addr (i + 1))))))"

definition piperead_wait :: "nat \<Rightarrow> u64 \<Rightarrow> nat \<Rightarrow> u64 \<Rightarrow> ('z pipes_scheme, int) kfun" where
  "piperead_wait n pi pr addr =
     kbind (piget pi (\<lambda>q. pi_nread q = pi_nwrite q \<and> pi_writeopen q \<noteq> 0)) (\<lambda>empty.
     if empty then
       kbind (killed pr) (\<lambda>k.
       if k \<noteq> 0 then kseq (release (Pipe_lock pi)) (kret (-1))
       else kseq (sleep (Chan_pipe_read pi) (Pipe_lock pi)) kspin)
     else piperead_copy n pi pr addr 0)"

definition piperead :: "u64 \<Rightarrow> u64 \<Rightarrow> int \<Rightarrow> ('z pipes_scheme, int) kfun" where
  "piperead pi addr n =
     kbind curproc (\<lambda>pr.
     kseq (acquire (Pipe_lock pi))
     (piperead_wait (nat n) pi pr addr))"

definition piperead_resume :: "nat \<Rightarrow> bool \<Rightarrow> nat \<Rightarrow> u64 \<Rightarrow> u64 \<Rightarrow> ('z pipes_scheme, int) kfun" where
  "piperead_resume pr ena n pi addr = kseq (sleep_resume pr (Pipe_lock pi) ena) (piperead_wait n pi pr addr)"

end
