(* ===== verification/Dir.thy ===== *)
theory Dir
  imports Fs
begin

text \<open>
  Directories and path names: the end of \<open>kernel/fs.c\<close>.

  A path is the list of its characters before the terminating NUL. A name is the array of \<open>DIRSIZ\<close>
  bytes that \<open>skipelem\<close> fills; an element of more than \<open>DIRSIZ\<close> characters is cut, a shorter one ends in
  a NUL after which the old bytes of the array stay.
\<close>

section \<open>Directories\<close>

definition DIRSIZ :: nat where "DIRSIZ = 14"

definition T_DIR :: int where "T_DIR = 1"
definition T_FILE :: int where "T_FILE = 2"
definition T_DEVICE :: int where "T_DEVICE = 3"

record dirent =
  de_inum :: u16
  de_name :: "u8 list"

definition dirent_of :: "u8 list \<Rightarrow> dirent" where
  "dirent_of bs = \<lparr>de_inum = ld16 bs 0, de_name = bytes_at bs 2 DIRSIZ\<rparr>"

definition dirent_bytes :: "dirent \<Rightarrow> u8 list" where
  "dirent_bytes de = le_bytes 2 (unat (de_inum de)) @ de_name de"

definition namecmp :: "u8 list \<Rightarrow> u8 list \<Rightarrow> int" where
  "namecmp s t = strncmp (chars s) (chars t) DIRSIZ"

text \<open>One entry of a directory, read with the panic of the calling function.\<close>

definition read_dirent :: "string \<Rightarrow> nat \<Rightarrow> nat \<Rightarrow> ('z fsys_scheme, dirent) kfun" where
  "read_dirent msg dp off =
     kbind (readi dp Local_dst (of_nat off) 16) (\<lambda>(r, bs).
     if r \<noteq> 16 then kpanic msg else kret (dirent_of bs))"

text \<open>The loop of \<open>dirlookup\<close> at offset \<open>off\<close>, for at most \<open>k\<close> more entries.\<close>

primrec dirlookup_loop :: "nat \<Rightarrow> nat \<Rightarrow> u8 list \<Rightarrow> nat \<Rightarrow> ('z fsys_scheme, (nat \<times> nat) option) kfun" where
  "dirlookup_loop 0 dp name off = kspin"
| "dirlookup_loop (Suc k) dp name off =
     kbind (iget_f dp id) (\<lambda>n.
     if off < unat (i_size n) then
       kbind (read_dirent ''dirlookup read'' dp off) (\<lambda>de.
       if de_inum de \<noteq> 0 \<and> namecmp name (de_name de) = 0 then
         kbind (iget (i_dev n) (ucast (de_inum de))) (\<lambda>ip. kret (Some (ip, off)))
       else dirlookup_loop k dp name (off + 16))
     else kret None)"

definition dirents :: "u32 \<Rightarrow> nat" where
  "dirents sz = unat sz div 16 + 2"

definition dirlookup :: "nat \<Rightarrow> u8 list \<Rightarrow> ('z fsys_scheme, (nat \<times> nat) option) kfun" where
  "dirlookup dp name =
     kbind (iget_f dp id) (\<lambda>n.
     if i_type n \<noteq> T_DIR then kpanic ''dirlookup not DIR'' else
     dirlookup_loop (dirents (i_size n)) dp name 0)"

primrec dirlink_loop :: "nat \<Rightarrow> nat \<Rightarrow> nat \<Rightarrow> ('z fsys_scheme, nat) kfun" where
  "dirlink_loop 0 dp off = kspin"
| "dirlink_loop (Suc k) dp off =
     kbind (iget_f dp i_size) (\<lambda>sz.
     if off < unat sz then
       kbind (read_dirent ''dirlink read'' dp off) (\<lambda>de.
       if de_inum de = 0 then kret off else dirlink_loop k dp (off + 16))
     else kret off)"

text \<open>
  The local \<open>de\<close> of \<open>dirlink\<close> is overwritten completely: \<open>strncpy\<close> fills all of \<open>de.name\<close>.
\<close>

definition dirlink :: "nat \<Rightarrow> u8 list \<Rightarrow> u32 \<Rightarrow> ('z fsys_scheme, int) kfun" where
  "dirlink dp name inum =
     kbind (dirlookup dp name) (\<lambda>r.
     case r of
       Some (ip, _) \<Rightarrow> kseq (iput ip) (kret (-1))
     | None \<Rightarrow>
         kbind (iget_f dp i_size) (\<lambda>sz.
         kbind (dirlink_loop (dirents sz) dp 0) (\<lambda>off.
         let de = \<lparr>de_inum = ucast inum, de_name = strncpy (replicate DIRSIZ 0) (chars name) (int DIRSIZ)\<rparr> in
         kbind (writei dp (Kern_src (dirent_bytes de)) (of_nat off) 16) (\<lambda>r.
         if r \<noteq> 16 then kret (-1) else kret 0))))"

section \<open>Paths\<close>

definition SLASH :: u8 where "SLASH = 0x2f"

definition skipelem :: "u8 list \<Rightarrow> u8 list \<Rightarrow> (u8 list \<times> u8 list) option" where
  "skipelem path name =
     (let path = dropWhile (\<lambda>c. c = SLASH) path in
      if path = [] then None else
      let s = takeWhile (\<lambda>c. c \<noteq> SLASH) path;
          path = dropWhile (\<lambda>c. c \<noteq> SLASH) path;
          name = (if length s \<ge> DIRSIZ then set_bytes name 0 (take DIRSIZ s) else set_bytes name 0 (s @ [0]))
      in Some (dropWhile (\<lambda>c. c = SLASH) path, name))"

lemma length_dropWhile_less: "xs \<noteq> [] \<Longrightarrow> P (hd xs) \<Longrightarrow> length (dropWhile P xs) < length xs"
  by (cases xs) (simp_all add: le_imp_less_Suc length_dropWhile_le)

lemma skipelem_shorter:
  assumes "skipelem path name = Some (path', name')"
  shows "length path' < length path"
proof -
  let ?p = "dropWhile (\<lambda>c. c = SLASH) path"
  have "?p \<noteq> []" and p': "path' = dropWhile (\<lambda>c. c = SLASH) (dropWhile (\<lambda>c. c \<noteq> SLASH) ?p)"
    using assms by (auto simp: skipelem_def Let_def split: if_splits)
  moreover have "hd ?p \<noteq> SLASH" using hd_dropWhile [OF \<open>?p \<noteq> []\<close>] .
  ultimately have "length (dropWhile (\<lambda>c. c \<noteq> SLASH) ?p) < length ?p" by (intro length_dropWhile_less)
  also have "\<dots> \<le> length path" by (rule length_dropWhile_le)
  finally show ?thesis using length_dropWhile_le [of "\<lambda>c. c = SLASH" "dropWhile (\<lambda>c. c \<noteq> SLASH) ?p"] p' by simp
qed

function namex_loop :: "u8 list \<Rightarrow> bool \<Rightarrow> u8 list \<Rightarrow> nat \<Rightarrow> ('z fsys_scheme, nat option \<times> u8 list) kfun" where
  "namex_loop path parent name ip =
     (case skipelem path name of
        None \<Rightarrow>
          if parent then kseq (iput ip) (kret (None, name)) else kret (Some ip, name)
      | Some (path, name) \<Rightarrow>
          kseq (ilock (Some ip)) (
          kbind (iget_f ip i_type) (\<lambda>t.
          if t \<noteq> T_DIR then kseq (iunlockput ip) (kret (None, name)) else
          if parent \<and> path = [] then kseq (iunlock (Some ip)) (kret (Some ip, name)) else
          kbind (dirlookup ip name) (\<lambda>r.
          case r of
            None \<Rightarrow> kseq (iunlockput ip) (kret (None, name))
          | Some (nx, _) \<Rightarrow> kseq (iunlockput ip) (namex_loop path parent name nx)))))"
  by pat_completeness auto
termination
  by (relation "measure (\<lambda>(path, _, _, _). length path)") (auto dest: skipelem_shorter)

declare namex_loop.simps [simp del]

definition namex :: "u8 list \<Rightarrow> bool \<Rightarrow> u8 list \<Rightarrow> ('z fsys_scheme, nat option \<times> u8 list) kfun" where
  "namex path parent name =
     kbind (if path \<noteq> [] \<and> hd path = SLASH then iget ROOTDEV ROOTINO
            else kbind curproc (\<lambda>p. kbind (pget p p_cwd) (\<lambda>cwd.
                 case cwd of None \<Rightarrow> kpanic ''kerneltrap'' | Some c \<Rightarrow> idup c)))
     (\<lambda>ip. namex_loop path parent name ip)"

definition namei :: "u8 list \<Rightarrow> ('z fsys_scheme, nat option) kfun" where
  "namei path = kbind (namex path False (replicate DIRSIZ 0)) (\<lambda>(ip, _). kret ip)"

definition nameiparent :: "u8 list \<Rightarrow> u8 list \<Rightarrow> ('z fsys_scheme, nat option \<times> u8 list) kfun" where
  "nameiparent path name = namex path True name"

end
