(* ===== verification/File.thy ===== *)
theory File
  imports Pipe Dir
begin

text \<open>
  Open files: \<open>kernel/file.c\<close>, and \<open>pipealloc\<close> of \<open>kernel/pipe.c\<close>. A \<open>struct file *\<close> is an index of
  the file table.
\<close>

section \<open>State\<close>

definition NFILE :: nat where "NFILE = 100"

definition NDEV :: int where "NDEV = 10"

definition CONSOLE :: int where "CONSOLE = 1"

datatype ftype = FD_NONE | FD_PIPE | FD_INODE | FD_DEVICE

record kfile =
  f_type :: ftype
  f_ref :: int
  f_readable :: bool
  f_writable :: bool
  f_pipe :: u64
  f_ip :: "nat option"
  f_off :: u32
  f_major :: int

record ftable = pipes +
  ftable :: "nat \<Rightarrow> kfile"

definition fget :: "nat \<Rightarrow> (kfile \<Rightarrow> 'a) \<Rightarrow> ('z ftable_scheme, 'a) kfun" where
  "fget f g = kget (\<lambda>s. g (ftable s f))"

definition fset :: "nat \<Rightarrow> (kfile \<Rightarrow> kfile) \<Rightarrow> ('z ftable_scheme, unit) kfun" where
  "fset f g = kmod (\<lambda>s. s\<lparr>ftable := (ftable s)(f := g (ftable s f))\<rparr>)"

lemma fget_app [simp]: "fget f g s = Ret (g (ftable s f)) s"
  by (simp add: fget_def)

lemma fset_app [simp]: "fset f g s = Ret () (s\<lparr>ftable := (ftable s)(f := g (ftable s f))\<rparr>)"
  by (simp add: fset_def)

text \<open>An inode pointer of a file that is dereferenced.\<close>

definition kptr :: "nat option \<Rightarrow> (nat \<Rightarrow> ('s, 'a) kfun) \<Rightarrow> ('s, 'a) kfun" where
  "kptr r f = (case r of None \<Rightarrow> kpanic ''kerneltrap'' | Some i \<Rightarrow> f i)"

lemma kptr_simps [simp]: "kptr None f = kpanic ''kerneltrap''" "kptr (Some i) f = f i"
  by (simp_all add: kptr_def)

section \<open>Operations\<close>

definition fileinit :: "('z ftable_scheme, unit) kfun" where
  "fileinit = initlock Ftable_lock ''ftable''"

definition filealloc :: "('z ftable_scheme, nat option) kfun" where
  "filealloc =
     kseq (acquire Ftable_lock) (
     kbind (kget (\<lambda>s. find (\<lambda>f. f_ref (ftable s f) = 0) [0..<NFILE])) (\<lambda>r.
     case r of
       Some f \<Rightarrow>
         kseq (fset f (\<lambda>g. g\<lparr>f_ref := 1\<rparr>)) (
         kseq (release Ftable_lock)
         (kret (Some f)))
     | None \<Rightarrow> kseq (release Ftable_lock) (kret None)))"

definition filedup :: "nat \<Rightarrow> ('z ftable_scheme, nat) kfun" where
  "filedup f =
     kseq (acquire Ftable_lock) (
     kbind (fget f f_ref) (\<lambda>r.
     if r < 1 then kpanic ''filedup'' else
     kseq (fset f (\<lambda>g. g\<lparr>f_ref := f_ref g + 1\<rparr>)) (
     kseq (release Ftable_lock)
     (kret f))))"

definition fileclose :: "nat \<Rightarrow> ('z ftable_scheme, unit) kfun" where
  "fileclose f =
     kseq (acquire Ftable_lock) (
     kbind (fget f f_ref) (\<lambda>r.
     if r < 1 then kpanic ''fileclose'' else
     kseq (fset f (\<lambda>g. g\<lparr>f_ref := f_ref g - 1\<rparr>)) (
     if r - 1 > 0 then release Ftable_lock
     else
       kbind (fget f id) (\<lambda>ff.
       kseq (fset f (\<lambda>g. g\<lparr>f_ref := 0\<rparr>)) (
       kseq (fset f (\<lambda>g. g\<lparr>f_type := FD_NONE\<rparr>)) (
       kseq (release Ftable_lock) (
       if f_type ff = FD_PIPE then pipeclose (f_pipe ff) (f_writable ff)
       else kwhen (f_type ff = FD_INODE \<or> f_type ff = FD_DEVICE) (
         kseq begin_op (
         kseq (kptr (f_ip ff) iput)
         end_op)))))))))"

text \<open>The bytes of \<open>struct stat\<close>: 24, of which the four before \<open>size\<close> are padding.\<close>

definition stat_bytes :: "stat \<Rightarrow> u8 list" where
  "stat_bytes st =
     le_bytes 4 (unat (word_of_int (st_dev st) :: u32)) @ le_bytes 4 (unat (st_ino st))
     @ le_bytes 2 (unat (word_of_int (st_type st) :: u16)) @ le_bytes 2 (unat (word_of_int (st_nlink st) :: u16))
     @ replicate 4 0 @ le_bytes 8 (unat (st_size st))"

definition filestat :: "nat \<Rightarrow> u64 \<Rightarrow> ('z ftable_scheme, int) kfun" where
  "filestat f addr =
     kbind curproc (\<lambda>p.
     kbind (fget f id) (\<lambda>g.
     if f_type g = FD_INODE \<or> f_type g = FD_DEVICE then
       kseq (ilock (f_ip g)) (
       kbind (kptr (f_ip g) stati) (\<lambda>st.
       kseq (iunlock (f_ip g)) (
       kbind (pget p p_pagetable) (\<lambda>pt.
       kbind (copyout pt addr (stat_bytes st)) (\<lambda>r.
       if r < 0 then kret (-1) else kret 0)))))
     else kret (-1)))"

definition fileread :: "nat \<Rightarrow> u64 \<Rightarrow> int \<Rightarrow> ('z ftable_scheme, int) kfun" where
  "fileread f addr n =
     kbind (fget f id) (\<lambda>g.
     if \<not> f_readable g then kret (-1) else
     case f_type g of
       FD_PIPE \<Rightarrow> piperead (f_pipe g) addr n
     | FD_DEVICE \<Rightarrow>
         kbind (kget cons_dev) (\<lambda>dev.
         if f_major g < 0 \<or> f_major g \<ge> NDEV \<or> \<not> (f_major g = CONSOLE \<and> dev) then kret (-1)
         else consoleread (User_dst addr) n)
     | FD_INODE \<Rightarrow>
         kseq (ilock (f_ip g)) (
         kbind (kptr (f_ip g) (\<lambda>ip. readi ip (User_dst addr) (f_off g) (word_of_int n))) (\<lambda>(r, _).
         kseq (kwhen (r > 0) (fset f (\<lambda>h. h\<lparr>f_off := f_off h + word_of_int r\<rparr>))) (
         kseq (iunlock (f_ip g))
         (kret r))))
     | FD_NONE \<Rightarrow> kpanic ''fileread'')"

definition FILEMAX :: int where
  "FILEMAX = ((int MAXOPBLOCKS - 1 - 1 - 2) div 2) * int BSIZE"

text \<open>The loop of \<open>filewrite\<close> after \<open>i\<close> bytes; every turn but a failing one writes at least one byte.\<close>

primrec filewrite_loop :: "nat \<Rightarrow> nat \<Rightarrow> u64 \<Rightarrow> int \<Rightarrow> int \<Rightarrow> ('z ftable_scheme, int) kfun" where
  "filewrite_loop 0 f addr n i = kspin"
| "filewrite_loop (Suc k) f addr n i =
     (if \<not> i < n then kret i else
      let n1 = (if n - i > FILEMAX then FILEMAX else n - i) in
      kseq begin_op (
      kbind (fget f id) (\<lambda>g.
      kseq (ilock (f_ip g)) (
      kbind (kptr (f_ip g) (\<lambda>ip. writei ip (User_src (addr + word_of_int i)) (f_off g) (word_of_int n1))) (\<lambda>r.
      kseq (kwhen (r > 0) (fset f (\<lambda>h. h\<lparr>f_off := f_off h + word_of_int r\<rparr>))) (
      kseq (iunlock (f_ip g)) (
      kseq end_op (
      if r \<noteq> n1 then kret i else filewrite_loop k f addr n (i + r)))))))))"

definition filewrite :: "nat \<Rightarrow> u64 \<Rightarrow> int \<Rightarrow> ('z ftable_scheme, int) kfun" where
  "filewrite f addr n =
     kbind (fget f id) (\<lambda>g.
     if \<not> f_writable g then kret (-1) else
     case f_type g of
       FD_PIPE \<Rightarrow> pipewrite (f_pipe g) addr n
     | FD_DEVICE \<Rightarrow>
         kbind (kget cons_dev) (\<lambda>dev.
         if f_major g < 0 \<or> f_major g \<ge> NDEV \<or> \<not> (f_major g = CONSOLE \<and> dev) then kret (-1)
         else consolewrite (User_src addr) n)
     | FD_INODE \<Rightarrow>
         kbind (filewrite_loop (Suc (nat n)) f addr n 0) (\<lambda>i.
         kret (if i = n then n else -1))
     | FD_NONE \<Rightarrow> kpanic ''filewrite'')"

section \<open>pipealloc\<close>

definition pipealloc_bad :: "nat option \<Rightarrow> nat option \<Rightarrow> ('z ftable_scheme, (nat \<times> nat) option) kfun" where
  "pipealloc_bad f0 f1 =
     kseq (case f0 of None \<Rightarrow> kret () | Some f \<Rightarrow> fileclose f) (
     kseq (case f1 of None \<Rightarrow> kret () | Some f \<Rightarrow> fileclose f)
     (kret None))"

definition pipealloc :: "('z ftable_scheme, (nat \<times> nat) option) kfun" where
  "pipealloc =
     kbind filealloc (\<lambda>r0.
     case r0 of None \<Rightarrow> pipealloc_bad None None | Some f0 \<Rightarrow>
     kbind filealloc (\<lambda>r1.
     case r1 of None \<Rightarrow> pipealloc_bad (Some f0) None | Some f1 \<Rightarrow>
     kbind kalloc (\<lambda>pi.
     if pi = 0 then pipealloc_bad (Some f0) (Some f1) else
     kseq (piset pi (\<lambda>q. q\<lparr>pi_readopen := 1, pi_writeopen := 1, pi_nwrite := 0, pi_nread := 0\<rparr>)) (
     kseq (initlock (Pipe_lock pi) ''pipe'') (
     kseq (fset f0 (\<lambda>g. g\<lparr>f_type := FD_PIPE, f_readable := True, f_writable := False, f_pipe := pi\<rparr>)) (
     kseq (fset f1 (\<lambda>g. g\<lparr>f_type := FD_PIPE, f_readable := False, f_writable := True, f_pipe := pi\<rparr>))
     (kret (Some (f0, f1)))))))))"

end
