(* ===== verification/Lifecycle.thy ===== *)
theory Lifecycle
  imports File
begin

text \<open>
  The life of a process: the functions of \<open>kernel/proc.c\<close> that allocate, copy, end and free processes and
  the threads added to it (\<open>allocproc\<close>, \<open>freeproc\<close>, \<open>proc_pagetable\<close>, \<open>proc_freepagetable\<close>, \<open>userinit\<close>,
  \<open>growproc\<close>, \<open>fork\<close>, \<open>exit\<close>, \<open>wait\<close>, \<open>forkret\<close>, \<open>thread_create\<close>, \<open>thread_join\<close>, \<open>thread_exit\<close>).

  The trapframe of a process is a page of memory with the fields of \<open>struct trapframe\<close> at their offsets.
  The addresses of the trampoline page and of \<open>forkret\<close> are symbols of the linker, fields of the state.
\<close>

section \<open>State\<close>

record lifecycle = ftable +
  trampoline :: u64
  forkret_addr :: u64

definition TF_EPC :: u64 where "TF_EPC = 24"
definition TF_SP :: u64 where "TF_SP = 48"
definition TF_S0 :: u64 where "TF_S0 = 96"
definition TF_A0 :: u64 where "TF_A0 = 112"

definition TF_SIZE :: nat where "TF_SIZE = 288"

definition tfset :: "nat \<Rightarrow> u64 \<Rightarrow> u64 \<Rightarrow> ('z kmem_scheme, unit) kfun" where
  "tfset p off v = kbind (pget p p_trapframe) (\<lambda>tf. kderef tf (mset64 (tf + off) v))"

definition tfget :: "nat \<Rightarrow> u64 \<Rightarrow> ('z kmem_scheme, u64) kfun" where
  "tfget p off = kbind (pget p p_trapframe) (\<lambda>tf. kderef tf (mget64 (tf + off)))"

definition tfcopy :: "nat \<Rightarrow> nat \<Rightarrow> ('z kmem_scheme, unit) kfun" where
  "tfcopy np p =
     kbind (pget p p_trapframe) (\<lambda>src.
     kbind (pget np p_trapframe) (\<lambda>dst.
     kderef src (kderef dst (
     kbind (kget (\<lambda>s. mread (mem s) src TF_SIZE)) (\<lambda>bs. mput dst bs)))))"

section \<open>Allocating and freeing\<close>

definition proc_pagetable :: "nat \<Rightarrow> ('z lifecycle_scheme, u64) kfun" where
  "proc_pagetable p =
     kbind uvmcreate (\<lambda>pagetable.
     if pagetable = 0 then kret 0 else
     kbind (kget trampoline) (\<lambda>tr.
     kbind (mappages pagetable TRAMPOLINE (of_nat PGSIZE) tr (or PTE_R PTE_X)) (\<lambda>r.
     if r < 0 then kseq (uvmfree pagetable 0) (kret 0) else
     kbind (pget p p_trapframe) (\<lambda>tf.
     kbind (mappages pagetable TRAPFRAME (of_nat PGSIZE) tf (or PTE_R PTE_W)) (\<lambda>r.
     if r < 0 then
       kseq (uvmunmap pagetable TRAMPOLINE 1 False) (
       kseq (uvmfree pagetable 0)
       (kret 0))
     else kret pagetable)))))"

definition proc_freepagetable :: "u64 \<Rightarrow> u64 \<Rightarrow> ('z lifecycle_scheme, unit) kfun" where
  "proc_freepagetable pagetable sz =
     kseq (uvmunmap pagetable TRAMPOLINE 1 False) (
     kseq (uvmunmap pagetable TRAPFRAME 1 False)
     (uvmfree pagetable sz))"

definition clear_proc :: "proc \<Rightarrow> proc" where
  "clear_proc q = q\<lparr>p_sz := 0, p_pid := 0, p_parent := None, p_name := (p_name q)[0 := 0], p_chan := None,
     p_killed := 0, p_xstate := 0, p_state := UNUSED\<rparr>"

definition freeproc :: "nat \<Rightarrow> ('z lifecycle_scheme, unit) kfun" where
  "freeproc p =
     kbind (pget p p_trapframe) (\<lambda>tf.
     kseq (kwhen (tf \<noteq> 0) (kfree tf)) (
     kseq (pset p (\<lambda>q. q\<lparr>p_trapframe := 0\<rparr>)) (
     kbind (pget p id) (\<lambda>q.
     kseq (kwhen (p_pagetable q \<noteq> 0) (proc_freepagetable (p_pagetable q) (p_sz q))) (
     kseq (pset p (\<lambda>q. q\<lparr>p_pagetable := 0\<rparr>))
     (pset p clear_proc))))))"

definition allocproc_fail :: "nat \<Rightarrow> ('z lifecycle_scheme, nat option) kfun" where
  "allocproc_fail p =
     kseq (freeproc p) (
     kseq (release (Proc_lock p))
     (kret None))"

definition allocproc_found :: "nat \<Rightarrow> ('z lifecycle_scheme, nat option) kfun" where
  "allocproc_found p =
     kbind allocpid (\<lambda>pid.
     kseq (pset p (\<lambda>q. q\<lparr>p_pid := pid\<rparr>)) (
     kseq (pset p (\<lambda>q. q\<lparr>p_state := USED\<rparr>)) (
     kseq (pset p (\<lambda>q. q\<lparr>p_cpu_affinity := -1\<rparr>)) (
     kbind kalloc (\<lambda>tf.
     kseq (pset p (\<lambda>q. q\<lparr>p_trapframe := tf\<rparr>)) (
     if tf = 0 then allocproc_fail p else
     kbind (proc_pagetable p) (\<lambda>pt.
     kseq (pset p (\<lambda>q. q\<lparr>p_pagetable := pt\<rparr>)) (
     if pt = 0 then allocproc_fail p else
     kbind (kget forkret_addr) (\<lambda>ra.
     kseq (pset p (\<lambda>q. q\<lparr>p_context := \<lparr>ctx_ra = ra, ctx_sp = p_kstack q + of_nat PGSIZE,
       ctx_s = replicate 12 0\<rparr>\<rparr>))
     (kret (Some p)))))))))))"

fun allocproc_scan :: "nat list \<Rightarrow> ('z lifecycle_scheme, nat option) kfun" where
  "allocproc_scan [] = kret None"
| "allocproc_scan (p # ps) =
     kseq (acquire (Proc_lock p)) (
     kbind (pget p p_state) (\<lambda>st.
     if st = UNUSED then allocproc_found p
     else kseq (release (Proc_lock p)) (allocproc_scan ps)))"

definition allocproc :: "('z lifecycle_scheme, nat option) kfun" where
  "allocproc = allocproc_scan [0..<NPROC]"

text \<open>The program \<open>user/initcode.S\<close> as assembled into \<open>proc.c\<close>.\<close>

definition initcode :: "u8 list" where
  "initcode =
    [0x17, 0x05, 0x00, 0x00, 0x13, 0x05, 0x45, 0x02,
     0x97, 0x05, 0x00, 0x00, 0x93, 0x85, 0x35, 0x02,
     0x93, 0x08, 0x70, 0x00, 0x73, 0x00, 0x00, 0x00,
     0x93, 0x08, 0x20, 0x00, 0x73, 0x00, 0x00, 0x00,
     0xef, 0xf0, 0x9f, 0xff, 0x2f, 0x69, 0x6e, 0x69,
     0x74, 0x00, 0x00, 0x24, 0x00, 0x00, 0x00, 0x00,
     0x00, 0x00, 0x00, 0x00]"

definition userinit :: "('z lifecycle_scheme, unit) kfun" where
  "userinit =
     kbind allocproc (\<lambda>r.
     kseq (kmod (\<lambda>s. s\<lparr>initproc := r\<rparr>)) (
     kptr r (\<lambda>p.
     kbind (pget p p_pagetable) (\<lambda>pt.
     kseq (uvmfirst pt initcode) (
     kseq (pset p (\<lambda>q. q\<lparr>p_sz := of_nat PGSIZE\<rparr>)) (
     kseq (tfset p TF_EPC 0) (
     kseq (tfset p TF_SP (of_nat PGSIZE)) (
     kseq (pset p (\<lambda>q. q\<lparr>p_name := safestrcpy (p_name q) (chars (bytes_of ''initcode'')) 16\<rparr>)) (
     kbind (namei (bytes_of ''/'')) (\<lambda>cwd.
     kseq (pset p (\<lambda>q. q\<lparr>p_cwd := cwd\<rparr>)) (
     kseq (pset p (\<lambda>q. q\<lparr>p_state := RUNNABLE\<rparr>))
     (release (Proc_lock p)))))))))))))"

definition growproc :: "int \<Rightarrow> ('z lifecycle_scheme, int) kfun" where
  "growproc n =
     kbind curproc (\<lambda>p.
     kbind (pget p id) (\<lambda>q.
     let sz = p_sz q in
     if n > 0 then
       kbind (uvmalloc (p_pagetable q) sz (sz + word_of_int n) PTE_W) (\<lambda>sz.
       if sz = 0 then kret (-1) else
       kseq (pset p (\<lambda>q. q\<lparr>p_sz := sz\<rparr>)) (kret 0))
     else if n < 0 then
       kbind (uvmdealloc (p_pagetable q) sz (sz + word_of_int n)) (\<lambda>sz.
       kseq (pset p (\<lambda>q. q\<lparr>p_sz := sz\<rparr>)) (kret 0))
     else kseq (pset p (\<lambda>q. q\<lparr>p_sz := sz\<rparr>)) (kret 0)))"

section \<open>fork\<close>

definition dup_file :: "nat \<Rightarrow> nat \<Rightarrow> nat \<Rightarrow> ('z lifecycle_scheme, unit) kfun" where
  "dup_file np p i =
     kbind (pget p (\<lambda>q. p_ofile q ! i)) (\<lambda>r.
     case r of None \<Rightarrow> kret ()
     | Some f \<Rightarrow> kbind (filedup f) (\<lambda>f. pset np (\<lambda>q. q\<lparr>p_ofile := (p_ofile q)[i := Some f]\<rparr>)))"

text \<open>The shared part of \<open>fork\<close> and \<open>thread_create\<close>: descriptors, directory and name.\<close>

definition inherit :: "nat \<Rightarrow> nat \<Rightarrow> ('z lifecycle_scheme, unit) kfun" where
  "inherit np p =
     kseq (kfor [0..<NOFILE] (dup_file np p)) (
     kbind (pget p p_cwd) (\<lambda>cwd.
     kptr cwd (\<lambda>c.
     kbind (idup c) (\<lambda>c.
     pset np (\<lambda>q. q\<lparr>p_cwd := Some c\<rparr>)))))"

definition copy_name :: "nat \<Rightarrow> nat \<Rightarrow> ('z lifecycle_scheme, unit) kfun" where
  "copy_name np p =
     kbind (pget p p_name) (\<lambda>nm.
     pset np (\<lambda>q. q\<lparr>p_name := safestrcpy (p_name q) (chars nm) 16\<rparr>))"

definition make_runnable :: "nat \<Rightarrow> ('z lifecycle_scheme, unit) kfun" where
  "make_runnable np =
     kseq (acquire (Proc_lock np)) (
     kseq (pset np (\<lambda>q. q\<lparr>p_state := RUNNABLE\<rparr>))
     (release (Proc_lock np)))"

definition set_parent :: "nat \<Rightarrow> nat \<Rightarrow> ('z lifecycle_scheme, unit) kfun" where
  "set_parent np p =
     kseq (acquire Wait_lock) (
     kseq (pset np (\<lambda>q. q\<lparr>p_parent := Some p\<rparr>))
     (release Wait_lock))"

definition fork :: "('z lifecycle_scheme, int) kfun" where
  "fork =
     kbind curproc (\<lambda>p.
     kbind allocproc (\<lambda>r.
     case r of None \<Rightarrow> kret (-1) | Some np \<Rightarrow>
     kbind (pget p id) (\<lambda>q.
     kbind (pget np p_pagetable) (\<lambda>npt.
     kbind (uvmcopy (p_pagetable q) npt (p_sz q)) (\<lambda>r.
     if r < 0 then
       kseq (freeproc np) (
       kseq (release (Proc_lock np))
       (kret (-1)))
     else
       kseq (pset np (\<lambda>c. c\<lparr>p_sz := p_sz q\<rparr>)) (
       kseq (tfcopy np p) (
       kseq (tfset np TF_A0 0) (
       kseq (inherit np p) (
       kseq (copy_name np p) (
       kbind (pget np p_pid) (\<lambda>pid.
       kseq (release (Proc_lock np)) (
       kseq (set_parent np p) (
       kseq (make_runnable np)
       (kret pid))))))))))))))"

section \<open>exit and wait\<close>

definition close_fd :: "nat \<Rightarrow> nat \<Rightarrow> ('z lifecycle_scheme, unit) kfun" where
  "close_fd p fd =
     kbind (pget p (\<lambda>q. p_ofile q ! fd)) (\<lambda>r.
     case r of None \<Rightarrow> kret ()
     | Some f \<Rightarrow>
         kseq (fileclose f)
         (pset p (\<lambda>q. q\<lparr>p_ofile := (p_ofile q)[fd := None]\<rparr>)))"

definition exit :: "int \<Rightarrow> ('z lifecycle_scheme, unit) kfun" where
  "exit status =
     kbind curproc (\<lambda>p.
     kbind (kget initproc) (\<lambda>ini.
     if ini = Some p then kpanic ''init exiting'' else
     kseq (kfor [0..<NOFILE] (close_fd p)) (
     kseq begin_op (
     kbind (pget p p_cwd) (\<lambda>cwd.
     kseq (kptr cwd iput) (
     kseq end_op (
     kseq (pset p (\<lambda>q. q\<lparr>p_cwd := None\<rparr>)) (
     kseq (acquire Wait_lock) (
     kseq (reparent p) (
     kbind (pget p p_parent) (\<lambda>par.
     kseq (wakeup (map_option Chan_proc par))
     (exit_tail p status))))))))))))"

text \<open>\<open>thread_exit\<close> repeats the body of \<open>exit\<close>.\<close>

definition thread_exit :: "int \<Rightarrow> ('z lifecycle_scheme, unit) kfun" where
  "thread_exit status = exit status"

text \<open>
  The scan of \<open>wait\<close> for a zombie child, from \<open>wait_lock\<close> held to its end. \<open>addr\<close> is the place for the
  status in user memory; \<open>thread_join\<close> has the same body without the copy, as if \<open>addr\<close> were 0.
\<close>

fun wait_scan :: "nat list \<Rightarrow> nat \<Rightarrow> u64 \<Rightarrow> bool \<Rightarrow> ('z lifecycle_scheme, int) kfun" where
  "wait_scan [] p addr havekids =
     kbind (if havekids then killed p else kret 1) (\<lambda>stop.
     if stop \<noteq> 0 then kseq (release Wait_lock) (kret (-1))
     else kseq (sleep (Chan_proc p) Wait_lock) kspin)"
| "wait_scan (pp # pps) p addr havekids =
     kbind (pget pp p_parent) (\<lambda>par.
     if par = Some p then
       kseq (acquire (Proc_lock pp)) (
       kbind (pget pp id) (\<lambda>c.
       if p_state c = ZOMBIE then
         kbind (pget p p_pagetable) (\<lambda>pt.
         kbind (if addr \<noteq> 0 then copyout pt addr (le_bytes 4 (unat (word_of_int (p_xstate c) :: u32))) else kret 0) (\<lambda>r.
         if r < 0 then
           kseq (release (Proc_lock pp)) (
           kseq (release Wait_lock)
           (kret (-1)))
         else
           kseq (freeproc pp) (
           kseq (release (Proc_lock pp)) (
           kseq (release Wait_lock)
           (kret (p_pid c))))))
       else kseq (release (Proc_lock pp)) (wait_scan pps p addr True)))
     else wait_scan pps p addr havekids)"

definition wait :: "u64 \<Rightarrow> ('z lifecycle_scheme, int) kfun" where
  "wait addr =
     kbind curproc (\<lambda>p.
     kseq (acquire Wait_lock)
     (wait_scan [0..<NPROC] p addr False))"

definition wait_resume :: "nat \<Rightarrow> bool \<Rightarrow> u64 \<Rightarrow> ('z lifecycle_scheme, int) kfun" where
  "wait_resume p ena addr =
     kseq (sleep_resume p Wait_lock ena) (wait_scan [0..<NPROC] p addr False)"

definition thread_join :: "('z lifecycle_scheme, int) kfun" where
  "thread_join = wait 0"

section \<open>Threads\<close>

text \<open>
  A store of the kernel through a pointer that is not the result of a page-table lookup. The kernel page
  table maps the RAM at its own addresses; below it only device registers are mapped, at addresses
  beyond the memory that a process can have, so a store to a user address is a page fault in
  supervisor mode, on which \<open>kerneltrap\<close> panics.
\<close>

definition kstore :: "u64 \<Rightarrow> u64 \<Rightarrow> ('z kmem_scheme, unit) kfun" where
  "kstore va v = (if KERNBASE \<le> va \<and> va + 8 \<le> PHYSTOP then mset64 va v else kpanic ''kerneltrap'')"

definition thread_stack :: "u64 \<Rightarrow> u64 \<Rightarrow> ('z lifecycle_scheme, unit) kfun" where
  "thread_stack arg stack =
     (let sret = stack + 4096 - 16; sarg = stack + 4096 - 8 in
      kseq (printf (Some (''stack addr %p'' @ [CHR 0x0A])) [VPtr sret]) (
      kseq (kstore sret 0xFFFFFFF) (
      kseq (printf (Some (''kern 2'' @ [CHR 0x0A])) [])
      (kstore sarg arg))))"

definition thread_create :: "u64 \<Rightarrow> u64 \<Rightarrow> u64 \<Rightarrow> ('z lifecycle_scheme, int) kfun" where
  "thread_create fcn arg stack =
     kbind curproc (\<lambda>p.
     kbind allocproc (\<lambda>r.
     case r of None \<Rightarrow> kret (-1) | Some np \<Rightarrow>
     kbind (pget p p_sz) (\<lambda>sz.
     kseq (pset np (\<lambda>q. q\<lparr>p_sz := sz\<rparr>)) (
     kseq (set_parent np p) (
     kseq (tfcopy np p) (
     kseq (thread_stack arg stack) (
     kseq (tfset np TF_SP (stack + (4096 - 16))) (
     kbind (tfget np TF_SP) (\<lambda>sp.
     kseq (tfset np TF_S0 sp) (
     kseq (tfset np TF_EPC fcn) (
     kseq (pset np (\<lambda>q. q\<lparr>p_is_thread := 1\<rparr>)) (
     kseq (tfset np TF_A0 0) (
     kseq (inherit np p) (
     kseq (printf (Some ''kern here4'') []) (
     kseq (copy_name np p) (
     kbind (pget np p_pid) (\<lambda>pid.
     kseq (release (Proc_lock np)) (
     kseq (make_runnable np) (
     kseq (printf (Some ''kern here5'') [])
     (kret pid))))))))))))))))))))"

end
