(* ===== verification/Exec.thy ===== *)
theory Exec
  imports Lifecycle
begin

text \<open>
  Loading a program: \<open>kernel/exec.c\<close> with the file format of \<open>kernel/elf.h\<close>. The arguments \<open>argv\<close> are the
  list of strings before the null pointer that ends the array, each without its NUL. The jumps to
  \<open>bad\<close> are \<open>exec_bad\<close>, which knows whether a page table and a locked inode are to be given back.
\<close>

section \<open>Segments\<close>

definition MAXARG :: nat where "MAXARG = 32"

definition ELF_MAGIC :: u32 where "ELF_MAGIC = 0x464C457F"

definition ELF_PROG_LOAD :: u32 where "ELF_PROG_LOAD = 1"

record elfhdr =
  eh_magic :: u32
  eh_entry :: u64
  eh_phoff :: u64
  eh_phnum :: u16

definition elfhdr_of :: "u8 list \<Rightarrow> elfhdr" where
  "elfhdr_of bs = \<lparr>eh_magic = ld32 bs 0, eh_entry = ld64 bs 24, eh_phoff = ld64 bs 32, eh_phnum = ld16 bs 56\<rparr>"

record proghdr =
  ph_type :: u32
  ph_flags :: u32
  ph_off :: u64
  ph_vaddr :: u64
  ph_filesz :: u64
  ph_memsz :: u64

definition proghdr_of :: "u8 list \<Rightarrow> proghdr" where
  "proghdr_of bs = \<lparr>ph_type = ld32 bs 0, ph_flags = ld32 bs 4, ph_off = ld64 bs 8, ph_vaddr = ld64 bs 16,
     ph_filesz = ld64 bs 32, ph_memsz = ld64 bs 40\<rparr>"

definition flags2perm :: "u32 \<Rightarrow> u64" where
  "flags2perm flags =
     (let perm = (if and flags 1 \<noteq> 0 then PTE_X else 0)
      in if and flags 2 \<noteq> 0 then or perm PTE_W else perm)"

text \<open>\<open>loadseg\<close> at the page \<open>i\<close>, with \<open>k\<close> bounding the pages that are left.\<close>

primrec loadseg_loop :: "nat \<Rightarrow> u64 \<Rightarrow> u64 \<Rightarrow> nat \<Rightarrow> u32 \<Rightarrow> nat \<Rightarrow> nat \<Rightarrow> ('z lifecycle_scheme, int) kfun" where
  "loadseg_loop 0 pagetable va ip offset sz i = kspin"
| "loadseg_loop (Suc k) pagetable va ip offset sz i =
     (if \<not> i < sz then kret 0 else
      kbind (walkaddr pagetable (va + of_nat i)) (\<lambda>pa.
      if pa = 0 then kpanic ''loadseg: address should exist'' else
      let n = (if sz - i < PGSIZE then sz - i else PGSIZE) in
      kbind (readi ip (Kern_dst pa) (offset + of_nat i) (of_nat n)) (\<lambda>(r, _).
      if r \<noteq> int n then kret (-1)
      else loadseg_loop k pagetable va ip offset sz (i + PGSIZE))))"

definition loadseg :: "u64 \<Rightarrow> u64 \<Rightarrow> nat \<Rightarrow> u32 \<Rightarrow> u32 \<Rightarrow> ('z lifecycle_scheme, int) kfun" where
  "loadseg pagetable va ip offset sz = loadseg_loop (unat sz div PGSIZE + 2) pagetable va ip offset (unat sz) 0"

text \<open>The loop over the program headers: \<open>None\<close> for a jump to \<open>bad\<close>, with the size reached so far.\<close>

primrec exec_load :: "nat \<Rightarrow> u32 \<Rightarrow> nat \<Rightarrow> u64 \<Rightarrow> u64 \<Rightarrow> ('z lifecycle_scheme, bool \<times> u64) kfun" where
  "exec_load 0 off ip pagetable sz = kret (True, sz)"
| "exec_load (Suc k) off ip pagetable sz =
     kbind (readi ip Local_dst off 56) (\<lambda>(r, bs).
     if r \<noteq> 56 then kret (False, sz) else
     let ph = proghdr_of bs in
     if ph_type ph \<noteq> ELF_PROG_LOAD then exec_load k (off + 56) ip pagetable sz else
     if ph_memsz ph < ph_filesz ph then kret (False, sz) else
     if ph_vaddr ph + ph_memsz ph < ph_vaddr ph then kret (False, sz) else
     if pgoff (ph_vaddr ph) \<noteq> 0 then kret (False, sz) else
     kbind (uvmalloc pagetable sz (ph_vaddr ph + ph_memsz ph) (flags2perm (ph_flags ph))) (\<lambda>sz1.
     if sz1 = 0 then kret (False, sz) else
     kbind (loadseg pagetable (ph_vaddr ph) ip (ucast (ph_off ph)) (ucast (ph_filesz ph))) (\<lambda>r.
     if r < 0 then kret (False, sz1) else exec_load k (off + 56) ip pagetable sz1)))"

section \<open>The stack\<close>

text \<open>Pushing the argument strings: \<open>None\<close> for a jump to \<open>bad\<close>.\<close>

fun exec_push :: "u8 list list \<Rightarrow> u64 \<Rightarrow> u64 \<Rightarrow> u64 \<Rightarrow> u64 list \<Rightarrow> ('z lifecycle_scheme, (u64 \<times> u64 list) option) kfun" where
  "exec_push [] pagetable stackbase sp ustack = kret (Some (sp, ustack))"
| "exec_push (a # args) pagetable stackbase sp ustack =
     (if length ustack \<ge> MAXARG then kret None else
      let sp = sp - (of_nat (length a) + 1);
          sp = sp - sp mod 16 in
      if sp < stackbase then kret None else
      kbind (copyout pagetable sp (a @ [0])) (\<lambda>r.
      if r < 0 then kret None else exec_push args pagetable stackbase sp (ustack @ [sp])))"

definition words_bytes :: "u64 list \<Rightarrow> u8 list" where
  "words_bytes ws = concat (map (\<lambda>w. le_bytes 8 (unat w)) ws)"

definition exec_stack :: "u8 list list \<Rightarrow> u64 \<Rightarrow> u64 \<Rightarrow> u64 \<Rightarrow> ('z lifecycle_scheme, (u64 \<times> nat) option) kfun" where
  "exec_stack argv pagetable stackbase sp =
     kbind (exec_push argv pagetable stackbase sp []) (\<lambda>r.
     case r of None \<Rightarrow> kret None | Some (sp, ustack) \<Rightarrow>
     let argc = length ustack;
         sp = sp - of_nat ((argc + 1) * 8);
         sp = sp - sp mod 16 in
     if sp < stackbase then kret None else
     kbind (copyout pagetable sp (words_bytes (ustack @ [0]))) (\<lambda>r.
     if r < 0 then kret None else kret (Some (sp, argc))))"

section \<open>exec\<close>

definition exec_bad :: "u64 \<Rightarrow> u64 \<Rightarrow> nat option \<Rightarrow> ('z lifecycle_scheme, int) kfun" where
  "exec_bad pagetable sz r =
     kseq (kwhen (pagetable \<noteq> 0) (proc_freepagetable pagetable sz)) (
     case r of None \<Rightarrow> kret (-1)
     | Some ip \<Rightarrow> kseq (iunlockput ip) (kseq end_op (kret (-1))))"

text \<open>The characters after the last slash.\<close>

definition basename :: "u8 list \<Rightarrow> u8 list" where
  "basename path = rev (takeWhile (\<lambda>c. c \<noteq> SLASH) (rev path))"

definition TF_A1 :: u64 where "TF_A1 = 120"

definition exec_commit :: "nat \<Rightarrow> u8 list \<Rightarrow> u64 \<Rightarrow> u64 \<Rightarrow> u64 \<Rightarrow> u64 \<Rightarrow> u64 \<Rightarrow> ('z lifecycle_scheme, unit) kfun" where
  "exec_commit p path pagetable sz entry sp oldsz =
     kseq (tfset p TF_A1 sp) (
     kseq (pset p (\<lambda>q. q\<lparr>p_name := safestrcpy (p_name q) (chars (basename path)) 16\<rparr>)) (
     kbind (pget p p_pagetable) (\<lambda>oldpagetable.
     kseq (pset p (\<lambda>q. q\<lparr>p_pagetable := pagetable\<rparr>)) (
     kseq (pset p (\<lambda>q. q\<lparr>p_sz := sz\<rparr>)) (
     kseq (tfset p TF_EPC entry) (
     kseq (tfset p TF_SP sp)
     (proc_freepagetable oldpagetable oldsz)))))))"

definition exec_image :: "nat \<Rightarrow> u8 list \<Rightarrow> u8 list list \<Rightarrow> u64 \<Rightarrow> u64 \<Rightarrow> u64 \<Rightarrow> ('z lifecycle_scheme, int) kfun" where
  "exec_image p path argv pagetable sz entry =
     kbind (pget p p_sz) (\<lambda>oldsz.
     let sz = PGROUNDUP sz in
     kbind (uvmalloc pagetable sz (sz + 2 * of_nat PGSIZE) PTE_W) (\<lambda>sz1.
     if sz1 = 0 then exec_bad pagetable sz None else
     kseq (uvmclear pagetable (sz1 - 2 * of_nat PGSIZE)) (
     kbind (exec_stack argv pagetable (sz1 - of_nat PGSIZE) sz1) (\<lambda>r.
     case r of None \<Rightarrow> exec_bad pagetable sz1 None
     | Some (sp, argc) \<Rightarrow>
         kseq (exec_commit p path pagetable sz1 entry sp oldsz)
         (kret (int argc))))))"

definition exec :: "u8 list \<Rightarrow> u8 list list \<Rightarrow> ('z lifecycle_scheme, int) kfun" where
  "exec path argv =
     kbind curproc (\<lambda>p.
     kseq begin_op (
     kbind (namei path) (\<lambda>r.
     case r of None \<Rightarrow> kseq end_op (kret (-1))
     | Some ip \<Rightarrow>
         kseq (ilock (Some ip)) (
         kbind (readi ip Local_dst 0 64) (\<lambda>(r, bs).
         let elf = elfhdr_of bs in
         if r \<noteq> 64 then exec_bad 0 0 (Some ip) else
         if eh_magic elf \<noteq> ELF_MAGIC then exec_bad 0 0 (Some ip) else
         kbind (proc_pagetable p) (\<lambda>pagetable.
         if pagetable = 0 then exec_bad 0 0 (Some ip) else
         kbind (exec_load (unat (eh_phnum elf)) (ucast (eh_phoff elf)) ip pagetable 0) (\<lambda>(ok, sz).
         if \<not> ok then exec_bad pagetable sz (Some ip) else
         kseq (iunlockput ip) (
         kseq end_op
         (exec_image p path argv pagetable sz (eh_entry elf))))))))))"

end
