(* ===== verification/Sysfile.thy ===== *)
theory Sysfile
  imports Exec
begin

text \<open>
  The arguments of system calls (\<open>kernel/syscall.c\<close>) and the file-system calls \<open>kernel/sysfile.c\<close>. A call
  returns the \<open>int\<close> that the source converts to the \<open>uint64\<close> result. A string argument is the list of its
  characters before the NUL, or \<open>None\<close> for the error \<open>-1\<close> of \<open>fetchstr\<close>.
\<close>

section \<open>Arguments\<close>

definition MAXPATH :: nat where "MAXPATH = 128"

definition fetchaddr :: "u64 \<Rightarrow> ('z lifecycle_scheme, u64 option) kfun" where
  "fetchaddr addr =
     kbind curproc (\<lambda>p.
     kbind (pget p id) (\<lambda>q.
     if addr \<ge> p_sz q \<or> addr + 8 > p_sz q then kret None else
     kbind (copyin (p_pagetable q) addr 8) (\<lambda>(r, bs).
     if r \<noteq> 0 then kret None else kret (Some (of_nat (le_val bs))))))"

definition fetchstr :: "u64 \<Rightarrow> nat \<Rightarrow> ('z lifecycle_scheme, u8 list option) kfun" where
  "fetchstr addr mx =
     kbind curproc (\<lambda>p.
     kbind (pget p p_pagetable) (\<lambda>pt.
     kbind (copyinstr pt addr mx) (\<lambda>(r, bs).
     if r < 0 then kret None else kret (Some (takeWhile (\<lambda>b. b \<noteq> 0) bs)))))"

definition argraw :: "nat \<Rightarrow> ('z lifecycle_scheme, u64) kfun" where
  "argraw n =
     kbind curproc (\<lambda>p.
     if n \<le> 5 then tfget p (TF_A0 + 8 * of_nat n) else kpanic ''argraw'')"

definition argint :: "nat \<Rightarrow> ('z lifecycle_scheme, int) kfun" where
  "argint n = kbind (argraw n) (\<lambda>v. kret (sint (ucast v :: u32)))"

definition argaddr :: "nat \<Rightarrow> ('z lifecycle_scheme, u64) kfun" where
  "argaddr n = argraw n"

definition argstr :: "nat \<Rightarrow> nat \<Rightarrow> ('z lifecycle_scheme, u8 list option) kfun" where
  "argstr n mx = kbind (argaddr n) (\<lambda>addr. fetchstr addr mx)"

definition argfd :: "nat \<Rightarrow> ('z lifecycle_scheme, (nat \<times> nat) option) kfun" where
  "argfd n =
     kbind (argint n) (\<lambda>fd.
     if fd < 0 \<or> fd \<ge> int NOFILE then kret None else
     kbind curproc (\<lambda>p.
     kbind (pget p (\<lambda>q. p_ofile q ! nat fd)) (\<lambda>r.
     case r of None \<Rightarrow> kret None | Some f \<Rightarrow> kret (Some (nat fd, f)))))"

definition fdalloc :: "nat \<Rightarrow> ('z lifecycle_scheme, int) kfun" where
  "fdalloc f =
     kbind curproc (\<lambda>p.
     kbind (pget p p_ofile) (\<lambda>fs.
     case find (\<lambda>fd. fs ! fd = None) [0..<NOFILE] of
       None \<Rightarrow> kret (-1)
     | Some fd \<Rightarrow>
         kseq (pset p (\<lambda>q. q\<lparr>p_ofile := (p_ofile q)[fd := Some f]\<rparr>))
         (kret (int fd))))"

section \<open>Calls on open files\<close>

definition sys_dup :: "('z lifecycle_scheme, int) kfun" where
  "sys_dup =
     kbind (argfd 0) (\<lambda>r.
     case r of None \<Rightarrow> kret (-1) | Some (_, f) \<Rightarrow>
     kbind (fdalloc f) (\<lambda>fd.
     if fd < 0 then kret (-1) else
     kseq (filedup f) (kret fd)))"

definition sys_read :: "('z lifecycle_scheme, int) kfun" where
  "sys_read =
     kbind (argaddr 1) (\<lambda>p.
     kbind (argint 2) (\<lambda>n.
     kbind (argfd 0) (\<lambda>r.
     case r of None \<Rightarrow> kret (-1) | Some (_, f) \<Rightarrow> fileread f p n)))"

definition sys_write :: "('z lifecycle_scheme, int) kfun" where
  "sys_write =
     kbind (argaddr 1) (\<lambda>p.
     kbind (argint 2) (\<lambda>n.
     kbind (argfd 0) (\<lambda>r.
     case r of None \<Rightarrow> kret (-1) | Some (_, f) \<Rightarrow> filewrite f p n)))"

definition sys_close :: "('z lifecycle_scheme, int) kfun" where
  "sys_close =
     kbind (argfd 0) (\<lambda>r.
     case r of None \<Rightarrow> kret (-1) | Some (fd, f) \<Rightarrow>
     kbind curproc (\<lambda>p.
     kseq (pset p (\<lambda>q. q\<lparr>p_ofile := (p_ofile q)[fd := None]\<rparr>)) (
     kseq (fileclose f)
     (kret 0))))"

definition sys_fstat :: "('z lifecycle_scheme, int) kfun" where
  "sys_fstat =
     kbind (argaddr 1) (\<lambda>st.
     kbind (argfd 0) (\<lambda>r.
     case r of None \<Rightarrow> kret (-1) | Some (_, f) \<Rightarrow> filestat f st))"

section \<open>Links and directories\<close>

text \<open>The value a \<open>short\<close> holds after an assignment.\<close>

definition s16 :: "int \<Rightarrow> int" where
  "s16 x = sint (word_of_int x :: u16)"

text \<open>
  The uninitialised array \<open>name\<close> of the callers of \<open>nameiparent\<close>. Its bytes after the NUL that \<open>skipelem\<close>
  writes are never looked at, so it starts as zeroes.
\<close>

definition noname :: "u8 list" where
  "noname = replicate DIRSIZ 0"

definition sys_link_bad :: "nat \<Rightarrow> ('z lifecycle_scheme, int) kfun" where
  "sys_link_bad ip =
     kseq (ilock (Some ip)) (
     kseq (iset ip (\<lambda>n. n\<lparr>i_nlink := s16 (i_nlink n - 1)\<rparr>)) (
     kseq (iupdate ip) (
     kseq (iunlockput ip) (
     kseq end_op
     (kret (-1))))))"

definition sys_link_to :: "nat \<Rightarrow> u8 list \<Rightarrow> ('z lifecycle_scheme, int) kfun" where
  "sys_link_to ip path =
     kbind (nameiparent path noname) (\<lambda>(r, name).
     case r of None \<Rightarrow> sys_link_bad ip
     | Some dp \<Rightarrow>
         kseq (ilock (Some dp)) (
         kbind (iget_f dp i_dev) (\<lambda>ddev.
         kbind (iget_f ip id) (\<lambda>n.
         kbind (if ddev \<noteq> i_dev n then kret (-1) else dirlink dp name (i_inum n)) (\<lambda>r.
         if r < 0 then kseq (iunlockput dp) (sys_link_bad ip) else
         kseq (iunlockput dp) (
         kseq (iput ip) (
         kseq end_op
         (kret 0))))))))"

definition sys_link :: "('z lifecycle_scheme, int) kfun" where
  "sys_link =
     kbind (argstr 0 MAXPATH) (\<lambda>old.
     case old of None \<Rightarrow> kret (-1) | Some old \<Rightarrow>
     kbind (argstr 1 MAXPATH) (\<lambda>new.
     case new of None \<Rightarrow> kret (-1) | Some new \<Rightarrow>
     kseq begin_op (
     kbind (namei old) (\<lambda>r.
     case r of None \<Rightarrow> kseq end_op (kret (-1))
     | Some ip \<Rightarrow>
         kseq (ilock (Some ip)) (
         kbind (iget_f ip i_type) (\<lambda>t.
         if t = T_DIR then
           kseq (iunlockput ip) (
           kseq end_op
           (kret (-1)))
         else
           kseq (iset ip (\<lambda>n. n\<lparr>i_nlink := s16 (i_nlink n + 1)\<rparr>)) (
           kseq (iupdate ip) (
           kseq (iunlock (Some ip))
           (sys_link_to ip new)))))))))"

primrec isdirempty_loop :: "nat \<Rightarrow> nat \<Rightarrow> nat \<Rightarrow> ('z lifecycle_scheme, bool) kfun" where
  "isdirempty_loop 0 dp off = kspin"
| "isdirempty_loop (Suc k) dp off =
     kbind (iget_f dp i_size) (\<lambda>sz.
     if off < unat sz then
       kbind (read_dirent ''isdirempty: readi'' dp off) (\<lambda>de.
       if de_inum de \<noteq> 0 then kret False else isdirempty_loop k dp (off + 16))
     else kret True)"

definition isdirempty :: "nat \<Rightarrow> ('z lifecycle_scheme, bool) kfun" where
  "isdirempty dp = kbind (iget_f dp i_size) (\<lambda>sz. isdirempty_loop (dirents sz) dp 32)"

definition sys_unlink_bad :: "nat \<Rightarrow> ('z lifecycle_scheme, int) kfun" where
  "sys_unlink_bad dp =
     kseq (iunlockput dp) (
     kseq end_op
     (kret (-1)))"

definition sys_unlink_entry :: "nat \<Rightarrow> nat \<Rightarrow> nat \<Rightarrow> ('z lifecycle_scheme, int) kfun" where
  "sys_unlink_entry dp ip off =
     kbind (writei dp (Kern_src (replicate 16 0)) (of_nat off) 16) (\<lambda>r.
     if r \<noteq> 16 then kpanic ''unlink: writei'' else
     kbind (iget_f ip i_type) (\<lambda>t.
     kseq (kwhen (t = T_DIR) (
       kseq (iset dp (\<lambda>n. n\<lparr>i_nlink := s16 (i_nlink n - 1)\<rparr>))
       (iupdate dp))) (
     kseq (iunlockput dp) (
     kseq (iset ip (\<lambda>n. n\<lparr>i_nlink := s16 (i_nlink n - 1)\<rparr>)) (
     kseq (iupdate ip) (
     kseq (iunlockput ip) (
     kseq end_op
     (kret 0))))))))"

definition sys_unlink :: "('z lifecycle_scheme, int) kfun" where
  "sys_unlink =
     kbind (argstr 0 MAXPATH) (\<lambda>path.
     case path of None \<Rightarrow> kret (-1) | Some path \<Rightarrow>
     kseq begin_op (
     kbind (nameiparent path noname) (\<lambda>(r, name).
     case r of None \<Rightarrow> kseq end_op (kret (-1))
     | Some dp \<Rightarrow>
         kseq (ilock (Some dp)) (
         if namecmp name (bytes_of ''.'') = 0 \<or> namecmp name (bytes_of ''..'') = 0 then sys_unlink_bad dp else
         kbind (dirlookup dp name) (\<lambda>r.
         case r of None \<Rightarrow> sys_unlink_bad dp
         | Some (ip, off) \<Rightarrow>
             kseq (ilock (Some ip)) (
             kbind (iget_f ip id) (\<lambda>n.
             if i_nlink n < 1 then kpanic ''unlink: nlink < 1'' else
             kbind (if i_type n = T_DIR then isdirempty ip else kret True) (\<lambda>ok.
             if \<not> ok then kseq (iunlockput ip) (sys_unlink_bad dp)
             else sys_unlink_entry dp ip off))))))))"

section \<open>Creating and opening\<close>

definition create_fail :: "nat \<Rightarrow> nat \<Rightarrow> ('z lifecycle_scheme, nat option) kfun" where
  "create_fail ip dp =
     kseq (iset ip (\<lambda>n. n\<lparr>i_nlink := 0\<rparr>)) (
     kseq (iupdate ip) (
     kseq (iunlockput ip) (
     kseq (iunlockput dp)
     (kret None))))"

definition create_dots :: "nat \<Rightarrow> nat \<Rightarrow> ('z lifecycle_scheme, int) kfun" where
  "create_dots ip dp =
     kbind (iget_f ip i_inum) (\<lambda>i.
     kbind (dirlink ip (bytes_of ''.'') i) (\<lambda>r.
     if r < 0 then kret (-1) else
     kbind (iget_f dp i_inum) (\<lambda>d.
     dirlink ip (bytes_of ''..'') d)))"

definition create_new :: "nat \<Rightarrow> u8 list \<Rightarrow> int \<Rightarrow> int \<Rightarrow> int \<Rightarrow> ('z lifecycle_scheme, nat option) kfun" where
  "create_new dp name type major minor =
     kbind (iget_f dp i_dev) (\<lambda>dev.
     kbind (ialloc dev type) (\<lambda>r.
     case r of None \<Rightarrow> kseq (iunlockput dp) (kret None)
     | Some ip \<Rightarrow>
         kseq (ilock (Some ip)) (
         kseq (iset ip (\<lambda>n. n\<lparr>i_major := major, i_minor := minor, i_nlink := 1\<rparr>)) (
         kseq (iupdate ip) (
         kbind (if type = T_DIR then create_dots ip dp else kret 0) (\<lambda>r.
         if r < 0 then create_fail ip dp else
         kbind (iget_f ip i_inum) (\<lambda>inum.
         kbind (dirlink dp name inum) (\<lambda>r.
         if r < 0 then create_fail ip dp else
         kseq (kwhen (type = T_DIR) (
           kseq (iset dp (\<lambda>n. n\<lparr>i_nlink := s16 (i_nlink n + 1)\<rparr>))
           (iupdate dp))) (
         kseq (iunlockput dp)
         (kret (Some ip)))))))))))"

definition create :: "u8 list \<Rightarrow> int \<Rightarrow> int \<Rightarrow> int \<Rightarrow> ('z lifecycle_scheme, nat option) kfun" where
  "create path type major minor =
     kbind (nameiparent path noname) (\<lambda>(r, name).
     case r of None \<Rightarrow> kret None
     | Some dp \<Rightarrow>
         kseq (ilock (Some dp)) (
         kbind (dirlookup dp name) (\<lambda>r.
         case r of
           Some (ip, _) \<Rightarrow>
             kseq (iunlockput dp) (
             kseq (ilock (Some ip)) (
             kbind (iget_f ip i_type) (\<lambda>t.
             if type = T_FILE \<and> (t = T_FILE \<or> t = T_DEVICE) then kret (Some ip)
             else kseq (iunlockput ip) (kret None))))
         | None \<Rightarrow> create_new dp name type major minor)))"

definition O_RDONLY :: int where "O_RDONLY = 0"

definition O_WRONLY :: "int \<Rightarrow> bool" where "O_WRONLY m \<longleftrightarrow> bit m 0"
definition O_RDWR :: "int \<Rightarrow> bool" where "O_RDWR m \<longleftrightarrow> bit m 1"
definition O_CREATE :: "int \<Rightarrow> bool" where "O_CREATE m \<longleftrightarrow> bit m 9"
definition O_TRUNC :: "int \<Rightarrow> bool" where "O_TRUNC m \<longleftrightarrow> bit m 10"

text \<open>The inode to open, locked, or \<open>None\<close> after a failure that has ended the transaction.\<close>

definition open_inode :: "u8 list \<Rightarrow> int \<Rightarrow> ('z lifecycle_scheme, nat option) kfun" where
  "open_inode path omode =
     (if O_CREATE omode then
        kbind (create path T_FILE 0 0) (\<lambda>r.
        case r of None \<Rightarrow> kseq end_op (kret None) | Some ip \<Rightarrow> kret (Some ip))
      else
        kbind (namei path) (\<lambda>r.
        case r of None \<Rightarrow> kseq end_op (kret None)
        | Some ip \<Rightarrow>
            kseq (ilock (Some ip)) (
            kbind (iget_f ip i_type) (\<lambda>t.
            if t = T_DIR \<and> omode \<noteq> O_RDONLY then
              kseq (iunlockput ip) (
              kseq end_op
              (kret None))
            else kret (Some ip)))))"

definition open_abort :: "nat \<Rightarrow> ('z lifecycle_scheme, int) kfun" where
  "open_abort ip =
     kseq (iunlockput ip) (
     kseq end_op
     (kret (-1)))"

definition open_file :: "nat \<Rightarrow> nat \<Rightarrow> int \<Rightarrow> int \<Rightarrow> ('z lifecycle_scheme, int) kfun" where
  "open_file ip f fd omode =
     kbind (iget_f ip id) (\<lambda>n.
     kseq (if i_type n = T_DEVICE
           then fset f (\<lambda>g. g\<lparr>f_type := FD_DEVICE, f_major := i_major n\<rparr>)
           else fset f (\<lambda>g. g\<lparr>f_type := FD_INODE, f_off := 0\<rparr>)) (
     kseq (fset f (\<lambda>g. g\<lparr>f_ip := Some ip\<rparr>)) (
     kseq (fset f (\<lambda>g. g\<lparr>f_readable := \<not> O_WRONLY omode\<rparr>)) (
     kseq (fset f (\<lambda>g. g\<lparr>f_writable := O_WRONLY omode \<or> O_RDWR omode\<rparr>)) (
     kseq (kwhen (O_TRUNC omode \<and> i_type n = T_FILE) (itrunc ip)) (
     kseq (iunlock (Some ip)) (
     kseq end_op
     (kret fd))))))))"

definition sys_open :: "('z lifecycle_scheme, int) kfun" where
  "sys_open =
     kbind (argint 1) (\<lambda>omode.
     kbind (argstr 0 MAXPATH) (\<lambda>path.
     case path of None \<Rightarrow> kret (-1) | Some path \<Rightarrow>
     kseq begin_op (
     kbind (open_inode path omode) (\<lambda>r.
     case r of None \<Rightarrow> kret (-1) | Some ip \<Rightarrow>
     kbind (iget_f ip id) (\<lambda>n.
     if i_type n = T_DEVICE \<and> (i_major n < 0 \<or> i_major n \<ge> NDEV) then open_abort ip else
     kbind filealloc (\<lambda>r.
     case r of None \<Rightarrow> open_abort ip
     | Some f \<Rightarrow>
         kbind (fdalloc f) (\<lambda>fd.
         if fd < 0 then kseq (fileclose f) (open_abort ip)
         else open_file ip f fd omode)))))))"

definition sys_mkdir :: "('z lifecycle_scheme, int) kfun" where
  "sys_mkdir =
     kseq begin_op (
     kbind (argstr 0 MAXPATH) (\<lambda>path.
     kbind (case path of None \<Rightarrow> kret None | Some path \<Rightarrow> create path T_DIR 0 0) (\<lambda>r.
     case r of None \<Rightarrow> kseq end_op (kret (-1))
     | Some ip \<Rightarrow>
         kseq (iunlockput ip) (
         kseq end_op
         (kret 0)))))"

definition sys_mknod :: "('z lifecycle_scheme, int) kfun" where
  "sys_mknod =
     kseq begin_op (
     kbind (argint 1) (\<lambda>major.
     kbind (argint 2) (\<lambda>minor.
     kbind (argstr 0 MAXPATH) (\<lambda>path.
     kbind (case path of None \<Rightarrow> kret None | Some path \<Rightarrow> create path T_DEVICE (s16 major) (s16 minor)) (\<lambda>r.
     case r of None \<Rightarrow> kseq end_op (kret (-1))
     | Some ip \<Rightarrow>
         kseq (iunlockput ip) (
         kseq end_op
         (kret 0)))))))"

definition sys_chdir :: "('z lifecycle_scheme, int) kfun" where
  "sys_chdir =
     kbind curproc (\<lambda>p.
     kseq begin_op (
     kbind (argstr 0 MAXPATH) (\<lambda>path.
     kbind (case path of None \<Rightarrow> kret None | Some path \<Rightarrow> namei path) (\<lambda>r.
     case r of None \<Rightarrow> kseq end_op (kret (-1))
     | Some ip \<Rightarrow>
         kseq (ilock (Some ip)) (
         kbind (iget_f ip i_type) (\<lambda>t.
         if t \<noteq> T_DIR then
           kseq (iunlockput ip) (
           kseq end_op
           (kret (-1)))
         else
           kseq (iunlock (Some ip)) (
           kbind (pget p p_cwd) (\<lambda>cwd.
           kseq (kptr cwd iput) (
           kseq end_op (
           kseq (pset p (\<lambda>q. q\<lparr>p_cwd := Some ip\<rparr>))
           (kret 0)))))))))))"

section \<open>exec and pipe\<close>

text \<open>
  The loop of \<open>sys_exec\<close> with the pages allocated so far: the strings, or \<open>None\<close> for a jump to \<open>bad\<close>,
  each with the pages that are to be freed.
\<close>

primrec exec_args :: "nat \<Rightarrow> u64 \<Rightarrow> u64 list \<Rightarrow> u8 list list \<Rightarrow>
    ('z lifecycle_scheme, u8 list list option \<times> u64 list) kfun" where
  "exec_args 0 uargv pgs args = kret (None, pgs)"
| "exec_args (Suc k) uargv pgs args =
     kbind (fetchaddr (uargv + 8 * of_nat (length args))) (\<lambda>r.
     case r of None \<Rightarrow> kret (None, pgs)
     | Some uarg \<Rightarrow>
         if uarg = 0 then kret (Some args, pgs) else
         kbind kalloc (\<lambda>pg.
         if pg = 0 then kret (None, pgs) else
         kbind (fetchstr uarg PGSIZE) (\<lambda>r.
         case r of None \<Rightarrow> kret (None, pgs @ [pg])
         | Some a \<Rightarrow>
             kseq (mput pg (a @ [0]))
             (exec_args k uargv (pgs @ [pg]) (args @ [a])))))"

definition sys_exec :: "('z lifecycle_scheme, int) kfun" where
  "sys_exec =
     kbind (argaddr 1) (\<lambda>uargv.
     kbind (argstr 0 MAXPATH) (\<lambda>path.
     case path of None \<Rightarrow> kret (-1) | Some path \<Rightarrow>
     kbind (exec_args MAXARG uargv [] []) (\<lambda>(r, pgs).
     case r of
       None \<Rightarrow> kseq (kfor pgs kfree) (kret (-1))
     | Some argv \<Rightarrow>
         kbind (exec path argv) (\<lambda>ret.
         kseq (kfor pgs kfree)
         (kret ret)))))"

definition clear_fd :: "nat \<Rightarrow> int \<Rightarrow> ('z lifecycle_scheme, unit) kfun" where
  "clear_fd p fd = pset p (\<lambda>q. q\<lparr>p_ofile := (p_ofile q)[nat fd := None]\<rparr>)"

definition sys_pipe_undo :: "nat \<Rightarrow> int list \<Rightarrow> nat \<Rightarrow> nat \<Rightarrow> ('z lifecycle_scheme, int) kfun" where
  "sys_pipe_undo p fds rf wfl =
     kseq (kfor fds (clear_fd p)) (
     kseq (fileclose rf) (
     kseq (fileclose wfl)
     (kret (-1))))"

definition int_bytes :: "int \<Rightarrow> u8 list" where
  "int_bytes i = le_bytes 4 (unat (word_of_int i :: u32))"

definition sys_pipe :: "('z lifecycle_scheme, int) kfun" where
  "sys_pipe =
     kbind curproc (\<lambda>p.
     kbind (argaddr 0) (\<lambda>fdarray.
     kbind pipealloc (\<lambda>r.
     case r of None \<Rightarrow> kret (-1) | Some (rf, wfl) \<Rightarrow>
     kbind (fdalloc rf) (\<lambda>fd0.
     if fd0 < 0 then sys_pipe_undo p [] rf wfl else
     kbind (fdalloc wfl) (\<lambda>fd1.
     if fd1 < 0 then sys_pipe_undo p [fd0] rf wfl else
     kbind (pget p p_pagetable) (\<lambda>pt.
     kbind (copyout pt fdarray (int_bytes fd0)) (\<lambda>r.
     if r < 0 then sys_pipe_undo p [fd0, fd1] rf wfl else
     kbind (copyout pt (fdarray + 4) (int_bytes fd1)) (\<lambda>r.
     if r < 0 then sys_pipe_undo p [fd0, fd1] rf wfl else
     kret 0))))))))"

end
