(* ===== verification/Sysproc.thy ===== *)
theory Sysproc
  imports Sysfile
begin

text \<open>
  The remaining system calls \<open>kernel/sysproc.c\<close> and the dispatch in \<open>kernel/syscall.c\<close>, with the clock
  \<open>ticks\<close> of \<open>kernel/trap.c\<close>. Calls that give up the CPU come with the part that runs afterwards.
\<close>

section \<open>Process calls\<close>

record kernel = lifecycle +
  ticks :: u32

definition sys_exit :: "('z kernel_scheme, int) kfun" where
  "sys_exit = kbind (argint 0) (\<lambda>n. kseq (exit n) (kret 0))"

definition sys_getpid :: "('z kernel_scheme, int) kfun" where
  "sys_getpid = kbind curproc (\<lambda>p. pget p p_pid)"

definition sys_fork :: "('z kernel_scheme, int) kfun" where
  "sys_fork = fork"

definition sys_wait :: "('z kernel_scheme, int) kfun" where
  "sys_wait = kbind (argaddr 0) wait"

definition sys_sbrk :: "('z kernel_scheme, u64) kfun" where
  "sys_sbrk =
     kbind (argint 0) (\<lambda>n.
     kbind curproc (\<lambda>p.
     kbind (pget p p_sz) (\<lambda>addr.
     kbind (growproc n) (\<lambda>r.
     if r < 0 then kret (-1) else kret addr))))"

text \<open>The loop of \<open>sys_sleep\<close>; the comparison is between unsigned numbers.\<close>

definition sleep_loop :: "u32 \<Rightarrow> int \<Rightarrow> ('z kernel_scheme, int) kfun" where
  "sleep_loop ticks0 n =
     kbind (kget ticks) (\<lambda>now.
     if now - ticks0 < word_of_int n then
       kbind curproc (\<lambda>p.
       kbind (killed p) (\<lambda>k.
       if k \<noteq> 0 then kseq (release Tickslock) (kret (-1))
       else kseq (sleep Chan_ticks Tickslock) kspin))
     else kseq (release Tickslock) (kret 0))"

definition sys_sleep :: "('z kernel_scheme, int) kfun" where
  "sys_sleep =
     kbind (argint 0) (\<lambda>n.
     kseq (acquire Tickslock) (
     kbind (kget ticks) (\<lambda>ticks0.
     sleep_loop ticks0 n)))"

definition sys_sleep_resume :: "nat \<Rightarrow> bool \<Rightarrow> u32 \<Rightarrow> int \<Rightarrow> ('z kernel_scheme, int) kfun" where
  "sys_sleep_resume p ena ticks0 n = kseq (sleep_resume p Tickslock ena) (sleep_loop ticks0 n)"

definition sys_kill :: "('z kernel_scheme, int) kfun" where
  "sys_kill = kbind (argint 0) kill"

definition sys_uptime :: "('z kernel_scheme, u64) kfun" where
  "sys_uptime =
     kseq (acquire Tickslock) (
     kbind (kget ticks) (\<lambda>x.
     kseq (release Tickslock)
     (kret (ucast x))))"

section \<open>RCU and thread calls\<close>

definition sys_rcureadlock :: "('z kernel_scheme, int) kfun" where
  "sys_rcureadlock = kseq push_off (kret 1)"

definition sys_rcureadunlock :: "('z kernel_scheme, int) kfun" where
  "sys_rcureadunlock = kseq pop_off (kret 1)"

text \<open>
  \<open>sys_rcusync\<close> has its own copy of the loop of \<open>synchronize_rcu\<close>, \<open>rcusync_wait\<close>. It leaves the CPU in
  its first \<open>yield\<close>; \<open>sys_rcusync_resume\<close> is the rest after the turn with the counter \<open>i\<close>.
\<close>

definition rcusync_end :: "('z kernel_scheme, int) kfun" where
  "rcusync_end = kseq (printf (Some ([CHR 0x0A] @ '' RCU sync done!'')) []) (kret 1)"

definition sys_rcusync :: "('z kernel_scheme, int) kfun" where
  "sys_rcusync = kseq (rcu_call rcusync_wait) rcusync_end"

definition sys_rcusync_resume :: "nat \<Rightarrow> nat \<Rightarrow> bool \<Rightarrow> ('z kernel_scheme, int) kfun" where
  "sys_rcusync_resume p i ena = kseq (rcu_resume rcusync_wait p i ena) rcusync_end"

definition sys_thread_create :: "('z kernel_scheme, int) kfun" where
  "sys_thread_create =
     kbind (argaddr 0) (\<lambda>fcn.
     kbind (argaddr 1) (\<lambda>arg.
     kbind (argaddr 2) (\<lambda>user_stack.
     thread_create fcn arg user_stack)))"

definition sys_thread_join :: "('z kernel_scheme, int) kfun" where
  "sys_thread_join = thread_join"

definition sys_thread_exit :: "('z kernel_scheme, int) kfun" where
  "sys_thread_exit = kbind (argint 0) (\<lambda>n. kseq (thread_exit n) (kret 0))"

section \<open>Calls on the kernel list\<close>

text \<open>The loop of \<open>sys_klist_insert\<close> from \<open>i\<close> with \<open>k\<close> turns to go, and what follows an insertion that waited.\<close>

definition klist_insert_end :: "('z kernel_scheme, int) kfun" where
  "klist_insert_end =
     kbind get_total_free_pages (\<lambda>n.
     kseq (printf (Some (''Total free pages %d'' @ [CHR 0x0A])) [VInt n])
     (kret 1))"

primrec klist_insert_loop :: "nat \<Rightarrow> int \<Rightarrow> bool \<Rightarrow> ('z kernel_scheme, int) kfun" where
  "klist_insert_loop 0 i is_rcu = klist_insert_end"
| "klist_insert_loop (Suc k) i is_rcu =
     kseq (if is_rcu then insert_node i else insert_lock i)
     (klist_insert_loop k (i + 1) is_rcu)"

definition sys_klist_insert :: "('z kernel_scheme, int) kfun" where
  "sys_klist_insert =
     kbind (argint 0) (\<lambda>n.
     kbind (argint 1) (\<lambda>is_rcu.
     kseq (if is_rcu \<noteq> 0 then init_list else init_list_lock)
     (klist_insert_loop (nat n) 1 (is_rcu \<noteq> 0))))"

definition klist_insert_resume :: "nat \<Rightarrow> bool \<Rightarrow> nat \<Rightarrow> u64 \<Rightarrow> nat \<Rightarrow> int \<Rightarrow> ('z kernel_scheme, int) kfun" where
  "klist_insert_resume p ena j new_node k i =
     kseq (rcu_resume synchronize_rcu p j ena) (
     kseq (insert_finish new_node)
     (klist_insert_loop k (i + 1) True))"

definition sys_klist_delete :: "('z kernel_scheme, int) kfun" where
  "sys_klist_delete =
     kbind (argint 0) (\<lambda>n.
     kbind (argint 1) (\<lambda>is_rcu.
     kseq (if is_rcu \<noteq> 0 then deleteNode n else deleteNode_lock n)
     (kret 1)))"

definition klist_delete_resume :: "nat \<Rightarrow> bool \<Rightarrow> nat \<Rightarrow> u64 \<Rightarrow> ('z kernel_scheme, int) kfun" where
  "klist_delete_resume p ena j t =
     kseq (rcu_resume synchronize_rcu p j ena) (
     kseq (delete_finish t)
     (kret 1))"

definition sys_klist_query :: "('z kernel_scheme, int) kfun" where
  "sys_klist_query =
     kbind (argint 0) (\<lambda>n.
     kbind (argint 1) (\<lambda>is_rcu.
     kbind (if is_rcu \<noteq> 0 then search n else search_lock n) (\<lambda>res.
     kseq (kwhen (res \<noteq> 0) (printf (Some (''present'' @ [CHR 0x0A])) []))
     (kret 1))))"

definition sys_klist_print :: "('z kernel_scheme, int) kfun" where
  "sys_klist_print = kseq printList (kret 1)"

section \<open>Dispatch\<close>

definition as_u64 :: "('z kernel_scheme, int) kfun \<Rightarrow> ('z kernel_scheme, u64) kfun" where
  "as_u64 m = kbind m (\<lambda>r. kret (word_of_int r))"

text \<open>The table \<open>syscalls\<close>, with the numbers of \<open>kernel/syscall.h\<close>.\<close>

definition syscalls :: "('z kernel_scheme, u64) kfun list" where
  "syscalls =
    [as_u64 sys_fork, as_u64 sys_exit, as_u64 sys_wait, as_u64 sys_pipe, as_u64 sys_read,
     as_u64 sys_kill, as_u64 sys_exec, as_u64 sys_fstat, as_u64 sys_chdir, as_u64 sys_dup,
     as_u64 sys_getpid, sys_sbrk, as_u64 sys_sleep, sys_uptime, as_u64 sys_open,
     as_u64 sys_write, as_u64 sys_mknod, as_u64 sys_unlink, as_u64 sys_link, as_u64 sys_mkdir,
     as_u64 sys_close, as_u64 sys_rcusync, as_u64 sys_rcureadlock, as_u64 sys_rcureadunlock,
     as_u64 sys_thread_create, as_u64 sys_thread_join, as_u64 sys_thread_exit,
     as_u64 sys_klist_insert, as_u64 sys_klist_delete, as_u64 sys_klist_query, as_u64 sys_klist_print]"

definition TF_A7 :: u64 where "TF_A7 = 168"

definition syscall :: "('z kernel_scheme, unit) kfun" where
  "syscall =
     kbind curproc (\<lambda>p.
     kbind (tfget p TF_A7) (\<lambda>a7.
     let num = sint (ucast a7 :: u32) in
     if num > 0 \<and> num < int (length (syscalls :: ('z kernel_scheme, u64) kfun list)) + 1 then
       kbind (syscalls ! nat (num - 1)) (\<lambda>r. tfset p TF_A0 r)
     else
       kbind (pget p id) (\<lambda>q.
       kseq (printf (Some (''%d %s: unknown sys call %d'' @ [CHR 0x0A]))
               [VInt (p_pid q), VStr (Some (name_text (p_name q))), VInt num])
       (tfset p TF_A0 (-1)))))"

end
