(* ===== verification/Trap.thy ===== *)
theory Trap
  imports Sysproc
begin

unbundle bit_operations_syntax

text \<open>
  Traps and start-up: \<open>kernel/trap.c\<close>, \<open>kernel/plic.c\<close>, \<open>forkret\<close> of \<open>kernel/proc.c\<close>, \<open>kvminit\<close> and
  \<open>kvminithart\<close> of \<open>kernel/vm.c\<close>, and \<open>kernel/main.c\<close>.

  The supervisor registers of each hart are a record; the bit SIE of \<open>sstatus\<close> is the interrupt flag
  \<open>sie\<close> of the machine, so \<open>r_sstatus\<close> and \<open>w_sstatus\<close> join and split the two. The interrupt controller is
  the field \<open>plic_irq\<close>, what its claim register reads on a hart, and the list of the writes to it. The
  addresses of \<open>kernelvec\<close>, \<open>uservec\<close>, \<open>userret\<close>, \<open>usertrap\<close> and \<open>etext\<close> are symbols of the linker.

  \<open>usertrap\<close> ends with the jump to \<open>userret\<close>, here the value \<open>(address, satp)\<close> it returns; a handler that
  switches away continues with the \<open>_resume\<close> definition.
\<close>

section \<open>State\<close>

record csrs =
  csr_sstatus :: u64
  csr_sepc :: u64
  csr_scause :: u64
  csr_stval :: u64
  csr_stvec :: u64
  csr_satp :: u64
  csr_sip :: u64

record symbols =
  sym_kernelvec :: u64
  sym_uservec :: u64
  sym_userret :: u64
  sym_usertrap :: u64
  sym_etext :: u64

record hardware = kernel +
  csr :: "nat \<Rightarrow> csrs"
  syms :: symbols
  plic_irq :: "nat \<Rightarrow> u32"
  plic_writes :: "(u64 \<times> u32) list"
  kernel_pagetable :: u64
  started :: bool

definition SSTATUS_SPP :: u64 where "SSTATUS_SPP = push_bit 8 1"
definition SSTATUS_SPIE :: u64 where "SSTATUS_SPIE = push_bit 5 1"
definition SSTATUS_SIE :: u64 where "SSTATUS_SIE = push_bit 1 1"

definition cget :: "(csrs \<Rightarrow> 'a) \<Rightarrow> ('z hardware_scheme, 'a) kfun" where
  "cget f = kget (\<lambda>s. f (csr s (tp s)))"

definition cset :: "(csrs \<Rightarrow> csrs) \<Rightarrow> ('z hardware_scheme, unit) kfun" where
  "cset f = kmod (\<lambda>s. s\<lparr>csr := (csr s)(tp s := f (csr s (tp s)))\<rparr>)"

definition r_sstatus :: "('z hardware_scheme, u64) kfun" where
  "r_sstatus = kget (\<lambda>s. (csr_sstatus (csr s (tp s)) AND NOT SSTATUS_SIE) OR (if sie s (tp s) then SSTATUS_SIE else 0))"

definition w_sstatus :: "u64 \<Rightarrow> ('z hardware_scheme, unit) kfun" where
  "w_sstatus x =
     kseq (cset (\<lambda>c. c\<lparr>csr_sstatus := x\<rparr>))
     (kmod (\<lambda>s. s\<lparr>sie := (sie s)(tp s := (x AND SSTATUS_SIE \<noteq> 0))\<rparr>))"

definition MAKE_SATP :: "u64 \<Rightarrow> u64" where
  "MAKE_SATP pagetable = push_bit 60 8 OR drop_bit 12 pagetable"

section \<open>Interrupt controller\<close>

definition UART0_IRQ :: nat where "UART0_IRQ = 10"
definition VIRTIO0_IRQ :: nat where "VIRTIO0_IRQ = 1"
definition PLIC_SENABLE :: "nat \<Rightarrow> u64" where "PLIC_SENABLE hart = PLIC + 0x2080 + of_nat hart * 0x100"
definition PLIC_SPRIORITY :: "nat \<Rightarrow> u64" where "PLIC_SPRIORITY hart = PLIC + 0x201000 + of_nat hart * 0x2000"
definition PLIC_SCLAIM :: "nat \<Rightarrow> u64" where "PLIC_SCLAIM hart = PLIC + 0x201004 + of_nat hart * 0x2000"

definition plic_put :: "u64 \<Rightarrow> u32 \<Rightarrow> ('z hardware_scheme, unit) kfun" where
  "plic_put a v = kmod (\<lambda>s. s\<lparr>plic_writes := plic_writes s @ [(a, v)]\<rparr>)"

definition plicinit :: "('z hardware_scheme, unit) kfun" where
  "plicinit =
     kseq (plic_put (PLIC + of_nat UART0_IRQ * 4) 1)
     (plic_put (PLIC + of_nat VIRTIO0_IRQ * 4) 1)"

definition plicinithart :: "('z hardware_scheme, unit) kfun" where
  "plicinithart =
     kbind (kget cpuid) (\<lambda>hart.
     kseq (plic_put (PLIC_SENABLE hart) (push_bit UART0_IRQ 1 OR push_bit VIRTIO0_IRQ 1))
     (plic_put (PLIC_SPRIORITY hart) 0))"

definition plic_claim :: "('z hardware_scheme, u32) kfun" where
  "plic_claim = kget (\<lambda>s. plic_irq s (cpuid s))"

definition plic_complete :: "u32 \<Rightarrow> ('z hardware_scheme, unit) kfun" where
  "plic_complete irq = kbind (kget cpuid) (\<lambda>hart. plic_put (PLIC_SCLAIM hart) irq)"

section \<open>Traps\<close>

definition trapinit :: "('z hardware_scheme, unit) kfun" where
  "trapinit = initlock Tickslock ''time''"

definition trapinithart :: "('z hardware_scheme, unit) kfun" where
  "trapinithart = kbind (kget (\<lambda>s. sym_kernelvec (syms s))) (\<lambda>kv. cset (\<lambda>c. c\<lparr>csr_stvec := kv\<rparr>))"

definition clockintr :: "('z hardware_scheme, unit) kfun" where
  "clockintr =
     kseq (acquire Tickslock) (
     kseq (kmod (\<lambda>s. s\<lparr>ticks := ticks s + 1\<rparr>)) (
     kseq (wakeup (Some Chan_ticks))
     (release Tickslock)))"

definition devintr :: "('z hardware_scheme, nat) kfun" where
  "devintr =
     kbind (cget csr_scause) (\<lambda>scause.
     if scause AND 0x8000000000000000 \<noteq> 0 \<and> scause AND 0xff = 9 then
       kbind plic_claim (\<lambda>irq.
       kseq (if irq = of_nat UART0_IRQ then uartintr
             else if irq = of_nat VIRTIO0_IRQ then virtio_disk_intr
             else kwhen (irq \<noteq> 0)
               (printf (Some (''unexpected interrupt irq=%d'' @ [CHR 0x0A])) [VInt (sint irq)])) (
       kseq (kwhen (irq \<noteq> 0) (plic_complete irq))
       (kret 1)))
     else if scause = 0x8000000000000001 then
       kbind (kget cpuid) (\<lambda>hart.
       kseq (kwhen (hart = 0) clockintr) (
       kseq (cset (\<lambda>c. c\<lparr>csr_sip := csr_sip c AND NOT 2\<rparr>))
       (kret 2)))
     else kret 0)"

definition TF_KSATP :: u64 where "TF_KSATP = 0"
definition TF_KSP :: u64 where "TF_KSP = 8"
definition TF_KTRAP :: u64 where "TF_KTRAP = 16"
definition TF_KHARTID :: u64 where "TF_KHARTID = 32"

definition usertrapret :: "('z hardware_scheme, u64 \<times> u64) kfun" where
  "usertrapret =
     kbind curproc (\<lambda>p.
     kseq intr_off (
     kbind (kget (\<lambda>s. TRAMPOLINE + (sym_uservec (syms s) - trampoline s))) (\<lambda>trampoline_uservec.
     kseq (cset (\<lambda>c. c\<lparr>csr_stvec := trampoline_uservec\<rparr>)) (
     kbind (cget csr_satp) (\<lambda>ks.
     kseq (tfset p TF_KSATP ks) (
     kbind (pget p p_kstack) (\<lambda>kstack.
     kseq (tfset p TF_KSP (kstack + of_nat PGSIZE)) (
     kbind (kget (\<lambda>s. sym_usertrap (syms s))) (\<lambda>ut.
     kseq (tfset p TF_KTRAP ut) (
     kbind (kget tp) (\<lambda>hart.
     kseq (tfset p TF_KHARTID (of_nat hart)) (
     kbind r_sstatus (\<lambda>x.
     kseq (w_sstatus ((x AND NOT SSTATUS_SPP) OR SSTATUS_SPIE)) (
     kbind (tfget p TF_EPC) (\<lambda>epc.
     kseq (cset (\<lambda>c. c\<lparr>csr_sepc := epc\<rparr>)) (
     kbind (pget p p_pagetable) (\<lambda>pagetable.
     kbind (kget (\<lambda>s. TRAMPOLINE + (sym_userret (syms s) - trampoline s))) (\<lambda>trampoline_userret.
     kret (trampoline_userret, MAKE_SATP pagetable)))))))))))))))))))"

text \<open>The end of \<open>usertrap\<close>, after the cause was handled; and what follows a system call that waited.\<close>

definition usertrap_end :: "nat \<Rightarrow> nat \<Rightarrow> ('z hardware_scheme, u64 \<times> u64) kfun" where
  "usertrap_end p which_dev =
     kbind (killed p) (\<lambda>k.
     kseq (kwhen (k \<noteq> 0) (exit (-1))) (
     kseq (kwhen (which_dev = 2) yield)
     usertrapret))"

definition usertrap :: "('z hardware_scheme, u64 \<times> u64) kfun" where
  "usertrap =
     kbind r_sstatus (\<lambda>st.
     if st AND SSTATUS_SPP \<noteq> 0 then kpanic ''usertrap: not from user mode'' else
     kseq trapinithart (
     kbind curproc (\<lambda>p.
     kbind (cget csr_sepc) (\<lambda>sepc.
     kseq (tfset p TF_EPC sepc) (
     kbind (cget csr_scause) (\<lambda>scause.
     if scause = 8 then
       kbind (killed p) (\<lambda>k.
       kseq (kwhen (k \<noteq> 0) (exit (-1))) (
       kbind (tfget p TF_EPC) (\<lambda>epc.
       kseq (tfset p TF_EPC (epc + 4)) (
       kseq intr_on (
       kseq syscall
       (usertrap_end p 0))))))
     else
       kbind devintr (\<lambda>which_dev.
       kseq (kwhen (which_dev = 0) (
         kbind (pget p p_pid) (\<lambda>pid.
         kbind (cget csr_stval) (\<lambda>stval.
         kseq (printf (Some (''usertrap(): unexpected scause %p pid=%d'' @ [CHR 0x0A])) [VPtr scause, VInt pid]) (
         kseq (printf (Some (''            sepc=%p stval=%p'' @ [CHR 0x0A])) [VPtr sepc, VPtr stval])
         (setkilled p))))))
       (usertrap_end p which_dev))))))))"

definition usertrap_timer_resume :: "nat \<Rightarrow> bool \<Rightarrow> ('z hardware_scheme, u64 \<times> u64) kfun" where
  "usertrap_timer_resume p ena = kseq (yield_resume p ena) usertrapret"

definition usertrap_syscall_resume :: "nat \<Rightarrow> ('z hardware_scheme, u64) kfun \<Rightarrow> ('z hardware_scheme, u64 \<times> u64) kfun" where
  "usertrap_syscall_resume p rest =
     kbind rest (\<lambda>r.
     kseq (tfset p TF_A0 r)
     (usertrap_end p 0))"

definition kerneltrap_end :: "u64 \<Rightarrow> u64 \<Rightarrow> ('z hardware_scheme, unit) kfun" where
  "kerneltrap_end sepc sstatus = kseq (cset (\<lambda>c. c\<lparr>csr_sepc := sepc\<rparr>)) (w_sstatus sstatus)"

definition running_here :: "'z ptable_scheme \<Rightarrow> bool" where
  "running_here s = (case cpu_proc (mycpu s) of None \<Rightarrow> False | Some p \<Rightarrow> p_state (procs s p) = RUNNING)"

definition kerneltrap :: "('z hardware_scheme, unit) kfun" where
  "kerneltrap =
     kbind (cget csr_sepc) (\<lambda>sepc.
     kbind r_sstatus (\<lambda>sstatus.
     kbind (cget csr_scause) (\<lambda>scause.
     if sstatus AND SSTATUS_SPP = 0 then kpanic ''kerneltrap: not from supervisor mode'' else
     kbind (kget intr_get) (\<lambda>on.
     if on then kpanic ''kerneltrap: interrupts enabled'' else
     kbind devintr (\<lambda>which_dev.
     if which_dev = 0 then
       kbind (cget csr_stval) (\<lambda>stval.
       kseq (printf (Some (''scause %p'' @ [CHR 0x0A])) [VPtr scause]) (
       kseq (printf (Some (''sepc=%p stval=%p'' @ [CHR 0x0A])) [VPtr sepc, VPtr stval])
       (kpanic ''kerneltrap'')))
     else
       kbind (kget running_here) (\<lambda>r.
       kseq (kwhen (which_dev = 2 \<and> r) yield)
       (kerneltrap_end sepc sstatus)))))))"

definition kerneltrap_resume :: "nat \<Rightarrow> bool \<Rightarrow> u64 \<Rightarrow> u64 \<Rightarrow> ('z hardware_scheme, unit) kfun" where
  "kerneltrap_resume p ena sepc sstatus = kseq (yield_resume p ena) (kerneltrap_end sepc sstatus)"

section \<open>First return of a process, and start-up\<close>

definition forkret :: "('z hardware_scheme, u64 \<times> u64) kfun" where
  "forkret =
     kbind curproc (\<lambda>p.
     kseq (release (Proc_lock p)) (
     kbind (kget forkret_first) (\<lambda>first.
     kseq (kwhen first (
       kseq (kmod (\<lambda>s. s\<lparr>forkret_first := False\<rparr>))
       (fsinit (sint ROOTDEV))))
     usertrapret)))"

definition kvminit :: "('z hardware_scheme, unit) kfun" where
  "kvminit =
     kbind (kget (\<lambda>s. (sym_etext (syms s), trampoline s))) (\<lambda>(etext, tr).
     kbind (kvmmake etext tr) (\<lambda>pt.
     kmod (\<lambda>s. s\<lparr>kernel_pagetable := pt\<rparr>)))"

definition kvminithart :: "('z hardware_scheme, unit) kfun" where
  "kvminithart = kbind (kget kernel_pagetable) (\<lambda>pt. cset (\<lambda>c. c\<lparr>csr_satp := MAKE_SATP pt\<rparr>))"

definition main :: "('z hardware_scheme, unit) kfun" where
  "main =
     kbind (kget cpuid) (\<lambda>hart.
     kseq (
       if hart = 0 then
         kseq consoleinit (
         kseq printfinit (
         kseq (printf (Some [CHR 0x0A]) []) (
         kseq (printf (Some (''xv6 kernel is booting'' @ [CHR 0x0A])) []) (
         kseq (printf (Some [CHR 0x0A]) []) (
         kseq kinit (
         kseq kvminit (
         kseq kvminithart (
         kseq procinit (
         kseq trapinit (
         kseq trapinithart (
         kseq plicinit (
         kseq plicinithart (
         kseq binit (
         kseq iinit (
         kseq fileinit (
         kseq virtio_disk_init (
         kseq userinit
         (kmod (\<lambda>s. s\<lparr>started := True\<rparr>)))))))))))))))))))
       else
         kbind (kget started) (\<lambda>st.
         if \<not> st then kspin else
         kseq (printf (Some (''hart %d starting'' @ [CHR 0x0A])) [VInt (int hart)]) (
         kseq kvminithart (
         kseq trapinithart
         plicinithart))))
     scheduler)"

end
