(* ===== verification/Hart.thy ===== *)
theory Hart
  imports Prelude
begin

unbundle bit_operations_syntax

text \<open>
  A RISC-V hart and the assembly code of the kernel: \<open>kernel/trampoline.S\<close>, \<open>kernel/kernelvec.S\<close>,
  \<open>kernel/swtch.S\<close>, \<open>kernel/entry.S\<close>, with the machine-mode start-up code \<open>kernel/start.c\<close>.

  A program is the list of its instructions. Memory is physical and made of doublewords, since every access
  of this code is an aligned doubleword; loads and stores go through the translation \<open>xlat\<close> that the value
  of \<open>satp\<close> selects in supervisor mode. The theorems say what the rest of the kernel relies on: a trap from
  user space saves every user register in the trapframe and \<open>userret\<close> brings each of them back, \<open>swtch\<close>
  exchanges two contexts, \<open>kernelvec\<close> is transparent for the interrupted kernel code, and \<open>timervec\<close> changes
  nothing but the clock registers.
\<close>

section \<open>Registers and instructions\<close>

datatype reg = RA | SP | GP | TP | T0 | T1 | T2 | S0 | S1 | A0 | A1 | A2 | A3 | A4 | A5 | A6 | A7
  | S2 | S3 | S4 | S5 | S6 | S7 | S8 | S9 | S10 | S11 | T3 | T4 | T5 | T6

datatype csreg = Sscratch | Satp | Sepc | Sstatus | Sip | Sie | Mscratch | Mstatus | Mepc | Mtvec | Mie
  | Medeleg | Mideleg | Pmpaddr0 | Pmpcfg0 | Mhartid

datatype mode = Mode_U | Mode_S | Mode_M

record hart =
  regs :: "reg \<Rightarrow> u64"
  csrf :: "csreg \<Rightarrow> u64"
  dw :: "u64 \<Rightarrow> u64"
  pc :: u64
  hmode :: mode
  xlat :: "u64 \<Rightarrow> u64 \<Rightarrow> u64"

datatype insn = SD reg u64 reg | LD reg u64 reg | LI reg u64 | ADDI reg reg u64 | ADD reg reg reg
  | MUL reg reg reg | CSRR reg csreg | CSRW csreg reg | CSRRW reg csreg reg | SFENCE | JR reg | SRET | MRET

definition paddr :: "hart \<Rightarrow> u64 \<Rightarrow> u64" where
  "paddr h a = (if hmode h = Mode_M then a else xlat h (csrf h Satp) a)"

definition set_reg :: "reg \<Rightarrow> u64 \<Rightarrow> hart \<Rightarrow> hart" where
  "set_reg r v h = h\<lparr>regs := (regs h)(r := v)\<rparr>"

definition set_csr :: "csreg \<Rightarrow> u64 \<Rightarrow> hart \<Rightarrow> hart" where
  "set_csr c v h = h\<lparr>csrf := (csrf h)(c := v)\<rparr>"

definition set_dw :: "u64 \<Rightarrow> u64 \<Rightarrow> hart \<Rightarrow> hart" where
  "set_dw a v h = h\<lparr>dw := (dw h)(paddr h a := v)\<rparr>"

text \<open>\<open>sret\<close> and \<open>mret\<close> pop the previous privilege and interrupt enable from the status register.\<close>

definition sret :: "hart \<Rightarrow> hart" where
  "sret h = h\<lparr>pc := csrf h Sepc,
     hmode := (if bit (csrf h Sstatus) 8 then Mode_S else Mode_U),
     csrf := (csrf h)(Sstatus :=
       (if bit (csrf h Sstatus) 5 then csrf h Sstatus OR 2 else csrf h Sstatus AND NOT 2) AND NOT 0x100 OR 0x20)\<rparr>"

definition mret :: "hart \<Rightarrow> hart" where
  "mret h = h\<lparr>pc := csrf h Mepc,
     hmode := (let mpp = (drop_bit 11 (csrf h Mstatus)) AND 3 in
       if mpp = 0 then Mode_U else if mpp = 1 then Mode_S else Mode_M),
     csrf := (csrf h)(Mstatus :=
       (if bit (csrf h Mstatus) 7 then csrf h Mstatus OR 8 else csrf h Mstatus AND NOT 8) AND NOT 0x1800 OR 0x80)\<rparr>"

fun exec_insn :: "insn \<Rightarrow> hart \<Rightarrow> hart" where
  "exec_insn (SD r off b) h = set_dw (regs h b + off) (regs h r) h"
| "exec_insn (LD r off b) h = set_reg r (dw h (paddr h (regs h b + off))) h"
| "exec_insn (LI r v) h = set_reg r v h"
| "exec_insn (ADDI r a v) h = set_reg r (regs h a + v) h"
| "exec_insn (ADD r a b) h = set_reg r (regs h a + regs h b) h"
| "exec_insn (MUL r a b) h = set_reg r (regs h a * regs h b) h"
| "exec_insn (CSRR r c) h = set_reg r (csrf h c) h"
| "exec_insn (CSRW c r) h = set_csr c (regs h r) h"
| "exec_insn (CSRRW r c a) h = set_reg r (csrf h c) (set_csr c (regs h a) h)"
| "exec_insn SFENCE h = h"
| "exec_insn (JR r) h = h\<lparr>pc := regs h r\<rparr>"
| "exec_insn SRET h = sret h"
| "exec_insn MRET h = mret h"

fun run :: "insn list \<Rightarrow> hart \<Rightarrow> hart" where
  "run [] h = h"
| "run (i # is) h = run is (exec_insn i h)"

section \<open>The programs\<close>

text \<open>\<open>TRAPFRAME\<close> of \<open>kernel/memlayout.h\<close>: the page below the trampoline.\<close>

definition TRAPFRAME_VA :: u64 where
  "TRAPFRAME_VA = 2 ^ 38 - 2 * 4096"

definition uservec :: "insn list" where
  "uservec =
    [CSRW Sscratch A0,
     LI A0 TRAPFRAME_VA,
     SD RA 40 A0, SD SP 48 A0, SD GP 56 A0, SD TP 64 A0, SD T0 72 A0, SD T1 80 A0, SD T2 88 A0,
     SD S0 96 A0, SD S1 104 A0, SD A1 120 A0, SD A2 128 A0, SD A3 136 A0, SD A4 144 A0, SD A5 152 A0,
     SD A6 160 A0, SD A7 168 A0, SD S2 176 A0, SD S3 184 A0, SD S4 192 A0, SD S5 200 A0, SD S6 208 A0,
     SD S7 216 A0, SD S8 224 A0, SD S9 232 A0, SD S10 240 A0, SD S11 248 A0, SD T3 256 A0, SD T4 264 A0,
     SD T5 272 A0, SD T6 280 A0,
     CSRR T0 Sscratch, SD T0 112 A0,
     LD SP 8 A0, LD TP 32 A0, LD T0 16 A0, LD T1 0 A0,
     SFENCE, CSRW Satp T1, SFENCE,
     JR T0]"

definition userret :: "insn list" where
  "userret =
    [SFENCE, CSRW Satp A0, SFENCE,
     LI A0 TRAPFRAME_VA,
     LD RA 40 A0, LD SP 48 A0, LD GP 56 A0, LD TP 64 A0, LD T0 72 A0, LD T1 80 A0, LD T2 88 A0,
     LD S0 96 A0, LD S1 104 A0, LD A1 120 A0, LD A2 128 A0, LD A3 136 A0, LD A4 144 A0, LD A5 152 A0,
     LD A6 160 A0, LD A7 168 A0, LD S2 176 A0, LD S3 184 A0, LD S4 192 A0, LD S5 200 A0, LD S6 208 A0,
     LD S7 216 A0, LD S8 224 A0, LD S9 232 A0, LD S10 240 A0, LD S11 248 A0, LD T3 256 A0, LD T4 264 A0,
     LD T5 272 A0, LD T6 280 A0,
     LD A0 112 A0,
     SRET]"

definition swtch :: "insn list" where
  "swtch =
    [SD RA 0 A0, SD SP 8 A0, SD S0 16 A0, SD S1 24 A0, SD S2 32 A0, SD S3 40 A0, SD S4 48 A0, SD S5 56 A0,
     SD S6 64 A0, SD S7 72 A0, SD S8 80 A0, SD S9 88 A0, SD S10 96 A0, SD S11 104 A0,
     LD RA 0 A1, LD SP 8 A1, LD S0 16 A1, LD S1 24 A1, LD S2 32 A1, LD S3 40 A1, LD S4 48 A1, LD S5 56 A1,
     LD S6 64 A1, LD S7 72 A1, LD S8 80 A1, LD S9 88 A1, LD S10 96 A1, LD S11 104 A1,
     JR RA]"

text \<open>\<open>kernelvec\<close> before and after its call of \<open>kerneltrap\<close>.\<close>

definition kernelvec_save :: "insn list" where
  "kernelvec_save =
    [ADDI SP SP (-256),
     SD RA 0 SP, SD SP 8 SP, SD GP 16 SP, SD TP 24 SP, SD T0 32 SP, SD T1 40 SP, SD T2 48 SP, SD S0 56 SP,
     SD S1 64 SP, SD A0 72 SP, SD A1 80 SP, SD A2 88 SP, SD A3 96 SP, SD A4 104 SP, SD A5 112 SP,
     SD A6 120 SP, SD A7 128 SP, SD S2 136 SP, SD S3 144 SP, SD S4 152 SP, SD S5 160 SP, SD S6 168 SP,
     SD S7 176 SP, SD S8 184 SP, SD S9 192 SP, SD S10 200 SP, SD S11 208 SP, SD T3 216 SP, SD T4 224 SP,
     SD T5 232 SP, SD T6 240 SP]"

definition kernelvec_restore :: "insn list" where
  "kernelvec_restore =
    [LD RA 0 SP, LD SP 8 SP, LD GP 16 SP, LD T0 32 SP, LD T1 40 SP, LD T2 48 SP, LD S0 56 SP,
     LD S1 64 SP, LD A0 72 SP, LD A1 80 SP, LD A2 88 SP, LD A3 96 SP, LD A4 104 SP, LD A5 112 SP,
     LD A6 120 SP, LD A7 128 SP, LD S2 136 SP, LD S3 144 SP, LD S4 152 SP, LD S5 160 SP, LD S6 168 SP,
     LD S7 176 SP, LD S8 184 SP, LD S9 192 SP, LD S10 200 SP, LD S11 208 SP, LD T3 216 SP, LD T4 224 SP,
     LD T5 232 SP, LD T6 240 SP,
     ADDI SP SP 256,
     SRET]"

definition timervec :: "insn list" where
  "timervec =
    [CSRRW A0 Mscratch A0,
     SD A1 0 A0, SD A2 8 A0, SD A3 16 A0,
     LD A1 24 A0, LD A2 32 A0,
     LD A3 0 A1, ADD A3 A3 A2, SD A3 0 A1,
     LI A1 2, CSRW Sip A1,
     LD A3 16 A0, LD A2 8 A0, LD A1 0 A0,
     CSRRW A0 Mscratch A0,
     MRET]"

text \<open>\<open>_entry\<close> up to the call of \<open>start\<close>; \<open>stack0\<close> is a symbol of the linker.\<close>

definition entry :: "u64 \<Rightarrow> insn list" where
  "entry stack0 =
    [LI SP stack0,
     LI A0 (1024 * 4),
     CSRR A1 Mhartid,
     ADDI A1 A1 1,
     MUL A0 A0 A1,
     ADD SP SP A0]"

section \<open>Machine-mode start-up\<close>

definition CLINT :: u64 where "CLINT = 0x2000000"
definition CLINT_MTIMECMP :: "u64 \<Rightarrow> u64" where "CLINT_MTIMECMP hartid = CLINT + 0x4000 + 8 * hartid"
definition CLINT_MTIME :: u64 where "CLINT_MTIME = CLINT + 0xBFF8"

text \<open>The row \<open>timer_scratch[id]\<close>, five doublewords from the address of the array.\<close>

definition scratch_row :: "u64 \<Rightarrow> u64 \<Rightarrow> u64" where
  "scratch_row timer_scratch hid = timer_scratch + hid * 40"

text \<open>\<open>int id = r_mhartid()\<close>, as it is used in 64-bit arithmetic afterwards.\<close>

definition hart_id :: "hart \<Rightarrow> u64" where
  "hart_id h = scast (ucast (csrf h Mhartid) :: u32)"

definition timerinit :: "u64 \<Rightarrow> u64 \<Rightarrow> hart \<Rightarrow> hart" where
  "timerinit timer_scratch timervec_addr h =
     (let hid = hart_id h;
          interval = 1000000;
          h1 = set_dw (CLINT_MTIMECMP hid) (dw h (paddr h CLINT_MTIME) + interval) h;
          scr = scratch_row timer_scratch hid;
          h2 = set_dw (scr + 24) (CLINT_MTIMECMP hid) h1;
          h3 = set_dw (scr + 32) interval h2;
          h4 = set_csr Mscratch scr h3;
          h5 = set_csr Mtvec timervec_addr h4;
          h6 = set_csr Mstatus (csrf h5 Mstatus OR 8) h5
      in set_csr Mie (csrf h6 Mie OR 0x80) h6)"

definition start :: "u64 \<Rightarrow> u64 \<Rightarrow> u64 \<Rightarrow> hart \<Rightarrow> hart" where
  "start main_addr timer_scratch timervec_addr h =
     (let h1 = set_csr Mstatus (csrf h Mstatus AND NOT 0x1800 OR 0x800) h;
          h2 = set_csr Mepc main_addr h1;
          h3 = set_csr Satp 0 h2;
          h4 = set_csr Medeleg 0xffff h3;
          h5 = set_csr Mideleg 0xffff h4;
          h6 = set_csr Sie (csrf h5 Sie OR 0x200 OR 0x20 OR 2) h5;
          h7 = set_csr Pmpaddr0 0x3fffffffffffff h6;
          h8 = set_csr Pmpcfg0 0xf h7;
          h9 = timerinit timer_scratch timervec_addr h8
      in mret (set_reg TP (hart_id h9) h9))"

section \<open>Sequences of stores and loads\<close>

lemmas asm_simps = set_reg_def set_csr_def set_dw_def paddr_def

lemma paddr_frame [simp]: "paddr (h\<lparr>dw := m\<rparr>) a = paddr h a" "paddr (h\<lparr>regs := R\<rparr>) a = paddr h a"
  by (simp_all add: paddr_def)

lemma run_append [simp]: "run (xs @ ys) h = run ys (run xs h)"
  by (induction xs arbitrary: h) auto

lemma run_xlat [simp]: "xlat (run p h) = xlat h"
proof (induction p arbitrary: h)
  case (Cons i p) then show ?case by (cases i) (simp_all add: asm_simps sret_def mret_def)
qed simp

lemma run_mode: "SRET \<notin> set p \<Longrightarrow> MRET \<notin> set p \<Longrightarrow> hmode (run p h) = hmode h"
proof (induction p arbitrary: h)
  case (Cons i p) then show ?case by (cases i) (simp_all add: asm_simps)
qed simp

definition stores :: "reg \<Rightarrow> (reg \<times> u64) list \<Rightarrow> insn list" where
  "stores b xs = map (\<lambda>(r, off). SD r off b) xs"

definition loads :: "reg \<Rightarrow> (reg \<times> u64) list \<Rightarrow> insn list" where
  "loads b xs = map (\<lambda>(r, off). LD r off b) xs"

fun put_all :: "(reg \<Rightarrow> u64) \<Rightarrow> (u64 \<Rightarrow> u64) \<Rightarrow> (reg \<times> u64) list \<Rightarrow> (u64 \<Rightarrow> u64) \<Rightarrow> u64 \<Rightarrow> u64" where
  "put_all R f [] m = m"
| "put_all R f ((r, off) # xs) m = put_all R f xs (m(f off := R r))"

fun get_all :: "(u64 \<Rightarrow> u64) \<Rightarrow> (reg \<times> u64) list \<Rightarrow> (reg \<Rightarrow> u64) \<Rightarrow> reg \<Rightarrow> u64" where
  "get_all g [] R = R"
| "get_all g ((r, off) # xs) R = get_all g xs (R(r := g off))"

lemma run_stores:
  "run (stores b xs) h = h\<lparr>dw := put_all (regs h) (\<lambda>off. paddr h (regs h b + off)) xs (dw h)\<rparr>"
  by (induction xs arbitrary: h) (auto simp: stores_def asm_simps)

lemma run_loads:
  "b \<notin> fst ` set xs \<Longrightarrow>
   run (loads b xs) h = h\<lparr>regs := get_all (\<lambda>off. dw h (paddr h (regs h b + off))) xs (regs h)\<rparr>"
proof (induction xs arbitrary: h)
  case Nil then show ?case by (simp add: loads_def)
next
  case (Cons x xs)
  obtain r off where x: "x = (r, off)" by (cases x)
  have "run (loads b (x # xs)) h = run (loads b xs) (set_reg r (dw h (paddr h (regs h b + off))) h)"
    by (simp add: loads_def x)
  also have "\<dots> = h\<lparr>regs := get_all (\<lambda>off. dw h (paddr h (regs h b + off))) (x # xs) (regs h)\<rparr>"
    using Cons by (auto simp: x asm_simps)
  finally show ?case .
qed

lemma put_all_other: "a \<notin> f ` snd ` set xs \<Longrightarrow> put_all R f xs m a = m a"
  by (induction R f xs m rule: put_all.induct) auto

lemma put_all_slot:
  "(r, off) \<in> set xs \<Longrightarrow> distinct (map (\<lambda>x. f (snd x)) xs) \<Longrightarrow> put_all R f xs m (f off) = R r"
proof (induction R f xs m rule: put_all.induct)
  case (2 R f r' off' xs m)
  show ?case
  proof (cases "(r, off) = (r', off')")
    case True
    then have "f off \<notin> f ` snd ` set xs" using 2 by auto
    then show ?thesis using True by (simp add: put_all_other)
  next
    case False
    then show ?thesis using 2 by (auto simp del: fun_upd_apply)
  qed
qed auto

lemma get_all_other: "r \<notin> fst ` set xs \<Longrightarrow> get_all g xs R r = R r"
  by (induction g xs R rule: get_all.induct) auto

lemma get_all_slot:
  "(r, off) \<in> set xs \<Longrightarrow> distinct (map fst xs) \<Longrightarrow> get_all g xs R r = g off"
proof (induction g xs R rule: get_all.induct)
  case (2 g r' off' xs R)
  show ?case
  proof (cases "(r, off) = (r', off')")
    case True
    then have "r \<notin> fst ` set xs" using 2 by auto
    then show ?thesis using True by (simp add: get_all_other)
  next
    case False
    then show ?thesis using 2 by (auto simp: image_iff simp del: fun_upd_apply)
  qed
qed auto

lemma distinct_shift: "distinct (map (\<lambda>x. (a :: u64) + snd x) xs) = distinct (map snd xs)"
  by (simp add: distinct_map inj_on_def)

section \<open>Traps from user space\<close>

text \<open>The slot of each register in \<open>struct trapframe\<close>; \<open>a0\<close> is saved last, through \<open>sscratch\<close>.\<close>

definition tf_slots :: "(reg \<times> u64) list" where
  "tf_slots =
    [(RA, 40), (SP, 48), (GP, 56), (TP, 64), (T0, 72), (T1, 80), (T2, 88), (S0, 96), (S1, 104),
     (A1, 120), (A2, 128), (A3, 136), (A4, 144), (A5, 152), (A6, 160), (A7, 168),
     (S2, 176), (S3, 184), (S4, 192), (S5, 200), (S6, 208), (S7, 216), (S8, 224), (S9, 232),
     (S10, 240), (S11, 248), (T3, 256), (T4, 264), (T5, 272), (T6, 280)]"

definition tf_slot :: "reg \<Rightarrow> u64" where
  "tf_slot r = (case map_of tf_slots r of None \<Rightarrow> 112 | Some off \<Rightarrow> off)"

text \<open>The page table \<open>us\<close> maps the trapframe page to \<open>tf\<close>.\<close>

definition tf_mapped :: "(u64 \<Rightarrow> u64 \<Rightarrow> u64) \<Rightarrow> u64 \<Rightarrow> u64 \<Rightarrow> bool" where
  "tf_mapped x us tf = (\<forall>off < 288. x us (TRAPFRAME_VA + off) = tf + off)"

lemma tf_mappedD: "tf_mapped x us tf \<Longrightarrow> off < 288 \<Longrightarrow> x us (TRAPFRAME_VA + off) = tf + off"
  by (simp add: tf_mapped_def)

lemma tf_slots_facts:
  "distinct (map fst tf_slots)" "distinct (map snd tf_slots)" "A0 \<notin> fst ` set tf_slots"
  "112 \<notin> snd ` set tf_slots" "\<forall>x \<in> set tf_slots. snd x < 288 \<and> 32 < snd x"
  by (simp_all add: tf_slots_def)

lemma tf_slot_in: "r \<noteq> A0 \<Longrightarrow> (r, tf_slot r) \<in> set tf_slots"
  by (cases r) (simp_all add: tf_slot_def tf_slots_def)

lemma tf_slot_A0 [simp]: "tf_slot A0 = 112"
  by (simp add: tf_slot_def tf_slots_def)

definition uservec_switch :: "insn list" where
  "uservec_switch = [CSRR T0 Sscratch, SD T0 112 A0, LD SP 8 A0, LD TP 32 A0, LD T0 16 A0, LD T1 0 A0, SFENCE, CSRW Satp T1, SFENCE, JR T0]"

lemma uservec_form:
  "uservec = [CSRW Sscratch A0, LI A0 TRAPFRAME_VA] @ stores A0 tf_slots @ uservec_switch"
  by (simp add: uservec_def stores_def tf_slots_def uservec_switch_def)

lemma userret_form:
  "userret = [SFENCE, CSRW Satp A0, SFENCE, LI A0 TRAPFRAME_VA] @ loads A0 tf_slots @ [LD A0 112 A0, SRET]"
  by (simp add: userret_def loads_def tf_slots_def)

lemma uservec_stores:
  fixes h :: hart
  assumes m: "tf_mapped (xlat h) (csrf h Satp) tf" and "hmode h \<noteq> Mode_M"
  defines "g \<equiv> h\<lparr>csrf := (csrf h)(Sscratch := regs h A0), regs := (regs h)(A0 := TRAPFRAME_VA)\<rparr>"
  shows "run uservec h = run uservec_switch
      (g\<lparr>dw := put_all (regs g) (\<lambda>off. paddr g (TRAPFRAME_VA + off)) tf_slots (dw h)\<rparr>)"
  by (simp add: uservec_form run_stores g_def set_csr_def set_reg_def)

lemma put_all_cong:
  "(\<And>off. off \<in> snd ` set xs \<Longrightarrow> f off = g off) \<Longrightarrow> put_all R f xs m = put_all R g xs m"
  by (induction R f xs m rule: put_all.induct) auto

lemma get_all_cong:
  "(\<And>off. off \<in> snd ` set xs \<Longrightarrow> f off = g off) \<Longrightarrow> get_all f xs R = get_all g xs R"
  by (induction f xs R rule: get_all.induct) auto

lemma uservec_run:
  assumes m: "tf_mapped (xlat h) (csrf h Satp) tf" and u: "hmode h \<noteq> Mode_M"
  shows "dw (run uservec h) =
      (put_all ((regs h)(A0 := TRAPFRAME_VA)) (\<lambda>off. tf + off) tf_slots (dw h))(tf + 112 := regs h A0)"
    and "pc (run uservec h) = dw h (tf + 16)" and "regs (run uservec h) SP = dw h (tf + 8)"
    and "regs (run uservec h) TP = dw h (tf + 32)" and "csrf (run uservec h) Satp = dw h tf"
proof -
  have c: "put_all R (\<lambda>off. xlat h (csrf h Satp) (TRAPFRAME_VA + off)) tf_slots M =
      put_all R (\<lambda>off. tf + off) tf_slots M" for R M
    by (rule put_all_cong) (use tf_slots_facts(5) in \<open>auto simp: tf_mappedD [OF m]\<close>)
  have o: "put_all R (\<lambda>off. tf + off) tf_slots M (tf + a) = M (tf + a)" if "a \<le> 32" for R M a
    by (rule put_all_other) (use tf_slots_facts(5) that in \<open>auto\<close>)
  note z = tf_mappedD [OF m, of 0, simplified] and o0 = o [of 0, simplified]
  show "dw (run uservec h) =
      (put_all ((regs h)(A0 := TRAPFRAME_VA)) (\<lambda>off. tf + off) tf_slots (dw h))(tf + 112 := regs h A0)"
    and "pc (run uservec h) = dw h (tf + 16)" and "regs (run uservec h) SP = dw h (tf + 8)"
    and "regs (run uservec h) TP = dw h (tf + 32)" and "csrf (run uservec h) Satp = dw h tf"
    using u by (simp_all add: uservec_stores [OF m u] uservec_switch_def asm_simps tf_mappedD [OF m] c o z o0)
qed

lemma uservec_saves:
  assumes "tf_mapped (xlat h) (csrf h Satp) tf" and "hmode h \<noteq> Mode_M"
  shows "dw (run uservec h) (tf + tf_slot r) = regs h r"
proof (cases "r = A0")
  case True then show ?thesis by (simp add: uservec_run(1) [OF assms])
next
  case False
  have "put_all ((regs h)(A0 := TRAPFRAME_VA)) (\<lambda>off. tf + off) tf_slots (dw h) (tf + tf_slot r) =
      ((regs h)(A0 := TRAPFRAME_VA)) r"
    by (rule put_all_slot [of r "tf_slot r" _ "\<lambda>off. tf + off"])
      (use False tf_slot_in tf_slots_facts in \<open>auto simp: distinct_shift\<close>)
  moreover have "tf_slot r \<noteq> 112"
    using tf_slot_in [OF False] tf_slots_facts(4) by force
  ultimately show ?thesis using False by (simp add: uservec_run(1) [OF assms])
qed

lemma userret_run:
  assumes m: "tf_mapped (xlat k) (regs k A0) tf" and u: "hmode k \<noteq> Mode_M"
  shows "regs (run userret k) r = dw k (tf + tf_slot r)"
    and "csrf (run userret k) Satp = regs k A0" and "pc (run userret k) = csrf k Sepc"
proof -
  have c: "get_all (\<lambda>off. dw k (xlat k (regs k A0) (TRAPFRAME_VA + off))) tf_slots R =
      get_all (\<lambda>off. dw k (tf + off)) tf_slots R" for R
    by (rule get_all_cong) (use tf_slots_facts(5) in \<open>auto simp: tf_mappedD [OF m]\<close>)
  have a: "get_all g tf_slots R A0 = R A0" for g R
    by (rule get_all_other) (rule tf_slots_facts)
  have s: "r \<noteq> A0 \<Longrightarrow> get_all (\<lambda>off. dw k (tf + off)) tf_slots R r = dw k (tf + tf_slot r)" for R
    by (rule get_all_slot) (use tf_slot_in tf_slots_facts in auto)
  show "regs (run userret k) r = dw k (tf + tf_slot r)"
    and "csrf (run userret k) Satp = regs k A0" and "pc (run userret k) = csrf k Sepc"
    using u by (cases "r = A0"; simp add: userret_form run_loads tf_slots_facts asm_simps c a s sret_def tf_mappedD [OF m])+
qed

text \<open>
  C27: A trap from user space keeps every register of the program. When \<open>uservec\<close> has run on the hart \<open>h\<close>
  under the user page table, the kernel's page table, stack, hart number and handler of the trapframe are in
  place. When \<open>userret\<close> runs later, on whatever state \<open>k\<close> the kernel reached and with that page table as
  its argument, each register whose slot the kernel left alone is as it was in the program, the others have
  what the kernel put in their slots (as a system call does with \<open>a0\<close>), and execution continues at \<open>sepc\<close>.
\<close>

theorem trap_keeps_registers:
  assumes "tf_mapped (xlat h) (csrf h Satp) tf" and "hmode h \<noteq> Mode_M"
    and "tf_mapped (xlat k) (regs k A0) tf" and "hmode k \<noteq> Mode_M"
  shows "pc (run uservec h) = dw h (tf + 16) \<and> regs (run uservec h) SP = dw h (tf + 8)
      \<and> regs (run uservec h) TP = dw h (tf + 32) \<and> csrf (run uservec h) Satp = dw h tf
      \<and> (\<forall>r. dw k (tf + tf_slot r) = dw (run uservec h) (tf + tf_slot r) \<longrightarrow> regs (run userret k) r = regs h r)
      \<and> (\<forall>r. regs (run userret k) r = dw k (tf + tf_slot r)) \<and> pc (run userret k) = csrf k Sepc"
  using assms by (simp add: uservec_run(2-5) uservec_saves userret_run)

text \<open>A hart in user mode with every register and every doubleword zero, and the identity as translation.\<close>

definition still_hart :: "mode \<Rightarrow> hart" where
  "still_hart md = \<lparr>regs = (\<lambda>_. 0), csrf = (\<lambda>_. 0), dw = (\<lambda>_. 0), pc = 0, hmode = md, xlat = (\<lambda>_ a. a)\<rparr>"

definition user_hart :: hart where
  "user_hart = (still_hart Mode_U)\<lparr>regs := (\<lambda>_. 0)(A1 := 7, S3 := 9)\<rparr>"

theorem trap_keeps_registers_witness:
  "regs (run userret ((run uservec user_hart)\<lparr>regs := (\<lambda>_. 0)\<rparr>)) S3 = 9"
proof -
  let ?h = user_hart and ?k = "(run uservec user_hart)\<lparr>regs := (\<lambda>_. 0)\<rparr>"
  have m: "hmode (run uservec ?h) = Mode_U"
    by (subst run_mode) (simp_all add: uservec_def user_hart_def still_hart_def)
  have "tf_mapped (xlat ?h) (csrf ?h Satp) TRAPFRAME_VA" and "hmode ?h \<noteq> Mode_M"
    and "tf_mapped (xlat ?k) (regs ?k A0) TRAPFRAME_VA" and "hmode ?k \<noteq> Mode_M"
    by (simp_all add: m tf_mapped_def) (simp_all add: user_hart_def still_hart_def)
  from trap_keeps_registers [OF this] have "dw ?k (TRAPFRAME_VA + tf_slot S3) =
      dw (run uservec ?h) (TRAPFRAME_VA + tf_slot S3) \<longrightarrow> regs (run userret ?k) S3 = regs ?h S3" by blast
  then have "regs (run userret ?k) S3 = regs ?h S3" by simp
  then show ?thesis by (simp add: user_hart_def)
qed

section \<open>Context switch\<close>

definition ctx_slots :: "(reg \<times> u64) list" where
  "ctx_slots =
    [(RA, 0), (SP, 8), (S0, 16), (S1, 24), (S2, 32), (S3, 40), (S4, 48), (S5, 56), (S6, 64), (S7, 72),
     (S8, 80), (S9, 88), (S10, 96), (S11, 104)]"

lemma ctx_slots_facts:
  "distinct (map fst ctx_slots)" "distinct (map snd ctx_slots)" "A0 \<notin> fst ` set ctx_slots"
  "A1 \<notin> fst ` set ctx_slots" "\<forall>x \<in> set ctx_slots. snd x < 112" "(RA, 0) \<in> set ctx_slots"
  by (simp_all add: ctx_slots_def)

text \<open>The kernel maps a \<open>struct context\<close> at its own address; two of them are apart or the same.\<close>

definition ctx_mapped :: "hart \<Rightarrow> u64 \<Rightarrow> bool" where
  "ctx_mapped h c = (\<forall>off < 112. paddr h (c + off) = c + off)"

definition apart :: "u64 \<Rightarrow> u64 \<Rightarrow> bool" where
  "apart c d = (\<forall>x \<in> snd ` set ctx_slots. \<forall>y \<in> snd ` set ctx_slots. c + x \<noteq> d + y)"

lemma swtch_form: "swtch = stores A0 ctx_slots @ loads A1 ctx_slots @ [JR RA]"
  by (simp add: swtch_def stores_def loads_def ctx_slots_def)

lemma swtch_run:
  assumes m: "ctx_mapped h (regs h A0)" "ctx_mapped h (regs h A1)" and ap: "apart (regs h A0) (regs h A1)"
    and r: "(r, off) \<in> set ctx_slots"
  shows "dw (run swtch h) (regs h A0 + off) = regs h r"
    and "regs (run swtch h) r = dw h (regs h A1 + off)"
    and "pc (run swtch h) = dw h (regs h A1)"
proof -
  let ?o = "regs h A0" and ?n = "regs h A1"
  let ?m = "put_all (regs h) (\<lambda>off. ?o + off) ctx_slots (dw h)"
  have c: "put_all (regs h) (\<lambda>off. paddr h (?o + off)) ctx_slots (dw h) = ?m"
    by (rule put_all_cong) (use ctx_slots_facts(5) m in \<open>auto simp: ctx_mapped_def\<close>)
  have pm: "paddr h (?n + off') = ?n + off'" if "off' \<in> snd ` set ctx_slots" for off'
    using ctx_slots_facts(5) m that by (auto simp: ctx_mapped_def)
  have l: "?m (?n + off') = dw h (?n + off')" if "off' \<in> snd ` set ctx_slots" for off'
    by (rule put_all_other) (use ap that in \<open>metis (no_types, lifting) apart_def imageE\<close>)
  have d: "get_all (\<lambda>off. ?m (paddr h (?n + off))) ctx_slots R = get_all (\<lambda>off. dw h (?n + off)) ctx_slots R" for R
    by (rule get_all_cong) (simp only: pm l)
  have e: "run swtch h = exec_insn (JR RA)
      (h\<lparr>dw := ?m, regs := get_all (\<lambda>off. dw h (?n + off)) ctx_slots (regs h)\<rparr>)"
    using d by (simp add: swtch_form run_stores run_loads ctx_slots_facts c)
  have g: "(r', off') \<in> set ctx_slots \<Longrightarrow> get_all (\<lambda>off. dw h (?n + off)) ctx_slots R r' = dw h (?n + off')" for R r' off'
    by (rule get_all_slot) (use ctx_slots_facts in auto)
  show "dw (run swtch h) (?o + off) = regs h r"
    using put_all_slot [of r off ctx_slots "\<lambda>off. ?o + off"] r ctx_slots_facts by (simp add: e distinct_shift)
  show "regs (run swtch h) r = dw h (?n + off)" using g [OF r] by (simp add: e)
  show "pc (run swtch h) = dw h ?n" using g [OF ctx_slots_facts(6)] by (simp add: e)
qed

text \<open>
  C28: \<open>swtch(old, new)\<close> leaves the callee-saved registers of its caller in \<open>old\<close>, takes them from \<open>new\<close>
  and continues at the return address stored there. A later \<open>swtch\<close> whose \<open>new\<close> is that same context,
  with its contents untouched, resumes the first caller with its own stack and callee-saved registers.
\<close>

theorem swtch_resumes:
  assumes "ctx_mapped h (regs h A0)" and "ctx_mapped h (regs h A1)" and "apart (regs h A0) (regs h A1)"
    and "ctx_mapped k (regs k A0)" and "ctx_mapped k (regs k A1)" and "apart (regs k A0) (regs k A1)"
    and "regs k A1 = regs h A0"
    and "\<forall>(r, off) \<in> set ctx_slots. dw k (regs h A0 + off) = dw (run swtch h) (regs h A0 + off)"
  shows "pc (run swtch h) = dw h (regs h A1) \<and> pc (run swtch k) = regs h RA
      \<and> (\<forall>(r, off) \<in> set ctx_slots. regs (run swtch h) r = dw h (regs h A1 + off) \<and> regs (run swtch k) r = regs h r)"
proof -
  note h = swtch_run [OF assms(1,2,3)] and k = swtch_run [OF assms(4,5,6)]
  have "dw k (regs h A0 + off) = regs h r" if "(r, off) \<in> set ctx_slots" for r off
    using assms(8) that h(1) [OF that] by auto
  then show ?thesis
    using h k ctx_slots_facts(6) assms(7) by fastforce
qed

text \<open>Two contexts one page apart; the hart switches from one to the other and back.\<close>

theorem swtch_resumes_witness:
  "regs (run swtch ((run swtch ((still_hart Mode_S)\<lparr>regs := (\<lambda>_. 0)(A0 := 0x1000, A1 := 0x2000, S3 := 5)\<rparr>))
     \<lparr>regs := (\<lambda>_. 0)(A0 := 0x2000, A1 := 0x1000)\<rparr>)) S3 = 5"
proof -
  let ?h = "(still_hart Mode_S)\<lparr>regs := (\<lambda>_. 0)(A0 := 0x1000, A1 := 0x2000, S3 := 5)\<rparr>"
  let ?k = "(run swtch ?h)\<lparr>regs := (\<lambda>_. 0)(A0 := 0x2000, A1 := 0x1000)\<rparr>"
  have p: "paddr h a = a" if "hmode h = Mode_S" "xlat h = (\<lambda>_ a. a)" for h a
    using that by (simp add: paddr_def)
  have e: "hmode (run swtch ?h) = Mode_S" "xlat ?h = (\<lambda>_ a. a)" "hmode ?h = Mode_S"
    by (subst run_mode) (simp_all add: swtch_def still_hart_def)
  have "ctx_mapped ?h (regs ?h A0)" "ctx_mapped ?h (regs ?h A1)" "apart (regs ?h A0) (regs ?h A1)"
    "ctx_mapped ?k (regs ?k A0)" "ctx_mapped ?k (regs ?k A1)" "apart (regs ?k A0) (regs ?k A1)"
    "regs ?k A1 = regs ?h A0"
    "\<forall>(r, off) \<in> set ctx_slots. dw ?k (regs ?h A0 + off) = dw (run swtch ?h) (regs ?h A0 + off)"
    by (simp_all add: ctx_mapped_def p e) (simp_all add: apart_def ctx_slots_def still_hart_def paddr_def)
  from swtch_resumes [OF this] have "regs (run swtch ?k) S3 = regs ?h S3" by (auto simp: ctx_slots_def)
  then show ?thesis by simp
qed

section \<open>Traps inside the kernel\<close>

definition kv_slots :: "(reg \<times> u64) list" where
  "kv_slots =
    [(GP, 16), (T0, 32), (T1, 40), (T2, 48), (S0, 56), (S1, 64), (A0, 72), (A1, 80), (A2, 88), (A3, 96),
     (A4, 104), (A5, 112), (A6, 120), (A7, 128), (S2, 136), (S3, 144), (S4, 152), (S5, 160), (S6, 168),
     (S7, 176), (S8, 184), (S9, 192), (S10, 200), (S11, 208), (T3, 216), (T4, 224), (T5, 232), (T6, 240)]"

definition kv_frame :: "(reg \<times> u64) list" where
  "kv_frame = [(RA, 0), (SP, 8), (GP, 16), (TP, 24)] @ tl kv_slots"

lemma kv_facts:
  "distinct (map fst kv_slots)" "SP \<notin> fst ` set kv_slots" "\<forall>x \<in> set kv_slots. snd x < 256"
  "distinct (map snd kv_frame)" "\<forall>x \<in> set kv_frame. snd x < 256" "set kv_slots \<subseteq> set kv_frame"
  "(RA, 0) \<in> set kv_frame" "(SP, 8) \<in> set kv_frame" "RA \<notin> fst ` set kv_slots" "TP \<notin> fst ` set kv_slots"
  by (simp_all add: kv_slots_def kv_frame_def)

lemma kv_slot_ex: "r \<noteq> RA \<Longrightarrow> r \<noteq> SP \<Longrightarrow> r \<noteq> TP \<Longrightarrow> \<exists>off. (r, off) \<in> set kv_slots"
  by (cases r) (simp_all add: kv_slots_def)

lemma kernelvec_save_form: "kernelvec_save = ADDI SP SP (-256) # stores SP kv_frame"
  by (simp add: kernelvec_save_def stores_def kv_frame_def kv_slots_def)

lemma kernelvec_restore_form:
  "kernelvec_restore = [LD RA 0 SP, LD SP 8 SP] @ loads SP kv_slots @ [ADDI SP SP 256, SRET]"
  by (simp add: kernelvec_restore_def loads_def kv_slots_def)

text \<open>The frame of \<open>kernelvec\<close> lies in one page of the kernel stack.\<close>

definition frame_mapped :: "hart \<Rightarrow> u64 \<Rightarrow> u64 \<Rightarrow> bool" where
  "frame_mapped h sp pa = (\<forall>off < 256. paddr h (sp - 256 + off) = pa + off)"

lemma frame_mappedD: "frame_mapped h sp pa \<Longrightarrow> off < 256 \<Longrightarrow> paddr h (sp - 256 + off) = pa + off"
  by (simp add: frame_mapped_def)

lemma kernelvec_save_run:
  assumes m: "frame_mapped h (regs h SP) pa"
  shows "regs (run kernelvec_save h) = (regs h)(SP := regs h SP - 256)"
    and "(r, off) \<in> set kv_frame \<Longrightarrow> dw (run kernelvec_save h) (pa + off) = ((regs h)(SP := regs h SP - 256)) r"
proof -
  let ?R = "(regs h)(SP := regs h SP - 256)"
  have c: "put_all ?R (\<lambda>off. paddr h (regs h SP - 256 + off)) kv_frame (dw h) =
      put_all ?R (\<lambda>off. pa + off) kv_frame (dw h)"
    by (rule put_all_cong) (use kv_facts(5) in \<open>auto simp: frame_mappedD [OF m]\<close>)
  have e: "run kernelvec_save h = h\<lparr>regs := ?R, dw := put_all ?R (\<lambda>off. pa + off) kv_frame (dw h)\<rparr>"
    using c by (simp add: kernelvec_save_form run_stores set_reg_def)
  show "regs (run kernelvec_save h) = ?R" by (simp add: e)
  show "(r, off) \<in> set kv_frame \<Longrightarrow> dw (run kernelvec_save h) (pa + off) = ?R r"
    using put_all_slot [of r off kv_frame "\<lambda>off. pa + off" ?R] kv_facts(4) by (simp add: e distinct_shift)
qed

lemma kernelvec_restore_run:
  assumes m: "frame_mapped k (sp :: u64) pa" and sp: "regs k SP = sp - 256" "dw k (pa + 8) = sp - 256"
  shows "regs (run kernelvec_restore k) =
      (get_all (\<lambda>off. dw k (pa + off)) kv_slots ((regs k)(RA := dw k pa)))(SP := sp)"
    and "pc (run kernelvec_restore k) = csrf k Sepc"
proof -
  have c: "get_all (\<lambda>off. dw k (paddr k (sp - 256 + off))) kv_slots R = get_all (\<lambda>off. dw k (pa + off)) kv_slots R" for R
    by (rule get_all_cong) (use kv_facts(3) in \<open>auto simp: frame_mappedD [OF m]\<close>)
  have a: "get_all g kv_slots R SP = R SP" for g R
    by (rule get_all_other) (rule kv_facts)
  have z: "paddr k (sp - 256) = pa" using frame_mappedD [OF m, of 0] by simp
  have q: "((regs k)(RA := x, SP := sp - 256)) = (regs k)(RA := x)" for x using sp(1) by auto
  have p: "run [LD RA 0 SP, LD SP 8 SP] k = k\<lparr>regs := (regs k)(RA := dw k pa)\<rparr>"
    using frame_mappedD [OF m, of 8] by (simp add: set_reg_def sp z q)
  have e: "run kernelvec_restore k = sret (k\<lparr>regs :=
      (get_all (\<lambda>off. dw k (pa + off)) kv_slots ((regs k)(RA := dw k pa)))(SP := sp)\<rparr>)"
    using p c by (simp add: kernelvec_restore_form run_loads kv_facts sp a set_reg_def)
  show "regs (run kernelvec_restore k) =
      (get_all (\<lambda>off. dw k (pa + off)) kv_slots ((regs k)(RA := dw k pa)))(SP := sp)"
    and "pc (run kernelvec_restore k) = csrf k Sepc" by (simp_all add: e sret_def)
qed

text \<open>
  C29: A trap that interrupts kernel code is invisible to it. Whatever \<open>kerneltrap\<close> does between the two
  halves of \<open>kernelvec\<close>, if it gives the stack pointer back and leaves the frame alone, every register of the
  interrupted code but \<open>tp\<close> has its value again and execution continues at \<open>sepc\<close>. \<open>tp\<close> keeps the
  number of the hart the code now runs on.
\<close>

theorem kernelvec_transparent:
  assumes "frame_mapped h (regs h SP) pa" and "frame_mapped k (regs h SP) pa"
    and "regs k SP = regs (run kernelvec_save h) SP"
    and "\<forall>off < 256. dw k (pa + off) = dw (run kernelvec_save h) (pa + off)"
  shows "regs (run kernelvec_restore k) = (regs h)(TP := regs k TP) \<and> pc (run kernelvec_restore k) = csrf k Sepc"
proof -
  note s = kernelvec_save_run [OF assms(1)]
  have f: "dw k (pa + off) = ((regs h)(SP := regs h SP - 256)) r" if "(r, off) \<in> set kv_frame" for r off
    using assms(4) that kv_facts(5) s(2) [OF that] by fastforce
  have sp: "regs k SP = regs h SP - 256" "dw k (pa + 8) = regs h SP - 256"
    using assms(3) s(1) f [OF kv_facts(8)] by simp_all
  note k = kernelvec_restore_run [OF assms(2) sp]
  have "regs (run kernelvec_restore k) r = ((regs h)(TP := regs k TP)) r" for r
  proof -
    consider "r = RA" | "r = SP" | "r = TP" | "r \<noteq> RA" "r \<noteq> SP" "r \<noteq> TP" by blast
    then show ?thesis
    proof cases
      case 4
      then obtain off where r: "(r, off) \<in> set kv_slots" using kv_slot_ex by blast
      then show ?thesis using 4 f kv_facts(1,6) get_all_slot [OF r kv_facts(1)] by (auto simp: k)
    qed (use f [OF kv_facts(7)] kv_facts(9,10) in \<open>auto simp: k get_all_other\<close>)
  qed
  then show ?thesis using k(2) by auto
qed

theorem kernelvec_transparent_witness:
  "regs (run kernelvec_restore (run kernelvec_save ((still_hart Mode_S)\<lparr>regs := (\<lambda>_. 0)(SP := 0x3000, T3 := 4)\<rparr>))) T3 = 4"
proof -
  let ?h = "(still_hart Mode_S)\<lparr>regs := (\<lambda>_. 0)(SP := 0x3000, T3 := 4)\<rparr>" and ?k = "run kernelvec_save
      ((still_hart Mode_S)\<lparr>regs := (\<lambda>_. 0)(SP := 0x3000, T3 := 4)\<rparr>)"
  have md: "hmode ?k = Mode_S"
    by (subst run_mode) (simp_all add: kernelvec_save_def still_hart_def)
  have "frame_mapped ?h (regs ?h SP) 0x2f00" "frame_mapped ?k (regs ?h SP) 0x2f00"
    by (simp_all add: frame_mapped_def paddr_def md) (simp_all add: still_hart_def)
  then show ?thesis using kernelvec_transparent [of ?h "0x2f00" ?k] by simp
qed

section \<open>Timer interrupts\<close>

lemma timervec_run:
  fixes h :: hart
  assumes md: "hmode h = Mode_M"
    and ap: "dw h (csrf h Mscratch + 24) \<notin> {csrf h Mscratch, csrf h Mscratch + 8, csrf h Mscratch + 16}"
  defines "scr \<equiv> csrf h Mscratch" and "cmp \<equiv> dw h (csrf h Mscratch + 24)"
  shows "run timervec h = mret (h\<lparr>
      dw := (dw h)(scr := regs h A1, scr + 8 := regs h A2, scr + 16 := regs h A3,
               cmp := dw h cmp + dw h (scr + 32)),
      csrf := (csrf h)(Sip := 2)\<rparr>)"
  using ap by (simp add: timervec_def asm_simps md scr_def cmp_def) (auto simp: fun_eq_iff intro!: arg_cong [of _ _ mret] hart.equality)

text \<open>
  C31: The machine-mode timer handler is transparent. It gives every register back, moves the hart's
  \<open>MTIMECMP\<close> forward by the interval in its scratch row, raises the supervisor software interrupt, and
  apart from that writes only the three save slots of the row.
\<close>

theorem timervec_transparent:
  assumes "hmode h = Mode_M"
    and "dw h (csrf h Mscratch + 24) \<notin> {csrf h Mscratch, csrf h Mscratch + 8, csrf h Mscratch + 16}"
  shows "regs (run timervec h) = regs h \<and> pc (run timervec h) = csrf h Mepc
      \<and> csrf (run timervec h) Mscratch = csrf h Mscratch \<and> csrf (run timervec h) Sip = 2
      \<and> dw (run timervec h) (dw h (csrf h Mscratch + 24)) =
          dw h (dw h (csrf h Mscratch + 24)) + dw h (csrf h Mscratch + 32)
      \<and> (\<forall>a. a \<notin> {csrf h Mscratch, csrf h Mscratch + 8, csrf h Mscratch + 16, dw h (csrf h Mscratch + 24)}
            \<longrightarrow> dw (run timervec h) a = dw h a)"
  using assms by (simp add: timervec_run mret_def)

theorem timervec_transparent_witness:
  "regs (run timervec ((still_hart Mode_M)\<lparr>regs := (\<lambda>_. 0)(A1 := 3), dw := (\<lambda>_. 0)(24 := 0x2004000, 32 := 1000000)\<rparr>)) A1 = 3
   \<and> dw (run timervec ((still_hart Mode_M)\<lparr>regs := (\<lambda>_. 0)(A1 := 3), dw := (\<lambda>_. 0)(24 := 0x2004000, 32 := 1000000)\<rparr>)) 0x2004000
      = 1000000"
  using timervec_transparent [of "(still_hart Mode_M)\<lparr>regs := (\<lambda>_. 0)(A1 := 3), dw := (\<lambda>_. 0)(24 := 0x2004000, 32 := 1000000)\<rparr>"]
  by (simp add: still_hart_def)

lemma mpp_supervisor: "drop_bit 11 ((x AND NOT 0x1800 OR 0x800) OR 8 :: u64) AND 3 = 1"
  by (simp add: drop_bit_and drop_bit_or bit.conj_disj_distrib2 and.assoc)

lemma hart_id_small:
  assumes "csrf h Mhartid < 8"
  shows "hart_id h = csrf h Mhartid"
proof -
  have "unat (csrf h Mhartid) < 8" using assms by (simp add: word_less_nat_alt)
  then have "unat (csrf h Mhartid) \<in> {0, 1, 2, 3, 4, 5, 6, 7}" by auto
  moreover have "csrf h Mhartid = of_nat (unat (csrf h Mhartid))" by simp
  ultimately show ?thesis unfolding hart_id_def by (elim insertE emptyE) (metis | simp)+
qed

lemma timerinit_eq:
  fixes h :: hart
  assumes "hmode h = Mode_M" and "csrf h Mhartid < 8"
  defines "cmp \<equiv> CLINT_MTIMECMP (csrf h Mhartid)"
  shows "timerinit ts tv h = h\<lparr>
      dw := (dw h)(cmp := dw h CLINT_MTIME + 1000000, scratch_row ts (csrf h Mhartid) + 24 := cmp,
              scratch_row ts (csrf h Mhartid) + 32 := 1000000),
      csrf := (csrf h)(Mscratch := scratch_row ts (csrf h Mhartid), Mtvec := tv,
              Mstatus := csrf h Mstatus OR 8, Mie := csrf h Mie OR 0x80)\<rparr>"
  using assms(1) by (simp add: timerinit_def Let_def asm_simps cmp_def hart_id_small [OF assms(2)])

lemma start_eq:
  fixes h :: hart and ts :: u64
  assumes "hmode h = Mode_M" and "csrf h Mhartid < 8"
  defines "cmp \<equiv> CLINT_MTIMECMP (csrf h Mhartid)" and "row \<equiv> scratch_row ts (csrf h Mhartid)"
  shows "start mn ts tv h = mret (h\<lparr>
      csrf := (csrf h)(Mepc := mn, Satp := 0, Medeleg := 0xffff, Mideleg := 0xffff,
              Sie := csrf h Sie OR 0x200 OR 0x20 OR 2, Pmpaddr0 := 0x3fffffffffffff, Pmpcfg0 := 0xf,
              Mscratch := row, Mtvec := tv,
              Mstatus := (csrf h Mstatus AND NOT 0x1800 OR 0x800) OR 8, Mie := csrf h Mie OR 0x80),
      dw := (dw h)(cmp := dw h CLINT_MTIME + 1000000, row + 24 := cmp, row + 32 := 1000000),
      regs := (regs h)(TP := csrf h Mhartid)\<rparr>)"
  using assms(1,2)
  by (simp add: start_def Let_def set_csr_def timerinit_eq set_reg_def hart_id_small cmp_def row_def)
    (auto simp: fun_eq_iff intro!: arg_cong [of _ _ mret] hart.equality)

text \<open>
  C30: When \<open>start()\<close> is done, the hart is in supervisor mode at \<open>main\<close> with its number in \<open>tp\<close> and
  paging off, its first timer interrupt is a million cycles away, and its scratch row has what the timer
  handler needs: after any handler run the next interrupt is a million cycles later.
\<close>

theorem start_arms_timer:
  fixes h :: hart and main_addr tv scr :: u64
  assumes "hmode h = Mode_M" and "csrf h Mhartid = hid" and "hid < 8"
    and "0x80000000 \<le> scr" and "scr < 0x88000000"
  defines "t \<equiv> start main_addr scr tv h" and "row \<equiv> scr + hid * 40" and "cmp \<equiv> 0x2004000 + 8 * hid"
  shows "hmode t = Mode_S \<and> pc t = main_addr \<and> regs t TP = hid \<and> csrf t Satp = 0
      \<and> csrf t Mtvec = tv \<and> csrf t Mscratch = row \<and> dw t cmp = dw h 0x200BFF8 + 1000000
      \<and> dw (run timervec (t\<lparr>hmode := Mode_M\<rparr>)) cmp = dw t cmp + 1000000"
proof -
  have b: "row + k \<noteq> cmp" if "k \<le> 32" for k
  proof -
    have "unat scr < 0x88000000" "0x80000000 \<le> unat scr" "unat hid < 8" "unat k \<le> 32"
      using assms(3-5) that by (simp_all add: word_less_nat_alt word_le_nat_alt)
    then have "unat (row + k) = unat scr + unat hid * 40 + unat k" and "unat cmp = 0x2004000 + 8 * unat hid"
      unfolding row_def cmp_def by (simp_all add: unat_word_ariths)
    then show ?thesis using \<open>0x80000000 \<le> unat scr\<close> \<open>unat hid < 8\<close> by auto
  qed
  have n: "cmp \<noteq> row + 24" "cmp \<noteq> row + 32" "cmp \<notin> {row, row + 8, row + 16}"
    using b [of 24] b [of 32] b [of 0] b [of 8] b [of 16] by auto
  have c: "CLINT_MTIMECMP hid = cmp" "scratch_row scr hid = row" "CLINT_MTIME = 0x200BFF8"
    by (simp_all add: CLINT_MTIMECMP_def CLINT_def scratch_row_def cmp_def row_def CLINT_MTIME_def)
  have hid: "csrf h Mhartid < 8" using assms(2,3) by simp
  note e = start_eq [OF assms(1) hid, of main_addr scr tv, folded t_def, unfolded assms(2) c]
  have m: "csrf t Mscratch = row" "dw t (row + 24) = cmp" "dw t (row + 32) = 1000000" "dw t cmp = dw h 0x200BFF8 + 1000000"
    using n by (simp_all add: e mret_def)
  have "hmode t = Mode_S \<and> pc t = main_addr \<and> regs t TP = hid \<and> csrf t Satp = 0 \<and> csrf t Mtvec = tv"
    using mpp_supervisor [of "csrf h Mstatus"] by (simp add: e mret_def)
  then show ?thesis using m n by (simp add: timervec_run mret_def)
qed

theorem start_arms_timer_witness:
  "dw (run timervec ((start 0x80000e00 0x80009000 0x80005000 (still_hart Mode_M))\<lparr>hmode := Mode_M\<rparr>)) 0x2004000 = 2000000"
  using start_arms_timer [of "still_hart Mode_M" 0 "0x80009000" "0x80000e00" "0x80005000"]
  by (simp add: still_hart_def)

end
