(* ===== verification/RcuSystem.thy ===== *)
theory RcuSystem
  imports Rcu
begin

text \<open>
  The machine as a transition system: every hart either runs a process, or is in \<open>scheduler()\<close>, or is
  between the two with the process lock held. Its steps are calls of the kernel's own functions
  (\<open>kernel/proc.c\<close>, \<open>kernel/rcu.c\<close>) on the machine state, taken by any hart in any order, so it has every
  interleaving of read-side critical sections, of preemption and of \<open>synchronize_rcu\<close>. The theory
  proves the invariants of this system; the theory Grace draws the conclusions.
\<close>

section \<open>The machine as a transition system\<close>

text \<open>
  What a hart is doing: scanning in \<open>scheduler()\<close>, running a process, back in \<open>scheduler()\<close> right
  after \<open>swtch\<close>, or in a process right after \<open>swtch\<close>. In the last two the process lock is held.
\<close>

datatype hmode = Idle | Run nat | Back nat | Resume nat

text \<open>
  Where a process is with respect to a waiting loop, \<open>synchronize_rcu\<close> or that of \<open>sys_rcusync\<close>: elsewhere, in
  the call \<open>c\<close> with the statements \<open>cs\<close> still to execute, or just returned from it.
\<close>

datatype upc = Other | Sync "rcu_stmt list" "rcu_stmt list" | Synced "rcu_stmt list"

text \<open>
  \<open>held\<close> and \<open>pushes\<close> are the locks and the read-side sections a hart has open; \<open>saved\<close> is the local
  variable \<open>intena\<close> of a process in \<open>sched\<close>. \<open>secno h\<close> numbers the outermost read-side sections of
  hart \<open>h\<close>, and \<open>snap p h\<close> is the section that was open on \<open>h\<close> when \<open>p\<close> entered its waiting loop.
\<close>

record sys =
  ms :: ptable
  held :: "nat \<Rightarrow> lockid set"
  pushes :: "nat \<Rightarrow> nat"
  mode :: "nat \<Rightarrow> hmode"
  saved :: "nat \<Rightarrow> bool"
  upc :: "nat \<Rightarrow> upc"
  secno :: "nat \<Rightarrow> nat"
  snap :: "nat \<Rightarrow> nat \<Rightarrow> nat option"

abbreviation on :: "sys \<Rightarrow> nat \<Rightarrow> ptable" where
  "on x h \<equiv> (ms x)\<lparr>tp := h\<rparr>"

text \<open>The hart leaves the process \<open>p\<close> in \<open>sched\<close>: machine \<open>t\<close>, the saved flag is read from it.\<close>

definition switched :: "sys \<Rightarrow> nat \<Rightarrow> nat \<Rightarrow> ptable \<Rightarrow> sys" where
  "switched x h p t = x\<lparr>ms := t, mode := (mode x)(h := Back p), held := (held x)(h := {Proc_lock p}),
     saved := (saved x)(p := intena (cpus t h))\<rparr>"

definition resumed :: "sys \<Rightarrow> nat \<Rightarrow> nat \<Rightarrow> ptable \<Rightarrow> sys" where
  "resumed x h p t = x\<lparr>ms := t, mode := (mode x)(h := Run p), held := (held x)(h := {})\<rparr>"

text \<open>A read-side section is opened on hart \<open>h\<close>; the outermost one gets a new number.\<close>

definition opened :: "sys \<Rightarrow> nat \<Rightarrow> ptable \<Rightarrow> sys" where
  "opened x h t = x\<lparr>ms := t, pushes := (pushes x)(h := Suc (pushes x h)),
     secno := if pushes x h = 0 then (secno x)(h := Suc (secno x h)) else secno x\<rparr>"

inductive sys_step :: "sys \<Rightarrow> sys \<Rightarrow> bool" where
  \<comment> \<open>a running process takes and drops spin locks\<close>
  st_acquire: "mode x h = Run p \<Longrightarrow> upc x p = Other \<Longrightarrow> acquire lk (on x h) = Ret () t \<Longrightarrow>
    sys_step x (x\<lparr>ms := t, held := (held x)(h := insert lk (held x h))\<rparr>)"
| st_release: "mode x h = Run p \<Longrightarrow> upc x p = Other \<Longrightarrow> lk \<in> held x h \<Longrightarrow> release lk (on x h) = Ret () t \<Longrightarrow>
    sys_step x (x\<lparr>ms := t, held := (held x)(h := held x h - {lk})\<rparr>)"
  \<comment> \<open>read-side critical sections\<close>
| st_read_lock: "mode x h = Run p \<Longrightarrow> upc x p = Other \<Longrightarrow> rcu_read_lock (on x h) = Ret () t \<Longrightarrow>
    sys_step x (opened x h t)"
| st_read_unlock: "mode x h = Run p \<Longrightarrow> upc x p = Other \<Longrightarrow> pushes x h = Suc k \<Longrightarrow>
    rcu_read_unlock (on x h) = Ret () t \<Longrightarrow>
    sys_step x (x\<lparr>ms := t, pushes := (pushes x)(h := k)\<rparr>)"
  \<comment> \<open>interrupts are switched outside any nesting\<close>
| st_intr_on: "noff (cpus (ms x) h) = 0 \<Longrightarrow> intr_on (on x h) = Ret () t \<Longrightarrow> sys_step x (x\<lparr>ms := t\<rparr>)"
| st_intr_off: "intr_off (on x h) = Ret () t \<Longrightarrow> sys_step x (x\<lparr>ms := t\<rparr>)"
  \<comment> \<open>a process leaves its hart: a timer interrupt or its own call of yield, sleep or exit\<close>
| st_yield: "mode x h = Run p \<Longrightarrow> yield (on x h) = Switch t \<Longrightarrow> sys_step x (switched x h p t)"
| st_sleep: "mode x h = Run p \<Longrightarrow> upc x p = Other \<Longrightarrow> lk \<in> held x h \<Longrightarrow> sleep ch lk (on x h) = Switch t \<Longrightarrow>
    sys_step x (switched x h p t)"
| st_exit: "mode x h = Run p \<Longrightarrow> upc x p = Other \<Longrightarrow> Wait_lock \<in> held x h \<Longrightarrow>
    exit_tail p status (on x h) = Switch t \<Longrightarrow> sys_step x (switched x h p t)"
  \<comment> \<open>other kernel code changes processes that neither run nor wait for a hart\<close>
| st_table: "p_state (procs (ms x) q) \<notin> {RUNNING, RUNNABLE} \<Longrightarrow> p_state r \<noteq> RUNNING \<Longrightarrow>
    sys_step x (x\<lparr>ms := (ms x)\<lparr>procs := (procs (ms x))(q := r)\<rparr>\<rparr>)"
  \<comment> \<open>the scheduler\<close>
| sc_pass: "mode x h = Idle \<Longrightarrow> scheduler_try p (on x h) = Ret () t \<Longrightarrow> sys_step x (x\<lparr>ms := t\<rparr>)"
| sc_pick: "mode x h = Idle \<Longrightarrow> scheduler_try p (on x h) = Switch t \<Longrightarrow>
    sys_step x (x\<lparr>ms := t, mode := (mode x)(h := Resume p), held := (held x)(h := {Proc_lock p})\<rparr>)"
| sc_back: "mode x h = Back p \<Longrightarrow> scheduler_back p (on x h) = Ret () t \<Longrightarrow>
    sys_step x (x\<lparr>ms := t, mode := (mode x)(h := Idle), held := (held x)(h := {})\<rparr>)"
  \<comment> \<open>a chosen process goes on after the swtch in yield or sleep, or starts in forkret\<close>
| sc_resume: "mode x h = Resume p \<Longrightarrow> yield_resume p (saved x p) (on x h) = Ret () t \<Longrightarrow>
    sys_step x (resumed x h p t)"
| sc_wake: "mode x h = Resume p \<Longrightarrow> upc x p = Other \<Longrightarrow> sleep_wake p (saved x p) (on x h) = Ret () t \<Longrightarrow>
    sys_step x (resumed x h p t)"
| sc_start: "mode x h = Resume p \<Longrightarrow> upc x p = Other \<Longrightarrow> release (Proc_lock p) (on x h) = Ret () t \<Longrightarrow>
    sys_step x (resumed x h p t)"
  \<comment> \<open>the waiting loops, statement by statement\<close>
| su_enter: "mode x h = Run p \<Longrightarrow> upc x p = Other \<Longrightarrow> c \<in> {synchronize_rcu, rcusync_wait} \<Longrightarrow>
    curproc (on x h) = Ret p t \<Longrightarrow>
    sys_step x (x\<lparr>ms := t, upc := (upc x)(p := Sync c c),
      snap := (snap x)(p := \<lambda>g. if pushes x g = 0 then None else Some (secno x g))\<rparr>)"
| su_exec: "mode x h = Run p \<Longrightarrow> upc x p = Sync c (a # cs) \<Longrightarrow> rcu_exec p a (on x h) = Ret () t \<Longrightarrow>
    sys_step x (x\<lparr>ms := t, upc := (upc x)(p := Sync c cs)\<rparr>)"
| su_yield: "mode x h = Run p \<Longrightarrow> upc x p = Sync c (a # cs) \<Longrightarrow> rcu_exec p a (on x h) = Switch t \<Longrightarrow>
    sys_step x ((switched x h p t)\<lparr>upc := (upc x)(p := Sync c cs)\<rparr>)"
| su_return: "mode x h = Run p \<Longrightarrow> upc x p = Sync c [] \<Longrightarrow> sys_step x (x\<lparr>upc := (upc x)(p := Synced c)\<rparr>)"
| su_go_on: "mode x h = Run p \<Longrightarrow> upc x p = Synced c \<Longrightarrow> sys_step x (x\<lparr>upc := (upc x)(p := Other)\<rparr>)"

text \<open>Power-up: every hart is about to enter \<open>scheduler()\<close>, and no process runs.\<close>

definition sys_init :: "sys \<Rightarrow> bool" where
  "sys_init x \<longleftrightarrow> (\<forall>lk. unlocked lk (ms x)) \<and> (\<forall>h. noff (cpus (ms x) h) = 0 \<and> held x h = {} \<and> pushes x h = 0
     \<and> mode x h = Idle \<and> cpu_proc (cpus (ms x) h) = None) \<and> (\<forall>p. p_state (procs (ms x) p) \<noteq> RUNNING \<and> upc x p = Other)"

inductive sys_reach :: "sys \<Rightarrow> bool" where
  sr_init: "sys_init x \<Longrightarrow> sys_reach x"
| sr_step: "sys_reach x \<Longrightarrow> sys_step x y \<Longrightarrow> sys_reach y"

section \<open>What the calls do to locks, harts and the table\<close>

lemma lock_inv_upd [lock_simps]:
  "lock_inv (s\<lparr>tp := h\<rparr>, H, n) = lock_inv (s, H, n)"
  "lock_inv (s'\<lparr>procs := x\<rparr>, H, n) = lock_inv (s', H, n)"
  "lock_inv (set_mycpu (\<lambda>c. c\<lparr>cpu_proc := v\<rparr>) s, H, n) = lock_inv (s, H, n)"
  "lock_inv (set_mycpu (\<lambda>c. c\<lparr>intena := i\<rparr>) s, H, n) = lock_inv (s, H, n)"
proof -
  have "noff (cpus (set_mycpu (\<lambda>c. c\<lparr>cpu_proc := v\<rparr>) s) h) = noff (cpus s h)"
    and "noff (cpus (set_mycpu (\<lambda>c. c\<lparr>intena := i\<rparr>) s) h) = noff (cpus s h)" for h
    by (simp_all add: hart_defs)
  then show "lock_inv (set_mycpu (\<lambda>c. c\<lparr>cpu_proc := v\<rparr>) s, H, n) = lock_inv (s, H, n)"
    and "lock_inv (set_mycpu (\<lambda>c. c\<lparr>intena := i\<rparr>) s, H, n) = lock_inv (s, H, n)"
    by (simp_all only: lock_inv_def prod.case) (simp_all add: set_mycpu_def)
qed (simp_all add: lock_inv_def)

lemma lock_inv_mem: "lock_inv (s, H, n) \<Longrightarrow> lk \<in> H h \<longleftrightarrow> lk_cpu (locks s lk) = Some h"
  by (simp add: lock_inv_def)

lemma lock_inv_noff:
  "lock_inv (s, H, n) \<Longrightarrow> finite (H h) \<and> noff (cpus s h) = int (card (H h)) + int (n h)"
  by (simp add: lock_inv_def)

lemma lock_inv_hart_ok: "lock_inv (s, H, n) \<Longrightarrow> hart_ok (s\<lparr>tp := h\<rparr>)"
  by (auto simp: lock_inv_def hart_ok_def)

lemma lock_inv_quiet_hart:
  assumes "lock_inv (s, H, n)" and "noff (cpus s h) = 0"
  shows "H h = {} \<and> n h = 0"
proof -
  have "finite (H h)" and "card (H h) = 0" and "n h = 0"
    using lock_inv_noff [OF assms(1), of h] assms(2) by linarith+
  then show ?thesis by simp
qed

lemma lock_inv_one:
  assumes "lock_inv (s, H, n)" and "noff (cpus s h) = 1" and "lk \<in> H h"
  shows "H h = {lk} \<and> n h = 0"
proof -
  have fin: "finite (H h)" and sum: "card (H h) + n h = 1"
    using lock_inv_noff [OF assms(1), of h] assms(2) by auto
  have "0 < card (H h)" using fin assms(3) by (rule card_pos_of_mem)
  with sum have "card (H h) = 1" and n: "n h = 0" by auto
  then obtain a where "H h = {a}" by (auto simp: card_1_singleton_iff)
  with assms(3) n show ?thesis by auto
qed

text \<open>Nothing but the locks and the interrupt state changes.\<close>

definition keeps :: "ptable \<Rightarrow> ptable \<Rightarrow> bool" where
  "keeps s t \<longleftrightarrow> procs t = procs s \<and> (\<forall>g. cpu_proc (cpus t g) = cpu_proc (cpus s g))"

lemma keeps_enter: "keeps s (enter lk (s\<lparr>tp := h\<rparr>))"
  by (simp add: keeps_def lock_simps)

lemma pop_state_fields [lock_simps]:
  "tp (pop_state s) = tp s"
  "procs (pop_state s') = procs s'"
  "cpu_proc (cpus (pop_state s) g) = cpu_proc (cpus s g)"
  by (simp_all add: pop_state_def)

lemma release_RetD:
  "release lk s = Ret () t \<Longrightarrow>
     t = pop_state (s\<lparr>locks := (locks s)(lk := (locks s lk)\<lparr>lk_cpu := None, lk_locked := 0\<rparr>)\<rparr>) \<and> holding lk s"
  by (auto simp: release_cases pop_off_cases split: if_splits)

lemma release_fields:
  fixes s :: "'z ptable_scheme"
  assumes "release lk s = Ret () t"
  shows "procs t = procs s" and "cpu_proc (cpus t g) = cpu_proc (cpus s g)" and "tp t = tp s"
  using release_RetD [OF assms] by (simp_all add: lock_simps)

lemma keeps_release: "release lk (s\<lparr>tp := h\<rparr>) = Ret () t \<Longrightarrow> keeps s t"
  by (frule release_RetD) (simp add: keeps_def lock_simps)

text \<open>A process has left its hart through \<open>sched\<close> with the state \<open>st\<close>.\<close>

definition leaves :: "sys \<Rightarrow> nat \<Rightarrow> nat \<Rightarrow> procstate \<Rightarrow> ptable \<Rightarrow> bool" where
  "leaves x h p st t \<longleftrightarrow>
     lock_inv (t, (held x)(h := {Proc_lock p}), pushes x) \<and> pushes x h = 0 \<and> st \<noteq> RUNNING \<and>
     (\<forall>g. cpu_proc (cpus t g) = cpu_proc (cpus (ms x) g)) \<and>
     (\<exists>r. procs t = (procs (ms x))(p := r) \<and> p_state r = st \<and>
        p_cpu_affinity r = p_cpu_affinity (procs (ms x) p))"

lemma sched_leaves:
  assumes "lock_inv (u, (held x)(h := H), pushes x)" and "tp u = h" and "sched u = Switch t"
    and "\<forall>g. cpu_proc (cpus u g) = cpu_proc (cpus (ms x) g)" and "cpu_proc (cpus (ms x) h) = Some p"
    and "procs u = (procs (ms x))(p := r)" and "p_cpu_affinity r = p_cpu_affinity (procs (ms x) p)"
  shows "leaves x h p (p_state r) t"
proof -
  have ok: "hart_ok u" using lock_inv_hart_ok [OF assms(1), of h] assms(2) by (simp add: hart_ok_def)
  from sched_cases [OF this, of p] assms(2-5)
  have h: "holding (Proc_lock p) u" and n: "noff (cpus u h) = 1" and st: "p_state (procs u p) \<noteq> RUNNING"
    and t: "t = u"
    by (auto split: if_splits)
  from h assms(2) have "Proc_lock p \<in> H"
    using lock_inv_mem [OF assms(1), of "Proc_lock p" h] by (simp add: holding_def cpuid_def)
  with lock_inv_one [OF assms(1) n, of "Proc_lock p"] have "H = {Proc_lock p}" and "pushes x h = 0" by auto
  with assms st t show ?thesis by (auto simp: leaves_def)
qed

lemma yield_leaves:
  assumes inv: "lock_inv (ms x, held x, pushes x)" and cur: "cpu_proc (cpus (ms x) h) = Some p"
    and y: "yield (on x h) = Switch t"
  shows "leaves x h p RUNNABLE t"
proof -
  let ?u = "enter (Proc_lock p) (on x h)"
  let ?r = "(procs (ms x) p)\<lparr>p_state := RUNNABLE\<rparr>"
  have "hart_ok (on x h)" using inv by (rule lock_inv_hart_ok)
  with y cur have acq: "acquire (Proc_lock p) (on x h) = Ret () ?u"
    and sch: "sched (?u\<lparr>procs := (procs (ms x))(p := ?r)\<rparr>) = Switch t"
    by (auto simp: yield_def curproc_sync acquire_cases lock_simps split: if_splits)
  have "lock_inv (?u\<lparr>procs := (procs (ms x))(p := ?r)\<rparr>, (held x)(h := insert (Proc_lock p) (held x h)), pushes x)"
    using lock_inv_acquire [OF inv acq] by (simp only: lock_inv_upd)
  from sched_leaves [OF this _ sch, of p ?r] cur show ?thesis by (simp add: lock_simps)
qed

lemma sleep_leaves:
  assumes inv: "lock_inv (ms x, held x, pushes x)" and cur: "cpu_proc (cpus (ms x) h) = Some p"
    and lk: "lk \<in> held x h" and y: "sleep ch lk (on x h) = Switch t"
  shows "leaves x h p SLEEPING t"
proof -
  let ?u = "enter (Proc_lock p) (on x h)"
  let ?r = "(procs (ms x) p)\<lparr>p_chan := Some ch, p_state := SLEEPING\<rparr>"
  have "hart_ok (on x h)" using inv by (rule lock_inv_hart_ok)
  with y cur obtain v where acq: "acquire (Proc_lock p) (on x h) = Ret () ?u"
    and rel: "release lk ?u = Ret () v"
    and sch: "sched (v\<lparr>procs := (procs v)(p := (procs v p)\<lparr>p_chan := Some ch, p_state := SLEEPING\<rparr>)\<rparr>) = Switch t"
    by (auto simp: sleep_def curproc_sync acquire_cases lock_simps split: if_splits res.splits)
  have iu: "lock_inv (?u, (held x)(h := insert (Proc_lock p) (held x h)), pushes x)"
    using lock_inv_acquire [OF inv acq] .
  have "?u\<lparr>tp := h\<rparr> = ?u" by (simp add: enter_def push_state_def)
  with lock_inv_release [OF iu, of lk h v] lk rel
  have iv: "lock_inv (v, (held x)(h := insert (Proc_lock p) (held x h) - {lk}), pushes x)" by simp
  have v: "procs v = procs (ms x)" "tp v = h" "\<forall>g. cpu_proc (cpus v g) = cpu_proc (cpus (ms x) g)"
    using release_fields [OF rel] by (simp_all add: lock_simps)
  from sched_leaves [OF _ _ sch, of x h _ p ?r] iv v cur show ?thesis by (simp add: lock_inv_upd)
qed

lemma exit_leaves:
  assumes inv: "lock_inv (ms x, held x, pushes x)" and cur: "cpu_proc (cpus (ms x) h) = Some p"
    and lk: "Wait_lock \<in> held x h" and y: "exit_tail p st (on x h) = Switch t"
  shows "leaves x h p ZOMBIE t"
proof -
  let ?u = "enter (Proc_lock p) (on x h)"
  let ?r = "(procs (ms x) p)\<lparr>p_xstate := st, p_state := ZOMBIE\<rparr>"
  let ?w = "?u\<lparr>procs := (procs (ms x))(p := ?r)\<rparr>"
  from y obtain v where acq: "acquire (Proc_lock p) (on x h) = Ret () ?u"
    and rel: "release Wait_lock ?w = Ret () v" and sch: "sched v = Switch t"
    by (auto simp: exit_tail_def acquire_cases lock_simps split: if_splits res.splits)
  have iu: "lock_inv (?w, (held x)(h := insert (Proc_lock p) (held x h)), pushes x)"
    using lock_inv_acquire [OF inv acq] by (simp only: lock_inv_upd)
  have "?w\<lparr>tp := h\<rparr> = ?w" by (simp add: enter_def push_state_def)
  with lock_inv_release [OF iu, of Wait_lock h v] lk rel
  have iv: "lock_inv (v, (held x)(h := insert (Proc_lock p) (held x h) - {Wait_lock}), pushes x)" by simp
  have v: "procs v = (procs (ms x))(p := ?r)" "tp v = h" "\<forall>g. cpu_proc (cpus v g) = cpu_proc (cpus (ms x) g)"
    using release_fields [OF rel] by (simp_all add: lock_simps)
  from sched_leaves [OF iv v(2) sch v(3) cur v(1)] show ?thesis by simp
qed

text \<open>A chosen process has dropped its lock after \<open>swtch\<close>.\<close>

definition arrives :: "sys \<Rightarrow> nat \<Rightarrow> ptable \<Rightarrow> bool" where
  "arrives x h t \<longleftrightarrow>
     lock_inv (t, (held x)(h := {}), pushes x) \<and>
     (\<forall>g. cpu_proc (cpus t g) = cpu_proc (cpus (ms x) g)) \<and>
     (\<forall>q. p_state (procs t q) = p_state (procs (ms x) q) \<and>
          p_cpu_affinity (procs t q) = p_cpu_affinity (procs (ms x) q))"

lemma release_last:
  assumes "lock_inv (u, held x, pushes x)" and "held x h = {lk}" and "tp u = h" and "release lk u = Ret () t"
  shows "lock_inv (t, (held x)(h := {}), pushes x)"
proof -
  have "u\<lparr>tp := h\<rparr> = u" using assms(3) by simp
  with lock_inv_release [OF assms(1), of lk h t] assms(2,4) show ?thesis by simp
qed

lemma set_mycpu_fields [lock_simps]:
  "procs (set_mycpu f s) = procs s" "tp (set_mycpu f m) = tp m"
  "cpu_proc (cpus (set_mycpu (\<lambda>c. c\<lparr>intena := i\<rparr>) m) g) = cpu_proc (cpus m g)"
  "cpu_proc (cpus (set_mycpu (\<lambda>c. c\<lparr>cpu_proc := v\<rparr>) m) g) = (if g = tp m then v else cpu_proc (cpus m g))"
  by (simp_all add: set_mycpu_def cpuid_def mycpu_def)

lemma yield_resume_arrives:
  assumes "lock_inv (ms x, held x, pushes x)" and "held x h = {Proc_lock p}"
    and "yield_resume p b (on x h) = Ret () t"
  shows "arrives x h t"
proof -
  let ?u = "set_mycpu (\<lambda>c. c\<lparr>intena := b\<rparr>) (on x h)"
  have rel: "release (Proc_lock p) ?u = Ret () t"
    using assms(3) by (simp add: yield_resume_def sched_resume_def)
  have "lock_inv (?u, held x, pushes x)" using assms(1) by (simp add: lock_inv_upd)
  from release_last [OF this assms(2) _ rel] release_fields [OF rel] show ?thesis
    by (simp add: arrives_def lock_simps)
qed

lemma sleep_wake_arrives:
  assumes "lock_inv (ms x, held x, pushes x)" and "held x h = {Proc_lock p}"
    and "sleep_wake p b (on x h) = Ret () t"
  shows "arrives x h t"
proof -
  let ?u = "(set_mycpu (\<lambda>c. c\<lparr>intena := b\<rparr>) (on x h))\<lparr>procs := (procs (ms x))(p := (procs (ms x) p)\<lparr>p_chan := None\<rparr>)\<rparr>"
  have rel: "release (Proc_lock p) ?u = Ret () t"
    using assms(3) by (simp add: sleep_wake_def sched_resume_def lock_simps)
  have "lock_inv (?u, held x, pushes x)" using assms(1) by (simp add: lock_inv_upd)
  from release_last [OF this assms(2) _ rel] release_fields [OF rel] show ?thesis
    by (simp add: arrives_def lock_simps)
qed

lemma start_arrives:
  assumes "lock_inv (ms x, held x, pushes x)" and "held x h = {Proc_lock p}"
    and "release (Proc_lock p) (on x h) = Ret () t"
  shows "arrives x h t"
proof -
  have "lock_inv (on x h, held x, pushes x)" using assms(1) by (simp add: lock_inv_upd)
  from release_last [OF this assms(2) _ assms(3)] release_fields [OF assms(3)] show ?thesis
    by (simp add: arrives_def lock_simps)
qed

text \<open>The scheduler passes over a process, or picks it.\<close>

lemma scheduler_try_passes:
  assumes inv: "lock_inv (ms x, held x, pushes x)" and "scheduler_try p (on x h) = Ret () t"
  shows "lock_inv (t, held x, pushes x) \<and> keeps (ms x) t"
proof -
  let ?u = "enter (Proc_lock p) (on x h)"
  from assms(2) have free: "lk_locked (locks (ms x) (Proc_lock p)) = 0"
    and acq: "acquire (Proc_lock p) (on x h) = Ret () ?u" and rel: "release (Proc_lock p) ?u = Ret () t"
    by (auto simp: scheduler_try_def acquire_cases split: if_splits)
  have "\<exists>g. Proc_lock p \<in> held x g \<Longrightarrow> False"
    using inv free by (auto simp: lock_inv_def split: if_splits)
  then have new: "Proc_lock p \<notin> held x h" by blast
  have "?u\<lparr>tp := h\<rparr> = ?u" by (simp add: enter_def push_state_def)
  with lock_inv_release [OF lock_inv_acquire [OF inv acq], of "Proc_lock p" h t] rel new
  have "lock_inv (t, held x, pushes x)" by (simp add: fun_upd_idem)
  moreover have "keeps (ms x) t" using release_fields [OF rel] by (simp add: keeps_def lock_simps)
  ultimately show ?thesis by blast
qed

lemma scheduler_try_picks:
  assumes inv: "lock_inv (ms x, held x, pushes x)" and idle: "held x h = {}"
    and "scheduler_try p (on x h) = Switch t"
  shows "lock_inv (t, (held x)(h := {Proc_lock p}), pushes x)"
    and "p_state (procs (ms x) p) = RUNNABLE"
    and "p_cpu_affinity (procs (ms x) p) \<in> {-1, int h}"
    and "\<forall>g. Proc_lock p \<notin> held x g"
    and "procs t = (procs (ms x))(p := (procs (ms x) p)\<lparr>p_state := RUNNING\<rparr>)"
    and "cpu_proc (cpus t g) = (if g = h then Some p else cpu_proc (cpus (ms x) g))"
proof -
  let ?u = "enter (Proc_lock p) (on x h)"
  from assms(3) have free: "lk_locked (locks (ms x) (Proc_lock p)) = 0"
    and acq: "acquire (Proc_lock p) (on x h) = Ret () ?u"
    and run: "p_state (procs (ms x) p) = RUNNABLE" and aff: "p_cpu_affinity (procs (ms x) p) \<in> {-1, int h}"
    and t: "t = set_mycpu (\<lambda>c. c\<lparr>cpu_proc := Some p\<rparr>) (?u\<lparr>procs := (procs (ms x))(p := (procs (ms x) p)\<lparr>p_state := RUNNING\<rparr>)\<rparr>)"
    by (auto simp: scheduler_try_def acquire_cases hart_defs lock_simps split: if_splits)
  show "lock_inv (t, (held x)(h := {Proc_lock p}), pushes x)"
    using lock_inv_acquire [OF inv acq] idle unfolding t by (simp only: lock_inv_upd)
  show "p_state (procs (ms x) p) = RUNNABLE" by (fact run)
  show "p_cpu_affinity (procs (ms x) p) \<in> {-1, int h}" by (fact aff)
  show "\<forall>g. Proc_lock p \<notin> held x g"
    using inv free by (auto simp: lock_inv_def split: if_splits)
  show "procs t = (procs (ms x))(p := (procs (ms x) p)\<lparr>p_state := RUNNING\<rparr>)"
    unfolding t by (simp add: lock_simps)
  show "cpu_proc (cpus t g) = (if g = h then Some p else cpu_proc (cpus (ms x) g))"
    unfolding t by (simp add: lock_simps)
qed

lemma scheduler_back_ends:
  assumes inv: "lock_inv (ms x, held x, pushes x)" and "held x h = {Proc_lock p}"
    and "scheduler_back p (on x h) = Ret () t"
  shows "lock_inv (t, (held x)(h := {}), pushes x)" and "procs t = procs (ms x)"
    and "cpu_proc (cpus t g) = (if g = h then None else cpu_proc (cpus (ms x) g))"
proof -
  let ?u = "set_mycpu (\<lambda>c. c\<lparr>cpu_proc := None\<rparr>) (on x h)"
  have rel: "release (Proc_lock p) ?u = Ret () t" using assms(3) by (simp add: scheduler_back_def)
  have "lock_inv (?u, held x, pushes x)" using inv by (simp add: lock_inv_upd)
  from release_last [OF this assms(2) _ rel]
  show "lock_inv (t, (held x)(h := {}), pushes x)" by (simp add: lock_simps)
  show "procs t = procs (ms x)" using release_fields(1) [OF rel] by (simp add: lock_simps)
  show "cpu_proc (cpus t g) = (if g = h then None else cpu_proc (cpus (ms x) g))"
    using release_fields(2) [OF rel, of g] by (simp add: lock_simps)
qed

section \<open>Invariants\<close>

fun proc_of :: "hmode \<Rightarrow> nat option" where
  "proc_of Idle = None"
| "proc_of (Run p) = Some p"
| "proc_of (Back p) = Some p"
| "proc_of (Resume p) = Some p"

definition runs :: "sys \<Rightarrow> nat \<Rightarrow> nat \<Rightarrow> bool" where
  "runs x h p \<longleftrightarrow> mode x h = Run p \<or> mode x h = Resume p"

definition hart_inv :: "sys \<Rightarrow> nat \<Rightarrow> bool" where
  "hart_inv x h \<longleftrightarrow> cpu_proc (cpus (ms x) h) = proc_of (mode x h) \<and>
     (case mode x h of
        Idle \<Rightarrow> held x h = {} \<and> pushes x h = 0
      | Run p \<Rightarrow> p_state (procs (ms x) p) = RUNNING
      | Back p \<Rightarrow> p_state (procs (ms x) p) \<noteq> RUNNING \<and> held x h = {Proc_lock p} \<and> pushes x h = 0
      | Resume p \<Rightarrow> p_state (procs (ms x) p) = RUNNING \<and> held x h = {Proc_lock p} \<and> pushes x h = 0)"

definition sched_inv :: "sys \<Rightarrow> bool" where
  "sched_inv x \<longleftrightarrow> lock_inv (ms x, held x, pushes x) \<and> (\<forall>h. hart_inv x h) \<and>
     (\<forall>g h p. proc_of (mode x g) = Some p \<and> proc_of (mode x h) = Some p \<longrightarrow> g = h) \<and>
     (\<forall>p. p_state (procs (ms x) p) = RUNNING \<longrightarrow> (\<exists>h. runs x h p))"

text \<open>The section of hart \<open>h\<close> that \<open>p\<close> has to wait for is over.\<close>

definition ended :: "sys \<Rightarrow> nat \<Rightarrow> nat \<Rightarrow> bool" where
  "ended x p h \<longleftrightarrow> (case snap x p h of None \<Rightarrow> True | Some k \<Rightarrow> pushes x h = 0 \<or> k < secno x h)"

lemma ended_simps [simp]:
  "ended (x\<lparr>ms := t\<rparr>) = ended x" "ended (x\<lparr>upc := u\<rparr>) = ended x" "ended (x\<lparr>mode := m\<rparr>) = ended x"
  "ended (x\<lparr>held := l\<rparr>) = ended x" "ended (x\<lparr>saved := z\<rparr>) = ended x"
  by (simp_all add: ended_def fun_eq_iff cong: option.case_cong)

text \<open>
  What a run of statements has done: the affinity it set last, and the harts it was pinned to in a \<open>yield\<close>.
\<close>

definition visit :: "int option \<times> int set \<Rightarrow> rcu_stmt \<Rightarrow> int option \<times> int set" where
  "visit v c = (case c of Set_affinity a \<Rightarrow> (Some a, snd v) | Yield \<Rightarrow> (fst v, snd v \<union> set_option (fst v)))"

definition visits :: "rcu_stmt list \<Rightarrow> int option \<times> int set" where
  "visits cs = foldl visit (None, {}) cs"

text \<open>
  Every hart that was visited is past the section \<open>p\<close> waits for, except that the last one may be still to
  come while \<open>p\<close> does not run.
\<close>

definition waits :: "sys \<Rightarrow> nat \<Rightarrow> int option \<times> int set \<Rightarrow> bool" where
  "waits x p v \<longleftrightarrow> (\<forall>a. fst v = Some a \<longrightarrow> p_cpu_affinity (procs (ms x) p) = a) \<and>
     (\<forall>h. int h \<in> snd v \<longrightarrow> ended x p h \<or> fst v = Some (int h) \<and> (\<forall>g. \<not> runs x g p))"

definition upc_inv :: "sys \<Rightarrow> nat \<Rightarrow> bool" where
  "upc_inv x p \<longleftrightarrow>
     (case upc x p of
        Other \<Rightarrow> True
      | Sync c cs \<Rightarrow> \<exists>bs. c = bs @ cs \<and> waits x p (visits bs)
      | Synced c \<Rightarrow> \<forall>h. int h \<in> snd (visits c) \<longrightarrow> ended x p h) \<and>
     (upc x p \<noteq> Other \<longrightarrow> p_state (procs (ms x) p) \<in> {RUNNING, RUNNABLE} \<and>
        (\<forall>h k. snap x p h = Some k \<longrightarrow> k \<le> secno x h))"

subsection \<open>The scheduler invariant\<close>

lemma sched_invI:
  "(\<And>h. hart_inv x h) \<Longrightarrow>
   \<forall>g h p. proc_of (mode x g) = Some p \<and> proc_of (mode x h) = Some p \<longrightarrow> g = h \<Longrightarrow>
   (\<And>p. p_state (procs (ms x) p) = RUNNING \<Longrightarrow> \<exists>h. runs x h p) \<Longrightarrow>
   lock_inv (ms x, held x, pushes x) \<Longrightarrow> sched_inv x"
  unfolding sched_inv_def by blast

lemma sched_inv_running:
  "sched_inv x \<Longrightarrow> p_state (procs (ms x) p) = RUNNING \<Longrightarrow> \<exists>h. runs x h p"
  unfolding sched_inv_def by blast

lemma sched_inv_mode: "sched_inv x \<Longrightarrow> hart_inv x h"
  by (simp add: sched_inv_def)

lemma sched_inv_lock: "sched_inv x \<Longrightarrow> lock_inv (ms x, held x, pushes x)"
  by (simp add: sched_inv_def)

lemma sched_inv_unique:
  "sched_inv x \<Longrightarrow> proc_of (mode x g) = Some p \<Longrightarrow> proc_of (mode x h) = Some p \<Longrightarrow> g = h"
  unfolding sched_inv_def by blast

lemma unique_upd:
  assumes "sched_inv x" and "\<And>g q. g \<noteq> h \<Longrightarrow> proc_of m = Some q \<Longrightarrow> proc_of (mode x g) \<noteq> Some q"
  shows "\<forall>g g' q. proc_of (((mode x)(h := m)) g) = Some q \<and> proc_of (((mode x)(h := m)) g') = Some q \<longrightarrow> g = g'"
proof (intro allI impI, elim conjE)
  fix g g' q
  assume "proc_of (((mode x)(h := m)) g) = Some q" and "proc_of (((mode x)(h := m)) g') = Some q"
  then show "g = g'"
    using assms(2) [of g q] assms(2) [of g' q] sched_inv_unique [OF assms(1), of g q g']
    by (cases "g = h"; cases "g' = h") simp_all
qed

lemma sched_inv_run:
  assumes "sched_inv x" and "mode x h = Run p"
  shows "cpu_proc (cpus (ms x) h) = Some p" and "p_state (procs (ms x) p) = RUNNING"
  using sched_inv_mode [OF assms(1), of h] assms(2) by (simp_all add: hart_inv_def)

lemma sched_inv_resume:
  assumes "sched_inv x" and "mode x h = Resume p"
  shows "held x h = {Proc_lock p}" and "pushes x h = 0" and "p_state (procs (ms x) p) = RUNNING"
  using sched_inv_mode [OF assms(1), of h] assms(2) by (simp_all add: hart_inv_def)

lemma sched_inv_back:
  assumes "sched_inv x" and "mode x h = Back p"
  shows "held x h = {Proc_lock p}" and "pushes x h = 0" and "p_state (procs (ms x) p) \<noteq> RUNNING"
  using sched_inv_mode [OF assms(1), of h] assms(2) by (simp_all add: hart_inv_def)

lemma sched_inv_idle:
  assumes "sched_inv x" and "mode x h = Idle"
  shows "held x h = {}" and "pushes x h = 0"
  using sched_inv_mode [OF assms(1), of h] assms(2) by (simp_all add: hart_inv_def)

lemma hart_inv_cong:
  assumes "hart_inv x g" and "mode y g = mode x g" and "cpu_proc (cpus (ms y) g) = cpu_proc (cpus (ms x) g)"
    and "\<And>p. proc_of (mode x g) = Some p \<Longrightarrow>
      (p_state (procs (ms y) p) = RUNNING \<longleftrightarrow> p_state (procs (ms x) p) = RUNNING)"
    and "(\<forall>p. mode x g \<noteq> Run p) \<Longrightarrow> held y g = held x g \<and> pushes y g = pushes x g"
  shows "hart_inv y g"
  using assms by (auto simp: hart_inv_def split: hmode.splits)

lemma sched_inv_same:
  assumes "sched_inv x" and "mode y = mode x" and "lock_inv (ms y, held y, pushes y)"
    and "\<And>g. cpu_proc (cpus (ms y) g) = cpu_proc (cpus (ms x) g)"
    and "\<And>q. p_state (procs (ms y) q) = RUNNING \<longleftrightarrow> p_state (procs (ms x) q) = RUNNING"
    and "\<And>g. (\<forall>p. mode x g \<noteq> Run p) \<Longrightarrow> held y g = held x g \<and> pushes y g = pushes x g"
  shows "sched_inv y"
proof -
  have "hart_inv y g" for g
    using assms(2,4-6) by (intro hart_inv_cong [OF sched_inv_mode [OF assms(1)]]) auto
  moreover have "runs y = runs x" using assms(2) by (simp add: runs_def fun_eq_iff)
  ultimately show ?thesis
    using assms(1-3,5) by (simp add: sched_inv_def)
qed

lemma sched_inv_keeps:
  assumes "sched_inv x" and "keeps (ms x) (ms y)" and "mode y = mode x"
    and "lock_inv (ms y, held y, pushes y)"
    and "\<And>g. (\<forall>p. mode x g \<noteq> Run p) \<Longrightarrow> held y g = held x g \<and> pushes y g = pushes x g"
  shows "sched_inv y"
  using assms by (intro sched_inv_same [of x y]) (auto simp: keeps_def)

lemma sched_inv_leaves:
  assumes inv: "sched_inv x" and run: "mode x h = Run p" and lv: "leaves x h p st t"
  shows "sched_inv (switched x h p t)"
proof -
  let ?y = "switched x h p t"
  from lv obtain r where r: "procs t = (procs (ms x))(p := r)" "p_state r = st"
    and li: "lock_inv (t, (held x)(h := {Proc_lock p}), pushes x)" and n: "pushes x h = 0"
    and st: "st \<noteq> RUNNING" and cp: "\<forall>g. cpu_proc (cpus t g) = cpu_proc (cpus (ms x) g)"
    by (auto simp: leaves_def)
  have only: "proc_of (mode x g) \<noteq> Some p" if "g \<noteq> h" for g
    using sched_inv_unique [OF inv, of g p h] run that by auto
  have "hart_inv ?y g" for g
  proof (cases "g = h")
    case True
    then show ?thesis
      using r st n cp sched_inv_run [OF inv run] by (simp add: hart_inv_def switched_def)
  next
    case False
    show ?thesis
      using only [OF False] False r cp
      by (intro hart_inv_cong [OF sched_inv_mode [OF inv]]) (auto simp: switched_def)
  qed
  moreover have "\<forall>g g' q. proc_of (mode ?y g) = Some q \<and> proc_of (mode ?y g') = Some q \<longrightarrow> g = g'"
  proof -
    have "mode ?y = (mode x)(h := Back p)" by (simp add: switched_def)
    then show ?thesis by (simp only:) (rule unique_upd [OF inv], use only in auto)
  qed
  moreover have "\<exists>g. runs ?y g q" if "p_state (procs (ms ?y) q) = RUNNING" for q
  proof -
    have "q \<noteq> p" and "p_state (procs (ms x) q) = RUNNING"
      using that r st by (auto simp: switched_def split: if_splits)
    then obtain g where "runs x g q" using sched_inv_running [OF inv] by blast
    with run \<open>q \<noteq> p\<close> show ?thesis by (auto simp: runs_def switched_def intro!: exI [of _ g])
  qed
  moreover have "lock_inv (ms ?y, held ?y, pushes ?y)" using li by (simp add: switched_def)
  ultimately show ?thesis by (rule sched_invI)
qed

lemma sched_inv_arrives:
  assumes inv: "sched_inv x" and res: "mode x h = Resume p" and ar: "arrives x h t"
  shows "sched_inv (resumed x h p t)"
proof -
  let ?y = "resumed x h p t"
  from ar have li: "lock_inv (t, (held x)(h := {}), pushes x)"
    and cp: "\<forall>g. cpu_proc (cpus t g) = cpu_proc (cpus (ms x) g)"
    and st: "\<forall>q. p_state (procs t q) = p_state (procs (ms x) q)"
    by (auto simp: arrives_def)
  have "hart_inv ?y g" for g
  proof (cases "g = h")
    case True
    then show ?thesis
      using st cp sched_inv_mode [OF inv, of h] res by (simp add: hart_inv_def resumed_def)
  next
    case False
    then show ?thesis
      using st cp by (intro hart_inv_cong [OF sched_inv_mode [OF inv]]) (auto simp: resumed_def)
  qed
  moreover have "\<forall>g g' q. proc_of (mode ?y g) = Some q \<and> proc_of (mode ?y g') = Some q \<longrightarrow> g = g'"
  proof -
    have "mode ?y = (mode x)(h := Run p)" by (simp add: resumed_def)
    moreover have "g \<noteq> h \<Longrightarrow> proc_of (mode x g) \<noteq> Some p" for g
      using sched_inv_unique [OF inv, of g p h] res by auto
    ultimately show ?thesis by (simp only:) (rule unique_upd [OF inv], auto)
  qed
  moreover have "\<exists>g. runs ?y g q" if "p_state (procs (ms ?y) q) = RUNNING" for q
  proof -
    have "p_state (procs (ms x) q) = RUNNING" using that st by (simp add: resumed_def)
    then obtain g where "runs x g q" using sched_inv_running [OF inv] by blast
    then show ?thesis using res by (auto simp: runs_def resumed_def intro!: exI [of _ g])
  qed
  moreover have "lock_inv (ms ?y, held ?y, pushes ?y)" using li by (simp add: resumed_def)
  ultimately show ?thesis by (rule sched_invI)
qed

lemma sched_inv_picks:
  assumes inv: "sched_inv x" and idle: "mode x h = Idle" and pkd: "scheduler_try p (on x h) = Switch t"
  shows "sched_inv (x\<lparr>ms := t, mode := (mode x)(h := Resume p), held := (held x)(h := {Proc_lock p})\<rparr>)"
    (is "sched_inv ?y")
proof -
  note pk = scheduler_try_picks [OF sched_inv_lock [OF inv] sched_inv_idle(1) [OF inv idle] pkd]
  have only: "proc_of (mode x g) \<noteq> Some p" for g
  proof
    assume m: "proc_of (mode x g) = Some p"
    have "hart_inv x g" using inv by (rule sched_inv_mode)
    with m pk(2,4) show False by (cases "mode x g") (auto simp: hart_inv_def)
  qed
  have "hart_inv ?y g" for g
  proof (cases "g = h")
    case True
    then show ?thesis
      using pk(5,6) sched_inv_idle [OF inv idle] by (simp add: hart_inv_def)
  next
    case False
    then show ?thesis
      using only [of g] pk(5,6) by (intro hart_inv_cong [OF sched_inv_mode [OF inv]]) auto
  qed
  moreover have "\<forall>g g' q. proc_of (mode ?y g) = Some q \<and> proc_of (mode ?y g') = Some q \<longrightarrow> g = g'"
  proof -
    have "mode ?y = (mode x)(h := Resume p)" by simp
    then show ?thesis by (simp only:) (rule unique_upd [OF inv], use only in auto)
  qed
  moreover have "\<exists>g. runs ?y g q" if "p_state (procs (ms ?y) q) = RUNNING" for q
  proof (cases "q = p")
    case True
    then show ?thesis by (auto simp: runs_def)
  next
    case False
    with that pk(5) have "p_state (procs (ms x) q) = RUNNING" by simp
    then obtain g where "runs x g q" using sched_inv_running [OF inv] by blast
    with idle show ?thesis by (auto simp: runs_def intro!: exI [of _ g])
  qed
  moreover have "lock_inv (ms ?y, held ?y, pushes ?y)" using pk(1) by simp
  ultimately show ?thesis by (rule sched_invI)
qed

lemma sched_inv_scheduler_back:
  assumes inv: "sched_inv x" and bk: "mode x h = Back p" and b: "scheduler_back p (on x h) = Ret () t"
  shows "sched_inv (x\<lparr>ms := t, mode := (mode x)(h := Idle), held := (held x)(h := {})\<rparr>)"
    (is "sched_inv ?y")
proof -
  note en = scheduler_back_ends [OF sched_inv_lock [OF inv] sched_inv_back(1) [OF inv bk] b]
  have "hart_inv ?y g" for g
  proof (cases "g = h")
    case True
    then show ?thesis using en sched_inv_back [OF inv bk] by (simp add: hart_inv_def)
  next
    case False
    then show ?thesis
      using en by (intro hart_inv_cong [OF sched_inv_mode [OF inv]]) auto
  qed
  moreover have "\<forall>g g' q. proc_of (mode ?y g) = Some q \<and> proc_of (mode ?y g') = Some q \<longrightarrow> g = g'"
  proof -
    have "mode ?y = (mode x)(h := Idle)" by simp
    then show ?thesis by (simp only:) (rule unique_upd [OF inv], simp)
  qed
  moreover have "\<exists>g. runs ?y g q" if "p_state (procs (ms ?y) q) = RUNNING" for q
  proof -
    have "p_state (procs (ms x) q) = RUNNING" using that en by simp
    then obtain g where "runs x g q" using sched_inv_running [OF inv] by blast
    with bk show ?thesis by (auto simp: runs_def intro!: exI [of _ g])
  qed
  moreover have "lock_inv (ms ?y, held ?y, pushes ?y)" using en(1) by simp
  ultimately show ?thesis by (rule sched_invI)
qed

lemma sched_inv_ghost [simp]:
  "sched_inv (x\<lparr>upc := u\<rparr>) = sched_inv x" "sched_inv (x\<lparr>snap := v\<rparr>) = sched_inv x"
  "sched_inv (x\<lparr>secno := w\<rparr>) = sched_inv x"
  by (simp_all add: sched_inv_def hart_inv_def runs_def cong: hmode.case_cong)

lemma keeps_calls:
  "acquire lk (s\<lparr>tp := h\<rparr>) = Ret () t \<Longrightarrow> keeps s t"
  "push_off (s\<lparr>tp := h\<rparr>) = Ret () t \<Longrightarrow> keeps s t"
  "pop_off (s\<lparr>tp := h\<rparr>) = Ret () t \<Longrightarrow> keeps s t"
  "intr_on (s\<lparr>tp := h\<rparr>) = Ret () t \<Longrightarrow> keeps s t"
  "intr_off (s\<lparr>tp := h\<rparr>) = Ret () t \<Longrightarrow> keeps s t"
  by (auto simp: acquire_cases push_off_eq pop_off_cases keeps_def lock_simps intr_on_def intr_off_def
      split: if_splits)

text \<open>The statements of a waiting loop.\<close>

lemma exec_set: "rcu_exec p (Set_affinity a) (on x h) = Ret () t \<Longrightarrow>
    t = (on x h)\<lparr>procs := (procs (ms x))(p := (procs (ms x) p)\<lparr>p_cpu_affinity := a\<rparr>)\<rparr>"
  by auto

lemma exec_Ret: "rcu_exec p c s = Ret () t \<Longrightarrow> \<exists>a. c = Set_affinity a"
  by (cases c) auto

lemma exec_Switch: "rcu_exec p c s = Switch t \<Longrightarrow> c = Yield \<and> yield s = Switch t"
  by (cases c) auto

lemma sched_inv_set:
  assumes inv: "sched_inv x" and "rcu_exec p (Set_affinity a) (on x h) = Ret () t"
  shows "sched_inv (x\<lparr>ms := t\<rparr>)"
  using assms(2) sched_inv_lock [OF inv]
  by (intro sched_inv_same [OF inv]) (auto simp: lock_inv_upd split: if_splits)

lemma lock_inv_sync: "lock_inv (s, H, n) \<Longrightarrow> lock_inv (sync (s\<lparr>tp := h\<rparr>), H, n)"
  by (simp add: lock_inv_def lock_simps)

lemma curproc_keeps:
  assumes inv: "sched_inv x" and run: "mode x h = Run p" and c: "curproc (on x h) = Ret q t"
  shows "keeps (ms x) t \<and> lock_inv (t, held x, pushes x)"
proof -
  note li = sched_inv_lock [OF inv]
  have "t = sync (on x h)"
    using curproc_sync [OF lock_inv_hart_ok [OF li], of h p] sched_inv_run(1) [OF inv run] c by simp
  then show ?thesis using lock_inv_sync [OF li] by (simp add: keeps_def lock_simps)
qed

lemma sched_step_inv: "sys_step x y \<Longrightarrow> sched_inv x \<Longrightarrow> sched_inv y"
proof (induction rule: sys_step.induct)
  case (st_acquire x h p lk t)
  note li = lock_inv_acquire [OF sched_inv_lock [OF st_acquire(4)] st_acquire(3)]
  show ?case
    using st_acquire(1) keeps_calls(1) [OF st_acquire(3)] li
    by (intro sched_inv_keeps [OF st_acquire(4)]) auto
next
  case (st_release x h p lk t)
  note li = lock_inv_release [OF sched_inv_lock [OF st_release(5)] st_release(3,4)]
  show ?case
    using st_release(1) keeps_release [OF st_release(4)] li
    by (intro sched_inv_keeps [OF st_release(5)]) auto
next
  case (st_read_lock x h p t)
  note call = st_read_lock(3) [unfolded rcu_read_lock_def]
  note li = lock_inv_push [OF sched_inv_lock [OF st_read_lock(4)] call]
  have "sched_inv (x\<lparr>ms := t, pushes := (pushes x)(h := Suc (pushes x h))\<rparr>)"
    using st_read_lock(1) keeps_calls(2) [OF call] li
    by (intro sched_inv_keeps [OF st_read_lock(4)]) auto
  then show ?case by (simp add: opened_def)
next
  case (st_read_unlock x h p k t)
  note call = st_read_unlock(4) [unfolded rcu_read_unlock_def]
  note li = lock_inv_pop [OF sched_inv_lock [OF st_read_unlock(5)] st_read_unlock(3) call]
  show ?case
    using st_read_unlock(1) keeps_calls(3) [OF call] li
    by (intro sched_inv_keeps [OF st_read_unlock(5)]) auto
next
  case (st_intr_on x h t)
  then show ?case
    using keeps_calls(4) [OF st_intr_on(2)] lock_inv_intr(1) [OF sched_inv_lock [OF st_intr_on(3)] st_intr_on(1,2)]
    by (intro sched_inv_keeps [OF st_intr_on(3)]) auto
next
  case (st_intr_off x h t)
  then show ?case
    using keeps_calls(5) [OF st_intr_off(1)] lock_inv_intr(2) [OF sched_inv_lock [OF st_intr_off(2)] st_intr_off(1)]
    by (intro sched_inv_keeps [OF st_intr_off(2)]) auto
next
  case (st_yield x h p t)
  then show ?case
    by (blast intro: sched_inv_leaves yield_leaves sched_inv_lock sched_inv_run)
next
  case (st_sleep x h p lk ch t)
  then show ?case
    by (blast intro: sched_inv_leaves sleep_leaves sched_inv_lock sched_inv_run)
next
  case (st_exit x h p status t)
  then show ?case
    by (blast intro: sched_inv_leaves exit_leaves sched_inv_lock sched_inv_run)
next
  case (st_table x q r)
  then show ?case
    by (intro sched_inv_same [OF st_table(3)]) (auto simp: lock_inv_upd intro: sched_inv_lock)
next
  case (sc_pass x h p t)
  then show ?case
    using scheduler_try_passes [OF sched_inv_lock [OF sc_pass(3)] sc_pass(2)]
    by (intro sched_inv_keeps [OF sc_pass(3)]) auto
next
  case (sc_pick x h p t)
  then show ?case by (intro sched_inv_picks)
next
  case (sc_back x h p t)
  then show ?case by (intro sched_inv_scheduler_back)
next
  case (sc_resume x h p t)
  note inv = sc_resume(3)
  show ?case
    using yield_resume_arrives [OF sched_inv_lock [OF inv] sched_inv_resume(1) [OF inv sc_resume(1)] sc_resume(2)]
    by (rule sched_inv_arrives [OF inv sc_resume(1)])
next
  case (sc_wake x h p t)
  note inv = sc_wake(4)
  show ?case
    using sleep_wake_arrives [OF sched_inv_lock [OF inv] sched_inv_resume(1) [OF inv sc_wake(1)] sc_wake(3)]
    by (rule sched_inv_arrives [OF inv sc_wake(1)])
next
  case (sc_start x h p t)
  note inv = sc_start(4)
  show ?case
    using start_arrives [OF sched_inv_lock [OF inv] sched_inv_resume(1) [OF inv sc_start(1)] sc_start(3)]
    by (rule sched_inv_arrives [OF inv sc_start(1)])
next
  case (su_enter x h p c t)
  note inv = su_enter(5)
  have "sched_inv (x\<lparr>ms := t\<rparr>)"
    using curproc_keeps [OF inv su_enter(1,4)] by (intro sched_inv_keeps [OF inv]) auto
  then show ?case by simp
next
  case (su_exec x h p c a cs t)
  then obtain b where "a = Set_affinity b" by (auto dest: exec_Ret)
  with su_exec(3,4) have "sched_inv (x\<lparr>ms := t\<rparr>)" by (blast intro: sched_inv_set)
  then show ?case by simp
next
  case (su_yield x h p c a cs t)
  then have "yield (on x h) = Switch t" by (blast dest: exec_Switch)
  then have "sched_inv (switched x h p t)"
    using su_yield(1,4) by (blast intro: sched_inv_leaves yield_leaves sched_inv_lock sched_inv_run)
  then show ?case by simp
next
  case (su_return x h p c)
  then show ?case by simp
next
  case (su_go_on x h p c)
  then show ?case by simp
qed

lemma sched_inv_init: "sys_init x \<Longrightarrow> sched_inv x"
proof (rule sched_invI)
  assume i: "sys_init x"
  then show "hart_inv x h" for h by (simp add: sys_init_def hart_inv_def)
  from i show "\<forall>g h p. proc_of (mode x g) = Some p \<and> proc_of (mode x h) = Some p \<longrightarrow> g = h"
    by (simp add: sys_init_def)
  from i show "p_state (procs (ms x) p) = RUNNING \<Longrightarrow> \<exists>h. runs x h p" for p
    by (simp add: sys_init_def)
  from i show "lock_inv (ms x, held x, pushes x)"
    by (intro lock_inv_init) (simp add: sys_init_def lock_init_def)
qed

lemma sys_reach_sched_inv: "sys_reach x \<Longrightarrow> sched_inv x"
  by (induction rule: sys_reach.induct) (blast intro: sched_inv_init sched_step_inv)+

subsection \<open>The grace-period invariant\<close>

text \<open>Sections are numbered in the order in which they are opened.\<close>

definition later :: "sys \<Rightarrow> sys \<Rightarrow> bool" where
  "later x y \<longleftrightarrow> (\<forall>h. secno x h \<le> secno y h \<and> (pushes x h = 0 \<longrightarrow> pushes y h = 0 \<or> secno x h < secno y h))"

lemma later_same: "secno y = secno x \<Longrightarrow> pushes y = pushes x \<Longrightarrow> later x y"
  by (simp add: later_def)

lemma ended_later:
  assumes "ended x p h" and "later x y" and "snap y p h = snap x p h"
    and "\<forall>k. snap x p h = Some k \<longrightarrow> k \<le> secno x h"
  shows "ended y p h"
proof (cases "snap x p h")
  case None
  then show ?thesis using assms(3) by (simp add: ended_def)
next
  case (Some k)
  have "k \<le> secno x h" and "pushes x h = 0 \<or> k < secno x h"
    using assms(1,4) Some by (simp_all add: ended_def)
  moreover have "secno x h \<le> secno y h" and "pushes x h = 0 \<longrightarrow> pushes y h = 0 \<or> secno x h < secno y h"
    using assms(2) by (simp_all add: later_def)
  ultimately have "pushes y h = 0 \<or> k < secno y h" by linarith
  then show ?thesis using Some assms(3) by (simp add: ended_def)
qed

text \<open>A process that runs has been on every hart it visited.\<close>

lemma waits_runs: "waits x p v \<Longrightarrow> runs x g p \<Longrightarrow> int h \<in> snd v \<Longrightarrow> ended x p h"
  by (auto simp: waits_def)

lemma upc_inv_later:
  assumes "upc_inv x q" and "later x y" and "upc y q = upc x q" and "snap y q = snap x q"
    and "upc x q \<noteq> Other \<Longrightarrow> p_state (procs (ms y) q) \<in> {RUNNING, RUNNABLE}
           \<and> p_cpu_affinity (procs (ms y) q) = p_cpu_affinity (procs (ms x) q)"
    and "\<And>g v. upc x q \<noteq> Other \<Longrightarrow> runs y g q \<Longrightarrow> waits x q v \<Longrightarrow> (\<exists>g. runs x g q) \<or> (\<forall>h. int h \<in> snd v \<longrightarrow> ended x q h)"
  shows "upc_inv y q"
proof (cases "upc x q = Other")
  case True
  then show ?thesis using assms(3) by (simp add: upc_inv_def)
next
  case False
  have kept: "ended x q h \<Longrightarrow> ended y q h" for h
    using assms(1,2,4) False by (intro ended_later [of x q h y]) (auto simp: upc_inv_def)
  have mono: "\<forall>h k. snap y q h = Some k \<longrightarrow> k \<le> secno y h"
  proof (intro allI impI)
    fix h k assume "snap y q h = Some k"
    then have "k \<le> secno x h" using assms(1,4) False by (simp add: upc_inv_def)
    also have "\<dots> \<le> secno y h" using assms(2) by (simp add: later_def)
    finally show "k \<le> secno y h" .
  qed
  have "waits y q (visits bs)" if w: "waits x q (visits bs)" for bs
  proof -
    have "ended y q h" if "int h \<in> snd (visits bs)" and "runs y g q" for h g
      using that assms(6) [OF False that(2) w] waits_runs [OF w] by (auto intro: kept)
    then show ?thesis using w assms(5) [OF False] kept unfolding waits_def by auto
  qed
  then show ?thesis
    using assms(1,3,5) False kept mono by (cases "upc x q") (auto simp: upc_inv_def)
qed

lemma upc_inv_moves:
  assumes "upc_inv x q" and "later x y" and "upc y q = upc x q" and "snap y q = snap x q"
    and "\<And>g. runs y g q \<Longrightarrow> \<exists>g. runs x g q"
    and "upc x q \<noteq> Other \<Longrightarrow> p_state (procs (ms x) q) \<in> {RUNNING, RUNNABLE} \<Longrightarrow>
      p_state (procs (ms y) q) \<in> {RUNNING, RUNNABLE} \<and> p_cpu_affinity (procs (ms y) q) = p_cpu_affinity (procs (ms x) q)"
  shows "upc_inv y q"
proof (rule upc_inv_later [OF assms(1-4)])
  show "runs y g q \<Longrightarrow> (\<exists>g. runs x g q) \<or> (\<forall>h. int h \<in> snd v \<longrightarrow> ended x q h)" for g v using assms(5) by blast
  assume o: "upc x q \<noteq> Other"
  then have "p_state (procs (ms x) q) \<in> {RUNNING, RUNNABLE}" using assms(1) unfolding upc_inv_def by blast
  with o show "p_state (procs (ms y) q) \<in> {RUNNING, RUNNABLE}
      \<and> p_cpu_affinity (procs (ms y) q) = p_cpu_affinity (procs (ms x) q)" by (rule assms(6))
qed

lemma upc_inv_other:
  assumes "upc_inv x q" and "later x y" and "upc y q = upc x q" and "snap y q = snap x q"
    and "procs (ms y) q = procs (ms x) q" and "mode y = mode x"
  shows "upc_inv y q"
proof (rule upc_inv_moves [OF assms(1-4)])
  have "runs y = runs x" using assms(6) by (simp add: runs_def fun_eq_iff)
  then show "runs y g q \<Longrightarrow> \<exists>g. runs x g q" for g by auto
qed (simp add: assms(5))

lemma upc_inv_keeps:
  assumes "upc_inv x q" and "keeps (ms x) (ms y)" and "mode y = mode x" and "later x y"
    and "upc y = upc x" and "snap y = snap x"
  shows "upc_inv y q"
  using assms(2-6) by (intro upc_inv_other [OF assms(1)]) (simp_all add: keeps_def)

lemma upc_inv_leaves:
  assumes "upc_inv x q" and "leaves x h p st t" and "upc x p = Other \<or> st = RUNNABLE"
  shows "upc_inv (switched x h p t) q"
proof (rule upc_inv_moves [OF assms(1)])
  show "runs (switched x h p t) g q \<Longrightarrow> \<exists>g. runs x g q" for g by (auto simp: runs_def switched_def split: if_splits)
qed (use assms(2,3) in \<open>auto simp: leaves_def switched_def later_def split: if_splits\<close>)

lemma upc_inv_arrives:
  assumes "upc_inv x q" and "arrives x h t" and "mode x h = Resume p"
  shows "upc_inv (resumed x h p t) q"
proof (rule upc_inv_moves [OF assms(1)])
  show "runs (resumed x h p t) g q \<Longrightarrow> \<exists>g. runs x g q" for g
    using assms(3) by (auto simp: runs_def resumed_def split: if_splits)
qed (use assms(2) in \<open>auto simp: arrives_def resumed_def later_def\<close>)

text \<open>
  The heart of the argument: the scheduler of hart \<open>h\<close> picks a process pinned to \<open>h\<close>, and no
  read-side section is open there because the hart is in \<open>scheduler()\<close>.
\<close>

lemma upc_inv_picks:
  assumes inv: "sched_inv x" and "upc_inv x q" and idle: "mode x h = Idle"
    and pkd: "scheduler_try p (on x h) = Switch t"
  shows "upc_inv (x\<lparr>ms := t, mode := (mode x)(h := Resume p), held := (held x)(h := {Proc_lock p})\<rparr>) q"
    (is "upc_inv ?y q")
proof -
  note pk = scheduler_try_picks [OF sched_inv_lock [OF inv] sched_inv_idle(1) [OF inv idle] pkd]
  have here: "ended x q h" for q
    using sched_inv_idle(2) [OF inv idle] by (simp add: ended_def split: option.split)
  have arrived: "\<forall>g. int g \<in> snd v \<longrightarrow> ended x p g" if "waits x p v" for v
    using that pk(3) here by (auto simp: waits_def)
  show ?thesis
  proof (rule upc_inv_later [OF assms(2)])
    fix g v assume "runs ?y g q" and "waits x q v"
    then show "(\<exists>g. runs x g q) \<or> (\<forall>h. int h \<in> snd v \<longrightarrow> ended x q h)"
      using arrived by (cases "q = p") (auto simp: runs_def split: if_splits)
  next
    assume "upc x q \<noteq> Other"
    then have "p_state (procs (ms x) q) \<in> {RUNNING, RUNNABLE}" using assms(2) unfolding upc_inv_def by blast
    then show "p_state (procs (ms ?y) q) \<in> {RUNNING, RUNNABLE}
        \<and> p_cpu_affinity (procs (ms ?y) q) = p_cpu_affinity (procs (ms x) q)" using pk(5) by auto
  qed (simp_all add: later_same)
qed

lemma upc_inv_back:
  assumes "sched_inv x" and "upc_inv x q" and "mode x h = Back p" and "scheduler_back p (on x h) = Ret () t"
  shows "upc_inv (x\<lparr>ms := t, mode := (mode x)(h := Idle), held := (held x)(h := {})\<rparr>) q"
proof -
  have "procs t = procs (ms x)"
    using scheduler_back_ends(2) [OF sched_inv_lock [OF assms(1)] sched_inv_back(1) [OF assms(1,3)] assms(4)] .
  then show ?thesis
    by (intro upc_inv_moves [OF assms(2)] later_same) (auto simp: runs_def split: if_splits)
qed

lemma upc_inv_table:
  assumes "upc_inv x p" and "p_state (procs (ms x) q) \<notin> {RUNNING, RUNNABLE}"
  shows "upc_inv (x\<lparr>ms := (ms x)\<lparr>procs := (procs (ms x))(q := r)\<rparr>\<rparr>) p"
  using assms(2) by (intro upc_inv_moves [OF assms(1)] later_same) (auto simp: runs_def)

lemma later_read_lock: "later x (opened x h t)"
  by (simp add: later_def opened_def)

lemma later_read_unlock: "later x (x\<lparr>ms := t, pushes := (pushes x)(h := k)\<rparr>)" if "pushes x h = Suc k"
  using that by (simp add: later_def)

lemma visits_snoc:
  "visits (bs @ [Set_affinity a]) = (Some a, snd (visits bs))"
  "visits (bs @ [Yield]) = (fst (visits bs), snd (visits bs) \<union> set_option (fst (visits bs)))"
  by (simp_all add: visits_def visit_def)

lemma upc_inv_sync:
  assumes "upc_inv x p" and "upc x p = Sync c cs"
  obtains bs where "c = bs @ cs" and "waits x p (visits bs)"
    and "p_state (procs (ms x) p) \<in> {RUNNING, RUNNABLE}" and "\<forall>h k. snap x p h = Some k \<longrightarrow> k \<le> secno x h"
  using assms by (auto simp: upc_inv_def)

lemma upc_inv_set:
  assumes "upc_inv x q" and "mode x h = Run p" and "upc x p = Sync c (Set_affinity a # cs)"
    and "rcu_exec p (Set_affinity a) (on x h) = Ret () t"
  shows "upc_inv (x\<lparr>ms := t, upc := (upc x)(p := Sync c cs)\<rparr>) q" (is "upc_inv ?y q")
proof (cases "q = p")
  case True
  have run: "runs x h p" using assms(2) by (simp add: runs_def)
  obtain bs where bs: "c = bs @ Set_affinity a # cs" "waits x p (visits bs)"
    "p_state (procs (ms x) p) \<in> {RUNNING, RUNNABLE}" "\<forall>h k. snap x p h = Some k \<longrightarrow> k \<le> secno x h"
    using upc_inv_sync [OF assms(1) [unfolded True] assms(3)] .
  have t: "procs t = (procs (ms x))(p := (procs (ms x) p)\<lparr>p_cpu_affinity := a\<rparr>)" using exec_set [OF assms(4)] by simp
  have "waits ?y p (visits (bs @ [Set_affinity a]))"
    using waits_runs [OF bs(2) run] t by (simp add: waits_def visits_snoc)
  then have "\<exists>bs. c = bs @ cs \<and> waits ?y p (visits bs)" using bs(1) by (intro exI [of _ "bs @ [Set_affinity a]"]) simp
  then show ?thesis using True bs(3,4) t by (simp add: upc_inv_def)
next
  case False
  then show ?thesis
    using exec_set [OF assms(4)] by (intro upc_inv_other [OF assms(1)] later_same) simp_all
qed

lemma upc_inv_return:
  assumes "upc_inv x q" and "mode x h = Run p" and "upc x p = Sync c []"
  shows "upc_inv (x\<lparr>upc := (upc x)(p := Synced c)\<rparr>) q"
proof (cases "q = p")
  case True
  have run: "runs x h p" using assms(2) by (simp add: runs_def)
  obtain bs where "c = bs @ []" "waits x p (visits bs)"
    "p_state (procs (ms x) p) \<in> {RUNNING, RUNNABLE}" "\<forall>h k. snap x p h = Some k \<longrightarrow> k \<le> secno x h"
    using upc_inv_sync [OF assms(1) [unfolded True] assms(3)] .
  then show ?thesis using True waits_runs [OF _ run] by (simp add: upc_inv_def)
next
  case False
  then show ?thesis
    by (intro upc_inv_other [OF assms(1)] later_same) simp_all
qed

lemma upc_inv_yield:
  assumes inv: "sched_inv x" and "upc_inv x q" and run: "mode x h = Run p" and "upc x p = Sync c (Yield # cs)"
    and lv: "leaves x h p RUNNABLE t"
  shows "upc_inv ((switched x h p t)\<lparr>upc := (upc x)(p := Sync c cs)\<rparr>) q" (is "upc_inv ?y q")
proof (cases "q = p")
  case True
  have rx: "runs x h p" using run by (simp add: runs_def)
  obtain bs where bs: "c = bs @ Yield # cs" "waits x p (visits bs)"
    "p_state (procs (ms x) p) \<in> {RUNNING, RUNNABLE}" "\<forall>h k. snap x p h = Some k \<longrightarrow> k \<le> secno x h"
    using upc_inv_sync [OF assms(2) [unfolded True] assms(4)] .
  have nr: "\<not> runs ?y g p" for g
    using sched_inv_unique [OF inv, of g p h] run by (auto simp: runs_def switched_def)
  have e: "ended ?y p h = ended x p h" for h by (simp add: ended_def switched_def)
  have aff: "p_cpu_affinity (procs (ms ?y) p) = p_cpu_affinity (procs (ms x) p)" "p_state (procs (ms ?y) p) = RUNNABLE"
    using lv by (auto simp: leaves_def switched_def)
  have "waits ?y p (visits (bs @ [Yield]))"
    using waits_runs [OF bs(2) rx] bs(2) nr e aff by (auto simp: waits_def visits_snoc)
  then have "\<exists>bs. c = bs @ cs \<and> waits ?y p (visits bs)" using bs(1) by (intro exI [of _ "bs @ [Yield]"]) simp
  then show ?thesis using True bs(4) aff by (simp add: upc_inv_def switched_def)
next
  case False
  have z: "upc_inv (switched x h p t) q" using assms(2) lv by (rule upc_inv_leaves) simp
  show ?thesis
    using False by (intro upc_inv_other [OF z] later_same) (simp_all add: switched_def)
qed

lemma upc_inv_enter:
  assumes "sched_inv x" and "upc_inv x q" and "mode x h = Run p" and "curproc (on x h) = Ret p t"
  shows "upc_inv (x\<lparr>ms := t, upc := (upc x)(p := Sync c c),
      snap := (snap x)(p := \<lambda>g. if pushes x g = 0 then None else Some (secno x g))\<rparr>) q" (is "upc_inv ?y q")
proof -
  have t: "procs t = procs (ms x)" using curproc_keeps [OF assms(1,3,4)] by (simp add: keeps_def)
  show ?thesis
  proof (cases "q = p")
    case True
    have "waits ?y p (visits [])" by (simp add: waits_def visits_def)
    then have "\<exists>bs. c = bs @ c \<and> waits ?y p (visits bs)" by (intro exI [of _ "[]"]) simp
    then show ?thesis using True t sched_inv_run [OF assms(1,3)] by (simp add: upc_inv_def)
  next
    case False
    then show ?thesis
      using t by (intro upc_inv_other [OF assms(2)] later_same) simp_all
  qed
qed

lemma upc_step_inv: "sys_step x y \<Longrightarrow> sched_inv x \<Longrightarrow> (\<And>q. upc_inv x q) \<Longrightarrow> upc_inv y q"
proof (induction rule: sys_step.induct)
  case (st_acquire x h p lk t)
  then show ?case by (intro upc_inv_keeps [OF st_acquire(5)] later_same) (auto dest: keeps_calls)
next
  case (st_release x h p lk t)
  then show ?case by (intro upc_inv_keeps [OF st_release(6)] later_same) (auto dest: keeps_release)
next
  case (st_read_lock x h p t)
  then show ?case
    by (intro upc_inv_keeps [OF st_read_lock(5)] later_read_lock) (auto simp: rcu_read_lock_def opened_def dest: keeps_calls)
next
  case (st_read_unlock x h p k t)
  then show ?case
    by (intro upc_inv_keeps [OF st_read_unlock(6)] later_read_unlock)
      (auto simp: rcu_read_unlock_def dest: keeps_calls)
next
  case (st_intr_on x h t)
  then show ?case by (intro upc_inv_keeps [OF st_intr_on(4)] later_same) (auto dest: keeps_calls)
next
  case (st_intr_off x h t)
  then show ?case by (intro upc_inv_keeps [OF st_intr_off(3)] later_same) (auto dest: keeps_calls)
next
  case (st_yield x h p t)
  then show ?case
    by (blast intro: upc_inv_leaves yield_leaves sched_inv_lock sched_inv_run)
next
  case (st_sleep x h p lk ch t)
  then show ?case
    by (blast intro: upc_inv_leaves sleep_leaves sched_inv_lock sched_inv_run)
next
  case (st_exit x h p status t)
  then show ?case
    by (blast intro: upc_inv_leaves exit_leaves sched_inv_lock sched_inv_run)
next
  case (st_table x q' r)
  then show ?case by (intro upc_inv_table)
next
  case (sc_pass x h p t)
  then show ?case
    using scheduler_try_passes [OF sched_inv_lock [OF sc_pass(3)] sc_pass(2)]
    by (intro upc_inv_keeps [OF sc_pass(4)] later_same) auto
next
  case (sc_pick x h p t)
  then show ?case by (intro upc_inv_picks)
next
  case (sc_back x h p t)
  then show ?case by (intro upc_inv_back)
next
  case (sc_resume x h p t)
  then show ?case
    by (intro upc_inv_arrives [OF sc_resume(4)])
      (auto intro!: yield_resume_arrives sched_inv_lock sched_inv_resume(1))
next
  case (sc_wake x h p t)
  then show ?case
    by (intro upc_inv_arrives [OF sc_wake(5)])
      (auto intro!: sleep_wake_arrives sched_inv_lock sched_inv_resume(1))
next
  case (sc_start x h p t)
  then show ?case
    by (intro upc_inv_arrives [OF sc_start(5)])
      (auto intro!: start_arrives sched_inv_lock sched_inv_resume(1))
next
  case (su_enter x h p c t)
  then show ?case by (intro upc_inv_enter)
next
  case (su_exec x h p c a cs t)
  then obtain b where a: "a = Set_affinity b" by (auto dest: exec_Ret)
  show ?case using su_exec(1-3,5) unfolding a by (intro upc_inv_set)
next
  case (su_yield x h p c a cs t)
  then have a: "a = Yield" and y: "yield (on x h) = Switch t" by (blast dest: exec_Switch)+
  show ?case
    using su_yield(1,2,4,5) y unfolding a by (intro upc_inv_yield yield_leaves sched_inv_lock sched_inv_run(1))
next
  case (su_return x h p c)
  then show ?case by (intro upc_inv_return)
next
  case (su_go_on x h p c)
  show ?case
    by (cases "q = p") (simp add: upc_inv_def,
      rule upc_inv_other [OF su_go_on(4)], simp_all add: later_same)
qed

lemma sys_reach_upc_inv: "sys_reach x \<Longrightarrow> upc_inv x p"
proof (induction arbitrary: p rule: sys_reach.induct)
  case (sr_init x)
  then show ?case by (simp add: sys_init_def upc_inv_def)
next
  case (sr_step x y)
  then show ?case by (blast intro: upc_step_inv sys_reach_sched_inv)
qed

end
