(* ===== verification/Grace.thy ===== *)
theory Grace
  imports RcuSystem
begin

text \<open>
  The properties of \<open>kernel/rcu.c\<close> and of the scheduler over the transition system of the theory RcuSystem,
  with the concrete runs that show that their hypotheses can hold. The runs are put together from
  states in which no lock is held (\<open>still\<close>) and the steps between them.
\<close>

section \<open>Concrete runs\<close>

definition boot_sys :: sys where
  "boot_sys = \<lparr>ms = boot_ptable, held = \<lambda>_. {}, pushes = \<lambda>_. 0, mode = \<lambda>_. Idle, saved = \<lambda>_. False,
     upc = \<lambda>_. Other, secno = \<lambda>_. 0, snap = \<lambda>_ _. None\<rparr>"

lemma boot_sys_init: "sys_init boot_sys"
  by (simp add: sys_init_def boot_sys_def boot_ptable_def boot_machine_def machine.defs unlocked_def idle_proc_def)

text \<open>
  The state in which no lock is held: the hart \<open>k\<close> took the last step, \<open>ps\<close> is the process table, \<open>cur\<close>
  the process of each hart, \<open>n\<close> the open read-side sections.
\<close>

definition still_cpu :: "nat option \<Rightarrow> nat \<Rightarrow> cpu" where
  "still_cpu p n = \<lparr>cpu_proc = p, cpu_context = \<lparr>ctx_ra = 0, ctx_sp = 0, ctx_s = replicate 12 0\<rparr>,
     noff = int n, intena = False\<rparr>"

definition still_ms :: "nat \<Rightarrow> (nat \<Rightarrow> proc) \<Rightarrow> (nat \<Rightarrow> nat option) \<Rightarrow> (nat \<Rightarrow> nat) \<Rightarrow> ptable" where
  "still_ms k ps cur n = boot_ptable\<lparr>tp := k, procs := ps, cpus := \<lambda>h. still_cpu (cur h) (n h)\<rparr>"

definition still :: "nat \<Rightarrow> (nat \<Rightarrow> proc) \<Rightarrow> (nat \<Rightarrow> nat option) \<Rightarrow> (nat \<Rightarrow> nat) \<Rightarrow> (nat \<Rightarrow> upc) \<Rightarrow> (nat \<Rightarrow> nat)
    \<Rightarrow> (nat \<Rightarrow> nat \<Rightarrow> nat option) \<Rightarrow> sys" where
  "still k ps cur n u sec sn = \<lparr>ms = still_ms k ps cur n, held = \<lambda>_. {}, pushes = n,
     mode = \<lambda>h. case cur h of None \<Rightarrow> Idle | Some p \<Rightarrow> Run p, saved = \<lambda>_. False,
     upc = u, secno = sec, snap = sn\<rparr>"

lemma still_ms_simps [simp]:
  "tp (still_ms k ps cur n) = k"
  "procs (still_ms k ps cur n) = ps"
  "(still_ms k ps cur n)\<lparr>tp := h\<rparr> = still_ms h ps cur n"
  "(still_ms k ps cur n)\<lparr>procs := ps'\<rparr> = still_ms k ps' cur n"
  "cpus (still_ms k ps cur n) h = still_cpu (cur h) (n h)"
  "unlocked lk (still_ms k ps cur n)"
  "sie (still_ms k ps cur n) = (\<lambda>_. False)"
  by (simp_all add: still_ms_def unlocked_def boot_ptable_def boot_machine_def machine.defs)

lemma still_quiet [simp]: "cpu_quiet (still_ms k ps cur n)"
  by (simp add: cpu_quiet_def hart_defs) (simp add: still_cpu_def)

lemma still_hart_ok [simp]: "hart_ok (still_ms k ps cur n)"
  by (simp add: cpu_quiet_hart_ok)

lemma still_set_proc [simp]:
  "set_mycpu (\<lambda>c. c\<lparr>cpu_proc := v\<rparr>) (enter lk (still_ms k ps cur n)) = enter lk (still_ms k ps (cur(k := v)) n)"
  by (simp add: set_mycpu_def hart_defs enter_def push_state_def still_ms_def still_cpu_def boot_ptable_def boot_machine_def machine.defs fun_eq_iff)

lemma still_set_intena [simp]:
  "set_mycpu (\<lambda>c. c\<lparr>intena := False\<rparr>) (enter lk (still_ms k ps cur n)) = enter lk (still_ms k ps cur n)"
  by (simp add: set_mycpu_def hart_defs enter_def push_state_def still_ms_def still_cpu_def boot_ptable_def boot_machine_def machine.defs fun_eq_iff)

lemma still_enter_tp [simp]: "(enter lk (still_ms h ps cur n))\<lparr>tp := h\<rparr> = enter lk (still_ms h ps cur n)"
  using still_ms_simps(1) [of h ps cur n] by (simp add: enter_def push_state_def)

lemma still_run:
  assumes "sys_reach (still k ps cur n u sec sn)"
    and "cur h = None" and "p_state (ps p) = RUNNABLE" and "p_cpu_affinity (ps p) \<in> {-1, int h}"
  shows "sys_reach (still h (ps(p := (ps p)\<lparr>p_state := RUNNING\<rparr>)) (cur(h := Some p)) n u sec sn)"
proof -
  let ?x = "still k ps cur n u sec sn"
  let ?t = "enter (Proc_lock p) (still_ms h (ps(p := (ps p)\<lparr>p_state := RUNNING\<rparr>)) (cur(h := Some p)) n)"
  let ?y = "?x\<lparr>ms := ?t, mode := (mode ?x)(h := Resume p), held := (held ?x)(h := {Proc_lock p})\<rparr>"
  let ?z = "still h (ps(p := (ps p)\<lparr>p_state := RUNNING\<rparr>)) (cur(h := Some p)) n u sec sn"
  have "scheduler_try p (on ?x h) = Switch ?t"
    using assms(3,4) by (auto simp: scheduler_try_def still_def acquire_unlocked cpuid_def lock_simps)
  then have y: "sys_reach ?y"
    using assms(1,2) by (intro sr_step [OF assms(1)] sc_pick) (simp_all add: still_def)
  have "yield_resume p (saved ?y p) (on ?y h) = Ret () (ms ?z)"
    by (simp add: yield_resume_def sched_resume_def still_def release_enter)
  then have "sys_step ?y (resumed ?y h p (ms ?z))" by (intro sc_resume) simp_all
  moreover have "resumed ?y h p (ms ?z) = ?z"
    using assms(2) by (auto simp: resumed_def still_def fun_eq_iff)
  ultimately show ?thesis using y by (metis sr_step)
qed

lemma still_yield:
  "cur h = Some p \<Longrightarrow> n h = 0 \<Longrightarrow>
   yield (still_ms h ps cur n) = Switch (enter (Proc_lock p) (still_ms h (ps(p := (ps p)\<lparr>p_state := RUNNABLE\<rparr>)) cur n))"
  using yield_cases [of "still_ms h ps cur n" p]
  by (simp add: still_cpu_def lock_simps) (simp add: still_ms_def boot_ptable_def boot_machine_def machine.defs)

lemma still_back:
  assumes "sys_reach y"
    and "y = (switched (still k ps cur n u sec sn) h p (enter (Proc_lock p) (still_ms h ps' cur n)))\<lparr>upc := u'\<rparr>"
  shows "sys_reach (still h ps' (cur(h := None)) n u' sec sn)"
proof -
  let ?z = "still h ps' (cur(h := None)) n u' sec sn"
  have "set_mycpu (\<lambda>c. c\<lparr>cpu_proc := None\<rparr>) (on y h) = enter (Proc_lock p) (still_ms h ps' (cur(h := None)) n)"
    unfolding assms(2) by (simp add: switched_def)
  then have "scheduler_back p (on y h) = Ret () (ms ?z)"
    by (simp add: scheduler_back_def release_enter still_def)
  then have "sys_step y (y\<lparr>ms := ms ?z, mode := (mode y)(h := Idle), held := (held y)(h := {})\<rparr>)"
    using assms(2) by (intro sc_back [of _ _ p]) (simp_all add: switched_def)
  moreover have "intena (cpus (enter (Proc_lock p) (still_ms h ps' cur n)) h) = False"
    by (simp add: enter_def push_state_def) (simp add: still_cpu_def)
  then have "y\<lparr>ms := ms ?z, mode := (mode y)(h := Idle), held := (held y)(h := {})\<rparr> = ?z"
    unfolding assms(2) by (auto simp: switched_def still_def fun_eq_iff)
  ultimately show ?thesis using assms(1) by (metis sr_step)
qed

lemma still_off:
  assumes "sys_reach (still k ps cur n u sec sn)" and "cur h = Some p" and "n h = 0"
  shows "sys_reach (still h (ps(p := (ps p)\<lparr>p_state := RUNNABLE\<rparr>)) (cur(h := None)) n u sec sn)"
proof -
  let ?x = "still k ps cur n u sec sn"
  let ?t = "enter (Proc_lock p) (still_ms h (ps(p := (ps p)\<lparr>p_state := RUNNABLE\<rparr>)) cur n)"
  have "sys_step ?x (switched ?x h p ?t)"
    using assms(2,3) by (intro st_yield) (simp_all add: still_def still_yield)
  from still_back [OF sr_step [OF assms(1) this], where u' = u] show ?thesis
    by (simp add: switched_def still_def)
qed

lemma still_set:
  assumes "sys_reach (still k ps cur n u sec sn)" and "cur h = Some p" and "u p = Sync c (Set_affinity a # cs)"
  shows "sys_reach (still h (ps(p := (ps p)\<lparr>p_cpu_affinity := a\<rparr>)) cur n (u(p := Sync c cs)) sec sn)"
proof -
  let ?x = "still k ps cur n u sec sn"
  let ?t = "still_ms h (ps(p := (ps p)\<lparr>p_cpu_affinity := a\<rparr>)) cur n"
  have "sys_step ?x (?x\<lparr>ms := ?t, upc := (upc ?x)(p := Sync c cs)\<rparr>)"
    using assms(2,3) by (intro su_exec [of _ h p c "Set_affinity a" cs]) (simp_all add: still_def)
  from sr_step [OF assms(1) this] show ?thesis by (simp add: still_def)
qed

lemma still_turn:
  assumes "sys_reach (still k ps cur n u sec sn)" and "cur h = Some p" and "n h = 0"
    and "u p = Sync c (Set_affinity a # Yield # cs)"
  shows "sys_reach (still h (ps(p := (ps p)\<lparr>p_cpu_affinity := a, p_state := RUNNABLE\<rparr>)) (cur(h := None)) n
     (u(p := Sync c cs)) sec sn)"
proof -
  let ?ps = "ps(p := (ps p)\<lparr>p_cpu_affinity := a\<rparr>)" and ?u = "u(p := Sync c (Yield # cs))"
  let ?x = "still h ?ps cur n ?u sec sn"
  let ?t = "enter (Proc_lock p) (still_ms h (ps(p := (ps p)\<lparr>p_cpu_affinity := a, p_state := RUNNABLE\<rparr>)) cur n)"
  have x: "sys_reach ?x" using assms(1,2,4) by (rule still_set)
  have "yield (on ?x h) = Switch ?t" using assms(2,3) by (simp add: still_def still_yield)
  then have "sys_step ?x ((switched ?x h p ?t)\<lparr>upc := (upc ?x)(p := Sync c cs)\<rparr>)"
    using assms(2) by (intro su_yield [of _ h p c Yield cs]) (simp_all add: still_def)
  from still_back [OF sr_step [OF x this]] show ?thesis by (simp add: still_def)
qed

lemma still_return:
  assumes "sys_reach (still k ps cur n u sec sn)" and "cur h = Some p" and "u p = Sync c [Set_affinity (-1)]"
  shows "sys_reach (still h (ps(p := (ps p)\<lparr>p_cpu_affinity := -1\<rparr>)) cur n (u(p := Synced c)) sec sn)"
proof -
  let ?x = "still h (ps(p := (ps p)\<lparr>p_cpu_affinity := -1\<rparr>)) cur n (u(p := Sync c [])) sec sn"
  have x: "sys_reach ?x" using assms by (rule still_set)
  have "sys_step ?x (?x\<lparr>upc := (upc ?x)(p := Synced c)\<rparr>)"
    using assms(2) by (intro su_return [of _ h]) (simp_all add: still_def)
  from sr_step [OF x this] show ?thesis by (simp add: still_def)
qed

lemma still_enter:
  assumes "sys_reach (still k ps cur n u sec sn)" and "cur h = Some p" and "u p = Other"
    and "c \<in> {synchronize_rcu, rcusync_wait}"
  shows "sys_reach (still h ps cur n (u(p := Sync c c)) sec (sn(p := \<lambda>g. if n g = 0 then None else Some (sec g))))"
proof -
  let ?x = "still k ps cur n u sec sn"
  have "curproc (on ?x h) = Ret p (still_ms h ps cur n)"
    using curproc_quiet [of "still_ms h ps cur n" p] assms(2) by (simp add: still_def still_cpu_def)
  then have "sys_step ?x (?x\<lparr>ms := still_ms h ps cur n, upc := (upc ?x)(p := Sync c c),
      snap := (snap ?x)(p := \<lambda>g. if pushes ?x g = 0 then None else Some (secno ?x g))\<rparr>)"
    using assms(2-4) by (intro su_enter [of _ h]) (simp_all add: still_def)
  from sr_step [OF assms(1) this] show ?thesis by (simp add: still_def cong: if_cong)
qed

lemma still_push: "push_state (still_ms h ps cur n) = still_ms h ps cur (n(h := Suc (n h)))"
  by (auto simp: push_state_def still_ms_def still_cpu_def boot_ptable_def boot_machine_def machine.defs fun_eq_iff)

lemma still_read_lock:
  assumes "sys_reach (still k ps cur n u sec sn)" and "cur h = Some p" and "u p = Other" and "n h = 0"
  shows "sys_reach (still h ps cur (n(h := 1)) u (sec(h := Suc (sec h))) sn)"
proof -
  let ?x = "still k ps cur n u sec sn"
  have "rcu_read_lock (on ?x h) = Ret () (still_ms h ps cur (n(h := Suc (n h))))"
    by (simp add: rcu_read_lock_def push_off_eq still_def still_push)
  then have "sys_step ?x (opened ?x h (still_ms h ps cur (n(h := Suc (n h)))))"
    using assms(2,3) by (intro st_read_lock) (simp_all add: still_def)
  from sr_step [OF assms(1) this] show ?thesis using assms(4) by (simp add: opened_def still_def)
qed

lemma still_read_unlock:
  assumes "sys_reach (still k ps cur (n(h := 1)) u sec sn)" and "cur h = Some p" and "u p = Other" and "n h = 0"
  shows "sys_reach (still h ps cur n u sec sn)"
proof -
  let ?x = "still k ps cur (n(h := 1)) u sec sn"
  have "still_ms h ps cur (n(h := 1)) = push_state (still_ms h ps cur n)"
    using assms(4) by (simp add: still_push)
  then have "rcu_read_unlock (on ?x h) = Ret () (still_ms h ps cur n)"
    by (simp add: rcu_read_unlock_def still_def pop_push)
  then have "sys_step ?x (?x\<lparr>ms := still_ms h ps cur n, pushes := (pushes ?x)(h := 0)\<rparr>)"
    using assms(2,3) by (intro st_read_unlock [of _ _ p]) (simp_all add: still_def)
  from sr_step [OF assms(1) this] show ?thesis using assms(4) by (simp add: still_def fun_upd_idem)
qed

definition ps0 :: "nat \<Rightarrow> proc" where
  "ps0 = (\<lambda>p. idle_proc (if p < 2 then RUNNABLE else UNUSED))"

lemma ps0_simps [simp]:
  "p_cpu_affinity (ps0 p) = -1" "p < 2 \<Longrightarrow> p_state (ps0 p) = RUNNABLE"
  by (simp_all add: ps0_def idle_proc_def)

lemma boot_still: "sys_reach (still 0 ps0 (\<lambda>_. None) (\<lambda>_. 0) (\<lambda>_. Other) (\<lambda>_. 0) (\<lambda>_ _. None))"
proof -
  have "boot_sys = still 0 ps0 (\<lambda>_. None) (\<lambda>_. 0) (\<lambda>_. Other) (\<lambda>_. 0) (\<lambda>_ _. None)"
    by (simp add: boot_sys_def still_def still_ms_def still_cpu_def boot_ptable_def boot_machine_def ps0_def machine.defs)
  then show ?thesis using sr_init [OF boot_sys_init] by simp
qed

text \<open>
  A reader on hart \<open>g\<close> is inside its first section when the updater, on another hart \<open>h\<close>, enters its
  waiting loop \<open>c\<close>.
\<close>

lemma reader_and_updater:
  assumes "g \<noteq> h" and "c \<in> {synchronize_rcu, rcusync_wait}"
  obtains k ps where "sys_reach (still k ps ((\<lambda>_. None)(g := Some 0, h := Some 1)) ((\<lambda>_. 0)(g := 1))
      ((\<lambda>_. Other)(1 := Sync c c)) ((\<lambda>_. 0)(g := 1)) ((\<lambda>_ _. None)(1 := (\<lambda>_. None)(g := Some 1))))"
    and "p_state (ps 1) = RUNNING" and "p_cpu_affinity (ps 0) = -1"
proof -
  let ?ps1 = "ps0(0 := (ps0 0)\<lparr>p_state := RUNNING\<rparr>)"
  have "sys_reach (still g ?ps1 ((\<lambda>_. None)(g := Some 0)) (\<lambda>_. 0) (\<lambda>_. Other) (\<lambda>_. 0) (\<lambda>_ _. None))"
    by (rule still_run [OF boot_still]) simp_all
  then have "sys_reach (still g ?ps1 ((\<lambda>_. None)(g := Some 0)) ((\<lambda>_. 0)(g := 1)) (\<lambda>_. Other)
      ((\<lambda>_. 0)(g := Suc 0)) (\<lambda>_ _. None))"
    by (rule still_read_lock) simp_all
  then have "sys_reach (still h (?ps1(1 := (?ps1 1)\<lparr>p_state := RUNNING\<rparr>)) ((\<lambda>_. None)(g := Some 0, h := Some 1))
      ((\<lambda>_. 0)(g := 1)) (\<lambda>_. Other) ((\<lambda>_. 0)(g := Suc 0)) (\<lambda>_ _. None))"
    using assms(1) by (intro still_run [where p = 1]) simp_all
  then have "sys_reach (still h (?ps1(1 := (?ps1 1)\<lparr>p_state := RUNNING\<rparr>)) ((\<lambda>_. None)(g := Some 0, h := Some 1))
      ((\<lambda>_. 0)(g := 1)) ((\<lambda>_. Other)(1 := Sync c c)) ((\<lambda>_. 0)(g := Suc 0))
      ((\<lambda>_ _. None)(1 := \<lambda>x. if ((\<lambda>_. 0)(g := 1)) x = (0::nat) then None else Some (((\<lambda>_. 0)(g := Suc 0)) x))))"
    using assms(2) by (intro still_enter [where h = h]) simp_all
  moreover have "(\<lambda>x. if ((\<lambda>_. 0)(g := 1)) x = (0::nat) then None else Some (((\<lambda>_. 0)(g := Suc 0)) x))
      = ((\<lambda>_. None)(g := Some 1))" by (auto simp: fun_eq_iff)
  ultimately show ?thesis by (intro that) (simp_all only: One_nat_def, simp_all)
qed

text \<open>A turn of the loop: the updater moves from hart \<open>h\<close> to hart \<open>i\<close>.\<close>

lemma still_move:
  assumes "sys_reach (still k ps cur n u sec sn)" and "cur h = Some p" and "n h = 0"
    and "u p = Sync c (Set_affinity (int i) # Yield # cs)" and "i = h \<or> cur i = None"
  obtains ps' where "sys_reach (still i ps' (cur(h := None, i := Some p)) n (u(p := Sync c cs)) sec sn)"
    and "\<And>q. q \<noteq> p \<Longrightarrow> ps' q = ps q"
proof -
  let ?ps1 = "ps(p := (ps p)\<lparr>p_cpu_affinity := int i, p_state := RUNNABLE\<rparr>)"
  have "sys_reach (still h ?ps1 (cur(h := None)) n (u(p := Sync c cs)) sec sn)"
    using assms(1-4) by (rule still_turn)
  then have "sys_reach (still i (?ps1(p := (?ps1 p)\<lparr>p_state := RUNNING\<rparr>)) (cur(h := None, i := Some p)) n
      (u(p := Sync c cs)) sec sn)"
    using assms(5) by (intro still_run) auto
  then show ?thesis by (rule that) simp
qed

lemma rcu_loop_turn: "i < b \<Longrightarrow> rcu_loop b i = Set_affinity (int i) # Yield # rcu_loop b (Suc i)"
  and rcu_loop_end: "rcu_loop b b = [Set_affinity (-1)]"
  by (simp_all add: rcu_loop.simps)

text \<open>A reader that stays in its section on hart \<open>g\<close>, outside the harts the loop visits.\<close>

lemma updater_passes:
  assumes "rcu_loop b 0 \<in> {synchronize_rcu, rcusync_wait}" and "b \<le> g" and "0 < b" and "i \<le> b"
  shows "\<exists>k ps h. sys_reach (still k ps ((\<lambda>_. None)(g := Some 0, h := Some 1)) ((\<lambda>_. 0)(g := 1))
      ((\<lambda>_. Other)(1 := Sync (rcu_loop b 0) (rcu_loop b i))) ((\<lambda>_. 0)(g := 1)) ((\<lambda>_ _. None)(1 := (\<lambda>_. None)(g := Some 1)))) \<and> h < b"
  using assms(4)
proof (induction i)
  case 0
  obtain k ps where "sys_reach (still k ps ((\<lambda>_. None)(g := Some 0, 0 := Some 1)) ((\<lambda>_. 0)(g := 1))
      ((\<lambda>_. Other)(1 := Sync (rcu_loop b 0) (rcu_loop b 0))) ((\<lambda>_. 0)(g := 1)) ((\<lambda>_ _. None)(1 := (\<lambda>_. None)(g := Some 1))))"
    using reader_and_updater [of g 0 "rcu_loop b 0"] assms(1-3) by (metis less_le_not_le)
  then show ?case using assms(3) by blast
next
  case (Suc i)
  then have "i \<le> b" by simp
  from Suc.IH [OF this] obtain k ps h where
    r: "sys_reach (still k ps ((\<lambda>_. None)(g := Some 0, h := Some 1)) ((\<lambda>_. 0)(g := 1))
      ((\<lambda>_. Other)(1 := Sync (rcu_loop b 0) (rcu_loop b i))) ((\<lambda>_. 0)(g := 1)) ((\<lambda>_ _. None)(1 := (\<lambda>_. None)(g := Some 1))))"
    and h: "h < b" by blast
  have ib: "i < b" using Suc.prems by simp
  obtain ps' where "sys_reach (still i ps' ((\<lambda>_. None)(g := Some 0, h := Some 1, h := None, i := Some 1)) ((\<lambda>_. 0)(g := 1))
      ((\<lambda>_. Other)(1 := Sync (rcu_loop b 0) (rcu_loop b i), 1 := Sync (rcu_loop b 0) (rcu_loop b (Suc i)))) ((\<lambda>_. 0)(g := 1))
      ((\<lambda>_ _. None)(1 := (\<lambda>_. None)(g := Some 1))))"
    using h ib assms(2) by (rule_tac still_move [OF r, of h 1 "rcu_loop b 0" i]) (auto simp: rcu_loop_turn)
  moreover have "(\<lambda>_. None)(g := Some 0, h := Some 1, h := None, i := Some (1::nat)) = (\<lambda>_. None)(g := Some 0, i := Some 1)"
    using h assms(2) by (auto simp: fun_eq_iff)
  moreover have "(\<lambda>_. Other)(1 := Sync (rcu_loop b 0) (rcu_loop b i), 1 := Sync (rcu_loop b 0) (rcu_loop b (Suc i)))
      = (\<lambda>_. Other)(1 := Sync (rcu_loop b 0) (rcu_loop b (Suc i)))" by simp
  ultimately show ?case using ib by metis
qed

text \<open>A waiting loop \<open>c\<close> is too short for hart \<open>h\<close> when it can return while the section that was open there is open.\<close>

definition misses :: "rcu_stmt list \<Rightarrow> nat \<Rightarrow> bool" where
  "misses c h \<longleftrightarrow> (\<exists>x p. sys_reach x \<and> upc x p = Synced c \<and> snap x p h = Some (secno x h) \<and> 0 < pushes x h)"

lemma missed_reader:
  assumes "rcu_loop b 0 \<in> {synchronize_rcu, rcusync_wait}" and "b \<le> g" and "0 < b"
  shows "misses (rcu_loop b 0) g"
proof -
  obtain k ps h where r: "sys_reach (still k ps ((\<lambda>_. None)(g := Some 0, h := Some 1)) ((\<lambda>_. 0)(g := 1))
      ((\<lambda>_. Other)(1 := Sync (rcu_loop b 0) (rcu_loop b b))) ((\<lambda>_. 0)(g := 1)) ((\<lambda>_ _. None)(1 := (\<lambda>_. None)(g := Some 1))))"
    using updater_passes [OF assms order_refl] by blast
  from still_return [OF r, of h 1 "rcu_loop b 0"] show ?thesis unfolding misses_def
    by (intro exI conjI) (auto simp: still_def rcu_loop_end)
qed

lemma visited_ended:
  assumes "sys_reach x" and "upc x p = Synced c" and "int h \<in> snd (visits c)" and "snap x p h = Some k"
  shows "\<not> (0 < pushes x h \<and> secno x h \<le> k)"
  using sys_reach_upc_inv [OF assms(1), of p] assms(2-4) by (auto simp: upc_inv_def ended_def)

lemma visited_not_missed: "int h \<in> snd (visits c) \<Longrightarrow> \<not> misses c h"
  using visited_ended by (fastforce simp: misses_def)

lemma waiting_loops:
  "synchronize_rcu = [Set_affinity 0, Yield, Set_affinity 1, Yield, Set_affinity 2, Yield, Set_affinity (-1)]"
  "rcusync_wait = [Set_affinity 0, Yield, Set_affinity 1, Yield, Set_affinity (-1)]"
  by (simp_all add: synchronize_rcu_def rcusync_wait_def rcu_loop.simps eval_nat_numeral)

lemma waiting_loops_visit: "snd (visits synchronize_rcu) = {0, 1, 2}" "snd (visits rcusync_wait) = {0, 1}"
  by (auto simp: waiting_loops visits_def visit_def)

text \<open>A reader on hart 0 that ends its section and yields, and an updater that visits the harts 0 to 2.\<close>

lemma waited_reader:
  "\<exists>x. sys_reach x \<and> upc x 1 = Synced synchronize_rcu \<and> snap x 1 0 = Some 1"
proof -
  let ?c = synchronize_rcu
  let ?sn = "(\<lambda>_ _. None)(1 := (\<lambda>_. None)(0 := Some 1))"
  obtain k ps where "sys_reach (still k ps ((\<lambda>_. None)(0 := Some 0, 1 := Some 1)) ((\<lambda>_. 0)(0 := 1))
      ((\<lambda>_. Other)(1 := Sync ?c ?c)) ((\<lambda>_. 0)(0 := 1)) ?sn)"
    using reader_and_updater [of 0 1 ?c] by (metis insertI1 zero_neq_one)
  then have "sys_reach (still 0 ps ((\<lambda>_. None)(0 := Some 0, 1 := Some 1)) (\<lambda>_. 0)
      ((\<lambda>_. Other)(1 := Sync ?c ?c)) ((\<lambda>_. 0)(0 := 1)) ?sn)"
    by (rule still_read_unlock [where p = 0]) simp_all
  then have "sys_reach (still 0 (ps(0 := (ps 0)\<lparr>p_state := RUNNABLE\<rparr>)) ((\<lambda>_. None)(0 := Some 0, 1 := Some 1, 0 := None)) (\<lambda>_. 0)
      ((\<lambda>_. Other)(1 := Sync ?c ?c)) ((\<lambda>_. 0)(0 := 1)) ?sn)"
    by (rule still_off [where p = 0]) simp_all
  then obtain ps1 where "sys_reach (still 0 ps1 ((\<lambda>_. None)(0 := Some 0, 1 := Some 1, 0 := None, 1 := None, 0 := Some 1)) (\<lambda>_. 0)
      ((\<lambda>_. Other)(1 := Sync ?c ?c, 1 := Sync ?c (drop 2 ?c))) ((\<lambda>_. 0)(0 := 1)) ?sn)"
    by (rule still_move [where h = 1 and p = 1 and i = 0]) (simp_all add: waiting_loops)
  then obtain ps2 where "sys_reach (still 1 ps2 ((\<lambda>_. None)(0 := Some 0, 1 := Some 1, 0 := None, 1 := None, 0 := Some 1, 0 := None, 1 := Some 1)) (\<lambda>_. 0)
      ((\<lambda>_. Other)(1 := Sync ?c ?c, 1 := Sync ?c (drop 2 ?c), 1 := Sync ?c (drop 4 ?c))) ((\<lambda>_. 0)(0 := 1)) ?sn)"
    by (rule still_move [where h = 0 and p = 1 and i = 1]) (simp_all add: waiting_loops)
  then obtain ps3 where "sys_reach (still 2 ps3 ((\<lambda>_. None)(0 := Some 0, 1 := Some 1, 0 := None, 1 := None, 0 := Some 1, 0 := None, 1 := Some 1, 1 := None, 2 := Some 1)) (\<lambda>_. 0)
      ((\<lambda>_. Other)(1 := Sync ?c ?c, 1 := Sync ?c (drop 2 ?c), 1 := Sync ?c (drop 4 ?c), 1 := Sync ?c (drop 6 ?c))) ((\<lambda>_. 0)(0 := 1)) ?sn)"
    by (rule still_move [where h = 1 and p = 1 and i = 2]) (simp_all add: waiting_loops)
  from still_return [OF this, of 2 1 ?c] show ?thesis
    by (intro exI conjI) (auto simp: still_def waiting_loops)
qed

section \<open>Properties\<close>

text \<open>
  C1: \<open>synchronize_rcu\<close> waits for a full grace period on the harts 0, 1 and 2: when it returns in a process
  \<open>p\<close>, no read-side critical section that was open on one of them when \<open>p\<close> called it is still open,
  whatever the harts did in between (locks, sleeps, exits, timer preemption between any two statements, other
  updaters and nested or new readers).
\<close>

theorem rcu_grace_period:
  assumes "sys_reach x" and "upc x p = Synced synchronize_rcu" and "h < 3" and "snap x p h = Some k"
  shows "\<not> (0 < pushes x h \<and> secno x h \<le> k)"
proof (rule visited_ended [OF assms(1,2) _ assms(4)])
  show "int h \<in> snd (visits synchronize_rcu)" using assms(3) by (auto simp: waiting_loops_visit)
qed

theorem rcu_grace_period_witness:
  "\<exists>x. sys_reach x \<and> upc x 1 = Synced synchronize_rcu \<and> snap x 1 0 = Some 1 \<and> \<not> (0 < pushes x 0 \<and> secno x 0 \<le> 1)"
proof -
  obtain x where "sys_reach x" and "upc x 1 = Synced synchronize_rcu" and "snap x 1 0 = Some 1"
    using waited_reader by blast
  with rcu_grace_period [of x 1 0 1] show ?thesis by auto
qed

text \<open>
  C15: A hart inside a read-side critical section has interrupts disabled and cannot be taken away from
  its process: the section runs on a hart whose current process is the reader, and a call of \<open>yield\<close> from
  there never reaches the scheduler but panics (or spins on the process lock).
\<close>

theorem rcu_section_keeps_hart:
  assumes "sys_reach x" and "0 < pushes x h"
  shows "(\<exists>p. mode x h = Run p \<and> cpu_proc (cpus (ms x) h) = Some p) \<and> \<not> sie (ms x) h
     \<and> (\<forall>t. yield (on x h) \<noteq> Switch t)"
proof -
  have inv: "sched_inv x" using assms(1) by (rule sys_reach_sched_inv)
  obtain p where run: "mode x h = Run p"
    using sched_inv_mode [OF inv, of h] assms(2) by (cases "mode x h") (auto simp: hart_inv_def)
  have li: "lock_inv (ms x, held x, pushes x)" using inv by (rule sched_inv_lock)
  have "0 < noff (cpus (ms x) h)" using lock_inv_noff [OF li, of h] assms(2) by linarith
  then have "\<not> sie (ms x) h" using li by (simp add: lock_inv_def)
  moreover have "yield (on x h) \<noteq> Switch t" for t
    using yield_leaves [OF li sched_inv_run(1) [OF inv run], of t] assms(2) by (auto simp: leaves_def)
  ultimately show ?thesis using run sched_inv_run(1) [OF inv run] by blast
qed

theorem rcu_section_keeps_hart_witness:
  "\<exists>x. sys_reach x \<and> 0 < pushes x 3 \<and> \<not> sie (ms x) 3 \<and> (\<forall>t. yield (on x 3) \<noteq> Switch t)"
proof -
  have "misses synchronize_rcu 3" using missed_reader [of 3 3] by (simp add: synchronize_rcu_def)
  then obtain x where "sys_reach x" and "0 < pushes x 3" unfolding misses_def by blast
  with rcu_section_keeps_hart [of x 3] show ?thesis by blast
qed

text \<open>
  C16: The scheduler never runs a process on two harts: in every reachable state a process is \<open>RUNNING\<close>
  exactly if some hart runs it, that hart is unique, and it is the hart's \<open>cpu->proc\<close>.
\<close>

theorem process_runs_on_one_hart:
  assumes "sys_reach x"
  shows "(p_state (procs (ms x) p) = RUNNING \<longleftrightarrow> (\<exists>h. runs x h p))
    \<and> (\<forall>g h. proc_of (mode x g) = Some p \<and> proc_of (mode x h) = Some p \<longrightarrow> g = h)
    \<and> (\<forall>h. cpu_proc (cpus (ms x) h) = proc_of (mode x h))"
proof -
  have inv: "sched_inv x" using assms by (rule sys_reach_sched_inv)
  have "runs x h p \<Longrightarrow> p_state (procs (ms x) p) = RUNNING" for h
    using sched_inv_mode [OF inv, of h] by (auto simp: runs_def hart_inv_def)
  moreover have "cpu_proc (cpus (ms x) h) = proc_of (mode x h)" for h
    using sched_inv_mode [OF inv, of h] by (simp add: hart_inv_def)
  ultimately show ?thesis
    using sched_inv_running [OF inv] sched_inv_unique [OF inv] by blast
qed

theorem process_runs_on_one_hart_witness:
  "\<exists>x h. sys_reach x \<and> runs x h 1 \<and> p_state (procs (ms x) 1) = RUNNING"
proof -
  obtain k ps where r: "sys_reach (still k ps ((\<lambda>_. None)(3 := Some 0, 0 := Some 1)) ((\<lambda>_. 0)(3 := 1))
      ((\<lambda>_. Other)(1 := Sync synchronize_rcu synchronize_rcu)) ((\<lambda>_. 0)(3 := 1)) ((\<lambda>_ _. None)(1 := (\<lambda>_. None)(3 := Some 1))))" (is "sys_reach ?x")
    by (rule reader_and_updater [of 3 0 synchronize_rcu]) auto
  have "runs ?x 0 1" by (simp add: runs_def still_def)
  with process_runs_on_one_hart [OF r, of 1] r show ?thesis by blast
qed

end
