(* ===== verification/RcuCalls.thy ===== *)
theory RcuCalls
  imports Grace Sysproc
begin

text \<open>
  The waiting loops of \<open>kernel/rcu.c\<close> and of the system call \<open>rcusync\<close> (\<open>kernel/sysproc.c\<close>) against the harts
  they have to wait for.
\<close>

text \<open>
  C17: Which readers the two waiting loops miss. \<open>synchronize_rcu\<close> can return while a reader on hart \<open>h\<close> is still
  inside the very section it was in when the loop was entered exactly if \<open>h\<close> is 3 or more, although the kernel is
  built for eight harts (\<open>NCPU\<close>). The system call \<open>rcusync\<close>, which waits in a copy of the loop before it
  reports that the synchronisation is done, misses hart 2 as well, one of the three that the makefile starts.
\<close>

theorem waiting_loops_miss_harts:
  "(misses synchronize_rcu h \<longleftrightarrow> 3 \<le> h)
   \<and> sys_rcusync = kseq (rcu_call rcusync_wait) rcusync_end \<and> (misses rcusync_wait h \<longleftrightarrow> 2 \<le> h)"
proof -
  have "3 \<le> h \<Longrightarrow> misses synchronize_rcu h" "2 \<le> h \<Longrightarrow> misses rcusync_wait h"
    using missed_reader [of 3 h] missed_reader [of 2 h] by (simp_all add: synchronize_rcu_def rcusync_wait_def)
  moreover have "\<not> 3 \<le> h \<Longrightarrow> \<not> misses synchronize_rcu h" "\<not> 2 \<le> h \<Longrightarrow> \<not> misses rcusync_wait h"
    by (rule visited_not_missed; auto simp: waiting_loops_visit)+
  ultimately show ?thesis by (auto simp: sys_rcusync_def)
qed

end
