(* ===== verification/Disk.thy ===== *)
theory Disk
  imports Virtio Bytes
begin

text \<open>
  What the disk driver of \<open>Virtio\<close> achieves together with a virtio block device: \<open>disk_rw\<close> moves one block
  between a buffer and the disk. \<open>serves\<close> is the documented behaviour of the device. The
  lemmas on \<open>disk_rw\<close> are what the buffer cache relies on.
\<close>

section \<open>The driver's state across locks\<close>

lemma vdisk_enter [lock_simps]:
  "dma (enter lk s) = dma s" "device (enter lk s) = device s" "vreg (enter lk s) = vreg s" "vwr (enter lk s) = vwr s"
  "bufs (enter lk s) = bufs s" "desc_free (enter lk s) = desc_free s" "used_seen (enter lk s) = used_seen s"
  "info_b (enter lk s) = info_b s"
  "(enter lk s)\<lparr>dma := d\<rparr> = enter lk (s\<lparr>dma := d\<rparr>)"
  "(enter lk s)\<lparr>vwr := v\<rparr> = enter lk (s\<lparr>vwr := v\<rparr>)"
  "(enter lk s)\<lparr>bufs := bs\<rparr> = enter lk (s\<lparr>bufs := bs\<rparr>)"
  "(enter lk s)\<lparr>desc_free := df\<rparr> = enter lk (s\<lparr>desc_free := df\<rparr>)"
  "(enter lk s)\<lparr>used_seen := u\<rparr> = enter lk (s\<lparr>used_seen := u\<rparr>)"
  "(enter lk s)\<lparr>info_b := i\<rparr> = enter lk (s\<lparr>info_b := i\<rparr>)"
  by (simp_all add: enter_def push_state_def)

lemma vdisk_preds [lock_simps]:
  "unlocked lk (s\<lparr>dma := d\<rparr>) = unlocked lk s" "unlocked lk (s\<lparr>vwr := v\<rparr>) = unlocked lk s"
  "unlocked lk (s\<lparr>bufs := bs\<rparr>) = unlocked lk s" "unlocked lk (s\<lparr>desc_free := df\<rparr>) = unlocked lk s"
  "unlocked lk (s\<lparr>used_seen := u\<rparr>) = unlocked lk s" "unlocked lk (s\<lparr>info_b := i\<rparr>) = unlocked lk s"
  by (simp_all add: unlocked_def)

lemma calm_vdisk [lock_simps]:
  "calm p (s\<lparr>dma := d\<rparr>) = calm p s" "calm p (s\<lparr>vwr := v\<rparr>) = calm p s" "calm p (s\<lparr>bufs := bs\<rparr>) = calm p s"
  "calm p (s\<lparr>desc_free := df\<rparr>) = calm p s" "calm p (s\<lparr>used_seen := u\<rparr>) = calm p s" "calm p (s\<lparr>info_b := i\<rparr>) = calm p s"
  by (simp_all add: calm_def cpu_quiet_def unlocked_def hart_defs)

lemma calm_procs: "ps p = procs s p \<Longrightarrow> calm p (s\<lparr>procs := ps\<rparr>) = calm p s"
  by (simp add: calm_def lock_simps)

section \<open>The hart on its way through the scheduler\<close>

text \<open>The state \<open>s\<close> with other values for the CPU structure and the interrupt flag of the hart.\<close>

definition at_hart :: "cpu \<Rightarrow> bool \<Rightarrow> 'z machine_scheme \<Rightarrow> 'z machine_scheme" where
  "at_hart c i s = s\<lparr>cpus := (cpus s)(tp s := c), sie := (sie s)(tp s := i)\<rparr>"

lemma at_hart_fields [lock_simps]:
  "tp (at_hart c i s) = tp s" "locks (at_hart c i s) = locks s" "sie (at_hart c i s) (tp s) = i"
  "cpus (at_hart c i s) (tp s) = c" "procs (at_hart c i u) = procs u"
  "dma (at_hart c i v) = dma v" "device (at_hart c i v) = device v" "vreg (at_hart c i v) = vreg v"
  "vwr (at_hart c i v) = vwr v" "bufs (at_hart c i v) = bufs v" "desc_free (at_hart c i v) = desc_free v"
  "used_seen (at_hart c i v) = used_seen v" "info_b (at_hart c i v) = info_b v"
  "at_hart c i (at_hart c' i' s) = at_hart c i s"
  "unlocked lk (at_hart c i s) = unlocked lk s"
  by (simp_all add: at_hart_def unlocked_def)

lemma at_hart_upd [lock_simps]:
  "(at_hart c i u)\<lparr>procs := ps\<rparr> = at_hart c i (u\<lparr>procs := ps\<rparr>)"
  "(at_hart c i v)\<lparr>dma := d\<rparr> = at_hart c i (v\<lparr>dma := d\<rparr>)"
  "(at_hart c i v)\<lparr>vwr := w\<rparr> = at_hart c i (v\<lparr>vwr := w\<rparr>)"
  "(at_hart c i v)\<lparr>bufs := bs\<rparr> = at_hart c i (v\<lparr>bufs := bs\<rparr>)"
  "(at_hart c i v)\<lparr>desc_free := df\<rparr> = at_hart c i (v\<lparr>desc_free := df\<rparr>)"
  "(at_hart c i v)\<lparr>used_seen := us\<rparr> = at_hart c i (v\<lparr>used_seen := us\<rparr>)"
  "(at_hart c i v)\<lparr>info_b := ib\<rparr> = at_hart c i (v\<lparr>info_b := ib\<rparr>)"
  by (simp_all add: at_hart_def)

lemma at_hart_self: "at_hart (cpus s (tp s)) (sie s (tp s)) s = s"
  by (simp add: at_hart_def)

lemma hart_ok_at: "noff c = 0 \<Longrightarrow> hart_ok (at_hart c i s)"
  by (simp add: hart_ok_def lock_simps)

lemma sync_at: "noff c = 0 \<Longrightarrow> sync (at_hart c i s) = at_hart (c\<lparr>intena := i\<rparr>) i s"
  by (simp add: sync_def lock_simps) (simp add: at_hart_def)

lemma cpu_quiet_at: "noff c = 0 \<Longrightarrow> intena c = i \<Longrightarrow> cpu_quiet (at_hart c i s)"
  by (simp add: cpu_quiet_def hart_defs lock_simps)

lemma intr_at: "intr_on (at_hart c i s) = Ret () (at_hart c True s)" "intr_off (at_hart c i s) = Ret () (at_hart c False s)"
  by (simp_all add: hart_defs at_hart_def)

lemma release_at:
  "noff c = 0 \<Longrightarrow> unlocked lk s \<Longrightarrow> release lk (enter lk (at_hart c i s)) = Ret () (at_hart (c\<lparr>intena := i\<rparr>) i s)"
  by (simp add: release_enter_sync hart_ok_at sync_at lock_simps)


text \<open>Leaving and re-entering a process: the two halves of a turn of \<open>scheduler\<close>.\<close>

lemma scheduler_back_at:
  assumes "noff c = 0" and "unlocked (Proc_lock p) s"
  shows "scheduler_back p (enter (Proc_lock p) (at_hart c i s)) = Ret () (at_hart (c\<lparr>cpu_proc := None, intena := i\<rparr>) i s)"
proof -
  have "set_mycpu (\<lambda>c. c\<lparr>cpu_proc := None\<rparr>) (enter (Proc_lock p) (at_hart c i s)) =
      enter (Proc_lock p) (at_hart (c\<lparr>cpu_proc := None\<rparr>) i s)"
    by (auto simp: enter_def push_state_def at_hart_def hart_defs fun_eq_iff cpu_eq_iff intro!: machine.equality)
  then show ?thesis
    using assms by (simp add: scheduler_back_def release_at)
qed

lemma scheduler_try_at:
  assumes "noff c = 0" and "unlocked (Proc_lock p) s" and "p_state (procs s p) = RUNNABLE"
    and "p_cpu_affinity (procs s p) = -1 \<or> p_cpu_affinity (procs s p) = int (tp s)"
  shows "scheduler_try p (at_hart c i s) = Switch (enter (Proc_lock p) (at_hart (c\<lparr>cpu_proc := Some p\<rparr>) i
      (s\<lparr>procs := (procs s)(p := (procs s p)\<lparr>p_state := RUNNING\<rparr>)\<rparr>)))"
proof -
  have "set_mycpu (\<lambda>c. c\<lparr>cpu_proc := Some p\<rparr>) (enter (Proc_lock p) (at_hart c i u)) =
      enter (Proc_lock p) (at_hart (c\<lparr>cpu_proc := Some p\<rparr>) i u)" for u :: "'a ptable_scheme"
    by (auto simp: enter_def push_state_def at_hart_def hart_defs fun_eq_iff cpu_eq_iff intro!: machine.equality)
  then show ?thesis
    using assms by (auto simp: scheduler_try_def acquire_unlocked lock_simps cpuid_def)
qed

lemma sleep_wake_at:
  assumes "noff c = 0" and "unlocked (Proc_lock p) s"
  shows "sleep_wake p ena (enter (Proc_lock p) (at_hart c True s)) =
      Ret () (at_hart (c\<lparr>intena := ena\<rparr>) ena (s\<lparr>procs := (procs s)(p := (procs s p)\<lparr>p_chan := None\<rparr>)\<rparr>))"
proof -
  let ?u = "s\<lparr>procs := (procs s)(p := (procs s p)\<lparr>p_chan := None\<rparr>)\<rparr>"
  have "set_mycpu (\<lambda>c. c\<lparr>intena := ena\<rparr>) (enter (Proc_lock p) (at_hart c True u)) =
      enter (Proc_lock p) (at_hart c ena u)" for u :: "'a ptable_scheme"
    using assms(1) by (auto simp: enter_def push_state_def at_hart_def hart_defs fun_eq_iff cpu_eq_iff intro!: machine.equality)
  moreover have "release (Proc_lock p) (enter (Proc_lock p) (at_hart c ena ?u)) = Ret () (at_hart (c\<lparr>intena := ena\<rparr>) ena ?u)"
    using assms by (intro release_at) (simp_all add: lock_simps)
  ultimately show ?thesis
    by (simp add: sleep_wake_def sched_resume_def lock_simps)
qed

lemma cpu_quiet_enter_ok: "hart_ok s \<Longrightarrow> cpu_quiet (enter lk s)"
  by (simp add: cpu_quiet_def hart_ok_def hart_defs lock_simps)

section \<open>The device\<close>

definition get_bytes :: "disk \<Rightarrow> nat \<Rightarrow> nat \<Rightarrow> u8 list" where
  "get_bytes d off n = map d [off..<off + n]"

definition put_bytes :: "disk \<Rightarrow> nat \<Rightarrow> u8 list \<Rightarrow> disk" where
  "put_bytes d off bs = (\<lambda>i. if off \<le> i \<and> i < off + length bs then bs ! (i - off) else d i)"

text \<open>
  The effect of a request on the data: a write adds the new contents of the disk to \<open>platter\<close>, a read
  fills the buffer. Sectors have 512 bytes.
\<close>

definition transfer :: "virtio_blk_req \<Rightarrow> nat \<Rightarrow> dma \<Rightarrow> dma" where
  "transfer r b d =
     (if r_type r = VIRTIO_BLK_T_OUT
      then d\<lparr>platter := put_bytes (hd (platter d)) (512 * unat (r_sector r)) (q_data d b) # platter d\<rparr>
      else d\<lparr>q_data := (q_data d)(b := get_bytes (hd (platter d)) (512 * unat (r_sector r)) BSIZE)\<rparr>)"

definition complete :: "nat \<Rightarrow> nat \<Rightarrow> dma \<Rightarrow> dma" where
  "complete h st d = d\<lparr>q_status := (q_status d)(st := 0),
     q_used_ring := (q_used_ring d)(unat (q_used_idx d) mod NUM := of_nat h),
     q_used_idx := q_used_idx d + 1\<rparr>"

text \<open>
  The queue holds one request, with the first descriptor \<open>h\<close>: a header \<open>ops[i]\<close>, the data of buffer \<open>b\<close>,
  which the device may write only for a read, and the status byte \<open>st\<close>.
\<close>

definition pending :: "dma \<Rightarrow> nat \<Rightarrow> nat \<Rightarrow> nat \<Rightarrow> nat \<Rightarrow> bool" where
  "pending d h i b st \<longleftrightarrow>
     (let d0 = q_desc d h; j = unat (d_next d0); d1 = q_desc d j; k = unat (d_next d1); d2 = q_desc d k in
      q_avail_idx d = q_used_idx d + 1 \<and> unat (q_avail_ring d (unat (q_used_idx d) mod NUM)) = h
      \<and> d_addr d0 = Ops_addr i \<and> d_flags d0 = VRING_DESC_F_NEXT
      \<and> d_addr d1 = Data_addr b \<and> d_len d1 = of_nat BSIZE
      \<and> d_flags d1 = or (if r_type (q_ops d i) = VIRTIO_BLK_T_OUT then 0 else VRING_DESC_F_WRITE) VRING_DESC_F_NEXT
      \<and> d_addr d2 = Status_addr st \<and> d_flags d2 = VRING_DESC_F_WRITE
      \<and> r_type (q_ops d i) \<in> {VIRTIO_BLK_T_IN, VIRTIO_BLK_T_OUT})"

text \<open>
  The documented behaviour of a block device of \<open>cap\<close> sectors: it carries the request out, stores the
  status 0 and puts the descriptor into the used ring.
\<close>

definition serves :: "nat \<Rightarrow> (dma \<Rightarrow> dma) \<Rightarrow> bool" where
  "serves cap dev \<longleftrightarrow> (\<forall>d h i b st. pending d h i b st \<and> platter d \<noteq> [] \<and> length (q_data d b) = BSIZE
     \<and> unat (r_sector (q_ops d i)) + 2 \<le> cap \<longrightarrow> dev d = complete h st (transfer (q_ops d i) b d))"

text \<open>A device that does exactly this, to show that \<open>serves\<close> can hold.\<close>

definition plain_device :: "dma \<Rightarrow> dma" where
  "plain_device d =
     (let h = unat (q_avail_ring d (unat (q_used_idx d) mod NUM)); d0 = q_desc d h;
          d1 = q_desc d (unat (d_next d0)); d2 = q_desc d (unat (d_next d1))
      in case (d_addr d0, d_addr d1, d_addr d2) of
        (Ops_addr i, Data_addr b, Status_addr st) \<Rightarrow> complete h st (transfer (q_ops d i) b d)
      | _ \<Rightarrow> d)"

lemma plain_device_serves: "serves cap plain_device"
  by (auto simp: serves_def pending_def plain_device_def Let_def)

text \<open>The driver with no request under way, and a device that works.\<close>

definition disk_ok :: "nat \<Rightarrow> 'z vdisk_scheme \<Rightarrow> bool" where
  "disk_ok cap s \<longleftrightarrow> serves cap (device s) \<and> (\<forall>i < NUM. desc_free s i) \<and> platter (dma s) \<noteq> []
     \<and> used_seen s = q_used_idx (dma s) \<and> q_avail_idx (dma s) = q_used_idx (dma s)"

section \<open>A request from submission to completion\<close>

text \<open>The memory shared with the device when the request is queued, served, and its descriptors freed.\<close>

definition queued :: "nat \<Rightarrow> bool \<Rightarrow> u32 \<Rightarrow> dma \<Rightarrow> dma" where
  "queued b w blockno d = publish 0 (format_request b w 0 1 2 (ucast (blockno * 2)) d)"

definition served :: "nat \<Rightarrow> bool \<Rightarrow> u32 \<Rightarrow> dma \<Rightarrow> dma" where
  "served b w blockno d = complete 0 0 (transfer (q_ops (queued b w blockno d) 0) b (queued b w blockno d))"

definition finished :: "nat \<Rightarrow> bool \<Rightarrow> u32 \<Rightarrow> dma \<Rightarrow> dma" where
  "finished b w blockno d = (served b w blockno d)
     \<lparr>q_desc := (q_desc (served b w blockno d))(0 := null_desc, 1 := null_desc, 2 := null_desc)\<rparr>"

lemma alloc3_all_free:
  assumes "\<forall>i < NUM. desc_free s i"
  shows "alloc3_desc s = Ret (Some [0, 1, 2]) (s\<lparr>desc_free := (desc_free s)(0 := False, 1 := False, 2 := False)\<rparr>)"
  using assms by (simp add: alloc3_desc_def eval_nat_numeral alloc_desc_def NUM_def upt_rec)

lemma submit_idle:
  assumes "calm p s" and "disk_ok cap s"
  shows "submit b w s = Ret 0 (enter Vdisk_lock (s
      \<lparr>desc_free := (desc_free s)(0 := False, 1 := False, 2 := False),
       bufs := (bufs s)(b := (bufs s b)\<lparr>b_disk := 1\<rparr>),
       info_b := (info_b s)(0 := Some b),
       dma := queued b w (b_blockno (bufs s b)) (dma s),
       vwr := vwr s @ [(0x050, 0)]\<rparr>))"
  using assms
  by (simp add: submit_def calm_acquire submit_loop_def alloc3_all_free disk_ok_def lock_simps queued_def)

lemma pending_queued:
  assumes "q_avail_idx d = q_used_idx d"
  shows "pending (queued b w blockno d) 0 0 b 0"
  using assms by (simp add: pending_def queued_def publish_def format_request_def Let_def
      VIRTIO_BLK_T_IN_def VIRTIO_BLK_T_OUT_def)

lemma unat_ucast32: "unat (ucast (x :: u32) :: u64) = unat x"
proof -
  have "unat x < 2 ^ 32" using unsigned_less [of x] by simp
  then show ?thesis by (simp add: unsigned_ucast_eq take_bit_nat_eq_self)
qed

lemma device_serves:
  assumes "disk_ok cap s" and "length (q_data (dma s) b) = BSIZE"
    and "2 * unat blockno + 2 \<le> cap" and "unat blockno < 2 ^ 31"
  shows "device s (queued b w blockno (dma s)) = served b w blockno (dma s)"
proof -
  let ?d = "queued b w blockno (dma s)"
  have "unat (ucast (blockno * 2) :: u64) = 2 * unat blockno"
    using assms(4) by (simp add: unat_ucast32 unat_word_ariths)
  then have "unat (r_sector (q_ops ?d 0)) + 2 \<le> cap"
    using assms(3) by (simp add: queued_def publish_def format_request_def)
  moreover have "platter ?d \<noteq> []" "length (q_data ?d b) = BSIZE"
    using assms(1,2) by (simp_all add: queued_def publish_def format_request_def disk_ok_def)
  ultimately show ?thesis
    using assms(1) pending_queued [of "dma s" b w blockno] unfolding disk_ok_def serves_def served_def by blast
qed

lemma intr_fuel: "\<exists>n. INTR_FUEL = Suc (Suc n)"
  by (rule exI [of _ "2 ^ 16 - 2"]) (simp add: INTR_FUEL_def)

lemma wakeup_at:
  assumes "noff c = 0" and "\<And>l. unlocked l u"  and "\<And>q. lk \<noteq> Proc_lock q"
  shows "wakeup ch (enter lk (at_hart c i u)) = Ret () (enter lk (at_hart c i (u\<lparr>procs := woken ch (cpu_proc c) (procs u)\<rparr>)))"
  using assms by (subst wakeup_eq) (auto simp: cpu_quiet_enter_ok hart_ok_at lock_simps)

lemma served_fields [simp]:
  "q_used_idx (served b w n d) = q_used_idx d + 1"
  "q_avail_idx (served b w n d) = q_avail_idx d + 1"
  "unat (q_used_ring (served b w n d) (unat (q_used_idx d) mod NUM)) = 0"
  "q_status (served b w n d) 0 = 0"
  by (simp_all add: served_def complete_def transfer_def queued_def publish_def format_request_def)

lemma intr_serves:
  assumes c: "noff c = 0" "cpu_proc c = None" and un: "\<And>l. unlocked l u"
    and d: "dma u = served b w n d" "used_seen u = q_used_idx d" "info_b u 0 = Some b"
  shows "virtio_disk_intr (at_hart c i u) = Ret () (at_hart (c\<lparr>intena := i\<rparr>) i (u
      \<lparr>vwr := vwr u @ [(0x064, and (vreg u 0x060) 3)],
       bufs := (bufs u)(b := (bufs u b)\<lparr>b_disk := 0\<rparr>),
       procs := woken (Some (Chan_buf b)) None (procs u),
       used_seen := used_seen u + 1\<rparr>))"
proof -
  obtain n where n: "INTR_FUEL = Suc (Suc n)" using intr_fuel by blast
  show ?thesis
    using c un d
    by (simp add: virtio_disk_intr_def n intr_one_def acquire_unlocked lock_simps wakeup_at release_at)
qed

lemma free_desc_calm:
  assumes "calm p s" and "i < NUM" and "\<not> desc_free s i"
  shows "free_desc i (enter Vdisk_lock s) = Ret () (enter Vdisk_lock (s
      \<lparr>dma := (dma s)\<lparr>q_desc := (q_desc (dma s))(i := null_desc)\<rparr>, desc_free := (desc_free s)(i := True),
       procs := woken (Some Chan_disk_free) (Some p) (procs s)\<rparr>))"
proof -
  let ?u = "s\<lparr>dma := (dma s)\<lparr>q_desc := (q_desc (dma s))(i := null_desc)\<rparr>, desc_free := (desc_free s)(i := True)\<rparr>"
  have "calm p ?u" using assms(1) by (simp add: lock_simps)
  from calm_wakeup_enter [OF this, of Vdisk_lock "Some Chan_disk_free"] show ?thesis
    using assms by (simp add: free_desc_def lock_simps)
qed

lemma free_chain_served:
  assumes "calm p s" and d: "dma s = served b w n d" and "\<not> desc_free s 0" "\<not> desc_free s 1" "\<not> desc_free s 2"
  shows "free_chain 0 (enter Vdisk_lock s) = Ret () (enter Vdisk_lock (s
      \<lparr>dma := finished b w n d, desc_free := (desc_free s)(0 := True, 1 := True, 2 := True),
       procs := woken (Some Chan_disk_free) (Some p) (procs s)\<rparr>))"
proof -
  let ?q = "q_desc (served b w n d)"
  have q: "d_flags (?q 0) = VRING_DESC_F_NEXT" "unat (d_next (?q 0)) = Suc 0"
    "and (d_flags (?q (Suc 0))) VRING_DESC_F_NEXT = VRING_DESC_F_NEXT" "unat (d_next (?q (Suc 0))) = 2"
    "d_flags (?q 2) = VRING_DESC_F_WRITE"
    by (simp_all add: served_def complete_def transfer_def queued_def publish_def format_request_def
        VRING_DESC_F_NEXT_def VRING_DESC_F_WRITE_def)
  have "\<exists>k. Suc NUM = Suc (Suc (Suc k))" by (rule exI [of _ 6]) (simp add: NUM_def)
  then obtain k where k: "Suc NUM = Suc (Suc (Suc k))" by blast
  then have f: "(free_chain 0 :: ('a vdisk_scheme, unit) kfun) = free_chain_loop (Suc (Suc (Suc k))) 0"
    by (simp only: free_chain_def)
  have w: "woken ch (Some p) (woken ch (Some p) ps) = woken ch (Some p) ps" for ch ps
    by (rule woken_idem)
  show ?thesis
    using assms
    by (simp add: f free_desc_calm [where p = p] lock_simps q [unfolded VRING_DESC_F_NEXT_def VRING_DESC_F_WRITE_def] NUM_def w calm_procs
      VRING_DESC_F_NEXT_def VRING_DESC_F_WRITE_def finished_def)
qed

text \<open>The state after a request, in terms of the state before it.\<close>

definition after_rw :: "nat \<Rightarrow> nat \<Rightarrow> bool \<Rightarrow> 'z vdisk_scheme \<Rightarrow> 'z vdisk_scheme" where
  "after_rw p b w s = s
     \<lparr>procs := woken (Some Chan_disk_free) (Some p) (woken (Some (Chan_buf b)) (Some p) (procs s)),
      dma := finished b w (b_blockno (bufs s b)) (dma s),
      vwr := vwr s @ [(0x050, 0), (0x064, and (vreg s 0x060) 3)],
      bufs := (bufs s)(b := (bufs s b)\<lparr>b_disk := 0\<rparr>),
      used_seen := used_seen s + 1,
      info_b := (info_b s)(0 := None)\<rparr>"

lemma disk_rw_eq:
  assumes calm: "calm p s" and ok: "disk_ok cap s" and len: "length (q_data (dma s) b) = BSIZE"
    and n: "2 * unat (b_blockno (bufs s b)) + 2 \<le> cap" "unat (b_blockno (bufs s b)) < 2 ^ 31"
  shows "disk_rw b w s = Ret () (after_rw p b w s)"
proof -
  let ?n = "b_blockno (bufs s b)" and ?c = "cpus s (tp s)" and ?i = "sie s (tp s)"
  let ?df = "(desc_free s)(0 := False, 1 := False, 2 := False)"
  define u where "u = s\<lparr>desc_free := ?df, bufs := (bufs s)(b := (bufs s b)\<lparr>b_disk := 1\<rparr>),
      info_b := (info_b s)(0 := Some b), dma := queued b w ?n (dma s), vwr := vwr s @ [(0x050, 0)]\<rparr>"
  have c: "noff ?c = 0" "cpu_proc ?c = Some p" "intena ?c = ?i"
    using calm by (auto simp: calm_def cpu_quiet_def hart_defs)
  have un: "unlocked l s" for l using calm by (simp add: calm_def)
  have cu: "calm p u" using calm by (simp add: u_def lock_simps)
  define v where "v = u\<lparr>procs := (procs u)(p := (procs u p)\<lparr>p_chan := Some (Chan_buf b), p_state := SLEEPING\<rparr>)\<rparr>"
  have sub: "submit b w s = Ret 0 (enter Vdisk_lock u)"
    using submit_idle [OF calm ok] by (simp add: u_def)
  have sw: "rw_wait 0 b (enter Vdisk_lock u) = Switch (enter (Proc_lock p) v)"
    using sleep_switch [of u p Vdisk_lock "Chan_buf b"] cu
    by (simp add: rw_wait_def lock_simps calmD v_def) (simp add: u_def)
  have va: "v = at_hart ?c ?i v"
    by (simp add: v_def u_def at_hart_def)
  define v2 where "v2 = v\<lparr>dma := served b w ?n (dma s), vwr := vwr v @ [(0x064, and (vreg s 0x060) 3)],
      bufs := (bufs v)(b := (bufs v b)\<lparr>b_disk := 0\<rparr>), procs := woken (Some (Chan_buf b)) None (procs v),
      used_seen := used_seen s + 1\<rparr>"
  define v3 where "v3 = v2\<lparr>procs := (procs v2)(p := (procs v2 p)\<lparr>p_state := RUNNING\<rparr>)\<rparr>"
  define v4 where "v4 = v3\<lparr>procs := (procs v3)(p := (procs v3 p)\<lparr>p_chan := None\<rparr>)\<rparr>"
  have uv: "unlocked l v" "unlocked l v2" "unlocked l v3" for l
    using un by (simp_all add: v_def v2_def v3_def u_def lock_simps)
  have dev: "device v (dma v) = served b w ?n (dma s)"
    using device_serves [OF ok len n, of w] by (simp add: v_def u_def)
  have intr: "virtio_disk_intr (at_hart (?c\<lparr>cpu_proc := None, intena := ?i\<rparr>) False (v\<lparr>dma := served b w ?n (dma s)\<rparr>)) =
      Ret () (at_hart (?c\<lparr>cpu_proc := None, intena := False\<rparr>) False v2)"
    using intr_serves [of "?c\<lparr>cpu_proc := None, intena := ?i\<rparr>" "v\<lparr>dma := served b w ?n (dma s)\<rparr>" b w ?n "dma s" False] c uv ok
    by (simp add: lock_simps v2_def v_def u_def disk_ok_def)
  have p: "p < NPROC" using calm by (simp add: calm_def)
  have v2p: "p_state (procs v2 p) = RUNNABLE" "p_cpu_affinity (procs v2 p) = p_cpu_affinity (procs s p)"
    using p by (simp_all add: v2_def v_def u_def woken_def wake_def)
  have aff: "p_cpu_affinity (procs v2 p) = -1 \<or> p_cpu_affinity (procs v2 p) = int (tp v2)"
    using calm v2p by (simp add: calm_def v2_def v_def u_def)
  have cq: "?c\<lparr>intena := a, cpu_proc := Some p\<rparr> = ?c\<lparr>intena := a\<rparr>" "?c\<lparr>intena := ?i\<rparr> = ?c" for a
    using c by (simp_all add: cpu_eq_iff)
  have turn: "disk_turn p (enter (Proc_lock p) v) =
      Switch (enter (Proc_lock p) (at_hart (?c\<lparr>intena := False\<rparr>) True v3))"
    using c(1,2) uv scheduler_back_at [of ?c p v ?i] scheduler_try_at [of "?c\<lparr>cpu_proc := None, intena := False\<rparr>" p v2 True]
      v2p(1) aff intr
    by (simp add: disk_turn_def va [symmetric] intr_at lock_simps dev v3_def cq)
  have ena: "intena (mycpu (enter (Proc_lock p) v)) = ?i"
    using c by (simp add: hart_defs enter_def push_state_def v_def u_def)
  have home: "at_hart ?c ?i v4 = v4"
    by (simp add: v4_def v3_def v2_def v_def u_def at_hart_def)
  have res: "sleep_resume p Vdisk_lock ?i (enter (Proc_lock p) (at_hart (?c\<lparr>intena := False\<rparr>) True v3)) = Ret () (enter Vdisk_lock v4)"
    using sleep_wake_at [of "?c\<lparr>intena := False\<rparr>" p v3 ?i] c(1) uv home
    by (simp add: sleep_resume_def v4_def [symmetric] cq acquire_unlocked) (simp add: v4_def lock_simps acquire_unlocked)
  have pp: "procs v4 = woken (Some (Chan_buf b)) (Some p) (procs s)"
    using calm p by (auto simp: fun_eq_iff v4_def v3_def v2_def v_def u_def woken_def wake_def calm_def)
  define v5 where "v5 = v4\<lparr>info_b := (info_b v4)(0 := None)\<rparr>"
  have c5: "calm p v5"
    using calm by (simp add: calm_def v5_def pp) (auto simp: v4_def v3_def v2_def v_def u_def cpu_quiet_def unlocked_def hart_defs)
  have rest: "rw_wait 0 b (enter Vdisk_lock v4) = Ret () (v5\<lparr>dma := finished b w ?n (dma s),
      desc_free := desc_free s, procs := woken (Some Chan_disk_free) (Some p) (procs v5)\<rparr>)"
  proof -
    have d5: "dma v5 = served b w ?n (dma s)" "desc_free v5 = ?df" "b_disk (bufs v4 b) = 0"
      by (simp_all add: v5_def v4_def v3_def v2_def v_def u_def)
    have df: "?df(0 := True, 1 := True, 2 := True) = desc_free s"
      using ok by (auto simp: disk_ok_def NUM_def fun_eq_iff)
    show ?thesis
      using free_chain_served [OF c5 d5(1)] d5 df c5
      by (simp add: rw_wait_def lock_simps v5_def [symmetric] calm_procs calm_release [where p = p])
  qed
  have "v5\<lparr>dma := finished b w ?n (dma s), desc_free := desc_free s,
      procs := woken (Some Chan_disk_free) (Some p) (procs v5)\<rparr> = after_rw p b w s"
    by (rule vdisk.equality) (simp_all add: after_rw_def v5_def pp, simp_all add: v4_def v3_def v2_def v_def u_def)
  with rest show ?thesis
    using calm sub sw turn res by (simp add: disk_rw_def calm_curproc through_def ena rw_wait_resume_def)
qed

section \<open>Blocks\<close>

definition dblock :: "disk \<Rightarrow> nat \<Rightarrow> u8 list" where
  "dblock d n = get_bytes d (BSIZE * n) BSIZE"

definition dput :: "disk \<Rightarrow> nat \<Rightarrow> u8 list \<Rightarrow> disk" where
  "dput d n bs = put_bytes d (BSIZE * n) bs"

lemma length_dblock [simp]: "length (dblock d n) = BSIZE"
  by (simp add: dblock_def get_bytes_def)

lemma dblock_dput: "length bs = BSIZE \<Longrightarrow> dblock (dput d n bs) m = (if m = n then bs else dblock d m)"
proof -
  assume l: "length bs = BSIZE"
  have sep: "\<not> (BSIZE * n \<le> BSIZE * m + i \<and> BSIZE * m + i < BSIZE * n + BSIZE)" if "m \<noteq> n" "i < BSIZE" for i
  proof (cases "m < n")
    case True
    then have "BSIZE * Suc m \<le> BSIZE * n" by (intro mult_le_mono) auto
    then show ?thesis using that by simp
  next
    case False
    then have "BSIZE * Suc n \<le> BSIZE * m" using that by (intro mult_le_mono) auto
    then show ?thesis by simp
  qed
  show ?thesis
    using l by (cases "m = n") (auto simp: dblock_def dput_def get_bytes_def put_bytes_def list_eq_iff_nth_eq dest: sep)
qed

lemma sector_block: "unat n < 2 ^ 31 \<Longrightarrow> 512 * unat (ucast ((n :: u32) * 2) :: u64) = BSIZE * unat n"
  by (simp add: unat_ucast32 unat_word_ariths BSIZE_def)

lemma finished_fields:
  assumes "unat n < 2 ^ 31"
  shows "q_used_idx (finished b w n d) = q_used_idx d + 1" "q_avail_idx (finished b w n d) = q_avail_idx d + 1"
    "platter (finished b w n d) = (if w then dput (hd (platter d)) (unat n) (q_data d b) # platter d else platter d)"
    "q_data (finished b w n d) = (if w then q_data d else (q_data d)(b := dblock (hd (platter d)) (unat n)))"
  using sector_block [OF assms]
  by (simp_all add: finished_def served_def complete_def transfer_def queued_def publish_def format_request_def
      dput_def dblock_def VIRTIO_BLK_T_IN_def VIRTIO_BLK_T_OUT_def)

lemma after_rw_calm: "calm p s \<Longrightarrow> calm p (after_rw p b w s)"
  by (simp add: after_rw_def lock_simps calm_procs)

lemma after_rw_ok:
  "disk_ok cap s \<Longrightarrow> unat (b_blockno (bufs s b)) < 2 ^ 31 \<Longrightarrow> disk_ok cap (after_rw p b w s)"
  by (auto simp: disk_ok_def after_rw_def finished_fields)

text \<open>
  C33: The driver and a working device move whole blocks. From a state with no request under way, a call of
  \<open>disk_rw\<close> returns; a write makes the block of the disk equal to the buffer and leaves every other block,
  in one step of the disk's history; a read makes the buffer equal to the block and leaves the disk and
  every other buffer. The request is over: the buffer is no longer owned by the disk, the descriptors are
  free again, and no process still sleeps on the buffer.
\<close>

theorem disk_rw_transfers:
  assumes "calm p s" and "disk_ok cap s" and "length (q_data (dma s) b) = BSIZE"
    and "2 * unat (b_blockno (bufs s b)) + 2 \<le> cap" and "unat (b_blockno (bufs s b)) < 2 ^ 31"
  shows "\<exists>t. disk_rw b w s = Ret () t \<and> calm p t \<and> disk_ok cap t \<and> b_disk (bufs t b) = 0
      \<and> (if w then q_data (dma t) = q_data (dma s) \<and> tl (platter (dma t)) = platter (dma s)
            \<and> (\<forall>n. dblock (hd (platter (dma t))) n =
                (if n = unat (b_blockno (bufs s b)) then q_data (dma s) b else dblock (hd (platter (dma s))) n))
         else platter (dma t) = platter (dma s)
            \<and> q_data (dma t) = (q_data (dma s))(b := dblock (hd (platter (dma s))) (unat (b_blockno (bufs s b)))))
      \<and> (\<forall>q < NPROC. \<not> (p_state (procs t q) = SLEEPING \<and> p_chan (procs t q) = Some (Chan_buf b)))"
proof (intro exI conjI)
  show "disk_rw b w s = Ret () (after_rw p b w s)" by (rule disk_rw_eq [OF assms])
  show "calm p (after_rw p b w s)" using assms by (simp add: after_rw_calm)
  show "disk_ok cap (after_rw p b w s)" using assms by (simp add: after_rw_ok)
  show "b_disk (bufs (after_rw p b w s) b) = 0" by (simp add: after_rw_def)
  show "if w then q_data (dma (after_rw p b w s)) = q_data (dma s) \<and> tl (platter (dma (after_rw p b w s))) = platter (dma s)
            \<and> (\<forall>n. dblock (hd (platter (dma (after_rw p b w s)))) n =
                (if n = unat (b_blockno (bufs s b)) then q_data (dma s) b else dblock (hd (platter (dma s))) n))
         else platter (dma (after_rw p b w s)) = platter (dma s)
            \<and> q_data (dma (after_rw p b w s)) = (q_data (dma s))(b := dblock (hd (platter (dma s))) (unat (b_blockno (bufs s b))))"
    using assms by (simp add: after_rw_def finished_fields dblock_dput)
  show "\<forall>q < NPROC. \<not> (p_state (procs (after_rw p b w s) q) = SLEEPING \<and> p_chan (procs (after_rw p b w s) q) = Some (Chan_buf b))"
    using assms(1) by (auto simp: after_rw_def woken_def wake_def calm_def)
qed

text \<open>A machine with a plain device of 4000 sectors full of zeros, whose buffers have room for a block.\<close>

definition boot_vdisk :: vdisk where
  "boot_vdisk = sleeplocks.extend boot_sleeplocks
     \<lparr>dma = \<lparr>q_desc = \<lambda>_. null_desc, q_avail_idx = 0, q_avail_ring = \<lambda>_. 0, q_used_idx = 0, q_used_ring = \<lambda>_. 0,
        q_ops = \<lambda>_. \<lparr>r_type = 0, r_reserved = 0, r_sector = 0\<rparr>, q_status = \<lambda>_. 0,
        q_data = \<lambda>_. replicate BSIZE 5, platter = [\<lambda>_. 0]\<rparr>,
      device = plain_device, vreg = \<lambda>_. 0, vwr = [],
      bufs = \<lambda>_. \<lparr>b_valid = 0, b_disk = 0, b_dev = 0, b_blockno = 7, b_refcnt = 0, b_prev = 0, b_next = 0\<rparr>,
      desc_free = \<lambda>_. True, used_seen = 0, info_b = \<lambda>_. None\<rparr>"

lemma boot_vdisk_calm: "calm 1 boot_vdisk"
proof -
  have "calm 1 (sleeplocks.extend boot_sleeplocks x) = calm 1 boot_sleeplocks" for x :: "'a vdisk_ext"
    by (simp add: calm_def cpu_quiet_def unlocked_def hart_defs sleeplocks.defs)
  then show ?thesis using boot_sleeplocks_calm by (simp add: boot_vdisk_def)
qed

theorem disk_rw_transfers_witness:
  "\<exists>t. disk_rw 2 True boot_vdisk = Ret () t \<and> dblock (hd (platter (dma t))) 7 = replicate BSIZE 5"
proof -
  have "disk_ok 4000 boot_vdisk" "length (q_data (dma boot_vdisk) 2) = BSIZE" "unat (b_blockno (bufs boot_vdisk 2)) = 7"
    "q_data (dma boot_vdisk) 2 = replicate BSIZE 5"
    by (simp_all add: boot_vdisk_def disk_ok_def sleeplocks.defs plain_device_serves)
  then show ?thesis
    using disk_rw_transfers [OF boot_vdisk_calm, of 4000 2 True] by auto
qed

end
