(* ===== verification/Cache.thy ===== *)
theory Cache
  imports Bio Disk
begin

text \<open>
  Correctness of the buffer cache. The list of recently used buffers is a ring through all of them, so the
  scans of \<open>bget\<close> visit every buffer once, and releasing a buffer moves it to the front. Above that, the
  cache keeps one copy of a block: \<open>content\<close> is what a reader of the cache sees, and it changes only when
  the holder of a buffer changes its data.
\<close>

section \<open>The ring of buffers\<close>

text \<open>\<open>path N P x us y\<close>: from \<open>x\<close> through \<open>us\<close> to \<open>y\<close>, forwards along \<open>N\<close> and backwards along \<open>P\<close>.\<close>

fun path :: "(nat \<Rightarrow> nat) \<Rightarrow> (nat \<Rightarrow> nat) \<Rightarrow> nat \<Rightarrow> nat list \<Rightarrow> nat \<Rightarrow> bool" where
  "path N P x [] y \<longleftrightarrow> N x = y \<and> P y = x"
| "path N P x (z # zs) y \<longleftrightarrow> N x = z \<and> P z = x \<and> path N P z zs y"

lemma path_append: "path N P x (us @ v # vs) y \<longleftrightarrow> path N P x us v \<and> path N P v vs y"
  by (induction us arbitrary: x) auto

lemma path_cong:
  "(\<And>z. z \<in> insert x (set us) \<Longrightarrow> N' z = N z) \<Longrightarrow> (\<And>z. z \<in> insert y (set us) \<Longrightarrow> P' z = P z) \<Longrightarrow>
   path N' P' x us y = path N P x us y"
  by (induction us arbitrary: x) auto

lemma path_first: "path N P x us y \<Longrightarrow> N x = hd (us @ [y])"
  by (cases us) auto

lemma path_last: "path N P x us y \<Longrightarrow> P y = last (x # us)"
  by (induction us arbitrary: x) auto

definition ring :: "nat \<Rightarrow> (nat \<Rightarrow> nat) \<Rightarrow> (nat \<Rightarrow> nat) \<Rightarrow> nat list \<Rightarrow> bool" where
  "ring h N P xs \<longleftrightarrow> path N P h xs h \<and> distinct (h # xs)"

lemma ring_unlink:
  assumes "ring h N P (us @ b # vs)"
  shows "ring h (N(P b := N b)) (P(N b := P b)) (us @ vs)"
proof -
  from assms have p: "path N P h us b" "path N P b vs h" and d: "distinct (h # us @ b # vs)"
    by (auto simp: ring_def path_append)
  show ?thesis
  proof (cases us rule: rev_cases)
    case Nil
    then have pb: "P b = h" using p(1) by simp
    show ?thesis
    proof (cases vs)
      case Nil
      then show ?thesis using p d pb \<open>us = []\<close> by (auto simp: ring_def)
    next
      case (Cons v vs')
      then have "path (N(h := v)) (P(v := h)) v vs' h = path N P v vs' h"
        using d by (intro path_cong) auto
      then show ?thesis using p d pb Cons \<open>us = []\<close> by (auto simp: ring_def)
    qed
  next
    case (snoc us' u)
    then have pb: "P b = u" using path_last [OF p(1)] by simp
    have pu: "path N P h us' u" using p(1) snoc by (simp add: path_append)
    show ?thesis
    proof (cases vs)
      case Nil
      then have nb: "N b = h" using p(2) by simp
      have "path (N(u := h)) (P(h := u)) h us' u = path N P h us' u"
        using d snoc by (intro path_cong) auto
      then show ?thesis using pu d pb nb snoc Nil by (auto simp: ring_def path_append)
    next
      case (Cons v vs')
      then have nb: "N b = v" and pv: "path N P v vs' h" using p(2) by auto
      have "path (N(u := v)) (P(v := u)) h us' u = path N P h us' u"
        "path (N(u := v)) (P(v := u)) v vs' h = path N P v vs' h"
        using d snoc Cons by (auto intro!: path_cong)
      then show ?thesis using pu pv d pb nb snoc Cons by (auto simp: ring_def path_append)
    qed
  qed
qed

lemma ring_link:
  assumes "ring h N P xs" and "b \<notin> set (h # xs)"
  shows "ring h (N(b := N h, h := b)) ((P(b := h))(N h := b)) (b # xs)"
proof (cases xs)
  case Nil
  then show ?thesis using assms by (auto simp: ring_def)
next
  case (Cons x xs')
  then have n: "N h = x" and px: "path N P x xs' h" and d: "distinct (h # x # xs')"
    using assms(1) by (auto simp: ring_def)
  have "path (N(b := x, h := b)) (P(b := h, x := b)) x xs' h = path N P x xs' h"
    using d assms(2) Cons by (intro path_cong) auto
  then show ?thesis using n px d assms(2) Cons by (auto simp: ring_def)
qed

text \<open>A scan that follows the ring finds the first buffer in its order.\<close>

lemma bscan_path:
  assumes "path (\<lambda>b. dir (bs b)) P x xs BHEAD" and "BHEAD \<notin> set xs" and "length xs < k"
  shows "bscan k bs dir Q (dir (bs x)) = Some (find (\<lambda>b. Q (bs b)) xs)"
  using assms
proof (induction xs arbitrary: x k)
  case Nil
  then show ?case by (cases k) auto
next
  case (Cons y ys)
  then obtain k' where k: "k = Suc k'" by (cases k) auto
  from Cons have "dir (bs x) = y" "path (\<lambda>b. dir (bs b)) P y ys BHEAD" "y \<noteq> BHEAD" by auto
  then show ?case using Cons.IH [of y k'] Cons.prems k by auto
qed

lemma path_rev: "path N P x us y \<Longrightarrow> path P N y (rev us) x"
  by (induction us arbitrary: x) (auto simp: path_append)

definition nexts :: "(nat \<Rightarrow> buf) \<Rightarrow> nat \<Rightarrow> nat" where
  "nexts bs b = b_next (bs b)"

definition prevs :: "(nat \<Rightarrow> buf) \<Rightarrow> nat \<Rightarrow> nat" where
  "prevs bs b = b_prev (bs b)"

definition lru :: "(nat \<Rightarrow> buf) \<Rightarrow> nat list \<Rightarrow> bool" where
  "lru bs xs \<longleftrightarrow> ring BHEAD (nexts bs) (prevs bs) xs \<and> set xs = {..<NBUF}"

lemma lru_length: "lru bs xs \<Longrightarrow> length xs = NBUF"
  using distinct_card [of xs] by (auto simp: lru_def ring_def)

lemma kscan_next: "lru (bufs s) xs \<Longrightarrow> kscan b_next Q s = Ret (find (\<lambda>b. Q (bufs s b)) xs) s"
  using bscan_path [of b_next "bufs s" "prevs (bufs s)" BHEAD xs "Suc NBUF" Q] lru_length
  by (auto simp: kscan_def lru_def ring_def nexts_def [abs_def])

lemma kscan_prev:
  assumes "lru (bufs s) xs"
  shows "kscan b_prev Q s = Ret (find (\<lambda>b. Q (bufs s b)) (rev xs)) s"
proof -
  have "path (prevs (bufs s)) (nexts (bufs s)) BHEAD (rev xs) BHEAD"
    using assms by (intro path_rev) (simp add: lru_def ring_def)
  then have p: "path (\<lambda>b. b_prev (bufs s b)) (nexts (bufs s)) BHEAD (rev xs) BHEAD"
    by (simp add: prevs_def [abs_def])
  have "BHEAD \<notin> set (rev xs)" "length (rev xs) < Suc NBUF"
    using assms lru_length [OF assms] by (simp_all add: lru_def ring_def BHEAD_def)
  from bscan_path [OF p this, of Q] show ?thesis by (simp add: kscan_def)
qed

lemma lru_move_front:
  assumes "lru bs xs" and "b < NBUF"
  shows "\<exists>ys. lru (link_front b (unlink_buf b bs)) ys"
proof -
  from assms obtain us vs where xs: "xs = us @ b # vs"
    by (metis lessThan_iff lru_def split_list)
  have bh: "b \<noteq> BHEAD" using assms(2) by (simp add: BHEAD_def)
  let ?bs = "unlink_buf b bs"
  have d: "b \<notin> set (us @ vs)" and nb: "nexts bs b \<noteq> b" "prevs bs b \<noteq> b"
  proof -
    show "b \<notin> set (us @ vs)" using assms(1) xs by (auto simp: lru_def ring_def)
    have p: "path (nexts bs) (prevs bs) BHEAD us b" "path (nexts bs) (prevs bs) b vs BHEAD"
      using assms(1) xs by (auto simp: lru_def ring_def path_append)
    show "nexts bs b \<noteq> b" using path_first [OF p(2)] bh \<open>b \<notin> set (us @ vs)\<close> by (cases vs) auto
    show "prevs bs b \<noteq> b" using path_last [OF p(1)] bh \<open>b \<notin> set (us @ vs)\<close> by (cases us rule: rev_cases) auto
  qed
  have u: "nexts ?bs = (nexts bs)(prevs bs b := nexts bs b)" "prevs ?bs = (prevs bs)(nexts bs b := prevs bs b)"
    using nb by (auto simp: unlink_buf_def nexts_def prevs_def Let_def fun_eq_iff)
  have r: "ring BHEAD (nexts ?bs) (prevs ?bs) (us @ vs)"
    using ring_unlink assms(1) xs unfolding u lru_def by blast
  have f: "nexts (link_front b ?bs) = (nexts ?bs)(b := nexts ?bs BHEAD, BHEAD := b)"
    "prevs (link_front b ?bs) = ((prevs ?bs)(b := BHEAD))(nexts ?bs BHEAD := b)"
    using bh by (auto simp: link_front_def nexts_def prevs_def Let_def fun_eq_iff)
  have "ring BHEAD (nexts (link_front b ?bs)) (prevs (link_front b ?bs)) (b # us @ vs)"
    unfolding f using ring_link [OF r] d bh by simp
  moreover have "set (b # us @ vs) = {..<NBUF}" using assms(1) xs by (auto simp: lru_def)
  ultimately show ?thesis by (auto simp: lru_def)
qed

lemma lru_cong: "nexts bs = nexts cs \<Longrightarrow> prevs bs = prevs cs \<Longrightarrow> lru bs xs = lru cs xs"
  by (simp add: lru_def)

lemma lru_upd: "b_next c = b_next (bs b) \<Longrightarrow> b_prev c = b_prev (bs b) \<Longrightarrow> lru (bs(b := c)) xs = lru bs xs"
  by (rule lru_cong) (auto simp: nexts_def prevs_def fun_eq_iff)

text \<open>The fields of a buffer that are not part of the list.\<close>

definition bkey :: "buf \<Rightarrow> u32 \<times> u32 \<times> int \<times> u32 \<times> int" where
  "bkey c = (b_dev c, b_blockno c, b_valid c, b_refcnt c, b_disk c)"

lemma bkey_relink:
  "bkey ((bs(x := (bs x)\<lparr>b_prev := v\<rparr>)) c) = bkey (bs c)" "bkey ((bs(x := (bs x)\<lparr>b_next := v\<rparr>)) c) = bkey (bs c)"
  by (simp_all add: bkey_def)

lemma bkey_move_front: "bkey (link_front b (unlink_buf b bs) c) = bkey (bs c)"
  by (simp only: link_front_def unlink_buf_def Let_def bkey_relink)

lemma bkeyD:
  assumes "bkey c = bkey d"
  shows "b_dev c = b_dev d" "b_blockno c = b_blockno d" "b_valid c = b_valid d" "b_refcnt c = b_refcnt d" "b_disk c = b_disk d"
  using assms by (simp_all add: bkey_def)

section \<open>What the cache holds\<close>

definition disk_now :: "'z vdisk_scheme \<Rightarrow> disk" where
  "disk_now s = hd (platter (dma s))"

definition cached :: "u32 \<Rightarrow> u32 \<Rightarrow> nat \<Rightarrow> 'z vdisk_scheme \<Rightarrow> bool" where
  "cached dv n b s \<longleftrightarrow> b < NBUF \<and> b_dev (bufs s b) = dv \<and> b_blockno (bufs s b) = n"

text \<open>What a reader of block \<open>n\<close> gets: the data of a valid buffer for it, or the block on the disk.\<close>

definition content :: "u32 \<Rightarrow> 'z vdisk_scheme \<Rightarrow> u32 \<Rightarrow> u8 list" where
  "content dv s n =
     (case find (\<lambda>b. b_dev (bufs s b) = dv \<and> b_blockno (bufs s b) = n \<and> b_valid (bufs s b) \<noteq> 0) [0..<NBUF] of
        Some b \<Rightarrow> q_data (dma s) b
      | None \<Rightarrow> dblock (disk_now s) (unat n))"

definition refs :: "'z vdisk_scheme \<Rightarrow> nat \<Rightarrow> nat" where
  "refs s b = unat (b_refcnt (bufs s b))"

definition taken :: "'z vdisk_scheme \<Rightarrow> nat \<Rightarrow> bool" where
  "taken s b \<longleftrightarrow> sl_locked (sleeplk s (Buf_lock b)) \<noteq> 0"

text \<open>
  The invariant of the cache for device \<open>dv\<close>, between the calls of process \<open>p\<close>: a block has one buffer,
  a buffer that nobody refers to is not locked and, if valid, agrees with the disk.
\<close>

definition cache_inv :: "u32 \<Rightarrow> 'z vdisk_scheme \<Rightarrow> bool" where
  "cache_inv dv s \<longleftrightarrow> dv \<noteq> 0 \<and> (\<exists>xs. lru (bufs s) xs)
     \<and> (\<forall>b < NBUF. length (q_data (dma s) b) = BSIZE)
     \<and> (\<forall>n b c. cached dv n b s \<and> cached dv n c s \<longrightarrow> b = c)
     \<and> (\<forall>b < NBUF. refs s b = 0 \<longrightarrow> \<not> taken s b)
     \<and> (\<forall>b < NBUF. refs s b = 0 \<and> b_dev (bufs s b) = dv \<and> b_valid (bufs s b) \<noteq> 0
          \<longrightarrow> q_data (dma s) b = dblock (disk_now s) (unat (b_blockno (bufs s b))))"

definition cache_ok :: "u32 \<Rightarrow> nat \<Rightarrow> nat \<Rightarrow> 'z vdisk_scheme \<Rightarrow> bool" where
  "cache_ok dv cap p s \<longleftrightarrow> calm p s \<and> disk_ok cap s \<and> cache_inv dv s"

definition holds :: "nat \<Rightarrow> u32 \<Rightarrow> u32 \<Rightarrow> nat \<Rightarrow> 'z vdisk_scheme \<Rightarrow> bool" where
  "holds p dv n b s \<longleftrightarrow> cached dv n b s \<and> b_valid (bufs s b) \<noteq> 0 \<and> 0 < refs s b
     \<and> taken s b \<and> sl_pid (sleeplk s (Buf_lock b)) = p_pid (procs s p)"

text \<open>The parts of the state that the cache works on; everything else stays.\<close>

definition bio_frame :: "nat \<Rightarrow> 'z vdisk_scheme \<Rightarrow> 'z vdisk_scheme \<Rightarrow> bool" where
  "bio_frame p s t \<longleftrightarrow> procs t p = procs s p \<and> (\<exists>ps sl d v bs df us ib.
     t = s\<lparr>procs := ps, sleeplk := sl, dma := d, vwr := v, bufs := bs, desc_free := df, used_seen := us, info_b := ib\<rparr>)"

lemma bio_frame_refl [simp]: "bio_frame p s s"
proof -
  have "s = s\<lparr>procs := procs s, sleeplk := sleeplk s, dma := dma s, vwr := vwr s, bufs := bufs s,
      desc_free := desc_free s, used_seen := used_seen s, info_b := info_b s\<rparr>" by simp
  then show ?thesis unfolding bio_frame_def by blast
qed

lemma bio_frame_trans:
  assumes "bio_frame p s t" and "bio_frame p t u"
  shows "bio_frame p s u"
proof -
  obtain ps sl d v bs df us ib where t: "t = s\<lparr>procs := ps, sleeplk := sl, dma := d, vwr := v, bufs := bs,
      desc_free := df, used_seen := us, info_b := ib\<rparr>" using assms(1) unfolding bio_frame_def by blast
  obtain ps' sl' d' v' bs' df' us' ib' where u: "u = t\<lparr>procs := ps', sleeplk := sl', dma := d', vwr := v', bufs := bs',
      desc_free := df', used_seen := us', info_b := ib'\<rparr>" using assms(2) unfolding bio_frame_def by blast
  have "u = s\<lparr>procs := ps', sleeplk := sl', dma := d', vwr := v', bufs := bs',
      desc_free := df', used_seen := us', info_b := ib'\<rparr>" unfolding u t by simp
  moreover have "procs u p = procs s p" using assms by (simp add: bio_frame_def)
  ultimately show ?thesis unfolding bio_frame_def by blast
qed

lemma bio_frameI:
  "procs t p = procs s p \<Longrightarrow> t = s\<lparr>procs := procs t, sleeplk := sleeplk t, dma := dma t, vwr := vwr t, bufs := bufs t,
      desc_free := desc_free t, used_seen := used_seen t, info_b := info_b t\<rparr> \<Longrightarrow> bio_frame p s t"
  unfolding bio_frame_def by blast

lemma find_SomeD: "find P xs = Some b \<Longrightarrow> P b \<and> b \<in> set xs"
  by (induction xs) (auto split: if_splits)

lemma find_unique:
  assumes "\<And>c. c \<in> set xs \<Longrightarrow> P c \<Longrightarrow> c = b" and "b \<in> set xs" and "P b"
  shows "find P xs = Some b"
proof -
  have "find P xs \<noteq> None" using assms(2,3) by (auto simp: find_None_iff)
  then obtain c where c: "find P xs = Some c" by blast
  then have "c \<in> set xs" "P c" by (auto dest: find_SomeD)
  then have "c = b" by (rule assms(1))
  with c show ?thesis by simp
qed

lemma content_hit:
  assumes "cache_inv dv s" and "cached dv n b s" and "b_valid (bufs s b) \<noteq> 0"
  shows "content dv s n = q_data (dma s) b"
proof -
  have "find (\<lambda>b. b_dev (bufs s b) = dv \<and> b_blockno (bufs s b) = n \<and> b_valid (bufs s b) \<noteq> 0) [0..<NBUF] = Some b"
    using assms by (intro find_unique) (auto simp: cache_inv_def cached_def)
  then show ?thesis by (simp add: content_def)
qed

lemma content_miss:
  assumes "\<And>b. cached dv n b s \<Longrightarrow> b_valid (bufs s b) = 0"
  shows "content dv s n = dblock (disk_now s) (unat n)"
proof -
  have "find (\<lambda>b. b_dev (bufs s b) = dv \<and> b_blockno (bufs s b) = n \<and> b_valid (bufs s b) \<noteq> 0) [0..<NBUF] = None"
    using assms by (auto simp: find_None_iff cached_def)
  then show ?thesis by (simp add: content_def)
qed

lemma content_free:
  assumes "cache_inv dv s" and "\<And>b. cached dv n b s \<Longrightarrow> refs s b = 0"
  shows "content dv s n = dblock (disk_now s) (unat n)"
proof (cases "\<exists>b. cached dv n b s \<and> b_valid (bufs s b) \<noteq> 0")
  case True
  then obtain b where b: "cached dv n b s" "b_valid (bufs s b) \<noteq> 0" by blast
  then show ?thesis
    using assms(2) [OF b(1)] content_hit [OF assms(1) b] assms(1) by (auto simp: cache_inv_def cached_def)
next
  case False
  then show ?thesis by (intro content_miss) auto
qed

section \<open>The operations\<close>

text \<open>The state after \<open>bget\<close>: the buffer referenced once more, perhaps recycled, and locked by the caller.\<close>

definition lock_buf :: "nat \<Rightarrow> nat \<Rightarrow> 'z vdisk_scheme \<Rightarrow> 'z vdisk_scheme" where
  "lock_buf p b s = s\<lparr>sleeplk := (sleeplk s)(Buf_lock b :=
     (sleeplk s (Buf_lock b))\<lparr>sl_locked := 1, sl_pid := p_pid (procs s p)\<rparr>)\<rparr>"

definition ref_buf :: "nat \<Rightarrow> 'z vdisk_scheme \<Rightarrow> 'z vdisk_scheme" where
  "ref_buf b s = s\<lparr>bufs := (bufs s)(b := (bufs s b)\<lparr>b_refcnt := b_refcnt (bufs s b) + 1\<rparr>)\<rparr>"

definition recycle :: "u32 \<Rightarrow> u32 \<Rightarrow> nat \<Rightarrow> 'z vdisk_scheme \<Rightarrow> 'z vdisk_scheme" where
  "recycle dv n b s = s\<lparr>bufs := (bufs s)(b := (bufs s b)\<lparr>b_dev := dv, b_blockno := n, b_valid := 0, b_refcnt := 1\<rparr>)\<rparr>"

lemma bget_hit:
  assumes "calm p s" and "cache_inv dv s" and "cached dv n b s" and "\<not> taken s b"
  shows "bget dv n s = Ret b (lock_buf p b (ref_buf b s))"
proof -
  obtain xs where xs: "lru (bufs s) xs" using assms(2) by (auto simp: cache_inv_def)
  have f: "find (\<lambda>b. b_dev (bufs s b) = dv \<and> b_blockno (bufs s b) = n) xs = Some b"
    using assms(2,3) xs by (intro find_unique) (auto simp: cache_inv_def cached_def lru_def)
  have c: "calm p (ref_buf b s)" using assms(1) by (simp add: ref_buf_def lock_simps)
  have "acquiresleep (Buf_lock b) (ref_buf b s) = Ret () (lock_buf p b (ref_buf b s))"
    using acquiresleep_free [OF c, of "Buf_lock b"] assms(4) by (simp add: lock_buf_def taken_def ref_buf_def)
  then show ?thesis
    using assms(1) c kscan_next [of "enter Bcache_lock s" xs] xs f
    by (simp add: bget_def calm_acquire lock_simps calm_release [where p = p] ref_buf_def)
qed

lemma bget_miss:
  assumes "calm p s" and "cache_inv dv s" and "\<And>b. \<not> cached dv n b s" and "\<exists>b < NBUF. refs s b = 0"
  shows "\<exists>b < NBUF. refs s b = 0 \<and> bget dv n s = Ret b (lock_buf p b (recycle dv n b s))"
proof -
  obtain xs where xs: "lru (bufs s) xs" using assms(2) by (auto simp: cache_inv_def)
  have f: "find (\<lambda>b. b_dev (bufs s b) = dv \<and> b_blockno (bufs s b) = n) xs = None"
    using assms(3) xs by (auto simp: find_None_iff cached_def lru_def)
  obtain b0 where "b0 < NBUF" "refs s b0 = 0" using assms(4) by blast
  then have "b0 \<in> set (rev xs)" "b_refcnt (bufs s b0) = 0" using xs by (auto simp: lru_def refs_def unat_eq_0)
  then have "find (\<lambda>b. b_refcnt (bufs s b) = 0) (rev xs) \<noteq> None" by (auto simp: find_None_iff)
  then obtain b where b: "find (\<lambda>b. b_refcnt (bufs s b) = 0) (rev xs) = Some b" by blast
  then have "b_refcnt (bufs s b) = 0" "b \<in> set (rev xs)" by (auto dest: find_SomeD)
  then have bn: "b < NBUF" "refs s b = 0" using xs by (auto simp: lru_def refs_def)
  have c: "calm p (recycle dv n b s)" using assms(1) by (simp add: recycle_def lock_simps)
  have "\<not> taken s b" using assms(2) bn by (simp add: cache_inv_def)
  then have "acquiresleep (Buf_lock b) (recycle dv n b s) = Ret () (lock_buf p b (recycle dv n b s))"
    using acquiresleep_free [OF c, of "Buf_lock b"] by (simp add: lock_buf_def taken_def recycle_def)
  then have "bget dv n s = Ret b (lock_buf p b (recycle dv n b s))"
    using assms(1) c kscan_next [of "enter Bcache_lock s" xs] kscan_prev [of "enter Bcache_lock s" xs] xs f b
    by (simp add: bget_def calm_acquire lock_simps calm_release [where p = p] recycle_def)
  with bn show ?thesis by blast
qed

text \<open>When a cached block is locked, the caller sleeps; when every buffer is in use, the kernel panics.\<close>

lemma bget_no_buffers:
  assumes "calm p s" and "cache_inv dv s" and "\<And>b. \<not> cached dv n b s" and "\<forall>b < NBUF. refs s b \<noteq> 0"
  shows "bget dv n s = Panic ''bget: no buffers''"
proof -
  obtain xs where xs: "lru (bufs s) xs" using assms(2) by (auto simp: cache_inv_def)
  have "find (\<lambda>b. b_dev (bufs s b) = dv \<and> b_blockno (bufs s b) = n) xs = None"
    using assms(3) xs by (auto simp: find_None_iff cached_def lru_def)
  moreover have "find (\<lambda>b. b_refcnt (bufs s b) = 0) (rev xs) = None"
    using assms(4) xs by (auto simp: find_None_iff lru_def refs_def)
  ultimately show ?thesis
    using assms(1) kscan_next [of "enter Bcache_lock s" xs] kscan_prev [of "enter Bcache_lock s" xs] xs
    by (simp add: bget_def calm_acquire lock_simps)
qed

lemma disk_ok_upd [lock_simps]:
  "disk_ok cap (s\<lparr>bufs := bs\<rparr>) = disk_ok cap s" "disk_ok cap (s\<lparr>sleeplk := sl\<rparr>) = disk_ok cap s"
  "disk_ok cap (s\<lparr>procs := ps\<rparr>) = disk_ok cap s"
  by (simp_all add: disk_ok_def)

lemma unat_suc: "unat (x :: u32) < 2 ^ 31 \<Longrightarrow> unat (x + 1) = unat x + 1"
  by (simp add: unat_word_ariths)

text \<open>How one call changes the references, locks and keys of the buffers.\<close>

lemma lock_ref_fields:
  fixes s :: "'z vdisk_scheme" and p :: nat
  assumes "refs s b < 2 ^ 31"
  defines "t \<equiv> lock_buf p b (ref_buf b s)"
  shows "refs t = (refs s)(b := refs s b + 1)" "taken t c \<longleftrightarrow> c = b \<or> taken s c" "cached dv n c t = cached dv n c s"
    "b_valid (bufs t c) = b_valid (bufs s c)" "dma t = dma s" "procs t = procs s" "b_blockno (bufs t c) = b_blockno (bufs s c)"
    "b_dev (bufs t c) = b_dev (bufs s c)" "lru (bufs t) = lru (bufs s)"
    "sl_pid (sleeplk t (Buf_lock b)) = p_pid (procs s p)"
  using assms(1) unat_suc [of "b_refcnt (bufs s b)"]
  by (auto simp: t_def lock_buf_def ref_buf_def refs_def taken_def cached_def fun_eq_iff lru_upd)

lemma lock_ref_inv:
  assumes "cache_ok dv cap p s" and "cached dv n b s" and "refs s b < 2 ^ 31"
  defines "t \<equiv> lock_buf p b (ref_buf b s)"
  shows "cache_ok dv cap p t" and "content dv t m = content dv s m" and "bio_frame p s t"
proof -
  note f = lock_ref_fields [OF assms(3), where p = p, folded t_def]
  have "calm p t" "disk_ok cap t"
    using assms(1) by (simp_all add: cache_ok_def t_def lock_buf_def ref_buf_def lock_simps)
  moreover have "cache_inv dv t"
    using assms(1) unfolding cache_ok_def cache_inv_def by (simp add: f disk_now_def)
  ultimately show "cache_ok dv cap p t" by (simp add: cache_ok_def)
  show "content dv t m = content dv s m" by (simp add: content_def f disk_now_def split: option.split)
  show "bio_frame p s t" by (rule bio_frameI) (simp_all add: t_def lock_buf_def ref_buf_def)
qed

lemma recycle_fields:
  fixes s :: "'z vdisk_scheme" and p b :: nat and dv n :: u32
  defines "t \<equiv> lock_buf p b (recycle dv n b s)"
  shows "refs t = (refs s)(b := 1)" "taken t c \<longleftrightarrow> c = b \<or> taken s c"
    "b_valid (bufs t c) = (if c = b then 0 else b_valid (bufs s c))" "dma t = dma s" "procs t = procs s"
    "b_blockno (bufs t c) = (if c = b then n else b_blockno (bufs s c))"
    "b_dev (bufs t c) = (if c = b then dv else b_dev (bufs s c))" "lru (bufs t) = lru (bufs s)"
    "sl_pid (sleeplk t (Buf_lock b)) = p_pid (procs s p)"
  by (auto simp: t_def lock_buf_def recycle_def refs_def taken_def fun_eq_iff lru_upd)

lemma recycle_inv:
  assumes ok: "cache_ok dv cap p s" and no: "\<And>b. \<not> cached dv n b s" and b: "b < NBUF" "refs s b = 0"
  defines "t \<equiv> lock_buf p b (recycle dv n b s)"
  shows "cache_ok dv cap p t" and "content dv t m = content dv s m" and "bio_frame p s t"
proof -
  note f = recycle_fields [where p = p and b = b and dv = dv and n = n and s = s, folded t_def]
  have inv: "cache_inv dv s" using ok by (simp add: cache_ok_def)
  have "calm p t" "disk_ok cap t"
    using ok by (simp_all add: cache_ok_def t_def lock_buf_def recycle_def lock_simps)
  moreover have cinv: "cache_inv dv t"
    using inv no b unfolding cache_inv_def cached_def by (auto simp: f disk_now_def)
  ultimately show "cache_ok dv cap p t" by (simp add: cache_ok_def)
  have ct: "cached dv k c t \<longleftrightarrow> (if c = b then k = n else cached dv k c s)" for k c
    using b by (auto simp: cached_def f)
  show "content dv t m = content dv s m"
  proof (cases "\<exists>c. c \<noteq> b \<and> cached dv m c s \<and> b_valid (bufs s c) \<noteq> 0")
    case True
    then obtain c where c: "c \<noteq> b" "cached dv m c s" "b_valid (bufs s c) \<noteq> 0" by blast
    then show ?thesis
      using content_hit [OF inv c(2,3)] content_hit [OF cinv, of m c] by (simp add: ct f)
  next
    case False
    have "content dv t m = dblock (disk_now t) (unat m)"
      using False by (intro content_miss) (auto simp: ct f split: if_splits)
    moreover have "content dv s m = dblock (disk_now s) (unat m)"
    proof (cases "cached dv m b s")
      case True
      then show ?thesis
        using inv b by (intro content_free) (auto simp: cache_inv_def)
    next
      case no_b: False
      then show ?thesis using False by (intro content_miss) metis
    qed
    ultimately show ?thesis by (simp add: disk_now_def f)
  qed
  show "bio_frame p s t" by (rule bio_frameI) (simp_all add: t_def lock_buf_def recycle_def)
qed

text \<open>Reading the block into a buffer that the caller holds.\<close>

definition filled :: "nat \<Rightarrow> nat \<Rightarrow> 'z vdisk_scheme \<Rightarrow> 'z vdisk_scheme" where
  "filled p b s = (after_rw p b False s)\<lparr>bufs := (bufs (after_rw p b False s))(b := (bufs (after_rw p b False s) b)\<lparr>b_valid := 1\<rparr>)\<rparr>"

lemma after_rw_keys:
  "refs (after_rw p b w s) = refs s" "taken (after_rw p b w s) = taken s"
  "b_valid (bufs (after_rw p b w s) c) = b_valid (bufs s c)" "b_blockno (bufs (after_rw p b w s) c) = b_blockno (bufs s c)"
  "b_dev (bufs (after_rw p b w s) c) = b_dev (bufs s c)" "lru (bufs (after_rw p b w s)) = lru (bufs s)"
  "cached dv n c (after_rw p b w s) = cached dv n c s" "procs (after_rw p b w s) p = procs s p"
  "sleeplk (after_rw p b w s) = sleeplk s"
  by (auto simp: after_rw_def refs_def taken_def fun_eq_iff lru_upd cached_def)

lemma filled_fields:
  fixes s :: "'z vdisk_scheme" and p b :: nat
  assumes "unat (b_blockno (bufs s b)) < 2 ^ 31"
  defines "t \<equiv> filled p b s"
  shows "refs t = refs s" "taken t = taken s" "b_valid (bufs t c) = (if c = b then 1 else b_valid (bufs s c))"
    "b_blockno (bufs t c) = b_blockno (bufs s c)" "b_dev (bufs t c) = b_dev (bufs s c)" "lru (bufs t) = lru (bufs s)"
    "cached dv n c t = cached dv n c s" "procs t p = procs s p" "sleeplk t = sleeplk s" "platter (dma t) = platter (dma s)"
    "q_data (dma t) = (q_data (dma s))(b := dblock (disk_now s) (unat (b_blockno (bufs s b))))"
  using assms(1)
  by (auto simp: t_def filled_def refs_def taken_def fun_eq_iff lru_upd cached_def after_rw_def finished_fields disk_now_def)

lemma bio_frame_after_rw: "bio_frame p s (after_rw p b w s)"
  by (rule bio_frameI) (simp_all add: after_rw_def)

lemma bio_frame_bufs: "bio_frame p s t \<Longrightarrow> bio_frame p s (t\<lparr>bufs := bs\<rparr>)"
  by (erule bio_frame_trans) (rule bio_frameI, simp_all)

lemma filled_inv:
  assumes ok: "cache_ok dv cap p s" and b: "cached dv n b s" "b_valid (bufs s b) = 0" and n: "unat n < 2 ^ 31"
  defines "t \<equiv> filled p b s"
  shows "cache_ok dv cap p t" and "content dv t m = content dv s m" and "bio_frame p s t"
proof -
  have bn: "b_blockno (bufs s b) = n" and bl: "b < NBUF" using b(1) by (simp_all add: cached_def)
  note f = filled_fields [where p = p and b = b and s = s, folded t_def, unfolded bn, OF n]
  have inv: "cache_inv dv s" using ok by (simp add: cache_ok_def)
  have dn: "disk_now t = disk_now s" by (simp add: disk_now_def f)
  have "calm p t" "disk_ok cap t"
    using ok n bn by (simp_all add: cache_ok_def t_def filled_def lock_simps after_rw_calm after_rw_ok)
  moreover have cinv: "cache_inv dv t"
    using inv b n unfolding cache_inv_def by (auto simp: f dn bn)
  ultimately show "cache_ok dv cap p t" by (simp add: cache_ok_def)
  show "content dv t m = content dv s m"
  proof (cases "\<exists>c. cached dv m c s \<and> c \<noteq> b \<and> b_valid (bufs s c) \<noteq> 0")
    case True
    then obtain c where "cached dv m c s" "c \<noteq> b" "b_valid (bufs s c) \<noteq> 0" by blast
    then show ?thesis using content_hit [OF inv, of m c] content_hit [OF cinv, of m c] by (simp add: f)
  next
    case False
    have "content dv s m = dblock (disk_now s) (unat m)"
      using False b(2) by (intro content_miss) metis
    moreover have "content dv t m = dblock (disk_now t) (unat m)"
    proof (cases "cached dv m b s")
      case True
      then show ?thesis using content_hit [OF cinv, of m b] bn by (simp add: f dn cached_def)
    next
      case no_b: False
      then show ?thesis using False by (intro content_miss) (auto simp: f)
    qed
    ultimately show ?thesis by (simp add: dn)
  qed
  show "bio_frame p s t"
    unfolding t_def filled_def by (intro bio_frame_bufs bio_frame_after_rw)
qed

text \<open>A buffer that a call leaves alone.\<close>

definition keeps :: "'z vdisk_scheme \<Rightarrow> 'z vdisk_scheme \<Rightarrow> nat \<Rightarrow> bool" where
  "keeps s t c \<longleftrightarrow> b_dev (bufs t c) = b_dev (bufs s c) \<and> b_blockno (bufs t c) = b_blockno (bufs s c)
     \<and> b_valid (bufs t c) = b_valid (bufs s c) \<and> refs t c = refs s c \<and> q_data (dma t) c = q_data (dma s) c
     \<and> sleeplk t (Buf_lock c) = sleeplk s (Buf_lock c)"

lemma keeps_trans: "keeps s t c \<Longrightarrow> keeps t u c \<Longrightarrow> keeps s u c"
  by (simp add: keeps_def)

lemma holds_keeps:
  "holds p dv n c s \<Longrightarrow> keeps s t c \<Longrightarrow> procs t p = procs s p \<Longrightarrow> holds p dv n c t"
  by (simp add: holds_def keeps_def cached_def taken_def)

definition gets :: "u32 \<Rightarrow> nat \<Rightarrow> u32 \<Rightarrow> nat \<Rightarrow> 'z vdisk_scheme \<Rightarrow> 'z vdisk_scheme \<Rightarrow> bool" where
  "gets dv p n b s t \<longleftrightarrow> holds p dv n b t \<and> bio_frame p s t \<and> content dv t = content dv s
     \<and> platter (dma t) = platter (dma s) \<and> refs t b = refs s b + 1 \<and> (cached dv n b s \<or> refs s b = 0)
     \<and> (\<forall>c. c \<noteq> b \<longrightarrow> keeps s t c)"

text \<open>
  \<open>bread\<close> returns the block when no other process has it locked and there is a buffer for it: the
  content of the block in a buffer that the caller alone holds.
\<close>

lemma bread_gets:
  assumes ok: "cache_ok dv cap p s" and n: "unat n < 2 ^ 31" "2 * unat n + 2 \<le> cap"
    and free: "\<And>b. cached dv n b s \<Longrightarrow> \<not> taken s b" and few: "\<And>b. b < NBUF \<Longrightarrow> refs s b < 2 ^ 31"
    and room: "(\<exists>b. cached dv n b s) \<or> (\<exists>b < NBUF. refs s b = 0)"
  shows "\<exists>b t. bread dv n s = Ret b t \<and> cache_ok dv cap p t \<and> gets dv p n b s t"
proof -
  have calm: "calm p s" and inv: "cache_inv dv s" using ok by (simp_all add: cache_ok_def)
  have "\<exists>b u. bget dv n s = Ret b u \<and> cache_ok dv cap p u \<and> cached dv n b u \<and> taken u b \<and> 0 < refs u b
      \<and> sl_pid (sleeplk u (Buf_lock b)) = p_pid (procs s p) \<and> bio_frame p s u \<and> content dv u = content dv s
      \<and> dma u = dma s \<and> procs u = procs s \<and> refs u b = refs s b + 1 \<and> (cached dv n b s \<or> refs s b = 0)
      \<and> (\<forall>c. c \<noteq> b \<longrightarrow> keeps s u c)"
  proof (cases "\<exists>b. cached dv n b s")
    case True
    then obtain b where b: "cached dv n b s" by blast
    then have r: "refs s b < 2 ^ 31" using few by (simp add: cached_def)
    let ?u = "lock_buf p b (ref_buf b s)"
    have "bget dv n s = Ret b ?u" using bget_hit [OF calm inv b] free [OF b] by simp
    moreover have "\<forall>c. c \<noteq> b \<longrightarrow> keeps s ?u c"
      by (auto simp: keeps_def lock_ref_fields [OF r]) (simp add: lock_buf_def ref_buf_def)
    ultimately show ?thesis
      using lock_ref_inv [OF ok b r] b by (auto simp: lock_ref_fields [OF r] fun_eq_iff)
  next
    case False
    then obtain b where b: "b < NBUF" "refs s b = 0" "bget dv n s = Ret b (lock_buf p b (recycle dv n b s))"
      using bget_miss [OF calm inv, of n] room by blast
    let ?u = "lock_buf p b (recycle dv n b s)"
    have "\<forall>c. c \<noteq> b \<longrightarrow> keeps s ?u c"
      by (auto simp: keeps_def recycle_fields) (simp add: lock_buf_def recycle_def)
    then show ?thesis
      using recycle_inv [OF ok _ b(1,2), of n] False b by (auto simp: recycle_fields cached_def fun_eq_iff)
  qed
  then obtain b u where u: "bget dv n s = Ret b u" "cache_ok dv cap p u" "cached dv n b u" "taken u b" "0 < refs u b"
      "sl_pid (sleeplk u (Buf_lock b)) = p_pid (procs s p)" "bio_frame p s u" "content dv u = content dv s"
      "dma u = dma s" "procs u = procs s" "refs u b = refs s b + 1" "cached dv n b s \<or> refs s b = 0"
      "\<forall>c. c \<noteq> b \<longrightarrow> keeps s u c" by blast
  show ?thesis
  proof (cases "b_valid (bufs u b) = 0")
    case True
    have bn: "b_blockno (bufs u b) = n" "b < NBUF" using u(3) by (simp_all add: cached_def)
    let ?t = "filled p b u"
    note f = filled_fields [where p = p and b = b and s = u, unfolded bn, OF n(1)]
    have "disk_rw b False u = Ret () (after_rw p b False u)"
      using u(2) bn n by (intro disk_rw_eq) (simp_all add: cache_ok_def cache_inv_def)
    then have "bread dv n s = Ret b ?t"
      using u(1) True by (simp add: bread_def filled_def)
    moreover have "keeps s ?t c" if "c \<noteq> b" for c
      using u(13) that by (simp add: keeps_def f)
    ultimately show ?thesis
      using filled_inv [OF u(2,3) True n(1)] u
      by (intro exI [of _ b] exI [of _ ?t]) (auto simp: gets_def holds_def f fun_eq_iff intro: bio_frame_trans)
  next
    case False
    then have "bread dv n s = Ret b u" using u(1) by (simp add: bread_def)
    then show ?thesis using u False by (auto simp: gets_def holds_def)
  qed
qed

text \<open>\<open>bwrite\<close> makes the disk agree with the buffer; no other block and no buffer changes.\<close>

lemma holdingsleep_holds:
  "calm p s \<Longrightarrow> holds p dv n b s \<Longrightarrow> holdingsleep (Buf_lock b) s = Ret True s"
  by (simp add: holdingsleep_calm holds_def taken_def)

lemma disk_now_write:
  assumes "unat (b_blockno (bufs s b)) < 2 ^ 31" and "length (q_data (dma s) b) = BSIZE"
  shows "dblock (disk_now (after_rw p b True s)) m =
      (if m = unat (b_blockno (bufs s b)) then q_data (dma s) b else dblock (disk_now s) m)"
  using assms by (simp add: disk_now_def after_rw_def finished_fields dblock_dput)

lemma bwrite_ok:
  assumes ok: "cache_ok dv cap p s" and h: "holds p dv n b s" and n: "unat n < 2 ^ 31" "2 * unat n + 2 \<le> cap"
  defines "t \<equiv> after_rw p b True s"
  shows "bwrite b s = Ret () t" and "cache_ok dv cap p t" and "bio_frame p s t" and "content dv t = content dv s"
    and "platter (dma t) = dput (disk_now s) (unat n) (q_data (dma s) b) # platter (dma s)" and "keeps s t c"
    and "dblock (disk_now t) m = (if m = unat n then q_data (dma s) b else dblock (disk_now s) m)"
proof -
  have inv: "cache_inv dv s" and calm: "calm p s" using ok by (simp_all add: cache_ok_def)
  have bn: "b_blockno (bufs s b) = n" "b < NBUF" "b_dev (bufs s b) = dv" "b_valid (bufs s b) \<noteq> 0" "0 < refs s b"
    using h by (simp_all add: holds_def cached_def)
  have len: "length (q_data (dma s) b) = BSIZE" using inv bn by (simp add: cache_inv_def)
  have dn: "dblock (disk_now t) m = (if m = unat n then q_data (dma s) b else dblock (disk_now s) m)" for m
    using disk_now_write [of s b] n bn len by (simp add: t_def)
  have qd: "q_data (dma t) = q_data (dma s)"
    using n bn by (simp add: t_def after_rw_def finished_fields)
  show "dblock (disk_now t) m = (if m = unat n then q_data (dma s) b else dblock (disk_now s) m)" by (rule dn)
  show "bwrite b s = Ret () t"
    using disk_rw_eq [OF calm, of cap b] ok n bn len holdingsleep_holds [OF calm h]
    by (simp add: bwrite_def t_def cache_ok_def)
  show "bio_frame p s t" by (simp add: t_def bio_frame_after_rw)
  show "platter (dma t) = dput (disk_now s) (unat n) (q_data (dma s) b) # platter (dma s)"
    using n bn by (simp add: t_def after_rw_def finished_fields disk_now_def)
  show "keeps s t c" using qd by (simp add: keeps_def t_def after_rw_keys)
  have u: "unat (b_blockno (bufs s c)) \<noteq> unat n" if "c < NBUF" "c \<noteq> b" "b_dev (bufs s c) = dv" for c
    using inv bn that unfolding cache_inv_def cached_def word_unat_eq_iff [symmetric] by blast
  have cinv: "cache_inv dv t"
  proof -
    have "q_data (dma s) c = dblock (disk_now t) (unat (b_blockno (bufs s c)))"
      if c: "c < NBUF" "refs s c = 0" "b_dev (bufs s c) = dv" "b_valid (bufs s c) \<noteq> 0" for c
    proof -
      have "c \<noteq> b" using c bn by auto
      then show ?thesis using c inv u [of c] by (simp add: dn cache_inv_def)
    qed
    then show ?thesis using inv unfolding cache_inv_def by (simp add: t_def [symmetric] qd) (simp add: t_def after_rw_keys)
  qed
  then show "cache_ok dv cap p t"
    using ok n bn by (simp add: cache_ok_def t_def after_rw_calm after_rw_ok)
  have k: "b_valid (bufs t c) = b_valid (bufs s c)" "cached dv m c t = cached dv m c s" for c m
    by (simp_all add: t_def after_rw_keys)
  show "content dv t = content dv s"
  proof
    fix m
    show "content dv t m = content dv s m"
    proof (cases "\<exists>c. cached dv m c s \<and> b_valid (bufs s c) \<noteq> 0")
      case True
      then obtain c where "cached dv m c s" "b_valid (bufs s c) \<noteq> 0" by blast
      then show ?thesis using content_hit [OF inv, of m c] content_hit [OF cinv, of m c] by (simp add: k qd)
    next
      case False
      then have "m \<noteq> n" using bn by (auto simp: cached_def)
      then have "unat m \<noteq> unat n" by (simp add: word_unat_eq_iff)
      then show ?thesis
        using False content_miss [of dv m s] content_miss [of dv m t] by (auto simp: k dn)
    qed
  qed
qed

text \<open>The holder of a buffer changes its data.\<close>

lemma set_bdata_ok:
  assumes ok: "cache_ok dv cap p s" and h: "holds p dv n b s" and len: "length (f (bdata s b)) = BSIZE"
  shows "\<exists>t. set_bdata b f s = Ret () t \<and> cache_ok dv cap p t \<and> bio_frame p s t \<and> holds p dv n b t
      \<and> content dv t = (content dv s)(n := f (bdata s b)) \<and> platter (dma t) = platter (dma s) \<and> refs t = refs s
      \<and> q_data (dma t) b = f (bdata s b) \<and> (\<forall>c. c \<noteq> b \<longrightarrow> keeps s t c)"
proof -
  let ?t = "s\<lparr>dma := (dma s)\<lparr>q_data := (q_data (dma s))(b := f (q_data (dma s) b))\<rparr>\<rparr>"
  have inv: "cache_inv dv s" using ok by (simp add: cache_ok_def)
  have b: "b < NBUF" "b_dev (bufs s b) = dv" "b_blockno (bufs s b) = n" "b_valid (bufs s b) \<noteq> 0" "0 < refs s b"
    using h by (simp_all add: holds_def cached_def)
  have r: "refs ?t = refs s" "cached dv m c ?t = cached dv m c s" "taken ?t = taken s" "disk_now ?t = disk_now s" for m c
    by (simp_all add: refs_def fun_eq_iff cached_def taken_def disk_now_def)
  have cinv: "cache_inv dv ?t"
    using inv b len unfolding cache_inv_def by (auto simp: r bdata_def)
  have "content dv ?t m = ((content dv s)(n := f (bdata s b))) m" for m
  proof (cases "\<exists>c. cached dv m c s \<and> b_valid (bufs s c) \<noteq> 0")
    case True
    then obtain c where c: "cached dv m c s" "b_valid (bufs s c) \<noteq> 0" by blast
    have "m = n \<longleftrightarrow> c = b" using inv b c unfolding cache_inv_def cached_def by blast
    then show ?thesis
      using content_hit [OF inv c] content_hit [OF cinv, of m c] c by (simp add: r bdata_def)
  next
    case False
    then have "m \<noteq> n" using b by (auto simp: cached_def)
    then show ?thesis
      using False content_miss [of dv m s] content_miss [of dv m ?t] by (auto simp: r)
  qed
  moreover have "disk_ok cap ?t" using ok by (simp add: cache_ok_def disk_ok_def)
  moreover have "bio_frame p s ?t" by (rule bio_frameI) simp_all
  ultimately show ?thesis
    using ok h cinv by (intro exI [of _ ?t]) (auto simp: set_bdata_def cache_ok_def lock_simps holds_def r keeps_def bdata_def fun_eq_iff)
qed

lemma unat_pred: "(x :: u32) \<noteq> 0 \<Longrightarrow> unat (x - 1) = unat x - 1"
  by (simp add: unat_minus_one)

text \<open>Another reference count for one buffer, with every other key as before.\<close>

lemma refs_only:
  assumes ok: "cache_ok dv cap p s" and b: "b < NBUF"
    and t: "calm p t" "disk_ok cap t" "dma t = dma s" "\<exists>xs. lru (bufs t) xs" "refs t b = k"
      "\<And>c. b_dev (bufs t c) = b_dev (bufs s c) \<and> b_blockno (bufs t c) = b_blockno (bufs s c) \<and> b_valid (bufs t c) = b_valid (bufs s c)"
      "\<And>c. c \<noteq> b \<Longrightarrow> refs t c = refs s c \<and> taken t c = taken s c"
    and clean: "k = 0 \<Longrightarrow> \<not> taken t b \<and> (b_dev (bufs s b) = dv \<and> b_valid (bufs s b) \<noteq> 0 \<longrightarrow>
        q_data (dma s) b = dblock (disk_now s) (unat (b_blockno (bufs s b))))"
  shows "cache_ok dv cap p t" and "content dv t = content dv s"
proof -
  have inv: "cache_inv dv s" using ok by (simp add: cache_ok_def)
  have dn: "disk_now t = disk_now s" by (simp add: disk_now_def t(3))
  have ch: "cached dv n c t = cached dv n c s" for n c by (simp add: cached_def t(6))
  have "\<forall>c < NBUF. refs t c = 0 \<longrightarrow> \<not> taken t c"
    using inv clean t(5,7) unfolding cache_inv_def by metis
  moreover have "\<forall>c < NBUF. refs t c = 0 \<and> b_dev (bufs t c) = dv \<and> b_valid (bufs t c) \<noteq> 0
          \<longrightarrow> q_data (dma t) c = dblock (disk_now t) (unat (b_blockno (bufs t c)))"
    using inv clean t(3,5,6,7) unfolding cache_inv_def dn by metis
  ultimately have "cache_inv dv t"
    using inv t(3,4) unfolding cache_inv_def by (simp add: ch)
  then show "cache_ok dv cap p t" using t(1,2) by (simp add: cache_ok_def)
  show "content dv t = content dv s"
    by (auto simp: fun_eq_iff content_def t(3,6) disk_now_def split: option.split)
qed

lemma brelse_ok:
  assumes ok: "cache_ok dv cap p s" and h: "holds p dv n b s"
    and clean: "refs s b = 1 \<Longrightarrow> q_data (dma s) b = dblock (disk_now s) (unat n)"
  shows "\<exists>t. brelse b s = Ret () t \<and> cache_ok dv cap p t \<and> bio_frame p s t \<and> content dv t = content dv s
      \<and> dma t = dma s \<and> refs t b = refs s b - 1 \<and> \<not> taken t b \<and> cached dv n b t \<and> b_valid (bufs t b) \<noteq> 0
      \<and> (\<forall>c. c \<noteq> b \<longrightarrow> keeps s t c)"
proof -
  have calm: "calm p s" using ok by (simp add: cache_ok_def)
  have b: "b < NBUF" "b_dev (bufs s b) = dv" "b_blockno (bufs s b) = n" "b_valid (bufs s b) \<noteq> 0" "0 < refs s b"
    using h by (simp_all add: holds_def cached_def)
  then have nz: "b_refcnt (bufs s b) \<noteq> 0" by (auto simp: refs_def)
  define u where "u = s\<lparr>sleeplk := (sleeplk s)(Buf_lock b := (sleeplk s (Buf_lock b))\<lparr>sl_locked := 0, sl_pid := 0\<rparr>),
    procs := woken (Some (Chan_sleeplock (Buf_lock b))) (Some p) (procs s)\<rparr>"
  define bs where "bs = (bufs s)(b := (bufs s b)\<lparr>b_refcnt := b_refcnt (bufs s b) - 1\<rparr>)"
  define bs' where "bs' = (if b_refcnt (bs b) = 0 then link_front b (unlink_buf b bs) else bs)"
  let ?t = "u\<lparr>bufs := bs'\<rparr>"
  have cu: "calm p u" using calm by (simp add: u_def lock_simps calm_procs)
  have run: "brelse b s = Ret () ?t"
    using calm cu holdingsleep_holds [OF calm h] releasesleep_calm [OF calm, of "Buf_lock b"]
    by (simp add: brelse_def u_def [symmetric] calm_acquire lock_simps calm_release [where p = p] bs'_def bs_def)
      (simp add: u_def)
  have key: "bkey (bs' c) = bkey (bs c)" for c by (simp add: bs'_def bkey_move_front)
  have "\<exists>xs. lru bs xs" using ok by (auto simp: cache_ok_def cache_inv_def bs_def lru_upd)
  then have lru: "\<exists>xs. lru bs' xs" using lru_move_front [OF _ b(1)] by (auto simp: bs'_def)
  have k: "b_dev (bs' c) = b_dev (bufs s c)" "b_blockno (bs' c) = b_blockno (bufs s c)" "b_valid (bs' c) = b_valid (bufs s c)"
    "b_refcnt (bs' c) = (if c = b then b_refcnt (bufs s b) - 1 else b_refcnt (bufs s c))" for c
    using bkeyD [OF key [of c]] by (simp_all add: bs_def)
  have rb: "refs ?t b = refs s b - 1" using nz by (simp add: refs_def k unat_pred)
  have "cache_ok dv cap p ?t \<and> content dv ?t = content dv s"
    using cu ok lru rb b clean
    by (intro conjI refs_only [OF ok b(1), of ?t "refs s b - 1"])
      (auto simp: lock_simps k refs_def u_def taken_def cache_ok_def disk_ok_def)
  moreover have "bio_frame p s ?t" by (rule bio_frameI) (simp_all add: u_def)
  moreover have "keeps s ?t c" if "c \<noteq> b" for c using that by (simp add: keeps_def k refs_def u_def)
  ultimately show ?thesis
    using run rb b by (intro exI [of _ ?t]) (auto simp: u_def taken_def cached_def k)
qed

lemma bpin_ok:
  assumes ok: "cache_ok dv cap p s" and b: "b < NBUF" "refs s b < 2 ^ 31"
  shows "\<exists>t. bpin b s = Ret () t \<and> cache_ok dv cap p t \<and> bio_frame p s t \<and> content dv t = content dv s
      \<and> dma t = dma s \<and> sleeplk t = sleeplk s \<and> procs t = procs s \<and> refs t = (refs s)(b := refs s b + 1)
      \<and> (\<forall>c. b_dev (bufs t c) = b_dev (bufs s c) \<and> b_blockno (bufs t c) = b_blockno (bufs s c) \<and> b_valid (bufs t c) = b_valid (bufs s c))"
proof -
  let ?t = "ref_buf b s"
  have calm: "calm p s" using ok by (simp add: cache_ok_def)
  have c: "calm p ?t" using calm by (simp add: ref_buf_def lock_simps)
  have "bpin b s = Ret () ?t"
    using calm c by (simp add: bpin_def calm_acquire lock_simps calm_release [where p = p] ref_buf_def)
  moreover have r: "refs ?t = (refs s)(b := refs s b + 1)"
    using b(2) unat_suc [of "b_refcnt (bufs s b)"] by (auto simp: ref_buf_def refs_def fun_eq_iff)
  moreover have "cache_ok dv cap p ?t \<and> content dv ?t = content dv s"
    using c ok b r
    by (intro conjI refs_only [OF ok b(1), of ?t "refs s b + 1"])
      (auto simp: cache_ok_def disk_ok_def cache_inv_def lru_upd taken_def ref_buf_def)
  moreover have "bio_frame p s ?t" by (rule bio_frameI) (simp_all add: ref_buf_def)
  ultimately show ?thesis by (intro exI [of _ ?t]) (simp add: ref_buf_def)
qed

lemma bunpin_ok:
  assumes ok: "cache_ok dv cap p s" and b: "b < NBUF" "1 < refs s b"
  shows "\<exists>t. bunpin b s = Ret () t \<and> cache_ok dv cap p t \<and> bio_frame p s t \<and> content dv t = content dv s
      \<and> dma t = dma s \<and> sleeplk t = sleeplk s \<and> procs t = procs s \<and> refs t = (refs s)(b := refs s b - 1)
      \<and> (\<forall>c. b_dev (bufs t c) = b_dev (bufs s c) \<and> b_blockno (bufs t c) = b_blockno (bufs s c) \<and> b_valid (bufs t c) = b_valid (bufs s c))"
proof -
  let ?t = "s\<lparr>bufs := (bufs s)(b := (bufs s b)\<lparr>b_refcnt := b_refcnt (bufs s b) - 1\<rparr>)\<rparr>"
  have calm: "calm p s" using ok by (simp add: cache_ok_def)
  have c: "calm p ?t" using calm by (simp add: lock_simps)
  have nz: "b_refcnt (bufs s b) \<noteq> 0" using b(2) by (auto simp: refs_def)
  have "bunpin b s = Ret () ?t"
    using calm c by (simp add: bunpin_def calm_acquire lock_simps calm_release [where p = p])
  moreover have r: "refs ?t = (refs s)(b := refs s b - 1)"
    using nz by (auto simp: refs_def fun_eq_iff unat_pred)
  moreover have "cache_ok dv cap p ?t \<and> content dv ?t = content dv s"
    using c ok b r
    by (intro conjI refs_only [OF ok b(1), of ?t "refs s b - 1"])
      (auto simp: cache_ok_def disk_ok_def cache_inv_def lru_upd taken_def)
  moreover have "bio_frame p s ?t" by (rule bio_frameI) simp_all
  ultimately show ?thesis by (intro exI [of _ ?t]) simp
qed

end
