(* ===== verification/Blocks.thy ===== *)
theory Blocks
  imports Cache
begin

text \<open>
  The buffer cache as its clients see it: a set of blocks that are pinned, a set of blocks that the process
  holds, the content of every block, and the history of the disk. The locale \<open>block_cache\<close> states the laws
  of the operations in these terms; the clients' lemmas on copying blocks are proved in it once. The
  operations of \<open>Bio\<close> are its interpretation.
\<close>

section \<open>The view of a client\<close>

definition steady :: "u32 \<Rightarrow> nat \<Rightarrow> nat \<Rightarrow> u32 set \<Rightarrow> u32 set \<Rightarrow> 'z vdisk_scheme \<Rightarrow> bool" where
  "steady dv cap p pin held s \<longleftrightarrow> cache_ok dv cap p s \<and> finite (pin \<union> held) \<and> card (pin \<union> held) \<le> NBUF
     \<and> (\<forall>b < NBUF. refs s b = (if b_dev (bufs s b) = dv \<and> b_blockno (bufs s b) \<in> pin then 1 else 0)
          + (if b_dev (bufs s b) = dv \<and> b_blockno (bufs s b) \<in> held then 1 else 0))
     \<and> (\<forall>b < NBUF. taken s b \<longrightarrow> b_dev (bufs s b) = dv \<and> b_blockno (bufs s b) \<in> held)
     \<and> (\<forall>n \<in> pin. \<exists>b. cached dv n b s \<and> b_valid (bufs s b) \<noteq> 0)
     \<and> (\<forall>n \<in> held. \<exists>b. holds p dv n b s)"

definition in_range :: "nat \<Rightarrow> u32 \<Rightarrow> bool" where
  "in_range cap n \<longleftrightarrow> unat n < 2 ^ 31 \<and> 2 * unat n + 2 \<le> cap"

lemma steadyD:
  assumes "steady dv cap p pin held s"
  shows "cache_ok dv cap p s" and "cache_inv dv s" and "calm p s" and "\<And>b. b < NBUF \<Longrightarrow> refs s b \<le> 2"
    and "\<And>b n. cached dv n b s \<Longrightarrow> refs s b = (if n \<in> pin then 1 else 0) + (if n \<in> held then 1 else 0)"
  using assms by (auto simp: steady_def cache_ok_def cached_def)

lemma steady_cached_unique: "steady dv cap p pin held s \<Longrightarrow> cached dv n b s \<Longrightarrow> cached dv n c s \<Longrightarrow> b = c"
  by (auto simp: steady_def cache_ok_def cache_inv_def)

lemma steady_held: "steady dv cap p pin held s \<Longrightarrow> n \<in> held \<Longrightarrow> cached dv n b s \<Longrightarrow> holds p dv n b s"
  by (metis holds_def steady_cached_unique steady_def)

lemma steady_content:
  assumes "steady dv cap p pin held s" and "n \<in> held" and "cached dv n b s"
  shows "content dv s n = bdata s b"
  using content_hit [OF steadyD(2) [OF assms(1)] assms(3)] steady_held [OF assms] by (simp add: holds_def bdata_def)

text \<open>A block that nobody refers to is on the disk as it is in the cache.\<close>

lemma steady_disk:
  assumes "steady dv cap p pin held s" and "n \<notin> pin \<union> held"
  shows "content dv s n = dblock (disk_now s) (unat n)"
  using assms by (intro content_free [OF steadyD(2)]) (auto simp: steadyD(5))

text \<open>There are more buffers than blocks in use, so one of them is free.\<close>

lemma steady_room:
  assumes st: "steady dv cap p pin held s" and "card (pin \<union> held) < NBUF"
  shows "\<exists>b < NBUF. refs s b = 0"
proof (rule ccontr)
  assume "\<not> ?thesis"
  then have r: "refs s b \<noteq> 0" if "b < NBUF" for b using that by auto
  let ?f = "\<lambda>b. b_blockno (bufs s b)"
  have in_use: "b_dev (bufs s b) = dv \<and> ?f b \<in> pin \<union> held" if "b < NBUF" for b
  proof -
    have "refs s b = (if b_dev (bufs s b) = dv \<and> ?f b \<in> pin then 1 else 0) + (if b_dev (bufs s b) = dv \<and> ?f b \<in> held then 1 else 0)"
      using st that by (simp add: steady_def)
    then show ?thesis using r [OF that] by (auto split: if_splits)
  qed
  have "inj_on ?f {..<NBUF}"
  proof (rule inj_onI)
    fix b c assume "b \<in> {..<NBUF}" "c \<in> {..<NBUF}" "?f b = ?f c"
    then show "b = c"
      using in_use [of b] in_use [of c] by (intro steady_cached_unique [OF st, of "?f b"]) (simp_all add: cached_def)
  qed
  then have "card (?f ` {..<NBUF}) = NBUF" by (simp add: card_image)
  moreover have "?f ` {..<NBUF} \<subseteq> pin \<union> held" using in_use by auto
  ultimately have "NBUF \<le> card (pin \<union> held)"
    using st card_mono [of "pin \<union> held" "?f ` {..<NBUF}"] by (simp add: steady_def)
  with assms(2) show False by simp
qed

section \<open>The laws\<close>

lemma keeps_fields:
  "keeps s t c \<Longrightarrow> cached dv n c t = cached dv n c s \<and> b_dev (bufs t c) = b_dev (bufs s c) \<and> b_blockno (bufs t c) = b_blockno (bufs s c)
     \<and> b_valid (bufs t c) = b_valid (bufs s c) \<and> refs t c = refs s c \<and> taken t c = taken s c"
  by (simp add: keeps_def cached_def taken_def)

text \<open>
  One call that deals with the buffer \<open>b\<close> of block \<open>n\<close> and leaves every other buffer alone.
\<close>

lemma steady_step:
  assumes st: "steady dv cap p pin held s" and ok: "cache_ok dv cap p t" and pr: "procs t p = procs s p"
    and keep: "\<And>c. c \<noteq> b \<Longrightarrow> keeps s t c"
    and b: "cached dv n b t" "b_valid (bufs t b) \<noteq> 0" "cached dv n b s \<or> refs s b = 0"
      "refs t b = (if n \<in> pin' then 1 else 0) + (if n \<in> held' then 1 else 0)"
    and lk: "n \<in> held' \<Longrightarrow> holds p dv n b t" "n \<notin> held' \<Longrightarrow> \<not> taken t b"
    and same: "pin' - {n} = pin - {n}" "held' - {n} = held - {n}"
    and cd: "card (pin' \<union> held') \<le> NBUF"
  shows "steady dv cap p pin' held' t" and "\<forall>m \<in> held \<inter> held'. \<forall>c. cached dv m c s \<longrightarrow> cached dv m c t"
proof -
  have mem: "m \<noteq> n \<Longrightarrow> m \<in> pin' \<longleftrightarrow> m \<in> pin" "m \<noteq> n \<Longrightarrow> m \<in> held' \<longleftrightarrow> m \<in> held" for m
    using same by blast+
  have other: "b_blockno (bufs s c) \<noteq> n" if "c < NBUF" "c \<noteq> b" "b_dev (bufs s c) = dv" for c
  proof
    assume "b_blockno (bufs s c) = n"
    then have "cached dv n c t" using that keeps_fields [OF keep [OF that(2)], of dv n] by (simp add: cached_def)
    then show False using b(1) ok that(2) by (auto simp: cache_ok_def cache_inv_def)
  qed
  have off: "c \<noteq> b" if "m \<in> pin \<union> held" "m \<noteq> n" "cached dv m c s" for m c
    using b(3) steadyD(5) [OF st that(3)] that by (auto simp: cached_def split: if_splits)
  have fin: "finite (pin' \<union> held')"
  proof -
    have "pin' \<union> held' \<subseteq> insert n (pin \<union> held)" using same by blast
    then show ?thesis using st by (auto simp: steady_def intro: finite_subset)
  qed
  have bn: "b_dev (bufs t b) = dv" "b_blockno (bufs t b) = n" using b(1) by (simp_all add: cached_def)
  show "steady dv cap p pin' held' t"
    unfolding steady_def
  proof (intro conjI allI impI ballI)
    fix c assume c: "c < NBUF"
    show "refs t c = (if b_dev (bufs t c) = dv \<and> b_blockno (bufs t c) \<in> pin' then 1 else 0)
          + (if b_dev (bufs t c) = dv \<and> b_blockno (bufs t c) \<in> held' then 1 else 0)"
    proof (cases "c = b")
      case True then show ?thesis using b(4) bn by simp
    next
      case False
      then show ?thesis
        using keeps_fields [OF keep [OF False], of dv n] st c other [OF c False] mem [of "b_blockno (bufs s c)"]
        by (auto simp: steady_def)
    qed
    assume tk: "taken t c"
    show "b_dev (bufs t c) = dv" "b_blockno (bufs t c) \<in> held'"
    proof -
      have "b_dev (bufs t c) = dv \<and> b_blockno (bufs t c) \<in> held'"
      proof (cases "c = b")
        case True then show ?thesis using tk lk(2) bn by auto
      next
        case False
        then show ?thesis
          using keeps_fields [OF keep [OF False], of dv n] st c tk other [OF c False] mem(2) [of "b_blockno (bufs s c)"]
          by (auto simp: steady_def)
      qed
      then show "b_dev (bufs t c) = dv" "b_blockno (bufs t c) \<in> held'" by auto
    qed
  next
    fix m assume m: "m \<in> pin'"
    show "\<exists>b. cached dv m b t \<and> b_valid (bufs t b) \<noteq> 0"
    proof (cases "m = n")
      case True then show ?thesis using b(1,2) by auto
    next
      case False
      then obtain c where c: "cached dv m c s" "b_valid (bufs s c) \<noteq> 0" "m \<in> pin"
        using st m mem(1) [OF False] by (auto simp: steady_def)
      then have "c \<noteq> b" using off [of m c] False by auto
      then show ?thesis using keeps_fields [OF keep, of c dv m] c by auto
    qed
  next
    fix m assume m: "m \<in> held'"
    show "\<exists>b. holds p dv m b t"
    proof (cases "m = n")
      case True then show ?thesis using lk(1) m by auto
    next
      case False
      then obtain c where c: "holds p dv m c s" "m \<in> held"
        using st m mem(2) [OF False] by (auto simp: steady_def)
      then have "c \<noteq> b" using off [of m c] False by (auto simp: holds_def)
      then show ?thesis using holds_keeps [OF c(1) keep pr] by auto
    qed
  qed (use ok fin cd in auto)
  show "\<forall>m \<in> held \<inter> held'. \<forall>c. cached dv m c s \<longrightarrow> cached dv m c t"
  proof (intro ballI allI impI)
    fix m c assume m: "m \<in> held \<inter> held'" "cached dv m c s"
    show "cached dv m c t"
    proof (cases "c = b")
      case True
      then have "m = n" using off [of m c] m by auto
      then show ?thesis using b(1) True by simp
    next
      case False then show ?thesis using keeps_fields [OF keep [OF False], of dv m] m by simp
    qed
  qed
qed

lemma bread_steady:
  assumes st: "steady dv cap p pin held s" and n: "in_range cap n" "n \<notin> held" "n \<in> pin \<or> card (pin \<union> held) < NBUF"
  shows "\<exists>b t. bread dv n s = Ret b t \<and> steady dv cap p pin (insert n held) t \<and> cached dv n b t \<and> bio_frame p s t
      \<and> content dv t = content dv s \<and> platter (dma t) = platter (dma s)
      \<and> (\<forall>m \<in> held. \<forall>c. cached dv m c s \<longrightarrow> cached dv m c t)"
proof -
  have free: "\<not> taken s b" if "cached dv n b s" for b using st that n(2) by (auto simp: steady_def cached_def)
  have room: "(\<exists>b. cached dv n b s) \<or> (\<exists>b < NBUF. refs s b = 0)"
    using st n(3) steady_room [OF st] by (auto simp: steady_def)
  have few: "refs s b < 2 ^ 31" if "b < NBUF" for b
    using steadyD(4) [OF st that] by (rule order.strict_trans1) simp
  obtain b t where t: "bread dv n s = Ret b t" "cache_ok dv cap p t" and g: "gets dv p n b s t"
    using bread_gets [OF steadyD(1) [OF st] _ _ free few room] n(1) by (auto simp: in_range_def)
  have k: "keeps s t c" if "c \<noteq> b" for c using g that by (simp add: gets_def)
  have hb: "holds p dv n b t" and rb: "refs t b = refs s b + 1" and was: "cached dv n b s \<or> refs s b = 0"
    and fr: "bio_frame p s t" using g by (simp_all add: gets_def)
  have "n \<notin> pin" if z: "refs s b = 0" "\<not> cached dv n b s"
  proof
    assume "n \<in> pin"
    then obtain c where c: "cached dv n c s" using st by (auto simp: steady_def)
    then have "c \<noteq> b" using z by auto
    then have "cached dv n c t" using keeps_fields [OF k, of c dv n] c by simp
    then show False using hb t(2) \<open>c \<noteq> b\<close> by (auto simp: cache_ok_def cache_inv_def holds_def)
  qed
  then have rn: "refs s b = (if n \<in> pin then 1 else 0)"
    using was steadyD(5) [OF st, of n b] n(2) by fastforce
  have cd: "card (pin \<union> insert n held) \<le> NBUF"
    using st n(3) by (auto simp: steady_def insert_absorb card_insert_if)
  have "steady dv cap p pin (insert n held) t \<and> (\<forall>m \<in> held \<inter> insert n held. \<forall>c. cached dv m c s \<longrightarrow> cached dv m c t)"
    using hb rb was fr n(2) rn cd
    by (intro conjI steady_step [OF st t(2) _ k, of b]) (auto simp: bio_frame_def holds_def)
  then show ?thesis using t(1) g hb by (intro exI [of _ b] exI [of _ t]) (auto simp: gets_def holds_def)
qed

lemma steady_card: "steady dv cap p pin held s \<Longrightarrow> card (pin \<union> held) \<le> NBUF"
  by (simp add: steady_def)

lemma set_steady:
  assumes st: "steady dv cap p pin held s" and n: "n \<in> held" "cached dv n b s" and len: "length (f (bdata s b)) = BSIZE"
  shows "\<exists>t. set_bdata b f s = Ret () t \<and> steady dv cap p pin held t \<and> bio_frame p s t
      \<and> content dv t = (content dv s)(n := f (content dv s n)) \<and> platter (dma t) = platter (dma s)
      \<and> (\<forall>m \<in> held. \<forall>c. cached dv m c s \<longrightarrow> cached dv m c t)"
proof -
  have h: "holds p dv n b s" by (rule steady_held [OF st n])
  obtain t where t: "set_bdata b f s = Ret () t" "cache_ok dv cap p t" "bio_frame p s t" "holds p dv n b t"
      "content dv t = (content dv s)(n := f (bdata s b))" "platter (dma t) = platter (dma s)" "refs t = refs s"
      "\<forall>c. c \<noteq> b \<longrightarrow> keeps s t c"
    using set_bdata_ok [OF steadyD(1) [OF st] h, of f] len by blast
  have "steady dv cap p pin held t \<and> (\<forall>m \<in> held \<inter> held. \<forall>c. cached dv m c s \<longrightarrow> cached dv m c t)"
    using t n steadyD(5) [OF st n(2)] steady_card [OF st]
    by (intro conjI steady_step [OF st t(2), of b n]) (auto simp: bio_frame_def holds_def)
  then show ?thesis using t steady_content [OF st n] by auto
qed

lemma write_steady:
  assumes st: "steady dv cap p pin held s" and n: "n \<in> held" "cached dv n b s" "in_range cap n"
  shows "\<exists>t. bwrite b s = Ret () t \<and> steady dv cap p pin held t \<and> bio_frame p s t
      \<and> content dv t = content dv s \<and> platter (dma t) = dput (disk_now s) (unat n) (content dv s n) # platter (dma s)
      \<and> (\<forall>m \<in> held. \<forall>c. cached dv m c s \<longrightarrow> cached dv m c t)"
proof -
  have h: "holds p dv n b s" by (rule steady_held [OF st n(1,2)])
  have r: "unat n < 2 ^ 31" "2 * unat n + 2 \<le> cap" using n(3) by (simp_all add: in_range_def)
  note w = bwrite_ok [OF steadyD(1) [OF st] h r]
  let ?t = "after_rw p b True s"
  have "steady dv cap p pin held ?t \<and> (\<forall>m \<in> held \<inter> held. \<forall>c. cached dv m c s \<longrightarrow> cached dv m c ?t)"
    using w(2,3,6) h n steadyD(5) [OF st n(2)] steady_card [OF st] holds_keeps [OF h w(6)]
    by (intro conjI steady_step [OF st w(2), of b n]) (auto simp: bio_frame_def holds_def keeps_fields [OF w(6)])
  then show ?thesis using w steady_content [OF st n(1,2)] by (auto simp: bdata_def)
qed

lemma release_steady:
  assumes st: "steady dv cap p pin held s" and n: "n \<in> held" "cached dv n b s"
    and clean: "n \<in> pin \<or> content dv s n = dblock (disk_now s) (unat n)"
  shows "\<exists>t. brelse b s = Ret () t \<and> steady dv cap p pin (held - {n}) t \<and> bio_frame p s t
      \<and> content dv t = content dv s \<and> platter (dma t) = platter (dma s)
      \<and> (\<forall>m \<in> held - {n}. \<forall>c. cached dv m c s \<longrightarrow> cached dv m c t)"
proof -
  have h: "holds p dv n b s" by (rule steady_held [OF st n])
  have r: "refs s b = (if n \<in> pin then 2 else 1)" using steadyD(5) [OF st n(2)] n(1) by simp
  have "q_data (dma s) b = dblock (disk_now s) (unat n)" if "refs s b = 1"
  proof -
    have "n \<notin> pin" using that r by auto
    then show ?thesis using clean steady_content [OF st n] by (simp add: bdata_def)
  qed
  then obtain t where t: "brelse b s = Ret () t" "cache_ok dv cap p t" "bio_frame p s t" "content dv t = content dv s"
      "dma t = dma s" "refs t b = refs s b - 1" "\<not> taken t b" "cached dv n b t" "b_valid (bufs t b) \<noteq> 0"
      "\<forall>c. c \<noteq> b \<longrightarrow> keeps s t c"
    using brelse_ok [OF steadyD(1) [OF st] h] by blast
  have cd: "card (pin \<union> (held - {n})) \<le> NBUF"
    using st by (intro order.trans [OF card_mono steady_card [OF st]]) (auto simp: steady_def)
  have "steady dv cap p pin (held - {n}) t \<and> (\<forall>m \<in> held \<inter> (held - {n}). \<forall>c. cached dv m c s \<longrightarrow> cached dv m c t)"
    using t n r cd by (intro conjI steady_step [OF st t(2), of b n]) (auto simp: bio_frame_def)
  then show ?thesis using t by auto
qed

lemma pin_steady:
  assumes st: "steady dv cap p pin held s" and n: "n \<in> held" "cached dv n b s" "n \<notin> pin"
  shows "\<exists>t. bpin b s = Ret () t \<and> steady dv cap p (insert n pin) held t \<and> bio_frame p s t
      \<and> content dv t = content dv s \<and> platter (dma t) = platter (dma s)
      \<and> (\<forall>m \<in> held. \<forall>c. cached dv m c s \<longrightarrow> cached dv m c t)"
proof -
  have h: "holds p dv n b s" by (rule steady_held [OF st n(1,2)])
  have b: "b < NBUF" "refs s b = 1" using n steadyD(5) [OF st n(2)] by (simp_all add: cached_def)
  then obtain t where t: "bpin b s = Ret () t" "cache_ok dv cap p t" "bio_frame p s t" "content dv t = content dv s"
      "dma t = dma s" "sleeplk t = sleeplk s" "procs t = procs s" "refs t = (refs s)(b := refs s b + 1)"
      "\<forall>c. b_dev (bufs t c) = b_dev (bufs s c) \<and> b_blockno (bufs t c) = b_blockno (bufs s c) \<and> b_valid (bufs t c) = b_valid (bufs s c)"
    using bpin_ok [OF steadyD(1) [OF st], of b] by auto
  have k: "keeps s t c" if "c \<noteq> b" for c using t that by (simp add: keeps_def)
  have cd: "card (insert n pin \<union> held) \<le> NBUF" using steady_card [OF st] n(1) by (simp add: insert_absorb)
  have "steady dv cap p (insert n pin) held t \<and> (\<forall>m \<in> held \<inter> held. \<forall>c. cached dv m c s \<longrightarrow> cached dv m c t)"
    using t h n b cd k
    by (intro conjI steady_step [where pin' = "insert n pin" and held' = held, OF st t(2), of b n]) (auto simp: holds_def cached_def taken_def)
  then show ?thesis using t by auto
qed

lemma unpin_steady:
  assumes st: "steady dv cap p pin held s" and n: "n \<in> held" "cached dv n b s" "n \<in> pin"
  shows "\<exists>t. bunpin b s = Ret () t \<and> steady dv cap p (pin - {n}) held t \<and> bio_frame p s t
      \<and> content dv t = content dv s \<and> platter (dma t) = platter (dma s)
      \<and> (\<forall>m \<in> held. \<forall>c. cached dv m c s \<longrightarrow> cached dv m c t)"
proof -
  have h: "holds p dv n b s" by (rule steady_held [OF st n(1,2)])
  have b: "b < NBUF" "refs s b = 2" using n steadyD(5) [OF st n(2)] by (simp_all add: cached_def)
  then obtain t where t: "bunpin b s = Ret () t" "cache_ok dv cap p t" "bio_frame p s t" "content dv t = content dv s"
      "dma t = dma s" "sleeplk t = sleeplk s" "procs t = procs s" "refs t = (refs s)(b := refs s b - 1)"
      "\<forall>c. b_dev (bufs t c) = b_dev (bufs s c) \<and> b_blockno (bufs t c) = b_blockno (bufs s c) \<and> b_valid (bufs t c) = b_valid (bufs s c)"
    using bunpin_ok [OF steadyD(1) [OF st], of b] by auto
  have k: "keeps s t c" if "c \<noteq> b" for c using t that by (simp add: keeps_def)
  have cd: "card (pin - {n} \<union> held) \<le> NBUF"
    using st by (intro order.trans [OF card_mono steady_card [OF st]]) (auto simp: steady_def)
  have "steady dv cap p (pin - {n}) held t \<and> (\<forall>m \<in> held \<inter> held. \<forall>c. cached dv m c s \<longrightarrow> cached dv m c t)"
    using t h n b cd k
    by (intro conjI steady_step [where pin' = "pin - {n}" and held' = held, OF st t(2), of b n]) (auto simp: holds_def cached_def taken_def)
  then show ?thesis using t by auto
qed

section \<open>The interface\<close>

text \<open>
  \<open>steady pin held s\<close>: between calls, with the blocks \<open>pin\<close> kept in memory and the blocks \<open>held\<close> locked by
  the process. \<open>loc n b s\<close>: buffer \<open>b\<close> is the one of block \<open>n\<close>. \<open>nb\<close> is the number of buffers.
\<close>

locale block_cache =
  fixes rd :: "u32 \<Rightarrow> ('s, nat) kfun"
    and wr rel pn up :: "nat \<Rightarrow> ('s, unit) kfun"
    and put :: "nat \<Rightarrow> (u8 list \<Rightarrow> u8 list) \<Rightarrow> ('s, unit) kfun"
    and get :: "'s \<Rightarrow> nat \<Rightarrow> u8 list"
    and stdy :: "u32 set \<Rightarrow> u32 set \<Rightarrow> 's \<Rightarrow> bool"
    and loc :: "u32 \<Rightarrow> nat \<Rightarrow> 's \<Rightarrow> bool"
    and cont :: "'s \<Rightarrow> u32 \<Rightarrow> u8 list"
    and hist :: "'s \<Rightarrow> disk list"
    and fr :: "'s \<Rightarrow> 's \<Rightarrow> bool"
    and valid_no :: "u32 \<Rightarrow> bool"
    and nb :: nat
  assumes fr_trans: "fr s t \<Longrightarrow> fr t u \<Longrightarrow> fr s u"
    and get_law: "stdy pin held s \<Longrightarrow> n \<in> held \<Longrightarrow> loc n b s \<Longrightarrow> get s b = cont s n"
    and len_law: "stdy pin held s \<Longrightarrow> n \<in> held \<Longrightarrow> length (cont s n) = BSIZE"
    and disk_law: "stdy pin held s \<Longrightarrow> n \<notin> pin \<union> held \<Longrightarrow> cont s n = dblock (hd (hist s)) (unat n)"
    and rd_law: "stdy pin held s \<Longrightarrow> valid_no n \<Longrightarrow> n \<notin> held \<Longrightarrow> n \<in> pin \<or> card (pin \<union> held) < nb \<Longrightarrow>
      \<exists>b t. rd n s = Ret b t \<and> stdy pin (insert n held) t \<and> loc n b t \<and> fr s t
        \<and> cont t = cont s \<and> hist t = hist s \<and> (\<forall>m \<in> held. \<forall>c. loc m c s \<longrightarrow> loc m c t)"
    and put_law: "stdy pin held s \<Longrightarrow> n \<in> held \<Longrightarrow> loc n b s \<Longrightarrow> length (f (cont s n)) = BSIZE \<Longrightarrow>
      \<exists>t. put b f s = Ret () t \<and> stdy pin held t \<and> fr s t
        \<and> cont t = (cont s)(n := f (cont s n)) \<and> hist t = hist s \<and> (\<forall>m \<in> held. \<forall>c. loc m c s \<longrightarrow> loc m c t)"
    and wr_law: "stdy pin held s \<Longrightarrow> n \<in> held \<Longrightarrow> loc n b s \<Longrightarrow> valid_no n \<Longrightarrow>
      \<exists>t. wr b s = Ret () t \<and> stdy pin held t \<and> fr s t \<and> cont t = cont s
        \<and> hist t = dput (hd (hist s)) (unat n) (cont s n) # hist s \<and> (\<forall>m \<in> held. \<forall>c. loc m c s \<longrightarrow> loc m c t)"
    and rel_law: "stdy pin held s \<Longrightarrow> n \<in> held \<Longrightarrow> loc n b s \<Longrightarrow> n \<in> pin \<or> cont s n = dblock (hd (hist s)) (unat n) \<Longrightarrow>
      \<exists>t. rel b s = Ret () t \<and> stdy pin (held - {n}) t \<and> fr s t \<and> cont t = cont s \<and> hist t = hist s
        \<and> (\<forall>m \<in> held - {n}. \<forall>c. loc m c s \<longrightarrow> loc m c t)"
    and pn_law: "stdy pin held s \<Longrightarrow> n \<in> held \<Longrightarrow> loc n b s \<Longrightarrow> n \<notin> pin \<Longrightarrow>
      \<exists>t. pn b s = Ret () t \<and> stdy (insert n pin) held t \<and> fr s t \<and> cont t = cont s \<and> hist t = hist s
        \<and> (\<forall>m \<in> held. \<forall>c. loc m c s \<longrightarrow> loc m c t)"
    and up_law: "stdy pin held s \<Longrightarrow> n \<in> held \<Longrightarrow> loc n b s \<Longrightarrow> n \<in> pin \<Longrightarrow>
      \<exists>t. up b s = Ret () t \<and> stdy (pin - {n}) held t \<and> fr s t \<and> cont t = cont s \<and> hist t = hist s
        \<and> (\<forall>m \<in> held. \<forall>c. loc m c s \<longrightarrow> loc m c t)"
begin

lemma disk_put:
  "stdy pin held s \<Longrightarrow> n \<in> held \<Longrightarrow> dblock (dput d (unat n) (cont s n)) (unat m) = (if m = n then cont s n else dblock d (unat m))"
  by (simp add: dblock_dput len_law word_unat_eq_iff)

text \<open>One block gets new contents, in memory and on the disk.\<close>

lemma update_block:
  assumes st: "stdy pin {} s" and n: "valid_no n" "n \<notin> pin" "card pin < nb"
    and f: "\<And>bs. length bs = BSIZE \<Longrightarrow> length (f bs) = BSIZE"
  shows "\<exists>t. kbind (rd n) (\<lambda>b. kseq (put b f) (kseq (wr b) (rel b))) s = Ret () t \<and> stdy pin {} t \<and> fr s t
      \<and> cont t = (cont s)(n := f (cont s n)) \<and> hist t = dput (hd (hist s)) (unat n) (f (cont s n)) # hist s"
proof -
  obtain b s1 where 1: "rd n s = Ret b s1" "stdy pin {n} s1" "loc n b s1" "fr s s1" "cont s1 = cont s" "hist s1 = hist s"
    using rd_law [OF st n(1)] n(3) by auto
  obtain s2 where 2: "put b f s1 = Ret () s2" "stdy pin {n} s2" "fr s1 s2" "cont s2 = (cont s)(n := f (cont s n))"
      "hist s2 = hist s" "loc n b s2"
    using put_law [OF 1(2) _ 1(3), of f] 1 f len_law [OF 1(2)] by auto
  obtain s3 where 3: "wr b s2 = Ret () s3" "stdy pin {n} s3" "fr s2 s3" "cont s3 = cont s2"
      "hist s3 = dput (hd (hist s)) (unat n) (f (cont s n)) # hist s" "loc n b s3"
    using wr_law [OF 2(2) _ 2(6) n(1)] 2 by auto
  have "cont s3 n = dblock (hd (hist s3)) (unat n)"
    using disk_put [OF 3(2), of n "hd (hist s)" n] 2 3 by simp
  then obtain t where 4: "rel b s3 = Ret () t" "stdy pin {} t" "fr s3 t" "cont t = cont s3" "hist t = hist s3"
    using rel_law [OF 3(2) _ 3(6)] by auto
  have "fr s t" using 1(4) 2(3) 3(3) 4(3) by (meson fr_trans)
  then show ?thesis using 1 2 3 4 by (intro exI [of _ t]) simp
qed

text \<open>A pinned block is copied into a block that is not.\<close>

lemma copy_pinned:
  assumes st: "stdy pin {} s" and n: "valid_no x" "valid_no y" "x \<notin> pin" "y \<in> pin" "card pin < nb"
  shows "\<exists>t. kbind (rd x) (\<lambda>a. kbind (rd y) (\<lambda>b. kbind (kget (\<lambda>s. get s b)) (\<lambda>bs.
        kseq (put a (\<lambda>_. bs)) (kseq (wr a) (kseq (rel b) (rel a)))))) s = Ret () t \<and> stdy pin {} t \<and> fr s t
      \<and> cont t = (cont s)(x := cont s y) \<and> hist t = dput (hd (hist s)) (unat x) (cont s y) # hist s"
proof -
  have ne: "x \<noteq> y" using n by auto
  obtain a s1 where 1: "rd x s = Ret a s1" "stdy pin {x} s1" "loc x a s1" "fr s s1" "cont s1 = cont s" "hist s1 = hist s"
    using rd_law [OF st n(1)] n by auto
  obtain b s2 where 2: "rd y s1 = Ret b s2" "stdy pin {y, x} s2" "loc y b s2" "fr s1 s2" "cont s2 = cont s" "hist s2 = hist s" "loc x a s2"
    using rd_law [OF 1(2) n(2)] n 1 ne by auto
  have g: "get s2 b = cont s y" "length (cont s y) = BSIZE"
    using get_law [OF 2(2) _ 2(3)] len_law [OF 2(2), of y] 2 by auto
  obtain s3 where 3: "put a (\<lambda>_. cont s y) s2 = Ret () s3" "stdy pin {y, x} s3" "fr s2 s3" "cont s3 = (cont s)(x := cont s y)"
      "hist s3 = hist s" "loc x a s3" "loc y b s3"
    using put_law [OF 2(2) _ 2(7), of "\<lambda>_. cont s y"] 2 g by auto
  obtain s4 where 4: "wr a s3 = Ret () s4" "stdy pin {y, x} s4" "fr s3 s4" "cont s4 = cont s3"
      "hist s4 = dput (hd (hist s)) (unat x) (cont s y) # hist s" "loc x a s4" "loc y b s4"
    using wr_law [OF 3(2) _ 3(6) n(1)] 3 by auto
  obtain s5 where 5: "rel b s4 = Ret () s5" "stdy pin {x} s5" "fr s4 s5" "cont s5 = cont s4" "hist s5 = hist s4" "loc x a s5"
    using rel_law [OF 4(2) _ 4(7)] 4 n ne by auto
  have "cont s5 x = dblock (hd (hist s5)) (unat x)"
    using g by (simp add: 3 4 5 dblock_dput)
  then obtain t where 6: "rel a s5 = Ret () t" "stdy pin {} t" "fr s5 t" "cont t = cont s5" "hist t = hist s5"
    using rel_law [OF 5(2) _ 5(6)] by auto
  have "fr s t" using 1(4) 2(4) 3(3) 4(3) 5(3) 6(3) by (meson fr_trans)
  then show ?thesis using 1 2 3 4 5 6 g by (intro exI [of _ t]) simp
qed

text \<open>The contents of a block that is not pinned go home: to a pinned block, which is released from memory.\<close>

lemma install_pinned:
  assumes st: "stdy pin {} s" and n: "valid_no x" "valid_no y" "x \<notin> pin" "y \<in> pin" "card pin < nb"
  shows "\<exists>t. kbind (rd x) (\<lambda>a. kbind (rd y) (\<lambda>b. kbind (kget (\<lambda>s. get s a)) (\<lambda>bs.
        kseq (put b (\<lambda>_. bs)) (kseq (wr b) (kseq (up b) (kseq (rel a) (rel b))))))) s = Ret () t
      \<and> stdy (pin - {y}) {} t \<and> fr s t
      \<and> cont t = (cont s)(y := cont s x) \<and> hist t = dput (hd (hist s)) (unat y) (cont s x) # hist s"
proof -
  have ne: "x \<noteq> y" using n by auto
  obtain a s1 where 1: "rd x s = Ret a s1" "stdy pin {x} s1" "loc x a s1" "fr s s1" "cont s1 = cont s" "hist s1 = hist s"
    using rd_law [OF st n(1)] n by auto
  obtain b s2 where 2: "rd y s1 = Ret b s2" "stdy pin {y, x} s2" "loc y b s2" "fr s1 s2" "cont s2 = cont s" "hist s2 = hist s" "loc x a s2"
    using rd_law [OF 1(2) n(2)] n 1 ne by auto
  have g: "get s2 a = cont s x" "length (cont s x) = BSIZE"
    using get_law [OF 2(2) _ 2(7)] len_law [OF 2(2), of x] 2 by auto
  obtain s3 where 3: "put b (\<lambda>_. cont s x) s2 = Ret () s3" "stdy pin {y, x} s3" "fr s2 s3" "cont s3 = (cont s)(y := cont s x)"
      "hist s3 = hist s" "loc x a s3" "loc y b s3"
    using put_law [OF 2(2) _ 2(3), of "\<lambda>_. cont s x"] 2 g by auto
  obtain s4 where 4: "wr b s3 = Ret () s4" "stdy pin {y, x} s4" "fr s3 s4" "cont s4 = cont s3"
      "hist s4 = dput (hd (hist s)) (unat y) (cont s x) # hist s" "loc x a s4" "loc y b s4"
    using wr_law [OF 3(2) _ 3(7) n(2)] 3 by auto
  obtain s5 where 5: "up b s4 = Ret () s5" "stdy (pin - {y}) {y, x} s5" "fr s4 s5" "cont s5 = cont s4" "hist s5 = hist s4" "loc x a s5" "loc y b s5"
    using up_law [OF 4(2) _ 4(7) n(4)] 4 by auto
  have dx: "cont s x = dblock (hd (hist s)) (unat x)" using disk_law [OF st] n by simp
  have d: "dblock (hd (hist s5)) (unat m) = (if m = y then cont s x else dblock (hd (hist s)) (unat m))" for m
    using g by (simp add: 4 5 dblock_dput word_unat_eq_iff)
  obtain s6 where 6: "rel a s5 = Ret () s6" "stdy (pin - {y}) {y} s6" "fr s5 s6" "cont s6 = cont s5" "hist s6 = hist s5" "loc y b s6"
    using rel_law [OF 5(2) _ 5(6)] 5 d [of x] dx ne by (auto simp: 3 4 5 insert_Diff_if)
  obtain t where 7: "rel b s6 = Ret () t" "stdy (pin - {y}) {} t" "fr s6 t" "cont t = cont s6" "hist t = hist s6"
    using rel_law [OF 6(2) _ 6(6)] d [of y] by (auto simp: 3 4 5 6)
  have "fr s t" using 1(4) 2(4) 3(3) 4(3) 5(3) 6(3) 7(3) by (meson fr_trans)
  then show ?thesis using 1 2 3 4 5 6 7 g by (intro exI [of _ t]) simp
qed

text \<open>The same for a block that is not in use, as recovery does it.\<close>

lemma install_free:
  assumes st: "stdy pin {} s" and n: "valid_no x" "valid_no y" "x \<notin> pin" "y \<notin> pin" "x \<noteq> y" "finite pin" "card pin + 1 < nb"
  shows "\<exists>t. kbind (rd x) (\<lambda>a. kbind (rd y) (\<lambda>b. kbind (kget (\<lambda>s. get s a)) (\<lambda>bs.
        kseq (put b (\<lambda>_. bs)) (kseq (wr b) (kseq (kret ()) (kseq (rel a) (rel b))))))) s = Ret () t
      \<and> stdy pin {} t \<and> fr s t
      \<and> cont t = (cont s)(y := cont s x) \<and> hist t = dput (hd (hist s)) (unat y) (cont s x) # hist s"
proof -
  obtain a s1 where 1: "rd x s = Ret a s1" "stdy pin {x} s1" "loc x a s1" "fr s s1" "cont s1 = cont s" "hist s1 = hist s"
    using rd_law [OF st n(1)] n by auto
  obtain b s2 where 2: "rd y s1 = Ret b s2" "stdy pin {y, x} s2" "loc y b s2" "fr s1 s2" "cont s2 = cont s" "hist s2 = hist s" "loc x a s2"
    using rd_law [OF 1(2) n(2)] n 1 by auto
  have g: "get s2 a = cont s x" "length (cont s x) = BSIZE"
    using get_law [OF 2(2) _ 2(7)] len_law [OF 2(2), of x] 2 by auto
  obtain s3 where 3: "put b (\<lambda>_. cont s x) s2 = Ret () s3" "stdy pin {y, x} s3" "fr s2 s3" "cont s3 = (cont s)(y := cont s x)"
      "hist s3 = hist s" "loc x a s3" "loc y b s3"
    using put_law [OF 2(2) _ 2(3), of "\<lambda>_. cont s x"] 2 g by auto
  obtain s4 where 4: "wr b s3 = Ret () s4" "stdy pin {y, x} s4" "fr s3 s4" "cont s4 = cont s3"
      "hist s4 = dput (hd (hist s)) (unat y) (cont s x) # hist s" "loc x a s4" "loc y b s4"
    using wr_law [OF 3(2) _ 3(7) n(2)] 3 by auto
  have dx: "cont s x = dblock (hd (hist s)) (unat x)" using disk_law [OF st] n by simp
  have d: "dblock (hd (hist s4)) (unat m) = (if m = y then cont s x else dblock (hd (hist s)) (unat m))" for m
    using g by (simp add: 4 dblock_dput word_unat_eq_iff)
  obtain s5 where 5: "rel a s4 = Ret () s5" "stdy pin {y} s5" "fr s4 s5" "cont s5 = cont s4" "hist s5 = hist s4" "loc y b s5"
    using rel_law [OF 4(2) _ 4(6)] 4 d [of x] dx n(5) by (auto simp: 3 4 insert_Diff_if)
  obtain t where 6: "rel b s5 = Ret () t" "stdy pin {} t" "fr s5 t" "cont t = cont s5" "hist t = hist s5"
    using rel_law [OF 5(2) _ 5(6)] d [of y] by (auto simp: 3 4 5)
  have "fr s t" using 1(4) 2(4) 3(3) 4(3) 5(3) 6(3) by (meson fr_trans)
  then show ?thesis using 1 2 3 4 5 6 g by (intro exI [of _ t]) simp
qed

end

interpretation bc: block_cache "bread dv" bwrite brelse bpin bunpin set_bdata bdata
    "steady dv cap p" "cached dv" "content dv" "\<lambda>s. platter (dma s)" "bio_frame p" "in_range cap" NBUF
  for dv cap p
proof
  fix pin held n b f and s t u :: "'a vdisk_scheme"
  show "bio_frame p s t \<Longrightarrow> bio_frame p t u \<Longrightarrow> bio_frame p s u" by (rule bio_frame_trans)
  assume st: "steady dv cap p pin held s"
  show "n \<in> held \<Longrightarrow> cached dv n b s \<Longrightarrow> bdata s b = content dv s n" using steady_content [OF st] by simp
  show "length (content dv s n) = BSIZE" if nh: "n \<in> held"
  proof -
    obtain c where "holds p dv n c s" using st nh by (auto simp: steady_def)
    then show ?thesis
      using steady_content [OF st nh, of c] steadyD(2) [OF st] by (auto simp: holds_def cached_def cache_inv_def bdata_def)
  qed
  show "n \<notin> pin \<union> held \<Longrightarrow> content dv s n = dblock (hd (platter (dma s))) (unat n)"
    using steady_disk [OF st] by (simp add: disk_now_def)
  show "in_range cap n \<Longrightarrow> n \<notin> held \<Longrightarrow> n \<in> pin \<or> card (pin \<union> held) < NBUF \<Longrightarrow>
      \<exists>b t. bread dv n s = Ret b t \<and> steady dv cap p pin (insert n held) t \<and> cached dv n b t \<and> bio_frame p s t
        \<and> content dv t = content dv s \<and> platter (dma t) = platter (dma s) \<and> (\<forall>m \<in> held. \<forall>c. cached dv m c s \<longrightarrow> cached dv m c t)"
    by (rule bread_steady [OF st])
  assume n: "n \<in> held" "cached dv n b s"
  show "length (f (content dv s n)) = BSIZE \<Longrightarrow>
      \<exists>t. set_bdata b f s = Ret () t \<and> steady dv cap p pin held t \<and> bio_frame p s t
        \<and> content dv t = (content dv s)(n := f (content dv s n)) \<and> platter (dma t) = platter (dma s)
        \<and> (\<forall>m \<in> held. \<forall>c. cached dv m c s \<longrightarrow> cached dv m c t)"
    using set_steady [OF st n, of f] steady_content [OF st n] by simp
  show "in_range cap n \<Longrightarrow> \<exists>t. bwrite b s = Ret () t \<and> steady dv cap p pin held t \<and> bio_frame p s t \<and> content dv t = content dv s
        \<and> platter (dma t) = dput (hd (platter (dma s))) (unat n) (content dv s n) # platter (dma s)
        \<and> (\<forall>m \<in> held. \<forall>c. cached dv m c s \<longrightarrow> cached dv m c t)"
    using write_steady [OF st n] by (simp add: disk_now_def)
  show "n \<in> pin \<or> content dv s n = dblock (hd (platter (dma s))) (unat n) \<Longrightarrow>
      \<exists>t. brelse b s = Ret () t \<and> steady dv cap p pin (held - {n}) t \<and> bio_frame p s t \<and> content dv t = content dv s
        \<and> platter (dma t) = platter (dma s) \<and> (\<forall>m \<in> held - {n}. \<forall>c. cached dv m c s \<longrightarrow> cached dv m c t)"
    using release_steady [OF st n] by (simp add: disk_now_def)
  show "n \<notin> pin \<Longrightarrow> \<exists>t. bpin b s = Ret () t \<and> steady dv cap p (insert n pin) held t \<and> bio_frame p s t
        \<and> content dv t = content dv s \<and> platter (dma t) = platter (dma s)
        \<and> (\<forall>m \<in> held. \<forall>c. cached dv m c s \<longrightarrow> cached dv m c t)"
    by (rule pin_steady [OF st n])
  show "n \<in> pin \<Longrightarrow> \<exists>t. bunpin b s = Ret () t \<and> steady dv cap p (pin - {n}) held t \<and> bio_frame p s t
        \<and> content dv t = content dv s \<and> platter (dma t) = platter (dma s)
        \<and> (\<forall>m \<in> held. \<forall>c. cached dv m c s \<longrightarrow> cached dv m c t)"
    by (rule unpin_steady [OF st n])
qed

section \<open>The cache after start-up\<close>

lemma calm_initlock [lock_simps]: "calm p s \<Longrightarrow> calm p (s\<lparr>locks := (locks s)(lk := \<lparr>lk_locked = 0, lk_name = nm, lk_cpu = None\<rparr>)\<rparr>)"
  by (auto simp: calm_def cpu_quiet_def unlocked_def hart_defs mycpu_def)

lemma link_front_keys: "bkey (link_front b bs c) = bkey (bs c)"
  by (simp only: link_front_def Let_def bkey_relink)

text \<open>After \<open>k\<close> turns of the loop of \<open>binit\<close>, the buffers below \<open>k\<close> are on the ring and unlocked.\<close>

definition binit_inv :: "'z vdisk_scheme \<Rightarrow> nat \<Rightarrow> 'z vdisk_scheme \<Rightarrow> bool" where
  "binit_inv s k t \<longleftrightarrow> ring BHEAD (nexts (bufs t)) (prevs (bufs t)) (rev [0..<k])
     \<and> (\<forall>c. bkey (bufs t c) = bkey (bufs s c)) \<and> (\<forall>b < k. \<not> taken t b)
     \<and> dma t = dma s \<and> device t = device s \<and> desc_free t = desc_free s \<and> used_seen t = used_seen s \<and> procs t = procs s"

lemma binit_turn:
  fixes s t :: "'z vdisk_scheme"
  assumes "binit_inv s k t" and "calm p t" and "k < NBUF"
  shows "\<exists>u. kseq (initsleeplock (Buf_lock k) ''buffer'') (kmod (\<lambda>s. s\<lparr>bufs := link_front k (bufs s)\<rparr>)) t = Ret () u
      \<and> binit_inv s (Suc k) u \<and> calm p u"
proof -
  let ?u = "t\<lparr>locks := (locks t)(Sleep_lk (Buf_lock k) := \<lparr>lk_locked = 0, lk_name = ''sleep lock'', lk_cpu = None\<rparr>),
      sleeplk := (sleeplk t)(Buf_lock k := (sleeplk t (Buf_lock k))\<lparr>sl_name := ''buffer'', sl_locked := 0, sl_pid := 0\<rparr>), bufs := link_front k (bufs t)\<rparr>"
  have k: "k \<noteq> BHEAD" "k \<notin> set (BHEAD # rev [0..<k])" using assms(3) by (auto simp: BHEAD_def)
  have f: "nexts (link_front k bs) = (nexts bs)(k := nexts bs BHEAD, BHEAD := k)"
    "prevs (link_front k bs) = ((prevs bs)(k := BHEAD))(nexts bs BHEAD := k)" for bs
    using k by (auto simp: link_front_def nexts_def prevs_def Let_def fun_eq_iff)
  have "ring BHEAD (nexts (bufs ?u)) (prevs (bufs ?u)) (rev [0..<Suc k])"
    using assms(1) ring_link [OF _ k(2), of "nexts (bufs t)" "prevs (bufs t)"] by (simp add: binit_inv_def f)
  then have "binit_inv s (Suc k) ?u"
    using assms(1) by (auto simp: binit_inv_def link_front_keys taken_def less_Suc_eq)
  moreover have "calm p ?u" using assms(2) by (simp add: lock_simps)
  ultimately show ?thesis
    by (intro exI [of _ ?u]) (simp add: initsleeplock_def initlock_def)
qed

lemma binit_steady:
  fixes s :: "'a vdisk_scheme"
  assumes calm: "calm p s" and ok: "disk_ok cap s" and dv: "dv \<noteq> 0"
    and b: "\<forall>b < NBUF. b_dev (bufs s b) = 0 \<and> b_refcnt (bufs s b) = 0 \<and> length (q_data (dma s) b) = BSIZE"
  shows "\<exists>t. binit s = Ret () t \<and> steady dv cap p {} {} t \<and> platter (dma t) = platter (dma s)"
proof -
  let ?s = "s\<lparr>locks := (locks s)(Bcache_lock := \<lparr>lk_locked = 0, lk_name = ''bcache'', lk_cpu = None\<rparr>),
      bufs := (bufs s)(BHEAD := (bufs s BHEAD)\<lparr>b_prev := BHEAD, b_next := BHEAD\<rparr>)\<rparr>"
  have "binit_inv s 0 ?s" by (simp add: binit_inv_def ring_def nexts_def prevs_def bkey_def)
  moreover have "calm p ?s" using calm by (simp add: lock_simps)
  ultimately have "\<exists>t. kfor [0..<NBUF] (\<lambda>b. kseq (initsleeplock (Buf_lock b) ''buffer'') (kmod (\<lambda>s. s\<lparr>bufs := link_front b (bufs s)\<rparr>))) ?s = Ret () t
      \<and> binit_inv s NBUF t \<and> calm p t"
    using binit_turn by (intro kfor_count [where I = "\<lambda>k t. binit_inv s k t \<and> calm p t"]) blast+
  then obtain t where l: "kfor [0..<NBUF] (\<lambda>b. kseq (initsleeplock (Buf_lock b) ''buffer'') (kmod (\<lambda>s. s\<lparr>bufs := link_front b (bufs s)\<rparr>))) ?s = Ret () t"
    and t: "binit_inv s NBUF t" "calm p t" by (elim exE conjE)
  have e: "kseq (initlock Bcache_lock ''bcache'') (kseq (bufset BHEAD (\<lambda>c. c\<lparr>b_prev := BHEAD\<rparr>))
      (kseq (bufset BHEAD (\<lambda>c. c\<lparr>b_next := BHEAD\<rparr>)) g)) s = g ?s" for g :: "('a vdisk_scheme, unit) kfun"
    by (simp add: initlock_def)
  have b1: "binit s = Ret () t" unfolding binit_def e by (rule l)
  have key: "b_dev (bufs t c) = b_dev (bufs s c)" "b_refcnt (bufs t c) = b_refcnt (bufs s c)" for c
    using t(1) bkeyD [of "bufs t c" "bufs s c"] by (auto simp: binit_inv_def)
  have d: "dma t = dma s" "disk_ok cap t" using t(1) ok by (simp_all add: binit_inv_def disk_ok_def)
  have "lru (bufs t) (rev [0..<NBUF])" using t(1) by (auto simp: binit_inv_def lru_def)
  then have "cache_inv dv t"
    using t(1) b dv by (auto simp: cache_inv_def cached_def key d refs_def binit_inv_def)
  then have "steady dv cap p {} {} t"
    using t(1,2) d(2) b dv by (auto simp: steady_def cache_ok_def refs_def key binit_inv_def)
  then show ?thesis using b1 d(1) by auto
qed

section \<open>Properties\<close>

text \<open>
  C6: A block written through the cache is what the disk holds and what every later reader gets. From any
  state between calls, with a free buffer left, the sequence \<open>bread\<close>, a change of the data, \<open>bwrite\<close>,
  \<open>brelse\<close> returns; block \<open>n\<close> then has the new contents on the disk and every other block its old ones,
  and \<open>bread\<close> of any block returns a buffer with exactly its contents.
\<close>

theorem cached_write_reads_back:
  assumes "steady dv cap p pin {} s" and "in_range cap n" and "n \<notin> pin" and "card pin < NBUF"
    and "\<forall>bs. length bs = BSIZE \<longrightarrow> length (f bs) = BSIZE"
  shows "\<exists>t. kbind (bread dv n) (\<lambda>b. kseq (set_bdata b f) (kseq (bwrite b) (brelse b))) s = Ret () t
      \<and> steady dv cap p pin {} t
      \<and> (\<forall>m. dblock (disk_now t) (unat m) = (if m = n then f (content dv s n) else dblock (disk_now s) (unat m)))
      \<and> (\<forall>m. in_range cap m \<longrightarrow> (\<exists>b u. bread dv m t = Ret b u \<and> bdata u b = (if m = n then f (content dv s n) else content dv s m)))"
proof -
  obtain t where t: "kbind (bread dv n) (\<lambda>b. kseq (set_bdata b f) (kseq (bwrite b) (brelse b))) s = Ret () t"
    "steady dv cap p pin {} t" "content dv t = (content dv s)(n := f (content dv s n))"
    "platter (dma t) = dput (hd (platter (dma s))) (unat n) (f (content dv s n)) # platter (dma s)"
    using bc.update_block [where f = f, OF assms(1-4)] assms(5) by blast
  have "content dv s n = dblock (disk_now s) (unat n)" using steady_disk [OF assms(1)] assms(3) by simp
  then have len: "length (f (content dv s n)) = BSIZE" using assms(5) by simp
  have "\<exists>b u. bread dv m t = Ret b u \<and> bdata u b = content dv t m" if m: "in_range cap m" for m
  proof -
    obtain b u where "bread dv m t = Ret b u" "steady dv cap p pin {m} u" "cached dv m b u" "content dv u = content dv t"
      using bread_steady [OF t(2) m] assms(4) by auto
    then show ?thesis using steady_content [of dv cap p pin "{m}" u m b] by auto
  qed
  then show ?thesis
    using t len by (intro exI [of _ t]) (auto simp: disk_now_def dblock_dput word_unat_eq_iff)
qed

theorem cached_write_reads_back_witness:
  "\<exists>s t. binit boot_vdisk = Ret () s
     \<and> kbind (bread 1 33) (\<lambda>b. kseq (set_bdata b (map (\<lambda>_. 9))) (kseq (bwrite b) (brelse b))) s = Ret () t
     \<and> dblock (disk_now t) 33 = replicate BSIZE 9"
proof -
  have "\<exists>s. binit boot_vdisk = Ret () s \<and> steady 1 4000 1 {} {} s \<and> platter (dma s) = platter (dma boot_vdisk)"
    by (rule binit_steady [OF boot_vdisk_calm])
      (simp_all add: boot_vdisk_def sleeplocks.defs disk_ok_def plain_device_serves)
  then obtain s where s: "binit boot_vdisk = Ret () s" "steady 1 4000 1 {} {} s" by blast
  have "content 1 s 33 = dblock (disk_now s) 33" using steady_disk [OF s(2), of 33] by simp
  then have "map (\<lambda>_. 9) (content 1 s 33) = (replicate BSIZE 9 :: u8 list)" by (simp add: map_replicate_const)
  moreover have len: "\<forall>bs :: u8 list. length bs = BSIZE \<longrightarrow> length (map (\<lambda>_. 9 :: u8) bs) = BSIZE" by simp
  moreover have r: "in_range 4000 33" "33 \<notin> ({} :: u32 set)" "card ({} :: u32 set) < NBUF"
    by (simp_all add: in_range_def NBUF_def MAXOPBLOCKS_def)
  moreover obtain t where "kbind (bread 1 33) (\<lambda>b. kseq (set_bdata b (map (\<lambda>_. 9))) (kseq (bwrite b) (brelse b))) s = Ret () t"
    and d: "\<forall>m :: u32. dblock (disk_now t) (unat m) = (if m = 33 then map (\<lambda>_. 9) (content 1 s 33) else dblock (disk_now s) (unat m))"
    using cached_write_reads_back [where f = "map (\<lambda>_. 9)", OF s(2) r len] by blast
  moreover have "dblock (disk_now t) 33 = map (\<lambda>_. 9) (content 1 s 33)" using d [rule_format, of 33] by simp
  ultimately show ?thesis using s(1) by (intro exI conjI) simp_all
qed

end
