(* ===== verification/LogSafe.thy ===== *)
theory LogSafe
  imports Log Blocks
begin

text \<open>
  Crash safety of the log. A disk is read through \<open>after_recovery\<close>: the blocks that a kernel booting from
  it sees once \<open>recover_from_log\<close> is done. Every write of a commit adds a disk to the history of the
  device; the properties say what \<open>after_recovery\<close> gives on each of them, so a crash at any point
  between two writes is covered. The operations on blocks are used through the laws of \<open>block_cache\<close>.
\<close>

section \<open>The log on the disk\<close>

definition header_list :: "u8 list \<Rightarrow> u32 list" where
  "header_list bs = map (\<lambda>i. ld32 bs (4 + 4 * i)) [0..<nat (head_n bs)]"

definition logblk :: "nat \<Rightarrow> nat \<Rightarrow> u32" where
  "logblk L i = u32_of (int L + int i + 1)"

definition blk :: "disk \<Rightarrow> u32 \<Rightarrow> u8 list" where
  "blk d n = dblock d (unat n)"

text \<open>Block \<open>n\<close> after recovery: the logged copy if the header lists the block, else the block itself.\<close>

definition replay :: "nat \<Rightarrow> u32 list \<Rightarrow> (u32 \<Rightarrow> u8 list) \<Rightarrow> u32 \<Rightarrow> u8 list" where
  "replay L xs c n = (case find (\<lambda>i. xs ! i = n) [0..<length xs] of Some i \<Rightarrow> c (logblk L i) | None \<Rightarrow> c n)"

definition after_recovery :: "nat \<Rightarrow> disk \<Rightarrow> u32 \<Rightarrow> u8 list" where
  "after_recovery L d = replay L (header_list (blk d (u32_of (int L)))) (blk d)"

text \<open>
  The log occupies \<open>sz\<close> blocks from \<open>L\<close>. A list of blocks fits when it names distinct home blocks of the
  disk, outside of the log, no more than there are blocks for copies, and leaves a buffer of the cache free.
\<close>

definition home :: "nat \<Rightarrow> nat \<Rightarrow> u32 \<Rightarrow> bool" where
  "home L sz n \<longleftrightarrow> unat n < L \<or> L + sz \<le> unat n"

definition log_area :: "nat \<Rightarrow> nat \<Rightarrow> nat \<Rightarrow> bool" where
  "log_area cap L sz \<longleftrightarrow> 0 < sz \<and> L + sz < 2 ^ 31 \<and> 2 * (L + sz) \<le> cap"

definition fits :: "nat \<Rightarrow> nat \<Rightarrow> nat \<Rightarrow> u32 list \<Rightarrow> bool" where
  "fits cap L sz xs \<longleftrightarrow> distinct xs \<and> length xs < sz \<and> length xs < NBUF
     \<and> (\<forall>n \<in> set xs. home L sz n \<and> in_range cap n)"

definition header_ok :: "nat \<Rightarrow> nat \<Rightarrow> nat \<Rightarrow> disk \<Rightarrow> bool" where
  "header_ok cap L sz d \<longleftrightarrow> 0 \<le> head_n (blk d (u32_of (int L))) \<and> fits cap L sz (header_list (blk d (u32_of (int L))))"

lemma find_index:
  assumes "distinct xs" and "i < length xs"
  shows "find (\<lambda>j. xs ! j = xs ! i) [0..<length xs] = Some i"
proof (cases "find (\<lambda>j. xs ! j = xs ! i) [0..<length xs]")
  case None
  then show ?thesis using assms by (auto simp: find_None_iff)
next
  case (Some j)
  then have "j < length xs" "xs ! j = xs ! i" by (auto dest: find_SomeD)
  then show ?thesis using Some assms by (simp add: nth_eq_iff_index_eq)
qed

lemma replay_in: "distinct xs \<Longrightarrow> i < length xs \<Longrightarrow> replay L xs c (xs ! i) = c (logblk L i)"
  by (simp add: replay_def find_index)

lemma replay_out: "n \<notin> set xs \<Longrightarrow> replay L xs c n = c n"
  by (auto simp: replay_def in_set_conv_nth find_Some_iff split: option.split)

lemma replay_Nil [simp]: "replay L [] c = c"
  by (rule ext) (simp add: replay_def)

lemma unat_u32_of: "k < 2 ^ 32 \<Longrightarrow> unat (u32_of (int k)) = k"
  by (simp add: u32_of_def unsigned_of_nat take_bit_nat_eq_self)

lemma unat_log [simp]:
  assumes "log_area cap L sz"
  shows "unat (u32_of (int L)) = L" and "i < sz - 1 \<Longrightarrow> unat (logblk L i) = L + i + 1"
proof -
  show "unat (u32_of (int L)) = L" using assms by (intro unat_u32_of) (simp add: log_area_def)
  show "unat (logblk L i) = L + i + 1" if "i < sz - 1"
  proof -
    have "logblk L i = u32_of (int (L + i + 1))" by (simp add: logblk_def ac_simps)
    moreover have "L + i + 1 < 2 ^ 32" using assms that by (auto simp: log_area_def)
    ultimately show ?thesis by (simp only: unat_u32_of)
  qed
qed

lemma log_not_home:
  assumes "log_area cap L sz" and "i < sz - 1"
  shows "\<not> home L sz (logblk L i)" and "\<not> home L sz (u32_of (int L))" and "logblk L i \<noteq> u32_of (int L)"
    and "in_range cap (logblk L i)" and "in_range cap (u32_of (int L))"
    and "j < sz - 1 \<Longrightarrow> logblk L j = logblk L i \<longleftrightarrow> j = i"
proof -
  have u: "unat (u32_of (int L)) = L" "unat (logblk L i) = L + i + 1" using assms by auto
  show "\<not> home L sz (logblk L i)" "\<not> home L sz (u32_of (int L))" using assms u by (auto simp: home_def log_area_def)
  show "logblk L i \<noteq> u32_of (int L)" using u by auto
  show "in_range cap (logblk L i)" "in_range cap (u32_of (int L))" using assms u by (auto simp: in_range_def log_area_def)
  show "logblk L j = logblk L i \<longleftrightarrow> j = i" if "j < sz - 1"
    using that u unat_log(2) [OF assms(1) that] by auto
qed

text \<open>Two disks that differ only in blocks that the header lists look the same after recovery.\<close>

lemma replay_cong:
  assumes "fits cap L sz xs" and "log_area cap L sz" and "\<And>n. n \<notin> set xs \<Longrightarrow> c n = c' n"
  shows "replay L xs c = replay L xs c'"
proof
  fix n
  show "replay L xs c n = replay L xs c' n"
  proof (cases "n \<in> set xs")
    case True
    then obtain i where i: "i < length xs" "xs ! i = n" by (auto simp: in_set_conv_nth)
    then have "i < sz - 1" using assms(1) by (auto simp: fits_def)
    then have "logblk L i \<notin> set xs" using log_not_home(1) [OF assms(2)] assms(1) by (auto simp: fits_def)
    then show ?thesis using assms(1,3) i by (auto simp: replay_in fits_def)
  qed (simp add: replay_out assms(3))
qed

section \<open>The header\<close>

lemma length_put_blocks [simp]: "4 + 4 * n \<le> length bs \<Longrightarrow> length (put_blocks n f bs) = length bs"
  by (induction n) simp_all

lemma ld_put_blocks:
  assumes "4 + 4 * n \<le> length bs"
  shows "ld32 (put_blocks n f bs) 0 = ld32 bs 0"
    and "i < n \<Longrightarrow> ld32 (put_blocks n f bs) (4 + 4 * i) = u32_of (f i)"
  using assms by (induction n) (auto simp: byte_simps less_Suc_eq)

definition logged :: "logstate \<Rightarrow> u32 list" where
  "logged l = map (\<lambda>i. u32_of (lh_block l i)) [0..<nat (lh_n l)]"

lemma length_logged [simp]: "length (logged l) = nat (lh_n l)"
  by (simp add: logged_def)

lemma logged_nth [simp]: "i < nat (lh_n l) \<Longrightarrow> logged l ! i = u32_of (lh_block l i)"
  by (simp add: logged_def)

lemma sint_u32_of: "0 \<le> i \<Longrightarrow> i < 2 ^ 31 \<Longrightarrow> sint (u32_of i) = i"
  by (simp add: u32_of_def signed_of_int signed_take_bit_int_eq_self)

lemma u32_of_sint [simp]: "u32_of (sint w) = w"
  by (simp add: u32_of_def)

lemma header_put:
  assumes "length bs = BSIZE" and "0 \<le> lh_n l" and "lh_n l < int NBUF"
  defines "h \<equiv> put_blocks (nat (lh_n l)) (lh_block l) (st32 bs 0 (u32_of (lh_n l)))"
  shows "length h = BSIZE" and "head_n h = lh_n l" and "header_list h = logged l"
proof -
  have b: "4 + 4 * nat (lh_n l) \<le> length (st32 bs 0 (u32_of (lh_n l)))"
    using assms by (simp add: BSIZE_def NBUF_def MAXOPBLOCKS_def)
  then show "length h = BSIZE" using assms(1) by (simp add: h_def BSIZE_def)
  show n: "head_n h = lh_n l"
    using ld_put_blocks(1) [OF b] assms by (simp add: head_n_def h_def byte_simps BSIZE_def sint_u32_of NBUF_def MAXOPBLOCKS_def)
  show "header_list h = logged l"
    unfolding header_list_def logged_def n using ld_put_blocks(2) [OF b] by (simp add: h_def)
qed

section \<open>The loops over the log\<close>

definition log_at :: "u32 \<Rightarrow> nat \<Rightarrow> nat \<Rightarrow> logstate \<Rightarrow> bool" where
  "log_at dv L sz l \<longleftrightarrow> u32_of (log_dev l) = dv \<and> log_start l = int L \<and> log_size l = int sz"

lemma bio_frame_klog: "bio_frame p s t \<Longrightarrow> klog t = klog s"
  by (auto simp: bio_frame_def)

lemma klog_ignored [simp]:
  "steady dv cap p pin held (s\<lparr>klog := l\<rparr>) = steady dv cap p pin held s"
  "content dv (s\<lparr>klog := l\<rparr>) = content dv s"
  by (simp_all add: steady_def cache_ok_def cache_inv_def disk_ok_def calm_def cpu_quiet_def unlocked_def hart_defs mycpu_def
      refs_def taken_def cached_def holds_def disk_now_def content_def fun_eq_iff cong: option.case_cong)

text \<open>The disks written between two states, the newest first, all satisfy \<open>P\<close>.\<close>

definition since :: "(disk \<Rightarrow> bool) \<Rightarrow> 'z vdisk_scheme \<Rightarrow> 'z vdisk_scheme \<Rightarrow> bool" where
  "since P s t \<longleftrightarrow> (\<exists>h. platter (dma t) = h @ platter (dma s) \<and> (\<forall>d \<in> set h. P d))"

lemma since_refl [simp]: "since P s s"
  by (simp add: since_def)

lemma since_trans:
  assumes "since P s t" and "since P t u"
  shows "since P s u"
proof -
  from assms obtain g h where "platter (dma t) = h @ platter (dma s)" "\<forall>d \<in> set h. P d"
    "platter (dma u) = g @ platter (dma t)" "\<forall>d \<in> set g. P d" unfolding since_def by blast
  then show ?thesis unfolding since_def by (intro exI [of _ "g @ h"]) auto
qed

lemma since_mono: "since P s t \<Longrightarrow> (\<And>d. P d \<Longrightarrow> Q d) \<Longrightarrow> since Q s t"
  unfolding since_def by blast

lemma since_put: "platter (dma t) = d # platter (dma s) \<Longrightarrow> P d \<Longrightarrow> since P s t"
  unfolding since_def by (intro exI [of _ "[d]"]) simp

lemma since_klog [simp]: "since P (s\<lparr>klog := l\<rparr>) t = since P s t" "since P s (t\<lparr>klog := l\<rparr>) = since P s t"
  by (simp_all add: since_def)

lemma blk_dput: "length bs = BSIZE \<Longrightarrow> blk (dput d (unat n) bs) m = (if m = n then bs else blk d m)"
  by (simp add: blk_def dblock_dput word_unat_eq_iff)

lemma steady_length: "steady dv cap p pin held s \<Longrightarrow> length (content dv s n) = BSIZE"
  by (auto simp: content_def split: option.split dest!: steadyD(2) find_SomeD) (auto simp: cache_inv_def)

lemma steady_blk: "steady dv cap p pin held s \<Longrightarrow> n \<notin> pin \<union> held \<Longrightarrow> content dv s n = blk (disk_now s) n"
  by (simp add: steady_disk blk_def)

lemma steady_blk_all: "steady dv cap p {} {} s \<Longrightarrow> content dv s = blk (disk_now s)"
  by (rule ext) (simp add: steady_blk)

text \<open>Every disk written between two states differs from the first only in blocks of \<open>S\<close>.\<close>

definition only :: "u32 set \<Rightarrow> 'z vdisk_scheme \<Rightarrow> 'z vdisk_scheme \<Rightarrow> bool" where
  "only S s t \<longleftrightarrow> since (\<lambda>d. \<forall>n. n \<notin> S \<longrightarrow> blk d n = blk (disk_now s) n) s t"

lemma only_refl [simp]: "only S s s"
  by (simp add: only_def)

lemma only_klog [simp]: "only S (s\<lparr>klog := l\<rparr>) t = only S s t" "only S s (t\<lparr>klog := l\<rparr>) = only S s t"
  by (simp_all add: only_def disk_now_def)

lemma only_now: "only S s t \<Longrightarrow> n \<notin> S \<Longrightarrow> blk (disk_now t) n = blk (disk_now s) n"
  unfolding only_def since_def disk_now_def by (metis append_Nil hd_append hd_in_set)

lemma only_step:
  assumes "only S s t" and "only T t u" and "T \<subseteq> S"
  shows "only S s u"
proof -
  have "since (\<lambda>d. \<forall>n. n \<notin> S \<longrightarrow> blk d n = blk (disk_now s) n) t u"
    using assms(2) unfolding only_def by (rule since_mono) (use assms(3) only_now [OF assms(1)] in auto)
  then show ?thesis using assms(1) since_trans unfolding only_def by blast
qed

lemma only_put: "platter (dma t) = dput (disk_now s) (unat n) bs # platter (dma s) \<Longrightarrow> length bs = BSIZE \<Longrightarrow> only {n} s t"
  unfolding only_def by (rule since_put) (auto simp: blk_dput)

text \<open>
  The setting of the loops: the logged blocks fit, and they are the pinned blocks of the cache.
\<close>

definition ready :: "u32 \<Rightarrow> nat \<Rightarrow> nat \<Rightarrow> nat \<Rightarrow> nat \<Rightarrow> u32 set \<Rightarrow> 'z logs_scheme \<Rightarrow> bool" where
  "ready dv cap p L sz pin s \<longleftrightarrow> log_at dv L sz (klog s) \<and> log_area cap L sz \<and> 0 \<le> lh_n (klog s)
     \<and> fits cap L sz (logged (klog s)) \<and> pin \<subseteq> set (logged (klog s)) \<and> steady dv cap p pin {} s"

lemma ready_step: "ready dv cap p L sz pin s \<Longrightarrow> bio_frame p s t \<Longrightarrow> pin' \<subseteq> pin \<Longrightarrow> steady dv cap p pin' {} t \<Longrightarrow> ready dv cap p L sz pin' t"
  by (auto simp: ready_def bio_frame_klog)

lemma ready_facts:
  assumes "ready dv cap p L sz pin s" and "k < nat (lh_n (klog s))"
  shows "steady dv cap p pin {} s" and "in_range cap (logblk L k)" and "in_range cap (logged (klog s) ! k)"
    and "logblk L k \<notin> pin" and "card pin < NBUF" and "finite pin" and "k < sz - 1" and "logblk L k \<notin> set (logged (klog s))"
proof -
  have k: "k < sz - 1" "k < length (logged (klog s))" using assms by (auto simp: ready_def fits_def)
  then show "k < sz - 1" by simp
  show "steady dv cap p pin {} s" using assms by (simp add: ready_def)
  show "in_range cap (logblk L k)" using log_not_home(4) [of cap L sz k] assms k by (simp add: ready_def)
  show "in_range cap (logged (klog s) ! k)" using assms k nth_mem [OF k(2)] by (auto simp: ready_def fits_def simp del: logged_nth)
  show n: "logblk L k \<notin> set (logged (klog s))" using log_not_home(1) [of cap L sz k] assms k by (auto simp: ready_def fits_def)
  then show "logblk L k \<notin> pin" using assms by (auto simp: ready_def)
  show "finite pin" using assms by (auto simp: ready_def intro: finite_subset)
  have "card pin \<le> length (logged (klog s))"
    using assms by (metis List.finite_set card_length card_mono le_trans ready_def)
  then show "card pin < NBUF" using assms by (auto simp: ready_def fits_def)
qed

text \<open>One turn of \<open>write_log\<close>: the copy of a pinned block goes to the log.\<close>

lemma write_log_one_copies:
  assumes r: "ready dv cap p L sz (set (logged (klog s))) s" and k: "k < nat (lh_n (klog s))"
  shows "\<exists>t. write_log_one k s = Ret () t \<and> ready dv cap p L sz (set (logged (klog s))) t \<and> klog t = klog s
      \<and> content dv t = (content dv s)(logblk L k := content dv s (logged (klog s) ! k))
      \<and> only {logblk L k} s t"
proof -
  let ?y = "logged (klog s) ! k" and ?pin = "set (logged (klog s))"
  have at: "u32_of (log_dev (klog s)) = dv" "log_start (klog s) = int L" using r by (auto simp: ready_def log_at_def)
  have y: "?y \<in> ?pin" using k by (intro nth_mem) simp
  obtain t where t: "kbind (bread dv (logblk L k)) (\<lambda>a. kbind (bread dv ?y) (\<lambda>b. kbind (kget (\<lambda>s. bdata s b)) (\<lambda>bs.
        kseq (set_bdata a (\<lambda>_. bs)) (kseq (bwrite a) (kseq (brelse b) (brelse a)))))) s = Ret () t"
    "steady dv cap p ?pin {} t" "bio_frame p s t" "content dv t = (content dv s)(logblk L k := content dv s ?y)"
    "platter (dma t) = dput (disk_now s) (unat (logblk L k)) (content dv s ?y) # platter (dma s)"
    using bc.copy_pinned [OF ready_facts(1-3) [OF r k] ready_facts(4) [OF r k] y ready_facts(5) [OF r k]] unfolding disk_now_def by blast
  have "write_log_one k s = Ret () t"
    using t(1) k by (simp only: write_log_one_def kbind_app logget_app res.case id_apply at logblk_def logged_nth)
  moreover have "only {logblk L k} s t"
    using t(5) by (rule only_put) (rule steady_length [OF ready_facts(1) [OF r k]])
  ultimately show ?thesis using t ready_step [OF r t(3) _ t(2)] by (auto simp: bio_frame_klog)
qed

lemma write_log_copies:
  fixes s :: "'z logs_scheme"
  assumes r: "ready dv cap p L sz (set (logged (klog s))) s"
  shows "\<exists>t. write_log s = Ret () t \<and> ready dv cap p L sz (set (logged (klog s))) t \<and> klog t = klog s
      \<and> (\<forall>i < nat (lh_n (klog s)). content dv t (logblk L i) = content dv s (logged (klog s) ! i))
      \<and> (\<forall>n. n \<notin> logblk L ` {..<nat (lh_n (klog s))} \<longrightarrow> content dv t n = content dv s n)
      \<and> only (logblk L ` {..<nat (lh_n (klog s))}) s t"
proof -
  let ?N = "nat (lh_n (klog s))" and ?xs = "logged (klog s)"
  let ?I = "\<lambda>k t :: 'z logs_scheme. ready dv cap p L sz (set ?xs) t \<and> klog t = klog s
      \<and> (\<forall>i < k. content dv t (logblk L i) = content dv s (?xs ! i))
      \<and> (\<forall>n. n \<notin> logblk L ` {..<k} \<longrightarrow> content dv t n = content dv s n) \<and> only (logblk L ` {..<?N}) s t"
  have "\<exists>t. kfor [0..<?N] write_log_one s = Ret () t \<and> ?I ?N t"
  proof (rule kfor_count [where I = ?I])
    show "?I 0 s" using r by simp
  next
    fix k t assume k: "k < ?N" and I: "?I k t"
    then have kl: "klog t = klog s" and rt: "ready dv cap p L sz (set (logged (klog t))) t" by simp_all
    obtain u where u: "write_log_one k t = Ret () u" "ready dv cap p L sz (set ?xs) u" "klog u = klog s"
      "content dv u = (content dv t)(logblk L k := content dv t (?xs ! k))" "only {logblk L k} t u"
      using write_log_one_copies [OF rt, of k] k unfolding kl by blast
    have "?xs ! i \<notin> logblk L ` {..<k}" if "i < ?N" for i
      using ready_facts(8) [OF r] that k nth_mem [of i ?xs] by fastforce
    then have "content dv t (?xs ! k) = content dv s (?xs ! k)" using I k by blast
    moreover have "logblk L i \<noteq> logblk L k" if "i < k" for i
      using log_not_home(6) [of cap L sz k i] ready_facts(7) [OF r] that k r by (auto simp: ready_def)
    moreover have "only (logblk L ` {..<?N}) s u" using I u(5) k by (blast intro: only_step)
    ultimately have "?I (Suc k) u" using I u by (auto simp: less_Suc_eq lessThan_Suc)
    then show "\<exists>u. write_log_one k t = Ret () u \<and> ?I (Suc k) u" using u(1) by blast
  qed
  then show ?thesis by (simp only: write_log_def kbind_app logget_app res.case)
qed

text \<open>One turn of \<open>install_trans\<close>, after a commit and in recovery.\<close>

lemma install_one_copies:
  assumes r: "ready dv cap p L sz pin s" and k: "k < nat (lh_n (klog s))"
    and pin: "if rec then pin = {} else logged (klog s) ! k \<in> pin"
  shows "\<exists>t. install_one rec k s = Ret () t \<and> ready dv cap p L sz (pin - {logged (klog s) ! k}) t \<and> klog t = klog s
      \<and> content dv t = (content dv s)(logged (klog s) ! k := content dv s (logblk L k))
      \<and> only {logged (klog s) ! k} s t"
proof -
  let ?y = "logged (klog s) ! k"
  have at: "u32_of (log_dev (klog s)) = dv" "log_start (klog s) = int L" using r by (auto simp: ready_def log_at_def)
  have y: "?y \<in> set (logged (klog s))" using k by (intro nth_mem) simp
  have ne: "logblk L k \<noteq> ?y" using ready_facts(8) [OF r k] y by auto
  note f = ready_facts(1-4) [OF r k]
  have "\<exists>t. kbind (bread dv (logblk L k)) (\<lambda>a. kbind (bread dv ?y) (\<lambda>b. kbind (kget (\<lambda>s. bdata s a)) (\<lambda>bs.
        kseq (set_bdata b (\<lambda>_. bs)) (kseq (bwrite b) (kseq (kwhen (\<not> rec) (bunpin b)) (kseq (brelse a) (brelse b))))))) s = Ret () t
      \<and> steady dv cap p (pin - {?y}) {} t \<and> bio_frame p s t \<and> content dv t = (content dv s)(?y := content dv s (logblk L k))
      \<and> platter (dma t) = dput (disk_now s) (unat ?y) (content dv s (logblk L k)) # platter (dma s)"
  proof (cases "rec")
    case True
    then have p0: "pin = {}" using pin by simp
    then have pd: "pin - {?y} = pin" "?y \<notin> pin" by simp_all
    show ?thesis using True
      by (simp only: kwhen_def if_False not_True_eq_False disk_now_def pd)
        (rule bc.install_free [OF f pd(2) ne ready_facts(6) [OF r k]], simp add: p0 NBUF_def MAXOPBLOCKS_def)
  next
    case False
    then have yp: "?y \<in> pin" using pin by simp
    show ?thesis using False
      by (simp only: kwhen_def if_True not_False_eq_True disk_now_def) (rule bc.install_pinned [OF f yp ready_facts(5) [OF r k]])
  qed
  then obtain t where t: "kbind (bread dv (logblk L k)) (\<lambda>a. kbind (bread dv ?y) (\<lambda>b. kbind (kget (\<lambda>s. bdata s a)) (\<lambda>bs.
        kseq (set_bdata b (\<lambda>_. bs)) (kseq (bwrite b) (kseq (kwhen (\<not> rec) (bunpin b)) (kseq (brelse a) (brelse b))))))) s = Ret () t"
    "steady dv cap p (pin - {?y}) {} t" "bio_frame p s t" "content dv t = (content dv s)(?y := content dv s (logblk L k))"
    "platter (dma t) = dput (disk_now s) (unat ?y) (content dv s (logblk L k)) # platter (dma s)" by blast
  have "install_one rec k s = Ret () t"
    using t(1) k by (simp only: install_one_def kbind_app logget_app res.case id_apply at logblk_def logged_nth)
  moreover have "only {?y} s t"
    using t(5) by (rule only_put) (rule steady_length [OF f(1)])
  ultimately show ?thesis using t ready_step [OF r t(3) _ t(2)] by (auto simp: bio_frame_klog)
qed

text \<open>After a commit the log agrees with the cache, and installing only changes the disk.\<close>

lemma install_trans_commit:
  fixes s :: "'z logs_scheme"
  assumes r: "ready dv cap p L sz (set (logged (klog s))) s"
    and c: "\<forall>i < nat (lh_n (klog s)). content dv s (logblk L i) = content dv s (logged (klog s) ! i)"
  shows "\<exists>t. install_trans False s = Ret () t \<and> ready dv cap p L sz {} t \<and> klog t = klog s
      \<and> content dv t = content dv s \<and> only (set (logged (klog s))) s t"
proof -
  let ?N = "nat (lh_n (klog s))" and ?xs = "logged (klog s)"
  let ?I = "\<lambda>k t :: 'z logs_scheme. ready dv cap p L sz (set (drop k ?xs)) t \<and> klog t = klog s
      \<and> content dv t = content dv s \<and> only (set ?xs) s t"
  have "\<exists>t. kfor [0..<?N] (install_one False) s = Ret () t \<and> ?I ?N t"
  proof (rule kfor_count [where I = ?I])
    show "?I 0 s" using r by simp
  next
    fix k t assume k: "k < ?N" and I: "?I k t"
    then have kl: "klog t = klog s" and rt: "ready dv cap p L sz (set (drop k ?xs)) t" by simp_all
    have d: "drop k ?xs = ?xs ! k # drop (Suc k) ?xs" using k Cons_nth_drop_Suc [of k ?xs] by simp
    have "distinct (drop k ?xs)" using r by (simp add: ready_def fits_def)
    then have pd: "?xs ! k \<in> set (drop k ?xs)" "set (drop k ?xs) - {?xs ! k} = set (drop (Suc k) ?xs)"
      unfolding d by simp_all
    obtain u where u: "install_one False k t = Ret () u" "ready dv cap p L sz (set (drop (Suc k) ?xs)) u" "klog u = klog s"
      "content dv u = (content dv t)(?xs ! k := content dv t (logblk L k))" "only {?xs ! k} t u"
      using install_one_copies [OF rt, of k False] k pd unfolding kl by auto
    have "content dv u = content dv s" using u(4) I c k by auto
    moreover have "?xs ! k \<in> set ?xs" using k by (intro nth_mem) simp
    then have "only (set ?xs) s u" using I u(5) by (blast intro: only_step)
    ultimately show "\<exists>u. install_one False k t = Ret () u \<and> ?I (Suc k) u" using u by blast
  qed
  then show ?thesis by (simp only: install_trans_def kbind_app logget_app res.case) simp
qed

text \<open>In recovery nothing is pinned, and installing brings the logged copies home.\<close>

lemma install_trans_recover:
  fixes s :: "'z logs_scheme"
  assumes r: "ready dv cap p L sz {} s"
  shows "\<exists>t. install_trans True s = Ret () t \<and> ready dv cap p L sz {} t \<and> klog t = klog s
      \<and> content dv t = replay L (logged (klog s)) (content dv s) \<and> only (set (logged (klog s))) s t"
proof -
  let ?N = "nat (lh_n (klog s))" and ?xs = "logged (klog s)"
  let ?I = "\<lambda>k t :: 'z logs_scheme. ready dv cap p L sz {} t \<and> klog t = klog s
      \<and> (\<forall>n. content dv t n = (if n \<in> set (take k ?xs) then replay L ?xs (content dv s) n else content dv s n))
      \<and> only (set ?xs) s t"
  have dist: "distinct ?xs" using r by (simp add: ready_def fits_def)
  have "\<exists>t. kfor [0..<?N] (install_one True) s = Ret () t \<and> ?I ?N t"
  proof (rule kfor_count [where I = ?I])
    show "?I 0 s" using r by simp
  next
    fix k t assume k: "k < ?N" and I: "?I k t"
    then have kl: "klog t = klog s" and rt: "ready dv cap p L sz {} t" by simp_all
    obtain u where u: "install_one True k t = Ret () u" "ready dv cap p L sz {} u" "klog u = klog s"
      "content dv u = (content dv t)(?xs ! k := content dv t (logblk L k))" "only {?xs ! k} t u"
      using install_one_copies [OF rt, of k True] k unfolding kl by auto
    have "logblk L k \<notin> set (take k ?xs)" using ready_facts(8) [OF r k] by (meson in_set_takeD)
    then have "content dv t (logblk L k) = replay L ?xs (content dv s) (?xs ! k)"
      using I replay_in [OF dist, of k] k by simp
    moreover have "take (Suc k) ?xs = take k ?xs @ [?xs ! k]" using k by (intro take_Suc_conv_app_nth) simp
    moreover have "?xs ! k \<in> set ?xs" using k by (intro nth_mem) simp
    then have "only (set ?xs) s u" using I u(5) by (blast intro: only_step)
    ultimately have "?I (Suc k) u" using I u by (simp del: logged_nth)
    then show "\<exists>u. install_one True k t = Ret () u \<and> ?I (Suc k) u" using u(1) by blast
  qed
  then obtain t where t: "kfor [0..<?N] (install_one True) s = Ret () t" "?I ?N t" by blast
  then have "content dv t = replay L ?xs (content dv s)" by (auto simp: fun_eq_iff replay_out)
  then show ?thesis using t by (intro exI [of _ t]) (simp only: install_trans_def kbind_app logget_app res.case simp_thms)
qed

text \<open>\<open>write_head\<close> makes the list in memory the list on the disk; \<open>read_head\<close> the other way round.\<close>

lemma write_head_writes:
  fixes s :: "'z logs_scheme"
  assumes r: "ready dv cap p L sz pin s"
  shows "\<exists>t bs. write_head s = Ret () t \<and> ready dv cap p L sz pin t \<and> klog t = klog s
      \<and> content dv t = (content dv s)(u32_of (int L) := bs) \<and> header_list bs = logged (klog s) \<and> head_n bs = lh_n (klog s)
      \<and> platter (dma t) = dput (disk_now s) L bs # platter (dma s) \<and> length bs = BSIZE"
proof -
  let ?f = "\<lambda>bs. put_blocks (nat (lh_n (klog s))) (lh_block (klog s)) (st32 bs 0 (u32_of (lh_n (klog s))))"
  let ?h = "u32_of (int L)"
  have at: "u32_of (log_dev (klog s)) = dv" "log_start (klog s) = int L" using r by (auto simp: ready_def log_at_def)
  have a: "log_area cap L sz" and sub: "pin \<subseteq> set (logged (klog s))" and fit: "fits cap L sz (logged (klog s))"
    and n: "0 \<le> lh_n (klog s)" and st: "steady dv cap p pin {} s"
    using r by (auto simp: ready_def)
  then have lt: "lh_n (klog s) < int NBUF" "nat (lh_n (klog s)) < NBUF" by (auto simp: fits_def)
  have h: "\<not> home L sz ?h" "in_range cap ?h" using a by (auto simp: home_def in_range_def log_area_def)
  have "?h \<notin> pin" using h(1) sub fit by (auto simp: fits_def)
  moreover have "card pin < NBUF"
    using sub lt(2) card_length [of "logged (klog s)"] card_mono [OF _ sub] by simp
  ultimately obtain t where t: "kbind (bread dv ?h) (\<lambda>b. kseq (set_bdata b ?f) (kseq (bwrite b) (brelse b))) s = Ret () t"
    "steady dv cap p pin {} t" "bio_frame p s t" "content dv t = (content dv s)(?h := ?f (content dv s ?h))"
    "platter (dma t) = dput (disk_now s) (unat ?h) (?f (content dv s ?h)) # platter (dma s)"
    using bc.update_block [OF st h(2), of ?f] header_put(1) [OF _ n lt(1)] unfolding disk_now_def by blast
  have "write_head s = Ret () t"
    using t(1) by (simp only: write_head_def kbind_app logget_app res.case id_apply at)
  then show ?thesis
    using t ready_step [OF r t(3) order_refl t(2)] header_put [OF steady_length [OF st] n lt(1)] a
    by (intro exI [of _ t] exI [of _ "?f (content dv s ?h)"]) (simp add: bio_frame_klog)
qed

lemma logset_loop:
  "kfor [0..<k] (\<lambda>i. logset (\<lambda>l. l\<lparr>lh_block := (lh_block l)(i := g i)\<rparr>)) s
     = Ret () (s\<lparr>klog := (klog s)\<lparr>lh_block := (\<lambda>i. if i < k then g i else lh_block (klog s) i)\<rparr>\<rparr>)"
proof (induction k)
  case 0
  then show ?case by (simp add: kfor.simps)
next
  case (Suc k)
  have "(\<lambda>i. if i < k then g i else lh_block (klog s) i)(k := g k) = (\<lambda>i. if i < Suc k then g i else lh_block (klog s) i)"
    by (auto simp: fun_eq_iff less_Suc_eq)
  then show ?case unfolding kfor_snoc Suc.IH by simp
qed

lemma read_head_reads:
  fixes s :: "'z logs_scheme"
  assumes at: "log_at dv L sz (klog s)" and a: "log_area cap L sz" and st: "steady dv cap p {} {} s"
    and ok: "header_ok cap L sz (disk_now s)"
  shows "\<exists>t. read_head s = Ret () t \<and> ready dv cap p L sz {} t \<and> content dv t = content dv s
      \<and> logged (klog t) = header_list (blk (disk_now s) (u32_of (int L))) \<and> platter (dma t) = platter (dma s)"
proof -
  let ?h = "u32_of (int L)"
  have at': "u32_of (log_dev (klog s)) = dv" "log_start (klog s) = int L" using at by (auto simp: log_at_def)
  have h: "in_range cap ?h" using a by (auto simp: in_range_def log_area_def)
  define bs where "bs = content dv s ?h"
  have bs: "bs = blk (disk_now s) ?h" using steady_blk [OF st] by (simp add: bs_def)
  obtain b t where t: "bread dv ?h s = Ret b t" "steady dv cap p {} {?h} t" "cached dv ?h b t" "bio_frame p s t"
    "content dv t = content dv s" "platter (dma t) = platter (dma s)"
    using bread_steady [OF st h] by (auto simp: NBUF_def MAXOPBLOCKS_def)
  have d: "bdata t b = bs" using steady_content [OF t(2) _ t(3)] t(5) by (simp add: bs_def)
  have kl: "klog t = klog s" by (rule bio_frame_klog [OF t(4)])
  define l where "l = (klog s)\<lparr>lh_n := head_n bs, lh_block := (\<lambda>i. if i < nat (head_n bs) then head_block bs i else lh_block (klog s) i)\<rparr>"
  have c: "cached dv ?h b (t\<lparr>klog := l\<rparr>)" using t(3) by (simp add: cached_def)
  have now: "disk_now (t\<lparr>klog := l\<rparr>) = disk_now s" using t(6) by (simp add: disk_now_def)
  obtain u where u: "brelse b (t\<lparr>klog := l\<rparr>) = Ret () u" "steady dv cap p {} {} u" "bio_frame p (t\<lparr>klog := l\<rparr>) u"
    "content dv u = content dv s" "platter (dma u) = platter (dma s)"
    using release_steady [of dv cap p "{}" "{?h}" "t\<lparr>klog := l\<rparr>" ?h b] t(2,5,6) c bs by (auto simp: bs_def now blk_def)
  have ku: "klog u = l" using bio_frame_klog [OF u(3)] by simp
  have "read_head s = Ret () u"
    using u(1) t(1) by (simp add: read_head_def at' d logset_loop kl l_def cong: if_cong)
  moreover have "logged l = header_list bs" by (simp add: logged_def header_list_def l_def head_block_def)
  moreover from this have "ready dv cap p L sz {} u"
    using at a ok u(2) by (simp add: ready_def ku log_at_def header_ok_def bs) (simp add: l_def bs)
  ultimately show ?thesis using u(4,5) by (auto simp: ku bs)
qed

section \<open>Commit and recovery\<close>

abbreviation header :: "nat \<Rightarrow> disk \<Rightarrow> u8 list" where
  "header L d \<equiv> blk d (u32_of (int L))"

text \<open>The disk that a kernel booting now recovers to: \<open>c\<close> on every home block.\<close>

definition recovers :: "nat \<Rightarrow> nat \<Rightarrow> nat \<Rightarrow> (u32 \<Rightarrow> u8 list) \<Rightarrow> disk \<Rightarrow> bool" where
  "recovers cap L sz c d \<longleftrightarrow> header_ok cap L sz d \<and> (\<forall>n. home L sz n \<longrightarrow> after_recovery L d n = c n)"

lemma fits_Nil: "log_area cap L sz \<Longrightarrow> fits cap L sz []"
  by (simp add: fits_def log_area_def NBUF_def MAXOPBLOCKS_def)

lemma copies_not_home:
  assumes "log_area cap L sz" and "fits cap L sz xs" and "i < length xs"
  shows "\<not> home L sz (logblk L i)" and "logblk L i \<notin> set xs" and "logblk L i \<noteq> u32_of (int L)"
proof -
  have "i < sz - 1" using assms(2,3) by (auto simp: fits_def)
  then show "\<not> home L sz (logblk L i)" "logblk L i \<noteq> u32_of (int L)" using log_not_home [OF assms(1)] by auto
  then show "logblk L i \<notin> set xs" using assms(2) by (auto simp: fits_def)
qed

lemma header_not_home: "log_area cap L sz \<Longrightarrow> \<not> home L sz (u32_of (int L))"
  by (simp add: home_def log_area_def)

text \<open>A disk with an empty log is what it recovers to.\<close>

lemma recovers_empty:
  assumes "log_area cap L sz" and "head_n (header L d) = 0" and "\<And>n. home L sz n \<Longrightarrow> blk d n = c n"
  shows "recovers cap L sz c d"
  using assms by (simp add: recovers_def header_ok_def header_list_def after_recovery_def fits_Nil)

text \<open>
  A disk with a written header recovers to the copies in its log; the home blocks of the list do not matter.
\<close>

lemma recovers_list:
  assumes a: "log_area cap L sz" and xs: "header_list (header L d) = xs" "0 \<le> head_n (header L d)" "fits cap L sz xs"
    and copy: "\<And>i. i < length xs \<Longrightarrow> blk d (logblk L i) = c (xs ! i)"
    and rest: "\<And>n. home L sz n \<Longrightarrow> n \<notin> set xs \<Longrightarrow> blk d n = c n"
  shows "recovers cap L sz c d"
proof -
  have "replay L xs (blk d) n = c n" if "home L sz n" for n
  proof (cases "n \<in> set xs")
    case True
    then obtain i where "i < length xs" "xs ! i = n" by (auto simp: in_set_conv_nth)
    then show ?thesis using copy replay_in [of xs i L "blk d"] xs(3) by (auto simp: fits_def)
  qed (simp add: replay_out rest that)
  then show ?thesis using xs by (simp add: recovers_def header_ok_def after_recovery_def)
qed

text \<open>
  The second half of a commit: the write of the header is the commit point. Every disk from then on
  recovers to what the cache has now.
\<close>

lemma commit_point:
  fixes s :: "'z logs_scheme"
  assumes r: "ready dv cap p L sz (set (logged (klog s))) s" and n: "0 < lh_n (klog s)"
    and copy: "\<And>i. i < nat (lh_n (klog s)) \<Longrightarrow> content dv s (logblk L i) = content dv s (logged (klog s) ! i)"
  shows "\<exists>t. kseq write_head (install_trans False) s = Ret () t \<and> ready dv cap p L sz {} t \<and> klog t = klog s
      \<and> since (recovers cap L sz (content dv s)) s t \<and> (\<forall>n. home L sz n \<longrightarrow> content dv t n = content dv s n)"
proof -
  let ?xs = "logged (klog s)" and ?h = "u32_of (int L)"
  have a: "log_area cap L sz" and fit: "fits cap L sz ?xs" and st: "steady dv cap p (set ?xs) {} s"
    using r by (simp_all add: ready_def)
  note cp = copies_not_home [OF a fit]
  have nh: "\<not> home L sz ?h" "?h \<notin> set ?xs" using header_not_home [OF a] fit by (auto simp: fits_def)
  obtain u bs where u: "write_head s = Ret () u" "ready dv cap p L sz (set ?xs) u" "klog u = klog s"
    "content dv u = (content dv s)(?h := bs)" "header_list bs = ?xs" "head_n bs = lh_n (klog s)"
    "platter (dma u) = dput (disk_now s) L bs # platter (dma s)" "length bs = BSIZE"
    using write_head_writes [OF r] by blast
  have du: "blk (disk_now u) n = (if n = ?h then bs else blk (disk_now s) n)" for n
    using blk_dput [OF u(8), of "disk_now s" ?h n] u(7) a by (simp add: disk_now_def)
  have rec: "recovers cap L sz (content dv s) d" if d: "\<forall>n. n \<notin> set ?xs \<longrightarrow> blk d n = blk (disk_now u) n" for d
  proof (rule recovers_list [OF a _ _ fit])
    show "header_list (header L d) = ?xs" "0 \<le> head_n (header L d)" using d nh(2) n by (simp_all add: du u)
    show "blk d (logblk L i) = content dv s (?xs ! i)" if "i < length ?xs" for i
      using that d cp [OF that] copy steady_blk [OF st, of "logblk L i"] by (simp add: du)
    show "blk d n = content dv s n" if "home L sz n" "n \<notin> set ?xs" for n
      using that d nh steady_blk [OF st, of n] by (auto simp: du)
  qed
  have "content dv u (logblk L i) = content dv u (?xs ! i)" if "i < nat (lh_n (klog s))" for i
  proof -
    have "?xs ! i \<in> set ?xs" using that by (intro nth_mem) simp
    then have "?xs ! i \<noteq> ?h" using nh(2) by metis
    then show ?thesis using copy [OF that] cp(3) [of i] that by (simp add: u(4) del: logged_nth)
  qed
  then have "\<forall>i < nat (lh_n (klog u)). content dv u (logblk L i) = content dv u (logged (klog u) ! i)"
    unfolding u(3) by blast
  then obtain t where t: "install_trans False u = Ret () t" "ready dv cap p L sz {} t" "klog t = klog s"
    "content dv t = content dv u" "only (set ?xs) u t"
    using install_trans_commit [of dv cap p L sz u] u(2,3) by auto
  have "since (recovers cap L sz (content dv s)) s u" using u(7) rec [of "disk_now u"] by (intro since_put) (auto simp: disk_now_def)
  moreover have "since (recovers cap L sz (content dv s)) u t" using t(5) unfolding only_def by (rule since_mono) (rule rec)
  ultimately show ?thesis using u(1,4) t nh(1) by (intro exI [of _ t]) (auto intro: since_trans)
qed

text \<open>The end of both: the empty list is written to the header.\<close>

lemma clear_head:
  fixes s :: "'z logs_scheme"
  assumes r: "ready dv cap p L sz {} s" and c: "\<And>n. home L sz n \<Longrightarrow> content dv s n = c n"
  shows "\<exists>t. kseq (logset (\<lambda>l. l\<lparr>lh_n := 0\<rparr>)) write_head s = Ret () t \<and> ready dv cap p L sz {} t \<and> klog t = (klog s)\<lparr>lh_n := 0\<rparr>
      \<and> since (recovers cap L sz c) s t \<and> recovers cap L sz c (disk_now t)
      \<and> head_n (header L (disk_now t)) = 0 \<and> (\<forall>n. home L sz n \<longrightarrow> content dv t n = c n)"
proof -
  let ?s = "s\<lparr>klog := (klog s)\<lparr>lh_n := 0\<rparr>\<rparr>" and ?h = "u32_of (int L)"
  have a: "log_area cap L sz" and st: "steady dv cap p {} {} s" using r by (simp_all add: ready_def)
  have "ready dv cap p L sz {} ?s" using r fits_Nil [OF a] by (simp add: ready_def log_at_def logged_def)
  then obtain t bs where t: "write_head ?s = Ret () t" "ready dv cap p L sz {} t" "klog t = klog ?s"
    "content dv t = (content dv s)(?h := bs)" "head_n bs = 0"
    "platter (dma t) = dput (disk_now s) L bs # platter (dma s)" "length bs = BSIZE"
    using write_head_writes [of dv cap p L sz "{}" ?s] by (auto simp: disk_now_def)
  have d: "blk (disk_now t) n = (if n = ?h then bs else blk (disk_now s) n)" for n
    using blk_dput [OF t(7), of "disk_now s" ?h n] t(6) a by (simp add: disk_now_def)
  have "recovers cap L sz c (disk_now t)"
    by (rule recovers_empty [OF a]) (use c header_not_home [OF a] steady_blk [OF st] t(5) in \<open>auto simp: d\<close>)
  moreover from this have "since (recovers cap L sz c) s t" using t(6) by (intro since_put) (auto simp: disk_now_def)
  ultimately show ?thesis using t c header_not_home [OF a] by (intro exI [of _ t]) (auto simp: d)
qed

lemma commit_history:
  fixes s :: "'z logs_scheme"
  assumes r: "ready dv cap p L sz (set (logged (klog s))) s" and n: "0 < lh_n (klog s)"
    and h0: "head_n (header L (disk_now s)) = 0"
  shows "\<exists>m t. commit s = Ret () t \<and> since (recovers cap L sz (blk (disk_now s))) s m
      \<and> since (recovers cap L sz (content dv s)) m t \<and> recovers cap L sz (content dv s) (disk_now t)
      \<and> head_n (header L (disk_now t)) = 0 \<and> ready dv cap p L sz {} t \<and> klog t = (klog s)\<lparr>lh_n := 0\<rparr>
      \<and> (\<forall>n. home L sz n \<longrightarrow> content dv t n = content dv s n)"
proof -
  let ?xs = "logged (klog s)" and ?N = "nat (lh_n (klog s))" and ?h = "u32_of (int L)"
  have a: "log_area cap L sz" and fit: "fits cap L sz ?xs" using r by (simp_all add: ready_def)
  have copies: "n \<notin> logblk L ` {..<?N}" if "home L sz n \<or> n \<in> set ?xs \<or> n = ?h" for n
    using that copies_not_home [OF a fit] by auto
  obtain s1 where s1: "write_log s = Ret () s1" "ready dv cap p L sz (set ?xs) s1" "klog s1 = klog s"
    "\<And>i. i < ?N \<Longrightarrow> content dv s1 (logblk L i) = content dv s (?xs ! i)"
    "\<And>n. n \<notin> logblk L ` {..<?N} \<Longrightarrow> content dv s1 n = content dv s n" "only (logblk L ` {..<?N}) s s1"
    using write_log_copies [OF r] by blast
  have old: "since (recovers cap L sz (blk (disk_now s))) s s1"
    using s1(6) unfolding only_def by (rule since_mono) (use copies h0 in \<open>auto intro!: recovers_empty [OF a]\<close>)
  have same: "content dv s1 n = content dv s n" if "home L sz n" for n using that copies s1(5) by blast
  have "content dv s1 (?xs ! i) = content dv s (?xs ! i)" if "i < ?N" for i
    using copies s1(5) nth_mem [of i ?xs] that by (metis length_logged)
  then have "\<And>i. i < nat (lh_n (klog s1)) \<Longrightarrow> content dv s1 (logblk L i) = content dv s1 (logged (klog s1) ! i)"
    unfolding s1(3) using s1(4) by metis
  then obtain s2 where s2: "kseq write_head (install_trans False) s1 = Ret () s2" "ready dv cap p L sz {} s2" "klog s2 = klog s"
      "since (recovers cap L sz (content dv s1)) s1 s2" "\<forall>n. home L sz n \<longrightarrow> content dv s2 n = content dv s1 n"
    using commit_point [of dv cap p L sz s1] s1(2,3) n by auto
  have new: "since (recovers cap L sz (content dv s)) s1 s2"
    using s2(4) by (rule since_mono) (simp add: recovers_def same)
  have hm: "\<And>n. home L sz n \<Longrightarrow> content dv s2 n = content dv s n" using s2(5) same by simp
  obtain t where t: "kseq (logset (\<lambda>l. l\<lparr>lh_n := 0\<rparr>)) write_head s2 = Ret () t" "ready dv cap p L sz {} t" "klog t = (klog s2)\<lparr>lh_n := 0\<rparr>"
     "since (recovers cap L sz (content dv s)) s2 t" "recovers cap L sz (content dv s) (disk_now t)"
     "head_n (header L (disk_now t)) = 0" "\<forall>n. home L sz n \<longrightarrow> content dv t n = content dv s n"
    using clear_head [OF s2(2) hm] by blast
  have "commit s = Ret () t"
    using s1(1) s2(1) t(1) n by (auto simp: commit_def split: res.splits)
  then show ?thesis using old since_trans [OF new t(4)] t s2(3) by (intro exI [of _ s1] exI [of _ t]) simp
qed

lemma recover_history:
  fixes s :: "'z logs_scheme"
  assumes at: "log_at dv L sz (klog s)" and a: "log_area cap L sz" and st: "steady dv cap p {} {} s"
    and ok: "header_ok cap L sz (disk_now s)"
  shows "\<exists>t. recover_from_log s = Ret () t \<and> ready dv cap p L sz {} t \<and> lh_n (klog t) = 0
      \<and> since (recovers cap L sz (after_recovery L (disk_now s))) s t
      \<and> recovers cap L sz (after_recovery L (disk_now s)) (disk_now t) \<and> head_n (header L (disk_now t)) = 0
      \<and> (\<forall>n. home L sz n \<longrightarrow> content dv t n = after_recovery L (disk_now s) n)"
proof -
  let ?xs = "header_list (header L (disk_now s))"
  obtain s1 where s1: "read_head s = Ret () s1" "ready dv cap p L sz {} s1" "content dv s1 = content dv s"
    "logged (klog s1) = ?xs" "platter (dma s1) = platter (dma s)"
    using read_head_reads [OF at a st ok] by blast
  obtain s2 where s2: "install_trans True s1 = Ret () s2" "ready dv cap p L sz {} s2"
    "content dv s2 = replay L ?xs (content dv s1)" "only (set ?xs) s1 s2"
    using install_trans_recover [OF s1(2)] unfolding s1(4) by blast
  have fit: "fits cap L sz ?xs" using ok by (simp add: header_ok_def)
  have "content dv s = blk (disk_now s)" by (rule steady_blk_all [OF st])
  then have c2: "content dv s2 = after_recovery L (disk_now s)" by (simp add: s2(3) s1(3) after_recovery_def)
  have now: "disk_now s1 = disk_now s" using s1(5) by (simp add: disk_now_def)
  have "recovers cap L sz (after_recovery L (disk_now s)) d"
    if d: "\<forall>n. n \<notin> set ?xs \<longrightarrow> blk d n = blk (disk_now s1) n" for d
  proof -
    have "u32_of (int L) \<notin> set ?xs" using header_not_home [OF a] fit by (auto simp: fits_def)
    then have h: "header L d = header L (disk_now s)" using d now by simp
    moreover have "replay L ?xs (blk d) = replay L ?xs (blk (disk_now s))"
      using d now by (intro replay_cong [OF fit a]) simp
    ultimately show ?thesis using ok by (simp add: recovers_def header_ok_def after_recovery_def)
  qed
  then have "since (recovers cap L sz (after_recovery L (disk_now s))) s1 s2"
    using s2(4) since_mono unfolding only_def by blast
  then have h2: "since (recovers cap L sz (after_recovery L (disk_now s))) s s2" using s1(5) by (simp add: since_def)
  obtain t where t: "kseq (logset (\<lambda>l. l\<lparr>lh_n := 0\<rparr>)) write_head s2 = Ret () t" "ready dv cap p L sz {} t" "klog t = (klog s2)\<lparr>lh_n := 0\<rparr>"
     "since (recovers cap L sz (after_recovery L (disk_now s))) s2 t" "recovers cap L sz (after_recovery L (disk_now s)) (disk_now t)"
     "head_n (header L (disk_now t)) = 0" "\<forall>n. home L sz n \<longrightarrow> content dv t n = after_recovery L (disk_now s) n"
    using clear_head [OF s2(2), of "after_recovery L (disk_now s)"] c2 by auto
  have "recover_from_log s = Ret () t"
    using s1(1) s2(1) t(1) by (auto simp: recover_from_log_def split: res.splits)
  then show ?thesis using since_trans [OF h2 t(4)] t by (intro exI [of _ t]) simp
qed

section \<open>Recording a block in a transaction\<close>

lemma klog_enter [lock_simps]:
  "klog (enter lk s) = klog s" "(enter lk s)\<lparr>klog := l\<rparr> = enter lk (s\<lparr>klog := l\<rparr>)"
  "calm p (s\<lparr>klog := l\<rparr>) = calm p s" "ref_buf b (s\<lparr>klog := l\<rparr>) = (ref_buf b s)\<lparr>klog := l\<rparr>" "klog (ref_buf b s) = klog s"
  by (simp_all add: enter_def push_state_def set_mycpu_def hart_defs calm_def cpu_quiet_def unlocked_def ref_buf_def)

definition lists :: "logstate \<Rightarrow> u32 list \<Rightarrow> bool" where
  "lists l xs \<longleftrightarrow> lh_n l = int (length xs) \<and> (\<forall>i < length xs. lh_block l i = sint (xs ! i))"

lemma lists_logged: "lists l xs \<Longrightarrow> logged l = xs"
  by (auto simp: lists_def intro: nth_equalityI)

text \<open>The search for an entry stops at the first one that has the block, or at the end.\<close>

lemma log_index_scan:
  "log_index k i f x \<le> i + k" "log_index k i f x < i + k \<Longrightarrow> f (log_index k i f x) = x"
  "i \<le> j \<Longrightarrow> j < log_index k i f x \<Longrightarrow> f j \<noteq> x"
proof (induction k arbitrary: i)
  case (Suc k)
  { case 1 then show ?case using Suc(1) [of "Suc i"] by simp
  next case 2 then show ?case using Suc(2) [of "Suc i"] by (auto split: if_splits)
  next case 3 then show ?case using Suc(3) [of "Suc i"] by (cases "j = i") (auto split: if_splits) }
qed simp_all

lemma sint_inj: "sint (a :: u32) = sint b \<longleftrightarrow> a = b"
  by (metis u32_of_sint)

lemma lists_add:
  fixes n :: u32
  assumes "lists l xs"
  defines "i \<equiv> log_index (nat (lh_n l)) 0 (lh_block l) (sint n)"
  shows "int i = lh_n l \<longleftrightarrow> n \<notin> set xs"
    and "n \<in> set xs \<Longrightarrow> l\<lparr>lh_block := (lh_block l)(i := sint n)\<rparr> = l"
    and "n \<notin> set xs \<Longrightarrow> lists (l\<lparr>lh_block := (lh_block l)(i := sint n), lh_n := lh_n l + 1\<rparr>) (xs @ [n])"
proof -
  have l: "nat (lh_n l) = length xs" "lh_n l = int (length xs)" "\<And>i. i < length xs \<Longrightarrow> lh_block l i = sint (xs ! i)"
    using assms(1) by (simp_all add: lists_def)
  note scan = log_index_scan [where k = "length xs" and i = 0 and f = "lh_block l" and x = "sint n", folded i_def [unfolded l(1)], simplified]
  have i: "i \<le> length xs" using scan(1) by simp
  have hit: "lh_block l i = sint n" "xs ! i = n" if "i < length xs"
    using scan(2) that l(3) [of i] by (simp_all add: sint_inj)
  have out: "n \<notin> set xs" if "i = length xs"
    using scan(3) that l(3) by (auto simp: in_set_conv_nth)
  show e: "int i = lh_n l \<longleftrightarrow> n \<notin> set xs" using i hit out nth_mem [of i xs] by (cases "i = length xs") (auto simp: l(2))
  show "l\<lparr>lh_block := (lh_block l)(i := sint n)\<rparr> = l" if "n \<in> set xs"
    using that e hit(1) i by (auto simp: l(2) fun_upd_idem)
  show "lists (l\<lparr>lh_block := (lh_block l)(i := sint n), lh_n := lh_n l + 1\<rparr>) (xs @ [n])" if "n \<notin> set xs"
    using that e l by (auto simp: lists_def nth_append less_Suc_eq)
qed

lemma calm_ref_buf: "calm p s \<Longrightarrow> calm p (ref_buf b s)"
  by (simp add: ref_buf_def lock_simps)

lemma bpin_calm: "calm p s \<Longrightarrow> bpin b s = Ret () (ref_buf b s)"
  using calm_release [OF calm_ref_buf, of p s Bcache_lock b] by (simp add: bpin_def calm_acquire lock_simps ref_buf_def)

lemma bpin_enter:
  assumes "calm p s"
  shows "bpin b (enter Log_lock s) = Ret () (enter Log_lock (ref_buf b s))"
  using calm_enter_facts(3) [OF assms, of Bcache_lock Log_lock] calm_enter_facts(4) [OF calm_ref_buf [OF assms, of b], of Bcache_lock Log_lock]
  by (simp add: bpin_def ref_buf_def lock_simps)

lemma log_write_run:
  fixes s :: "'z logs_scheme"
  assumes calm: "calm p s" and xs: "lists (klog s) xs" "length xs < LOGSIZE" "int (length xs) < log_size (klog s) - 1"
    and o: "1 \<le> outstanding (klog s)" and b: "b_blockno (bufs s b) = n"
  shows "\<exists>l. log_write b s = Ret () ((if n \<in> set xs then s else ref_buf b s)\<lparr>klog := l\<rparr>)
      \<and> lists l (if n \<in> set xs then xs else xs @ [n])
      \<and> log_dev l = log_dev (klog s) \<and> log_start l = log_start (klog s) \<and> log_size l = log_size (klog s)
      \<and> outstanding l = outstanding (klog s) \<and> committing l = committing (klog s)"
proof -
  let ?i = "log_index (nat (lh_n (klog s))) 0 (lh_block (klog s)) (sint n)"
  let ?l = "(klog s)\<lparr>lh_block := (lh_block (klog s))(?i := sint n)\<rparr>"
  have g: "\<not> (int LOGSIZE \<le> lh_n (klog s) \<or> log_size (klog s) - 1 \<le> lh_n (klog s))" "\<not> outstanding (klog s) < 1"
    using xs o by (auto simp: lists_def)
  note add = lists_add [OF xs(1), of n]
  show ?thesis
  proof (cases "n \<in> set xs")
    case True
    then have "log_write b s = Ret () (s\<lparr>klog := ?l\<rparr>)"
      using g b calm add(1) calm_release [of p "s\<lparr>klog := ?l\<rparr>" Log_lock]
      by (simp add: log_write_def calm_acquire lock_simps Let_def)
    then show ?thesis using True add(2) xs(1) by (intro exI [of _ ?l]) simp
  next
    case False
    have c: "calm p (s\<lparr>klog := ?l\<rparr>)" "calm p ((ref_buf b s)\<lparr>klog := ?l\<lparr>lh_n := lh_n (klog s) + 1\<rparr>\<rparr>)"
      using calm calm_ref_buf [OF calm, of b] by (simp_all add: lock_simps)
    have "log_write b s = Ret () ((ref_buf b s)\<lparr>klog := ?l\<lparr>lh_n := lh_n (klog s) + 1\<rparr>\<rparr>)"
      using False g b calm add(1) bpin_enter [OF c(1), of b] calm_release [OF c(2), of Log_lock]
      by (simp add: log_write_def calm_acquire lock_simps Let_def)
    then show ?thesis by (intro exI [of _ "?l\<lparr>lh_n := lh_n (klog s) + 1\<rparr>"]) (simp add: False add(3))
  qed
qed

text \<open>
  The idiom of the file system: read a block, change it in memory, record it in the log, release it.
\<close>

definition logged_update :: "u32 \<Rightarrow> u32 \<Rightarrow> (u8 list \<Rightarrow> u8 list) \<Rightarrow> ('z logs_scheme, unit) kfun" where
  "logged_update dv n f = kbind (bread dv n) (\<lambda>b. kseq (set_bdata b f) (kseq (log_write b) (brelse b)))"

definition add_block :: "u32 \<Rightarrow> u32 list \<Rightarrow> u32 list" where
  "add_block n xs = (if n \<in> set xs then xs else xs @ [n])"

text \<open>A transaction under way: the logged blocks are the pinned ones, and one system call is in progress.\<close>

definition in_op :: "u32 \<Rightarrow> nat \<Rightarrow> nat \<Rightarrow> nat \<Rightarrow> nat \<Rightarrow> u32 list \<Rightarrow> 'z logs_scheme \<Rightarrow> bool" where
  "in_op dv cap p L sz xs s \<longleftrightarrow> ready dv cap p L sz (set xs) s \<and> lists (klog s) xs
     \<and> outstanding (klog s) = 1 \<and> committing (klog s) = 0"

lemma fits_add:
  "fits cap L sz xs \<Longrightarrow> home L sz n \<Longrightarrow> in_range cap n \<Longrightarrow> Suc (length xs) < sz \<Longrightarrow> Suc (length xs) < NBUF \<Longrightarrow> fits cap L sz (add_block n xs)"
  by (auto simp: fits_def add_block_def)

lemma logged_update_ok:
  fixes s :: "'z logs_scheme"
  assumes op: "in_op dv cap p L sz xs s" and n: "home L sz n" "in_range cap n"
    and room: "Suc (length xs) < sz" "Suc (length xs) < NBUF"
    and f: "length (f (content dv s n)) = BSIZE"
  shows "\<exists>t. logged_update dv n f s = Ret () t \<and> in_op dv cap p L sz (add_block n xs) t
      \<and> content dv t = (content dv s)(n := f (content dv s n)) \<and> platter (dma t) = platter (dma s)"
proof -
  have r: "ready dv cap p L sz (set xs) s" and xs: "lists (klog s) xs" using op by (simp_all add: in_op_def)
  have st: "steady dv cap p (set xs) {} s" using r by (simp add: ready_def)
  have "card (set xs) < NBUF" using room(2) card_length [of xs] by simp
  then obtain b s1 where s1: "bread dv n s = Ret b s1" "steady dv cap p (set xs) {n} s1" "cached dv n b s1" "bio_frame p s s1"
      "content dv s1 = content dv s" "platter (dma s1) = platter (dma s)"
    using bc.rd_law [OF st n(2)] by auto
  obtain s2 where s2: "set_bdata b f s1 = Ret () s2" "steady dv cap p (set xs) {n} s2" "bio_frame p s1 s2"
      "content dv s2 = (content dv s)(n := f (content dv s n))" "platter (dma s2) = platter (dma s)" "cached dv n b s2"
    using bc.put_law [OF s1(2) _ s1(3), of f] s1(3,5,6) f by auto
  have k2: "klog s2 = klog s" using bio_frame_klog [OF s1(4)] bio_frame_klog [OF s2(3)] by simp
  have calm: "calm p s2" by (rule steadyD(3) [OF s2(2)])
  let ?w = "if n \<in> set xs then s2 else ref_buf b s2"
  have w: "steady dv cap p (insert n (set xs)) {n} ?w" "content dv ?w = content dv s2" "platter (dma ?w) = platter (dma s)" "cached dv n b ?w"
    using s2 bc.pn_law [OF s2(2) _ s2(6)] bpin_calm [OF calm, of b] by (auto simp: insert_absorb)
  obtain l where l: "log_write b s2 = Ret () (?w\<lparr>klog := l\<rparr>)" "lists l (add_block n xs)"
      "log_dev l = log_dev (klog s)" "log_start l = log_start (klog s)" "log_size l = log_size (klog s)" 
      "outstanding l = outstanding (klog s)" "committing l = committing (klog s)"
    using log_write_run [where xs = xs and b = b and n = n, OF calm] k2 xs op room s2(6)
    by (auto simp: in_op_def ready_def log_at_def cached_def add_block_def LOGSIZE_def NBUF_def MAXOPBLOCKS_def)
  obtain t where t: "brelse b (?w\<lparr>klog := l\<rparr>) = Ret () t" "steady dv cap p (insert n (set xs)) {} t" "bio_frame p (?w\<lparr>klog := l\<rparr>) t"
      "content dv t = content dv s2" "platter (dma t) = platter (dma s)"
    using release_steady [of dv cap p "insert n (set xs)" "{n}" "?w\<lparr>klog := l\<rparr>" n b] w by (auto simp: cached_def)
  have kt: "klog t = l" using bio_frame_klog [OF t(3)] by simp
  have "set (add_block n xs) = insert n (set xs)" by (auto simp: add_block_def)
  then have "in_op dv cap p L sz (add_block n xs) t"
    using op t(2) l(2-) lists_logged [OF l(2)] lists_logged [OF xs] fits_add [OF _ n room]
    by (auto simp: in_op_def ready_def kt log_at_def lists_def)
  then show ?thesis
    using s1(1) s2(1) l(1) t s2(4) by (intro exI [of _ t]) (simp add: logged_update_def)
qed

section \<open>A whole transaction\<close>

type_synonym update = "u32 \<times> (u8 list \<Rightarrow> u8 list)"

primrec applied :: "update list \<Rightarrow> (u32 \<Rightarrow> u8 list) \<Rightarrow> u32 \<Rightarrow> u8 list" where
  "applied [] c = c"
| "applied (u # us) c = applied us (c(fst u := snd u (c (fst u))))"

definition run_updates :: "u32 \<Rightarrow> update list \<Rightarrow> ('z logs_scheme, unit) kfun" where
  "run_updates dv us = kfor us (\<lambda>u. logged_update dv (fst u) (snd u))"

definition update_ok :: "nat \<Rightarrow> nat \<Rightarrow> nat \<Rightarrow> update \<Rightarrow> bool" where
  "update_ok cap L sz u \<longleftrightarrow> home L sz (fst u) \<and> in_range cap (fst u)
     \<and> (\<forall>bs. length bs = BSIZE \<longrightarrow> length (snd u bs) = BSIZE)"

lemma in_op_distinct: "in_op dv cap p L sz xs s \<Longrightarrow> distinct xs"
  by (metis fits_def in_op_def lists_logged ready_def)

lemma run_updates_ok:
  fixes s :: "'z logs_scheme"
  assumes "in_op dv cap p L sz xs s" and "\<forall>u \<in> set us. update_ok cap L sz u"
    and "finite A" and "set xs \<union> fst ` set us \<subseteq> A" and "Suc (card A) < sz" and "Suc (card A) < NBUF"
  shows "\<exists>t ys. run_updates dv us s = Ret () t \<and> in_op dv cap p L sz ys t \<and> set ys = set xs \<union> fst ` set us
      \<and> content dv t = applied us (content dv s) \<and> platter (dma t) = platter (dma s)"
  using assms
proof (induction us arbitrary: xs s)
  case Nil
  then show ?case by (auto simp: run_updates_def kfor.simps)
next
  case (Cons u us)
  let ?n = "fst u"
  have "card (set xs) \<le> card A" using Cons.prems by (intro card_mono) auto
  then have room: "Suc (length xs) < sz" "Suc (length xs) < NBUF"
    using Cons.prems(5,6) distinct_card [OF in_op_distinct [OF Cons.prems(1)]] by simp_all
  have "steady dv cap p (set xs) {} s" using Cons.prems(1) by (simp add: in_op_def ready_def)
  then have "length (content dv s ?n) = BSIZE" by (rule steady_length)
  then obtain t where t: "logged_update dv ?n (snd u) s = Ret () t" "in_op dv cap p L sz (add_block ?n xs) t"
      "content dv t = (content dv s)(?n := snd u (content dv s ?n))" "platter (dma t) = platter (dma s)"
    using logged_update_ok [OF Cons.prems(1) _ _ room, of ?n "snd u"] Cons.prems(2) by (auto simp: update_ok_def)
  have a: "set (add_block ?n xs) = insert ?n (set xs)" by (auto simp: add_block_def)
  obtain v ys where "run_updates dv us t = Ret () v" "in_op dv cap p L sz ys v" "set ys = set (add_block ?n xs) \<union> fst ` set us"
      "content dv v = applied us (content dv t)" "platter (dma v) = platter (dma t)"
    using Cons.IH [OF t(2)] Cons.prems a by auto
  then show ?case using t a by (intro exI [of _ v] exI [of _ ys]) (simp add: run_updates_def)
qed

text \<open>The log between transactions; \<open>begin_op\<close> and \<open>end_op\<close> of the only system call in progress.\<close>

definition idle :: "u32 \<Rightarrow> nat \<Rightarrow> nat \<Rightarrow> nat \<Rightarrow> nat \<Rightarrow> 'z logs_scheme \<Rightarrow> bool" where
  "idle dv cap p L sz s \<longleftrightarrow> ready dv cap p L sz {} s \<and> lists (klog s) [] \<and> outstanding (klog s) = 0 \<and> committing (klog s) = 0
     \<and> head_n (header L (disk_now s)) = 0"

lemma ready_klog:
  assumes "ready dv cap p L sz pin s" and "log_at dv L sz l" and "0 \<le> lh_n l" and "logged l = logged (klog s)"
  shows "ready dv cap p L sz pin (s\<lparr>klog := l\<rparr>)"
  using assms by (simp add: ready_def)

lemma ready_calm: "ready dv cap p L sz pin s \<Longrightarrow> calm p s"
  unfolding ready_def using steadyD(3) by blast

lemma begin_op_idle:
  assumes "idle dv cap p L sz s"
  shows "\<exists>t. begin_op s = Ret () t \<and> in_op dv cap p L sz [] t
      \<and> content dv t = content dv s \<and> platter (dma t) = platter (dma s)"
proof -
  let ?l = "(klog s)\<lparr>outstanding := 1\<rparr>"
  have r: "ready dv cap p L sz {} s" and l: "lists (klog s) []" "outstanding (klog s) = 0" "committing (klog s) = 0"
    using assms by (simp_all add: idle_def)
  have calm: "calm p s" by (rule ready_calm [OF r])
  have "begin_op s = Ret () (s\<lparr>klog := ?l\<rparr>)"
    using calm l calm_release [of p "s\<lparr>klog := ?l\<rparr>" Log_lock]
    by (simp add: begin_op_def begin_op_loop_def calm_acquire lock_simps lists_def LOGSIZE_def MAXOPBLOCKS_def)
  moreover have "ready dv cap p L sz {} (s\<lparr>klog := ?l\<rparr>)"
    using r l by (intro ready_klog) (auto simp: ready_def log_at_def logged_def)
  ultimately show ?thesis using l by (intro exI [of _ "s\<lparr>klog := ?l\<rparr>"]) (simp add: in_op_def lists_def)
qed

lemma steady_woken [simp]:
  "steady dv cap p pin held (s\<lparr>procs := woken ch (Some p) (procs s)\<rparr>) = steady dv cap p pin held s"
  "content dv (s\<lparr>procs := x\<rparr>) = content dv s"
  by (simp_all add: steady_def cache_ok_def cache_inv_def disk_ok_def calm_upd refs_def taken_def cached_def holds_def disk_now_def
      content_def fun_eq_iff cong: option.case_cong)

lemma end_op_commits:
  fixes s :: "'z logs_scheme"
  assumes op: "in_op dv cap p L sz xs s" and xs: "xs \<noteq> []"
    and h0: "head_n (header L (disk_now s)) = 0"
  shows "\<exists>m t. end_op s = Ret () t \<and> idle dv cap p L sz t \<and> since (recovers cap L sz (blk (disk_now s))) s m
      \<and> since (recovers cap L sz (content dv s)) m t \<and> (\<forall>n. home L sz n \<longrightarrow> content dv t n = content dv s n)"
proof -
  let ?l = "(klog s)\<lparr>outstanding := 0, committing := 1\<rparr>"
  let ?s = "s\<lparr>klog := ?l\<rparr>"
  have r: "ready dv cap p L sz (set xs) s" and ls: "logged (klog s) = xs" using op lists_logged by (auto simp: in_op_def)
  have lx: "logged ?l = xs" using ls by (simp add: logged_def)
  have "ready dv cap p L sz (set (logged (klog ?s))) ?s" "0 < lh_n (klog ?s)"
    using r op xs lx ls by (auto simp: ready_def log_at_def in_op_def lists_def)
  then obtain m u where u: "commit ?s = Ret () u" "since (recovers cap L sz (blk (disk_now s))) s m"
      "since (recovers cap L sz (content dv s)) m u"
      "head_n (header L (disk_now u)) = 0" "ready dv cap p L sz {} u" "klog u = ?l\<lparr>lh_n := 0\<rparr>"
      "\<forall>n. home L sz n \<longrightarrow> content dv u n = content dv s n"
    using commit_history [of dv cap p L sz ?s] h0 by (auto simp: disk_now_def)
  define v where "v = u\<lparr>klog := ?l\<lparr>lh_n := 0, committing := 0\<rparr>\<rparr>"
  define t where "t = v\<lparr>procs := woken (Some Chan_log) (Some p) (procs v)\<rparr>"
  have calm: "calm p s" "calm p u" using ready_calm [OF r] ready_calm [OF u(5)] by simp_all
  then have c: "calm p ?s" "calm p v" by (simp_all add: v_def lock_simps)
  then have ct: "calm p t" by (simp only: t_def calm_upd)
  have "end_op s = Ret () t"
    using op calm u(1) c calm_release [OF c(1), of Log_lock] calm_wakeup_enter [OF c(2), of Log_lock "Some Chan_log"] calm_release [OF ct, of Log_lock]
    by (simp add: end_op_def calm_acquire lock_simps u(6) v_def t_def in_op_def)
  moreover have "steady dv cap p {} {} v" using u(5) by (simp add: ready_def v_def)
  then have "steady dv cap p {} {} t" by (simp only: t_def steady_woken)
  then have "idle dv cap p L sz t"
    using u(4,5) r by (simp add: idle_def ready_def log_at_def lists_def logged_def disk_now_def t_def v_def u(6))
  moreover have "since (recovers cap L sz (content dv s)) m t" using u(3) by (simp add: since_def t_def v_def)
  ultimately show ?thesis using u(2,7) by (intro exI [of _ m] exI [of _ t]) (simp add: t_def v_def)
qed

definition transaction :: "u32 \<Rightarrow> update list \<Rightarrow> ('z logs_scheme, unit) kfun" where
  "transaction dv us = kseq begin_op (kseq (run_updates dv us) end_op)"

lemma transaction_history:
  fixes s :: "'z logs_scheme"
  assumes idle: "idle dv cap p L sz s" and us: "us \<noteq> []" "\<forall>u \<in> set us. update_ok cap L sz u"
    and room: "Suc (card (fst ` set us)) < sz" "Suc (card (fst ` set us)) < NBUF"
  shows "\<exists>m t. transaction dv us s = Ret () t \<and> idle dv cap p L sz t \<and> since (recovers cap L sz (blk (disk_now s))) s m
      \<and> since (recovers cap L sz (applied us (blk (disk_now s)))) m t
      \<and> (\<forall>n. home L sz n \<longrightarrow> content dv t n = applied us (blk (disk_now s)) n)"
proof -
  have "steady dv cap p {} {} s" using idle by (simp add: idle_def ready_def)
  then have c: "content dv s = blk (disk_now s)" by (rule steady_blk_all)
  obtain s1 where s1: "begin_op s = Ret () s1" "in_op dv cap p L sz [] s1"
      "content dv s1 = content dv s" "platter (dma s1) = platter (dma s)"
    using begin_op_idle [OF idle] by blast
  obtain s2 ys where s2: "run_updates dv us s1 = Ret () s2" "in_op dv cap p L sz ys s2" "set ys = fst ` set us"
      "content dv s2 = applied us (blk (disk_now s))" "platter (dma s2) = platter (dma s)"
    using run_updates_ok [OF s1(2) us(2), of "fst ` set us"] room s1(3,4) c by auto
  have now: "disk_now s2 = disk_now s" "since P s2 m = since P s m" for P and m :: "'z logs_scheme"
    using s2(5) by (simp_all add: disk_now_def since_def)
  have "ys \<noteq> []" using s2(3) us(1) by auto
  moreover have "head_n (header L (disk_now s2)) = 0" using idle by (simp add: now idle_def)
  ultimately obtain m t where "end_op s2 = Ret () t" "idle dv cap p L sz t" "since (recovers cap L sz (blk (disk_now s))) s m"
      "since (recovers cap L sz (applied us (blk (disk_now s)))) m t"
      "\<forall>n. home L sz n \<longrightarrow> content dv t n = applied us (blk (disk_now s)) n"
    using end_op_commits [OF s2(2)] unfolding now s2(4) by blast
  then show ?thesis using s1(1) s2(1) by (intro exI [of _ m] exI [of _ t]) (simp add: transaction_def)
qed

section \<open>Properties\<close>

text \<open>
  C2: A transaction is atomic across crashes. From an idle log, \<open>begin_op\<close>, any sequence of updates of
  home blocks (read, change, \<open>log_write\<close>, release) and \<open>end_op\<close> return without sleeping or panicking,
  with the updates on the disk and the log idle again. Let the machine stop after any of the disk writes
  in between, and a kernel with an empty cache boot from that disk: \<open>recover_from_log\<close> returns, and the
  home blocks all have the contents from before the transaction, or all have those after it.
\<close>

theorem transaction_survives_crash:
  fixes s :: "'z logs_scheme"
  assumes "idle dv cap p L sz s" and "us \<noteq> []" and "\<forall>u \<in> set us. update_ok cap L sz u"
    and "Suc (card (fst ` set us)) < sz" and "Suc (card (fst ` set us)) < NBUF"
  shows "\<exists>t h. transaction dv us s = Ret () t \<and> idle dv cap p L sz t
      \<and> (\<forall>n. home L sz n \<longrightarrow> blk (disk_now t) n = applied us (blk (disk_now s)) n)
      \<and> platter (dma t) = h @ platter (dma s)
      \<and> (\<forall>d \<in> set h. \<forall>q (s' :: 'z logs_scheme).
           disk_now s' = d \<and> log_at dv L sz (klog s') \<and> steady dv cap q {} {} s' \<longrightarrow>
           (\<exists>t'. recover_from_log s' = Ret () t' \<and>
              ((\<forall>n. home L sz n \<longrightarrow> content dv t' n = blk (disk_now s) n)
               \<or> (\<forall>n. home L sz n \<longrightarrow> content dv t' n = applied us (blk (disk_now s)) n))))"
proof -
  let ?old = "blk (disk_now s)" and ?new = "applied us (blk (disk_now s))"
  have a: "log_area cap L sz" using assms(1) by (simp add: idle_def ready_def)
  obtain m t where t: "transaction dv us s = Ret () t" "idle dv cap p L sz t" "since (recovers cap L sz ?old) s m"
      "since (recovers cap L sz ?new) m t" "\<forall>n. home L sz n \<longrightarrow> content dv t n = ?new n"
    using transaction_history [OF assms] by blast
  have "since (\<lambda>d. recovers cap L sz ?old d \<or> recovers cap L sz ?new d) s t"
    by (rule since_trans [OF since_mono [OF t(3)] since_mono [OF t(4)]]) simp_all
  then obtain h where h: "platter (dma t) = h @ platter (dma s)" "\<forall>d \<in> set h. recovers cap L sz ?old d \<or> recovers cap L sz ?new d"
    by (auto simp: since_def)
  have "steady dv cap p {} {} t" using t(2) by (simp add: idle_def ready_def)
  then have now: "\<forall>n. home L sz n \<longrightarrow> blk (disk_now t) n = ?new n" using t(5) steady_blk_all by metis
  have "\<exists>t'. recover_from_log s' = Ret () t' \<and> ((\<forall>n. home L sz n \<longrightarrow> content dv t' n = ?old n) \<or> (\<forall>n. home L sz n \<longrightarrow> content dv t' n = ?new n))"
    if b: "disk_now s' \<in> set h" "log_at dv L sz (klog s')" "steady dv cap q {} {} s'" for q and s' :: "'z logs_scheme"
  proof -
    have r: "recovers cap L sz ?old (disk_now s') \<or> recovers cap L sz ?new (disk_now s')" using h(2) b(1) by blast
    then have "header_ok cap L sz (disk_now s')" by (auto simp: recovers_def)
    then obtain t' where "recover_from_log s' = Ret () t'" "\<forall>n. home L sz n \<longrightarrow> content dv t' n = after_recovery L (disk_now s') n"
      using recover_history [OF b(2) a b(3)] by blast
    then show ?thesis using r by (auto simp: recovers_def)
  qed
  then show ?thesis using t(1,2) now h(1) by blast
qed

text \<open>A machine with an empty cache and an idle log of 30 blocks from block 2, on a disk full of zeros.\<close>

lemma steady_extend:
  "steady dv cap p pin held (vdisk.extend s x) = steady dv cap p pin held s" "disk_now (vdisk.extend s x) = disk_now s"
  "platter (dma (vdisk.extend s x)) = platter (dma s)"
  by (simp_all add: steady_def cache_ok_def cache_inv_def disk_ok_def calm_def cpu_quiet_def unlocked_def hart_defs mycpu_def
      refs_def taken_def cached_def holds_def disk_now_def vdisk.defs)

definition first_log :: logstate where
  "first_log = \<lparr>log_start = 2, log_size = 30, outstanding = 0, committing = 0, log_dev = 1, lh_n = 0, lh_block = \<lambda>_. 0\<rparr>"

definition boot_logs :: logs where
  "boot_logs = (case binit boot_vdisk of Ret _ s \<Rightarrow> vdisk.extend s \<lparr>klog = first_log\<rparr> | _ \<Rightarrow> vdisk.extend boot_vdisk \<lparr>klog = first_log\<rparr>)"

lemma boot_logs_facts:
  "steady 1 4000 1 {} {} boot_logs" "klog boot_logs = first_log" "platter (dma boot_logs) = [\<lambda>_. 0]"
proof -
  have "\<exists>s. binit boot_vdisk = Ret () s \<and> steady 1 4000 1 {} {} s \<and> platter (dma s) = platter (dma boot_vdisk)"
    by (rule binit_steady [OF boot_vdisk_calm])
      (simp_all add: boot_vdisk_def sleeplocks.defs disk_ok_def plain_device_serves)
  then obtain s where s: "boot_logs = vdisk.extend s \<lparr>klog = first_log\<rparr>" "steady 1 4000 1 {} {} s" "platter (dma s) = platter (dma boot_vdisk)"
    by (auto simp: boot_logs_def)
  then show "steady 1 4000 1 {} {} boot_logs" "klog boot_logs = first_log" "platter (dma boot_logs) = [\<lambda>_. 0]"
    by (simp_all only: s(1) steady_extend) (simp_all add: vdisk.defs boot_vdisk_def sleeplocks.defs)
qed

lemma zero_block: "blk (\<lambda>_. 0) n = replicate BSIZE 0"
  by (simp add: blk_def dblock_def get_bytes_def map_replicate_const)

lemma le_val_zero: "le_val (replicate k 0) = 0"
  by (induction k) simp_all

lemma zero_header: "head_n (blk (\<lambda>_. 0) n) = 0"
  by (simp add: head_n_def zero_block ld32_def bytes_at_def le_val_zero)

lemma boot_logs_idle: "idle 1 4000 1 2 30 boot_logs" and boot_log_at: "log_at 1 2 30 (klog boot_logs)" "log_area 4000 2 30"
proof -
  show "log_at 1 2 30 (klog boot_logs)" "log_area 4000 2 30"
    by (simp_all add: boot_logs_facts first_log_def log_at_def u32_of_def log_area_def)
  then show "idle 1 4000 1 2 30 boot_logs"
    using boot_logs_facts fits_Nil [of 4000 2 30]
    by (simp add: idle_def ready_def disk_now_def zero_header lists_def logged_def) (simp add: first_log_def)
qed

theorem transaction_survives_crash_witness:
  "\<exists>t. transaction 1 [(40, map (\<lambda>_. 9)), (41, rev), (40, map (\<lambda>b. b + 1))] boot_logs = Ret () t
     \<and> idle 1 4000 1 2 30 t \<and> blk (disk_now t) 40 = replicate BSIZE 10"
proof -
  let ?us = "[(40, map (\<lambda>_. 9)), (41, rev), (40, map (\<lambda>b. b + 1))] :: update list"
  have "\<forall>u \<in> set ?us. update_ok 4000 2 30 u" by (auto simp: update_ok_def home_def in_range_def)
  moreover have "card (fst ` set ?us) \<le> 3" using card_image_le [of "set ?us" fst] card_length [of ?us] by simp
  ultimately obtain t where "transaction 1 ?us boot_logs = Ret () t" "idle 1 4000 1 2 30 t"
      "\<forall>n. home 2 30 n \<longrightarrow> blk (disk_now t) n = applied ?us (blk (disk_now boot_logs)) n"
    using transaction_survives_crash [OF boot_logs_idle, of ?us] by (force simp: NBUF_def MAXOPBLOCKS_def)
  moreover have "length (blk (disk_now boot_logs) 40) = BSIZE" by (simp add: blk_def)
  ultimately show ?thesis by (auto simp: home_def map_replicate_const)
qed

text \<open>
  C5: Recovery does the same work however often it is interrupted. \<open>recover_from_log\<close> on a disk whose
  header is well formed returns with every home block as \<open>after_recovery\<close> says, in the cache and on the
  disk, and an empty log; and every disk that it writes on the way recovers to these same blocks.
\<close>

theorem recovery_restartable:
  fixes s :: "'z logs_scheme"
  assumes "log_at dv L sz (klog s)" and "log_area cap L sz" and "steady dv cap p {} {} s"
    and "header_ok cap L sz (disk_now s)"
  shows "\<exists>t. recover_from_log s = Ret () t \<and> lh_n (klog t) = 0 \<and> head_n (header L (disk_now t)) = 0
      \<and> (\<forall>n. home L sz n \<longrightarrow> content dv t n = after_recovery L (disk_now s) n
          \<and> blk (disk_now t) n = after_recovery L (disk_now s) n)
      \<and> (\<exists>h. platter (dma t) = h @ platter (dma s)
          \<and> (\<forall>d \<in> set h. header_ok cap L sz d \<and> (\<forall>n. home L sz n \<longrightarrow> after_recovery L d n = after_recovery L (disk_now s) n)))"
proof -
  obtain t where t: "recover_from_log s = Ret () t" "ready dv cap p L sz {} t" "lh_n (klog t) = 0"
      "since (recovers cap L sz (after_recovery L (disk_now s))) s t" "head_n (header L (disk_now t)) = 0"
      "\<forall>n. home L sz n \<longrightarrow> content dv t n = after_recovery L (disk_now s) n"
    using recover_history [OF assms] by blast
  have "steady dv cap p {} {} t" using t(2) by (simp add: ready_def)
  then have "content dv t = blk (disk_now t)" by (rule steady_blk_all)
  then show ?thesis using t by (auto simp: since_def recovers_def)
qed

theorem recovery_restartable_witness:
  "\<exists>t. recover_from_log boot_logs = Ret () t \<and> lh_n (klog t) = 0 \<and> content 1 t 40 = replicate BSIZE 0"
proof -
  have "header_ok 4000 2 30 (disk_now boot_logs)"
    using fits_Nil [OF boot_log_at(2)] by (simp add: header_ok_def disk_now_def boot_logs_facts zero_header header_list_def)
  then obtain t where "recover_from_log boot_logs = Ret () t" "lh_n (klog t) = 0"
      "\<forall>n. home 2 30 n \<longrightarrow> content 1 t n = after_recovery 2 (disk_now boot_logs) n"
    using recovery_restartable [OF boot_log_at boot_logs_facts(1)] by blast
  moreover have "after_recovery 2 (disk_now boot_logs) 40 = replicate BSIZE 0"
    by (simp add: after_recovery_def disk_now_def boot_logs_facts header_list_def zero_header) (simp add: zero_block)
  ultimately show ?thesis by (auto simp: home_def)
qed

text \<open>
  C18: The admission test of \<open>begin_op\<close> and the capacity test of \<open>log_write\<close> disagree by one block. With the
  log of \<open>LOGSIZE\<close> blocks that \<open>mkfs\<close> makes, \<open>begin_op\<close> admits three system calls at once, each of which
  may log \<open>MAXOPBLOCKS\<close> blocks; once 29 of these 30 blocks are logged, the next \<open>log_write\<close> panics.
\<close>

theorem admitted_calls_overflow_log:
  fixes s :: "'z logs_scheme"
  assumes "idle dv cap p L LOGSIZE s"
  shows "\<exists>t. kseq begin_op (kseq begin_op begin_op) s = Ret () t \<and> outstanding (klog t) = 3 \<and> 29 < 3 * MAXOPBLOCKS
      \<and> (\<forall>f b (u :: 'z logs_scheme). calm p u \<and> klog u = (klog t)\<lparr>lh_n := 29, lh_block := f\<rparr> \<longrightarrow>
           log_write b u = Panic ''too big a transaction'')"
proof -
  have step: "begin_op (s\<lparr>klog := l\<rparr>) = Ret () (s\<lparr>klog := l\<lparr>outstanding := outstanding l + 1\<rparr>\<rparr>)"
    if "committing l = 0" "lh_n l = 0" "outstanding l < 3" for l
    using that ready_calm [of dv cap p L LOGSIZE "{}" s] assms
      calm_release [of p "s\<lparr>klog := l\<lparr>outstanding := outstanding l + 1\<rparr>\<rparr>" Log_lock]
    by (simp add: begin_op_def begin_op_loop_def calm_acquire lock_simps LOGSIZE_def MAXOPBLOCKS_def idle_def)
  have l: "committing (klog s) = 0" "lh_n (klog s) = 0" "outstanding (klog s) = 0" "log_size (klog s) = 30"
    using assms by (simp_all add: idle_def lists_def ready_def log_at_def LOGSIZE_def MAXOPBLOCKS_def)
  let ?t = "s\<lparr>klog := (klog s)\<lparr>outstanding := 3\<rparr>\<rparr>"
  have "kseq begin_op (kseq begin_op begin_op) s = Ret () ?t"
    using l step [of "klog s"] step [of "(klog s)\<lparr>outstanding := 1\<rparr>"] step [of "(klog s)\<lparr>outstanding := 2\<rparr>"] by simp
  moreover have "log_write b u = Panic ''too big a transaction''"
    if "calm p u" "klog u = (klog ?t)\<lparr>lh_n := 29, lh_block := f\<rparr>" for f b and u :: "'z logs_scheme"
    using that l by (simp add: log_write_def calm_acquire lock_simps)
  ultimately show ?thesis by (intro exI [of _ ?t]) (simp add: MAXOPBLOCKS_def)
qed

theorem admitted_calls_overflow_log_witness:
  "\<exists>t. kseq begin_op (kseq begin_op begin_op) boot_logs = Ret () t \<and> outstanding (klog t) = 3"
proof -
  have "idle 1 4000 1 2 LOGSIZE boot_logs" using boot_logs_idle by (simp add: LOGSIZE_def MAXOPBLOCKS_def)
  then show ?thesis using admitted_calls_overflow_log by blast
qed

end
