(* ===== verification/Paging.thy ===== *)
theory Paging
  imports Vm
begin

unbundle bit_operations_syntax

text \<open>
  Correctness of the page tables of \<open>kernel/vm.c\<close>. A page table is a tree of pages in physical memory;
  \<open>own\<close> is the set of its pages, \<open>tree\<close> says that no page is used twice, and \<open>leaf\<close> is the entry that the
  hardware finds for a virtual address, 0 when there is none. The operations of \<open>Vm\<close> are proved to be the
  operations on this function from addresses to entries.
\<close>

section \<open>Entries\<close>

lemma PTE_V_bit: "v AND PTE_V = 0 \<longleftrightarrow> \<not> bit v 0"
  by (simp add: PTE_V_def and_one_eq odd_iff_mod_2_eq_one [symmetric] bit_0 even_iff_mod_2_eq_zero [symmetric])

lemma aligned_bits:
  assumes "page_aligned p" and "n < 12"
  shows "\<not> bit p n"
proof -
  have "p = PGROUNDDOWN p" using assms(1) PGROUNDDOWN_unat [of p] by (simp add: word_unat_eq_iff unat_page [of p])
  also have "\<dots> = p AND NOT (mask 12)" by (simp add: PGROUNDDOWN_def PGSIZE_def mask_eq_exp_minus_1)
  finally have "bit p n \<longleftrightarrow> bit (p AND NOT (mask 12)) n" by simp
  with assms(2) show ?thesis by (simp add: bit_simps)
qed

lemma small_bits:
  fixes p :: u64
  assumes "unat p < 2 ^ k" and "k \<le> n"
  shows "\<not> bit p n"
proof -
  have "unat p < 2 ^ n" using assms by (meson less_le_trans one_le_numeral power_increasing)
  then have "\<not> bit (unat p) n" by (simp add: bit_iff_odd)
  then show ?thesis by (simp add: bit_unsigned_iff)
qed

lemma PTE2PA_PA2PTE:
  assumes "page_aligned p" and "unat p < 2 ^ 56" and "unat x < 2 ^ 10"
  shows "PTE2PA (PA2PTE p OR x) = p"
proof (rule bit_word_eqI)
  fix n :: nat
  assume "n < LENGTH(64)"
  then show "bit (PTE2PA (PA2PTE p OR x)) n = bit p n"
    using aligned_bits [OF assms(1), of n] small_bits [OF assms(2), of n] small_bits [OF assms(3), of "n - 2"]
    by (cases "n < 12") (auto simp: PTE2PA_def PA2PTE_def bit_simps)
qed

section \<open>Trees of pages\<close>

definition ent :: "mem \<Rightarrow> u64 \<Rightarrow> nat \<Rightarrow> u64" where
  "ent m pt i = load64 m (pte_addr pt (of_nat i))"

definition live :: "mem \<Rightarrow> u64 \<Rightarrow> nat \<Rightarrow> bool" where
  "live m pt i \<longleftrightarrow> i < 512 \<and> bit (ent m pt i) 0"

definition child :: "mem \<Rightarrow> u64 \<Rightarrow> nat \<Rightarrow> u64" where
  "child m pt i = PTE2PA (ent m pt i)"

definition px :: "nat \<Rightarrow> u64 \<Rightarrow> nat" where
  "px l va = unat (PX l va)"

definition tpage :: "u64 \<Rightarrow> bool" where
  "tpage p \<longleftrightarrow> page_aligned p \<and> p \<noteq> 0 \<and> unat p < 2 ^ 56"

primrec own :: "mem \<Rightarrow> nat \<Rightarrow> u64 \<Rightarrow> u64 set" where
  "own m 0 pt = {pt}"
| "own m (Suc l) pt = insert pt (\<Union>i \<in> Collect (live m pt). own m l (child m pt i))"

primrec tree :: "mem \<Rightarrow> nat \<Rightarrow> u64 \<Rightarrow> bool" where
  "tree m 0 pt \<longleftrightarrow> tpage pt"
| "tree m (Suc l) pt \<longleftrightarrow> tpage pt \<and>
     (\<forall>i. live m pt i \<longrightarrow> tree m l (child m pt i) \<and> pt \<notin> own m l (child m pt i) \<and>
        (\<forall>j. live m pt j \<longrightarrow> j \<noteq> i \<longrightarrow> own m l (child m pt i) \<inter> own m l (child m pt j) = {}))"

text \<open>The address of the last-level entry for \<open>va\<close>, if the tables above it exist, and its value.\<close>

primrec slot :: "mem \<Rightarrow> nat \<Rightarrow> u64 \<Rightarrow> u64 \<Rightarrow> u64 option" where
  "slot m 0 pt va = Some (pte_addr pt (PX 0 va))"
| "slot m (Suc l) pt va =
     (if live m pt (px (Suc l) va) then slot m l (child m pt (px (Suc l) va)) va else None)"

definition leaf :: "mem \<Rightarrow> nat \<Rightarrow> u64 \<Rightarrow> u64 \<Rightarrow> u64" where
  "leaf m l pt va = (case slot m l pt va of None \<Rightarrow> 0 | Some a \<Rightarrow> load64 m a)"

lemma px_less [simp]: "px l va < 512"
proof -
  have "PX l va \<le> 0x1FF" by (simp add: PX_def word_and_le1)
  then show ?thesis by (simp add: px_def word_le_nat_alt)
qed

lemma PX_px: "PX l va = of_nat (px l va)"
  by (simp add: px_def)

lemma pte_addr_onpage:
  assumes "page_aligned pt" and "i < 512"
  shows "onpage (pte_addr pt (of_nat i)) 8" and "pageno (pte_addr pt (of_nat i)) = pageno pt"
proof -
  have "pte_addr pt (of_nat i) = pt + of_nat (8 * i)" by (simp add: pte_addr_def)
  then show "onpage (pte_addr pt (of_nat i)) 8" and "pageno (pte_addr pt (of_nat i)) = pageno pt"
    using field_onpage [OF assms(1), of "8 * i" 8] assms(2) by (simp_all add: PGSIZE_def)
qed

lemma pte_addr_unat:
  assumes "page_aligned pt" and "i < 512"
  shows "unat (pte_addr pt (of_nat i)) = unat pt + 8 * i"
proof -
  have "onpage pt PGSIZE" using assms(1) by (simp add: onpage_def)
  from onpage_add(1) [OF this, of "8 * i"] assms(2) show ?thesis by (simp add: pte_addr_def PGSIZE_def)
qed

lemma ent_agree:
  "page_aligned pt \<Longrightarrow> i < 512 \<Longrightarrow> agree (pageno pt) m m' \<Longrightarrow> ent m' pt i = ent m pt i"
  using pte_addr_onpage [of pt i] load64_agree [of "pte_addr pt (of_nat i)" m m'] by (simp add: ent_def)

lemma ent_store:
  assumes "page_aligned pt" and "i < 512" and "j < 512"
  shows "ent (store64 m (pte_addr pt (of_nat i)) v) pt j = (if j = i then v else ent m pt j)"
proof (cases "j = i")
  case True
  then show ?thesis by (simp add: ent_def)
next
  case False
  then have "8 * i + 8 \<le> 8 * j \<or> 8 * j + 8 \<le> 8 * i" by linarith
  then have "load64 (store64 m (pt + of_nat (8 * i)) v) (pt + of_nat (8 * j)) = load64 m (pt + of_nat (8 * j))"
    using assms by (intro load64_store64_off) auto
  with False show ?thesis by (simp add: ent_def pte_addr_def)
qed

lemma tree_tpage: "tree m l pt \<Longrightarrow> tpage pt"
  by (cases l) simp_all

lemma own_self [simp]: "pt \<in> own m l pt"
  by (cases l) simp_all

lemma tree_own_tpage: "tree m l pt \<Longrightarrow> p \<in> own m l pt \<Longrightarrow> tpage p"
  by (induction l arbitrary: pt) (auto simp: tree_tpage)

section \<open>What writing to a page changes\<close>

definition same_on :: "u64 set \<Rightarrow> mem \<Rightarrow> mem \<Rightarrow> bool" where
  "same_on P m m' \<longleftrightarrow> (\<forall>p \<in> P. agree (pageno p) m m')"

lemma same_on_sub: "same_on P m m' \<Longrightarrow> Q \<subseteq> P \<Longrightarrow> same_on Q m m'"
  by (auto simp: same_on_def)

lemma tpage_eqI: "tpage p \<Longrightarrow> tpage q \<Longrightarrow> pageno p = pageno q \<Longrightarrow> p = q"
  by (simp add: tpage_def page_aligned_eqI)

lemma slot_page:
  "tree m l pt \<Longrightarrow> slot m l pt va = Some a \<Longrightarrow> \<exists>p i. p \<in> own m l pt \<and> i < 512 \<and> a = pte_addr p (of_nat i)"
proof (induction l arbitrary: pt)
  case 0
  then show ?case by (auto simp: PX_px intro!: px_less)
next
  case (Suc l)
  let ?i = "px (Suc l) va"
  have "live m pt ?i" "slot m l (child m pt ?i) va = Some a" using Suc.prems(2) by (auto split: if_splits)
  moreover from this(1) have "tree m l (child m pt ?i)" using Suc.prems(1) by simp
  ultimately obtain p i where "p \<in> own m l (child m pt ?i)" "i < 512" "a = pte_addr p (of_nat i)"
    using Suc.IH by blast
  with \<open>live m pt ?i\<close> show ?case by auto
qed

lemma slot_onpage:
  assumes "tree m l pt" and "slot m l pt va = Some a"
  obtains p where "p \<in> own m l pt" "onpage a 8" "pageno a = pageno p" "a \<noteq> 0" "tpage p"
proof -
  obtain p i where p: "p \<in> own m l pt" "i < 512" "a = pte_addr p (of_nat i)" using slot_page [OF assms] by blast
  have tp: "tpage p" using tree_own_tpage [OF assms(1) p(1)] .
  then have "0 < unat p" and "page_aligned p" by (auto simp: tpage_def unat_gt_0)
  then have "a \<noteq> 0" using pte_addr_unat [of p i] p by auto
  with p tp \<open>page_aligned p\<close> show thesis by (intro that [of p]) (auto simp: pte_addr_onpage)
qed

lemma live_agree:
  assumes "tpage pt" and "agree (pageno pt) m m'"
  shows "live m' pt = live m pt" and "i < 512 \<Longrightarrow> child m' pt i = child m pt i"
  using assms ent_agree [of pt _ m m'] by (auto simp: live_def child_def tpage_def fun_eq_iff)

lemma live_less: "live m pt i \<Longrightarrow> i < 512"
  by (simp add: live_def)

lemma tree_frame:
  "tree m l pt \<Longrightarrow> same_on (own m l pt) m m' \<Longrightarrow>
   own m' l pt = own m l pt \<and> tree m' l pt \<and> slot m' l pt = slot m l pt"
proof (induction l arbitrary: pt)
  case 0
  then show ?case by (simp add: fun_eq_iff)
next
  case (Suc l)
  have "agree (pageno pt) m m'" and tp: "tpage pt" using Suc.prems by (auto simp: same_on_def)
  then have lv: "live m' pt = live m pt" and ch: "\<And>i. live m pt i \<Longrightarrow> child m' pt i = child m pt i"
    using live_agree [of pt m m'] live_less by auto
  have ih: "own m' l (child m pt i) = own m l (child m pt i) \<and> tree m' l (child m pt i)
     \<and> slot m' l (child m pt i) = slot m l (child m pt i)" if "live m pt i" for i
    using Suc.prems that by (intro Suc.IH) (auto intro: same_on_sub)
  have "own m' (Suc l) pt = own m (Suc l) pt" using lv ch ih by auto
  moreover have "tree m' (Suc l) pt" using Suc.prems(1) lv ch ih by auto
  moreover have "slot m' (Suc l) pt va = slot m (Suc l) pt va" for va using lv ch ih by auto
  ultimately show ?case by blast
qed

lemma leaf_frame:
  assumes "tree m l pt" and "same_on (own m l pt) m m'"
  shows "leaf m' l pt va = leaf m l pt va"
proof (cases "slot m l pt va")
  case None
  then show ?thesis using tree_frame [OF assms] by (simp add: leaf_def)
next
  case (Some a)
  obtain p where "p \<in> own m l pt" "onpage a 8" "pageno a = pageno p" by (rule slot_onpage [OF assms(1) Some])
  then have "load64 m' a = load64 m a" using assms(2) by (intro load64_agree) (auto simp: same_on_def)
  with Some show ?thesis using tree_frame [OF assms] by (simp add: leaf_def)
qed

definition same_px :: "nat \<Rightarrow> u64 \<Rightarrow> u64 \<Rightarrow> bool" where
  "same_px l va vb \<longleftrightarrow> (\<forall>k \<le> l. px k va = px k vb)"

lemma same_px_Suc: "same_px (Suc l) va vb \<longleftrightarrow> px (Suc l) va = px (Suc l) vb \<and> same_px l va vb"
  by (auto simp: same_px_def le_Suc_eq)

text \<open>Storing an entry of the last level changes the entry of this page and nothing else.\<close>

lemma store_other:
  assumes "tpage p" and "i < 512" and "tpage q" and "q \<noteq> p"
  shows "agree (pageno q) m (store64 m (pte_addr p (of_nat i)) v)"
proof (rule agree_store(1))
  show "onpage (pte_addr p (of_nat i)) 8" using assms pte_addr_onpage by (simp add: tpage_def)
  show "pageno q \<noteq> pageno (pte_addr p (of_nat i))"
    using assms pte_addr_onpage(2) [of p i] tpage_eqI [of q p] by (auto simp: tpage_def)
qed

lemma store_leaf:
  "tree m l pt \<Longrightarrow> slot m l pt va = Some a \<Longrightarrow>
   own (store64 m a v) l pt = own m l pt \<and> tree (store64 m a v) l pt \<and> slot (store64 m a v) l pt = slot m l pt
   \<and> (\<forall>vb. leaf (store64 m a v) l pt vb = (if same_px l va vb then v else leaf m l pt vb))"
proof (induction l arbitrary: pt)
  case 0
  have a: "a = pte_addr pt (of_nat (px 0 va))" and "page_aligned pt" using 0 by (simp_all add: PX_px tpage_def)
  then have "leaf (store64 m a v) 0 pt vb = (if same_px 0 va vb then v else leaf m 0 pt vb)" for vb
    using ent_store [of pt "px 0 va" "px 0 vb" m v] by (auto simp: leaf_def ent_def PX_px same_px_def)
  with 0 show ?case by (simp add: fun_eq_iff)
next
  case (Suc l)
  let ?i = "px (Suc l) va" and ?n = "store64 m a v"
  let ?c = "child m pt ?i"
  have lv: "live m pt ?i" and sl: "slot m l ?c va = Some a" using Suc.prems(2) by (auto split: if_splits)
  have tr: "tree m l ?c" "pt \<notin> own m l ?c" and tp: "tpage pt" using Suc.prems(1) lv by auto
  obtain p k where p: "p \<in> own m l ?c" "k < 512" "a = pte_addr p (of_nat k)" using slot_page [OF tr(1) sl] by blast
  have pp: "tpage p" using tree_own_tpage [OF tr(1) p(1)] .
  have ag: "agree (pageno q) m ?n" if "tpage q" "q \<noteq> p" for q using store_other [OF pp p(2) that] p(3) by simp
  have "agree (pageno pt) m ?n" using ag [OF tp] tr(2) p(1) by blast
  then have lv': "live ?n pt = live m pt" and ch: "\<And>i. live m pt i \<Longrightarrow> child ?n pt i = child m pt i"
    using live_agree [OF tp] live_less by auto
  have other: "own ?n l (child m pt j) = own m l (child m pt j) \<and> tree ?n l (child m pt j)
      \<and> slot ?n l (child m pt j) = slot m l (child m pt j)
      \<and> (\<forall>vb. leaf ?n l (child m pt j) vb = leaf m l (child m pt j) vb)" if "live m pt j" "j \<noteq> ?i" for j
  proof -
    have t: "tree m l (child m pt j)" and "own m l (child m pt j) \<inter> own m l ?c = {}"
      using Suc.prems(1) lv that by auto
    then have "same_on (own m l (child m pt j)) m ?n"
      using ag tree_own_tpage [OF t] p(1) by (auto simp: same_on_def)
    with t show ?thesis using tree_frame leaf_frame by blast
  qed
  have ih: "own ?n l ?c = own m l ?c \<and> tree ?n l ?c \<and> slot ?n l ?c = slot m l ?c
     \<and> (\<forall>vb. leaf ?n l ?c vb = (if same_px l va vb then v else leaf m l ?c vb))"
    by (rule Suc.IH [OF tr(1) sl])
  have all: "own ?n l (child m pt j) = own m l (child m pt j) \<and> tree ?n l (child m pt j)
      \<and> slot ?n l (child m pt j) = slot m l (child m pt j)" if "live m pt j" for j
    using ih other [OF that] by (cases "j = ?i") auto
  have "own ?n (Suc l) pt = own m (Suc l) pt" using lv' ch all by auto
  moreover have "tree ?n (Suc l) pt" using Suc.prems(1) lv' ch all by auto
  moreover have sl': "slot ?n (Suc l) pt = slot m (Suc l) pt" using lv' ch all by (auto simp: fun_eq_iff)
  moreover have "leaf ?n (Suc l) pt vb = (if same_px (Suc l) va vb then v else leaf m (Suc l) pt vb)" for vb
  proof (cases "px (Suc l) vb = ?i")
    case True
    have "leaf x (Suc l) pt vb = leaf x l ?c vb" if "x = m \<or> x = ?n" for x
      using that True lv lv' ch by (auto simp: leaf_def)
    with True ih show ?thesis by (simp add: same_px_Suc)
  next
    case False
    have "leaf x (Suc l) pt vb = (if live m pt (px (Suc l) vb) then leaf x l (child m pt (px (Suc l) vb)) vb else 0)"
      if "x = m \<or> x = ?n" for x
      using that False lv' ch by (auto simp: leaf_def)
    with False other show ?thesis by (auto simp: same_px_Suc)
  qed
  ultimately show ?case by blast
qed

section \<open>Walking\<close>

lemma PTE_V_live: "load64 m (pte_addr pt (PX l va)) AND PTE_V \<noteq> 0 \<longleftrightarrow> live m pt (px l va)"
  by (simp add: PTE_V_bit live_def ent_def PX_px)

lemma PTE2PA_child: "PTE2PA (load64 m (pte_addr pt (PX l va))) = child m pt (px l va)"
  by (simp add: child_def ent_def PX_px)

lemma walk_level_find:
  "walk_level l pt va False s = Ret (case slot (mem s) l pt va of None \<Rightarrow> 0 | Some a \<Rightarrow> a) s"
  by (induction l arbitrary: pt) (simp_all add: Let_def PTE_V_live PTE2PA_child)

lemma walk_find:
  assumes "va < MAXVA"
  shows "walk pt va False s = Ret (case slot (mem s) 2 pt va of None \<Rightarrow> 0 | Some a \<Rightarrow> a) s"
  using assms walk_level_find [of 2 pt va s] by (simp add: walk_def numeral_2_eq_2 not_le)

text \<open>A page of zeros is a tree with no entries.\<close>

definition zeroed :: "mem \<Rightarrow> u64 \<Rightarrow> bool" where
  "zeroed m p \<longleftrightarrow> (\<forall>x. pageno x = pageno p \<longrightarrow> m x = 0)"

lemma zeroed_ent:
  assumes "zeroed m p" and "tpage p" and "i < 512"
  shows "ent m p i = 0"
proof -
  have "pageno (pte_addr p (of_nat i) + of_nat j) = pageno p" if "j < 8" for j
    using onpage_add(2) pte_addr_onpage [of p i] assms(2,3) that by (auto simp: tpage_def)
  then have "mread m (pte_addr p (of_nat i)) 8 = replicate 8 0"
    using assms(1) by (intro nth_equalityI) (simp_all add: zeroed_def)
  then show ?thesis by (simp add: ent_def load64_def numeral_eq_Suc)
qed

lemma zeroed_tree:
  assumes "zeroed m p" and "tpage p"
  shows "own m l p = {p}" and "tree m l p" and "leaf m l p va = 0"
proof -
  have none: "\<not> live m p i" for i using zeroed_ent [OF assms, of i] by (auto simp: live_def)
  show "own m l p = {p}" using none by (cases l) auto
  show "tree m l p" using none assms(2) by (cases l) simp_all
  show "leaf m l p va = 0"
  proof (cases l)
    case 0
    then show ?thesis using zeroed_ent [OF assms px_less, of 0 va] by (simp add: leaf_def ent_def PX_px)
  next
    case (Suc k)
    then show ?thesis using none by (simp add: leaf_def)
  qed
qed

text \<open>A fresh page of zeros is put below an entry that is not in use.\<close>

lemma link_table:
  assumes "tree m (Suc l) pt" and "i < 512" and "\<not> live m pt i"
    and "tpage p" and "zeroed m p" and "p \<notin> own m (Suc l) pt"
  defines "n \<equiv> store64 m (pte_addr pt (of_nat i)) (PA2PTE p OR PTE_V)"
  shows "own n (Suc l) pt = insert p (own m (Suc l) pt)" and "tree n (Suc l) pt"
    and "\<And>va. leaf n (Suc l) pt va = leaf m (Suc l) pt va" and "live n pt i" and "child n pt i = p"
proof -
  have tp: "tpage pt" and "pt \<noteq> p" using assms(1,6) by auto
  then have al: "page_aligned pt" by (simp add: tpage_def)
  have e: "ent n pt j = (if j = i then PA2PTE p OR PTE_V else ent m pt j)" if "j < 512" for j
    unfolding n_def by (rule ent_store [OF al assms(2) that])
  show li: "live n pt i" using e [OF assms(2)] assms(2) by (simp add: live_def bit_simps PTE_V_def bit_or_iff)
  show ci: "child n pt i = p"
    using e [OF assms(2)] assms(4) PTE2PA_PA2PTE [of p PTE_V] by (simp add: child_def tpage_def PTE_V_def)
  have lv: "live n pt j = live m pt j" and ch: "j < 512 \<Longrightarrow> child n pt j = child m pt j" if "j \<noteq> i" for j
    using e [of j] that by (auto simp: live_def child_def)
  have ag: "agree (pageno q) m n" if "tpage q" "q \<noteq> pt" for q
    unfolding n_def by (rule store_other [OF tp assms(2) that])
  have "zeroed n p" using assms(5) ag [OF assms(4)] \<open>pt \<noteq> p\<close> by (auto simp: zeroed_def agree_def)
  note zp = zeroed_tree [OF this assms(4), of l]
  have old: "own n l (child m pt j) = own m l (child m pt j) \<and> tree n l (child m pt j)
      \<and> slot n l (child m pt j) = slot m l (child m pt j)
      \<and> (\<forall>va. leaf n l (child m pt j) va = leaf m l (child m pt j) va)" if "live m pt j" for j
  proof -
    have t: "tree m l (child m pt j)" and "pt \<notin> own m l (child m pt j)" using assms(1) that by auto
    then have "same_on (own m l (child m pt j)) m n"
      using ag tree_own_tpage [OF t] by (auto simp: same_on_def)
    with t show ?thesis using tree_frame leaf_frame by blast
  qed
  have lvn: "live n pt j \<longleftrightarrow> j = i \<or> live m pt j" for j using lv li by (cases "j = i") auto
  then have "Collect (live n pt) = insert i (Collect (live m pt))" by auto
  moreover have chl: "child n pt j = child m pt j" if "live m pt j" for j
  proof -
    have "j \<noteq> i" and "j < 512" using that assms(3) live_less by auto
    then show ?thesis by (rule ch)
  qed
  ultimately show "own n (Suc l) pt = insert p (own m (Suc l) pt)"
    using ci zp(1) old by (simp add: insert_commute)
  have fresh: "p \<notin> own m l (child m pt j)" if "live m pt j" for j using assms(6) that by auto
  have disj: "own m l (child m pt j) \<inter> own m l (child m pt k) = {}" if "live m pt j" "live m pt k" "k \<noteq> j" for j k
    using assms(1) that by auto
  have out: "pt \<notin> own m l (child m pt j)" if "live m pt j" for j using assms(1) that by auto
  have own': "own n l (child n pt j) = (if j = i then {p} else own m l (child m pt j))" if "live n pt j" for j
    using that lvn ci zp(1) old chl assms(3) by (cases "j = i") auto
  have "tree n l (child n pt j)" if "live n pt j" for j
    using that lvn ci zp(2) old chl assms(3) by (cases "j = i") auto
  moreover have "pt \<notin> own n l (child n pt j)" if "live n pt j" for j
    using that own' [OF that] lvn [of j] out \<open>pt \<noteq> p\<close> by auto
  moreover have "own n l (child n pt j) \<inter> own n l (child n pt k) = {}" if "live n pt j" "live n pt k" "k \<noteq> j" for j k
    using that own' [OF that(1)] own' [OF that(2)] lvn [of j] lvn [of k] fresh disj [of j k] by auto
  ultimately show "tree n (Suc l) pt" using tp by simp
  fix va
  show "leaf n (Suc l) pt va = leaf m (Suc l) pt va"
  proof (cases "px (Suc l) va = i")
    case True
    then have "leaf n (Suc l) pt va = leaf n l p va" using li ci by (simp add: leaf_def)
    with True zp assms(3) show ?thesis by (simp add: leaf_def)
  next
    case False
    have "leaf x (Suc l) pt va = (if live m pt (px (Suc l) va) then leaf x l (child m pt (px (Suc l) va)) va else 0)"
      if "x = m \<or> x = n" for x
      using that False lvn [of "px (Suc l) va"] chl [of "px (Suc l) va"] by (auto simp: leaf_def)
    with old [of "px (Suc l) va"] show ?thesis by simp
  qed
qed

text \<open>
  The tree has got the pages \<open>us\<close> as new tables: no entry of the last level has changed, and no memory
  outside the tables.
\<close>

definition grown :: "mem \<Rightarrow> mem \<Rightarrow> nat \<Rightarrow> u64 \<Rightarrow> u64 set \<Rightarrow> bool" where
  "grown m n l pt us \<longleftrightarrow> tree n l pt \<and> own n l pt = own m l pt \<union> us \<and> leaf n l pt = leaf m l pt
     \<and> (\<forall>x. pageno x \<notin> pageno ` own n l pt \<longrightarrow> n x = m x)"

lemma grown_refl: "tree m l pt \<Longrightarrow> grown m m l pt {}"
  by (simp add: grown_def)

lemma grown_trans: "grown m n l pt us \<Longrightarrow> grown n k l pt vs \<Longrightarrow> grown m k l pt (us \<union> vs)"
  unfolding grown_def image_Un by (simp add: image_Un Un_assoc)

lemma pageno_own:
  assumes "tpage p" and "p \<notin> Q" and "\<forall>q \<in> Q. tpage q"
  shows "pageno p \<notin> pageno ` Q"
  using assms tpage_eqI by blast

lemma grown_child:
  assumes "tree m (Suc l) pt" and "live m pt i" and "grown m n l (child m pt i) us"
    and "us \<inter> own m (Suc l) pt = {}"
  shows "grown m n (Suc l) pt us" and "live n pt i" and "child n pt i = child m pt i"
proof -
  let ?c = "child m pt i"
  have tp: "tpage pt" and tc: "tree m l ?c" and out: "pt \<notin> own m l ?c" using assms(1,2) by auto
  have g: "tree n l ?c" "own n l ?c = own m l ?c \<union> us" "leaf n l ?c = leaf m l ?c"
    "\<And>x. pageno x \<notin> pageno ` own n l ?c \<Longrightarrow> n x = m x"
    using assms(3) by (auto simp: grown_def)
  have tn: "\<forall>q \<in> own n l ?c. tpage q" using tree_own_tpage [OF g(1)] by blast
  have ag: "agree (pageno q) m n" if "tpage q" "q \<notin> own n l ?c" for q
    using pageno_own [OF that tn] g(4) by (simp add: agree_def)
  have "pt \<notin> us" using assms(4) by auto
  then have "agree (pageno pt) m n" using ag [OF tp] out g(2) by simp
  then have lv: "live n pt = live m pt" and ch: "\<And>j. live m pt j \<Longrightarrow> child n pt j = child m pt j"
    using live_agree [OF tp, of m n] live_less by auto
  show "live n pt i" using lv assms(2) by simp
  show ci: "child n pt i = ?c" using ch assms(2) by simp
  have sub: "own m l (child m pt j) \<subseteq> own m (Suc l) pt" if "live m pt j" for j using that by auto
  have other: "own n l (child m pt j) = own m l (child m pt j) \<and> tree n l (child m pt j)
      \<and> leaf n l (child m pt j) = leaf m l (child m pt j)" if "live m pt j" "j \<noteq> i" for j
  proof -
    have t: "tree m l (child m pt j)" and d: "own m l (child m pt j) \<inter> own m l ?c = {}"
      using assms(1,2) that by auto
    have "q \<notin> own n l ?c" if "q \<in> own m l (child m pt j)" for q
      using that d g(2) assms(4) sub [OF \<open>live m pt j\<close>] by blast
    then have "same_on (own m l (child m pt j)) m n"
      using ag tree_own_tpage [OF t] by (auto simp: same_on_def)
    with t show ?thesis using tree_frame leaf_frame by (metis ext)
  qed
  have own': "own n l (child m pt j) = own m l (child m pt j) \<union> (if j = i then us else {})" if "live m pt j" for j
    using other [OF that] g(2) by (cases "j = i") auto
  have "own n (Suc l) pt = insert pt (\<Union>j \<in> Collect (live m pt). own n l (child m pt j))"
    using lv ch by simp
  also have "\<dots> = own m (Suc l) pt \<union> us" using own' assms(2) by (auto split: if_splits)
  finally have own: "own n (Suc l) pt = own m (Suc l) pt \<union> us" .
  have "tree n l (child m pt j)" if "live m pt j" for j using other [OF that] g(1) by (cases "j = i") auto
  moreover have "pt \<notin> own n l (child m pt j)" if "live m pt j" for j
    using own' [OF that] assms(1) that \<open>pt \<notin> us\<close> by auto
  moreover have "own n l (child m pt j) \<inter> own n l (child m pt k) = {}" if "live m pt j" "live m pt k" "k \<noteq> j" for j k
  proof -
    have "own m l (child m pt j) \<inter> own m l (child m pt k) = {}" using assms(1) that by auto
    with own' [OF that(1)] own' [OF that(2)] sub [OF that(1)] sub [OF that(2)] assms(4) that(3)
    show ?thesis by (auto split: if_splits)
  qed
  ultimately have tree: "tree n (Suc l) pt" using tp lv ch by simp
  have "leaf n (Suc l) pt va = leaf m (Suc l) pt va" for va
  proof -
    have "leaf x (Suc l) pt va = (if live m pt (px (Suc l) va) then leaf x l (child m pt (px (Suc l) va)) va else 0)"
      if "x = m \<or> x = n" for x
      using that lv ch [of "px (Suc l) va"] by (auto simp: leaf_def)
    moreover have "leaf n l (child m pt j) = leaf m l (child m pt j)" if "live m pt j" for j
      using other [OF that] g(3) by (cases "j = i") auto
    ultimately show ?thesis by simp
  qed
  moreover have "n x = m x" if "pageno x \<notin> pageno ` own n (Suc l) pt" for x
  proof (rule g(4))
    have "own n l ?c \<subseteq> own n (Suc l) pt" using own g(2) sub [OF assms(2)] by blast
    with that show "pageno x \<notin> pageno ` own n l ?c" by blast
  qed
  ultimately show "grown m n (Suc l) pt us"
    unfolding grown_def using tree own by (intro conjI ext allI impI)
qed

lemma kpage_tpage: "kpage s p \<Longrightarrow> tpage p"
proof -
  assume p: "kpage s p"
  then have "unat p < unat PHYSTOP" by (simp add: kpage_def word_less_nat_alt)
  with p show ?thesis by (simp add: kpage_def tpage_def PHYSTOP_unat)
qed

text \<open>A page from \<open>kalloc\<close>, filled with zeros as the callers do.\<close>

definition zeroed_page :: "u64 \<Rightarrow> 'z kmem_scheme \<Rightarrow> 'z kmem_scheme" where
  "zeroed_page p s = s\<lparr>freelist := load64 (mem s) p, mem := memset p 0 PGSIZE (memset p 5 PGSIZE (mem s))\<rparr>"

lemma kalloc_zeroed:
  assumes "allocatable s (p # ps)"
  shows "kalloc s = Ret p (s\<lparr>freelist := load64 (mem s) p, mem := memset p 5 PGSIZE (mem s)\<rparr>)"
    and "allocatable (zeroed_page p s) ps" and "kpage s p" and "tpage p" and "p \<notin> set ps" and "p \<noteq> 0"
    and "zeroed (mem (zeroed_page p s)) p" and "pageno x \<noteq> pageno p \<Longrightarrow> mem (zeroed_page p s) x = mem s x"
proof -
  let ?t = "s\<lparr>freelist := load64 (mem s) p, mem := memset p 5 PGSIZE (mem s)\<rparr>"
  have f: "freelist s = p" "p \<noteq> 0" and fp: "free_pages s (p # ps)" and id: "kmem_idle s"
    using assms freelist_Cons [of s p ps] by (auto simp: allocatable_def)
  show "kalloc s = Ret p ?t" using id f by (simp add: kalloc_eq Let_def)
  show kp: "kpage s p" and new: "p \<notin> set ps" using fp by (auto simp: free_pages_def)
  then show "tpage p" and "p \<noteq> 0" using kpage_tpage f by auto
  have al: "page_aligned p" using kp by (simp add: kpage_def)
  have "allocatable ?t ps" using free_pages_kalloc [OF fp] id by (simp add: allocatable_def lock_simps)
  from allocatable_agree [OF this al new, of "mem (zeroed_page p s)"]
  show "allocatable (zeroed_page p s) ps" using al by (simp add: zeroed_page_def memset_page_apply)
  show "zeroed (mem (zeroed_page p s)) p" using al by (simp add: zeroed_def zeroed_page_def memset_page_apply)
  show "mem (zeroed_page p s) x = mem s x" if "pageno x \<noteq> pageno p"
    using al that by (simp add: zeroed_page_def memset_page_apply)
qed

lemma free_tpage: "allocatable s ps \<Longrightarrow> p \<in> set ps \<Longrightarrow> tpage p"
  using kpage_tpage by (auto simp: allocatable_def free_pages_def)

text \<open>A new table is allocated and entered.\<close>

definition linked_table :: "u64 \<Rightarrow> u64 \<Rightarrow> 'z kmem_scheme \<Rightarrow> 'z kmem_scheme" where
  "linked_table a p s = (zeroed_page p s)\<lparr>mem := store64 (mem (zeroed_page p s)) a (PA2PTE p OR PTE_V)\<rparr>"

lemma linked_table_ok:
  assumes "tree (mem s) (Suc l) pt" and "allocatable s (p # ps)" and "own (mem s) (Suc l) pt \<inter> set (p # ps) = {}"
    and "i < 512" and "\<not> live (mem s) pt i"
  defines "t \<equiv> linked_table (pte_addr pt (of_nat i)) p s"
  shows "allocatable t ps" and "grown (mem s) (mem t) (Suc l) pt {p}" and "live (mem t) pt i"
    and "child (mem t) pt i = p"
proof -
  let ?z = "mem (zeroed_page p s)"
  note z = kalloc_zeroed [OF assms(2)]
  have fresh: "p \<notin> own (mem s) (Suc l) pt" using assms(3) by simp
  have tp: "tpage pt" using assms(1) by simp
  have "same_on (own (mem s) (Suc l) pt) (mem s) ?z"
    using z(8) tree_own_tpage [OF assms(1)] fresh tpage_eqI [OF _ z(4)] unfolding same_on_def agree_def by metis
  note fr = tree_frame [OF assms(1) this] leaf_frame [OF assms(1) this]
  have nl: "\<not> live ?z pt i"
    using live_agree(1) [OF tp, of "mem s" ?z] assms(5) \<open>same_on _ _ _\<close> by (auto simp: same_on_def)
  have m: "mem t = store64 ?z (pte_addr pt (of_nat i)) (PA2PTE p OR PTE_V)" by (simp add: t_def linked_table_def)
  note lk = link_table [OF _ assms(4) nl z(4,7), of l, folded m]
  show "live (mem t) pt i" and "child (mem t) pt i = p" using lk(4,5) fr fresh by auto
  have ptps: "pt \<notin> set ps" using assms(3) own_self [of pt "mem s" "Suc l"] by (meson disjoint_iff list.set_intros(2))
  have on: "onpage (pte_addr pt (of_nat i)) 8" "pageno (pte_addr pt (of_nat i)) = pageno pt"
    using pte_addr_onpage [OF _ assms(4)] tp by (auto simp: tpage_def)
  have "agree (pageno q) ?z (mem t)" if "q \<in> set ps" for q
    unfolding m using store_other [OF tp assms(4) free_tpage [OF z(2) that]] ptps that by blast
  then show "allocatable t ps"
    using allocatable_mem [OF z(2), of "mem t"] by (simp add: t_def linked_table_def)
  have own: "own (mem t) (Suc l) pt = insert p (own (mem s) (Suc l) pt)" using lk(1) fr fresh by (simp del: own.simps tree.simps slot.simps)
  have "mem t x = mem s x" if "pageno x \<notin> pageno ` own (mem t) (Suc l) pt" for x
  proof -
    have "pageno x \<noteq> pageno p" "pageno x \<noteq> pageno pt" using that own by auto
    then have "?z x = mem s x" "mem t x = ?z x"
      using z(8) on by (simp_all add: m store64_def mwrite_other_page)
    then show ?thesis by simp
  qed
  moreover have "leaf (mem t) (Suc l) pt = leaf (mem s) (Suc l) pt" using lk(3) fr fresh by (simp add: fun_eq_iff del: own.simps)
  moreover have "tree (mem t) (Suc l) pt" using lk(2) fr fresh by blast
  ultimately show "grown (mem s) (mem t) (Suc l) pt {p}"
    unfolding grown_def using own by (simp del: own.simps tree.simps slot.simps)
qed

text \<open>
  \<open>walk\<close> with allocation: it finds the entry, or runs out of pages. Either way the entries of the last
  level are as before.
\<close>

lemma walk_level_alloc:
  fixes s :: "'z kmem_scheme"
  shows "tree (mem s) l pt \<Longrightarrow> allocatable s ps \<Longrightarrow> own (mem s) l pt \<inter> set ps = {} \<Longrightarrow>
   \<exists>a t us qs. walk_level l pt va True s = Ret a t \<and> ps = us @ qs \<and> allocatable t qs \<and> kpage t = kpage s
     \<and> grown (mem s) (mem t) l pt (set us) \<and> (if a = 0 then qs = [] \<and> length us < l else slot (mem t) l pt va = Some a \<and> length us \<le> l)"
proof (induction l arbitrary: pt s ps)
  case 0
  then have "pte_addr pt (PX 0 va) \<noteq> 0" using slot_onpage [OF 0(1), of va] by auto
  with 0 show ?case using grown_refl [OF 0(1)] by - (rule exI [of _ "pte_addr pt (PX 0 va)"], rule exI [of _ s], rule exI [of _ "[]"], rule exI [of _ ps], simp)
next
  case (Suc l)
  let ?i = "px (Suc l) va" and ?a = "pte_addr pt (PX (Suc l) va)"
  have down: "\<exists>a t us qs. walk_level l (child (mem s) pt ?i) va True s = Ret a t \<and> ps = us @ qs \<and> allocatable t qs \<and> kpage t = kpage s
     \<and> grown (mem s) (mem t) (Suc l) pt (set us) \<and> (if a = 0 then qs = [] \<and> length us < l else slot (mem t) (Suc l) pt va = Some a \<and> length us \<le> l)"
    if "tree (mem s) (Suc l) pt" "allocatable s ps" "own (mem s) (Suc l) pt \<inter> set ps = {}" "live (mem s) pt ?i"
    for s :: "'z kmem_scheme" and ps
  proof -
    let ?c = "child (mem s) pt ?i"
    have "tree (mem s) l ?c" "own (mem s) l ?c \<inter> set ps = {}" using that by auto
    from Suc.IH [OF this(1) that(2) this(2)] obtain a t us qs where
      w: "walk_level l ?c va True s = Ret a t" "ps = us @ qs" "allocatable t qs" "kpage t = kpage s"
        "grown (mem s) (mem t) l ?c (set us)" "if a = 0 then qs = [] \<and> length us < l else slot (mem t) l ?c va = Some a \<and> length us \<le> l" by blast
    have "set us \<inter> own (mem s) (Suc l) pt = {}" using that(3) w(2) by (auto simp del: own.simps)
    note g = grown_child [OF that(1,4) w(5) this]
    have "slot (mem t) (Suc l) pt va = slot (mem t) l ?c va" using g(2,3) by simp
    with w g(1) show ?thesis by (metis (no_types))
  qed
  show ?case
  proof (cases "live (mem s) pt ?i")
    case True
    then have "walk_level (Suc l) pt va True s = walk_level l (child (mem s) pt ?i) va True s"
      by (simp add: Let_def PTE_V_live PTE2PA_child)
    moreover obtain a t us qs where "walk_level l (child (mem s) pt ?i) va True s = Ret a t" "ps = us @ qs"
      "allocatable t qs" "kpage t = kpage s" "grown (mem s) (mem t) (Suc l) pt (set us)"
      "if a = 0 then qs = [] \<and> length us < l else slot (mem t) (Suc l) pt va = Some a \<and> length us \<le> l"
      using down [OF Suc.prems True] by blast
    moreover from this(6) have
      "if a = 0 then qs = [] \<and> length us < Suc l else slot (mem t) (Suc l) pt va = Some a \<and> length us \<le> Suc l"
      by (simp split: if_splits)
    ultimately show ?thesis by metis
  next
    case False
    show ?thesis
    proof (cases ps)
      case Nil
      then have "kalloc s = Ret 0 s" using Suc.prems(2) kmem_pages.alloc_empty [of s] by simp
      then have "walk_level (Suc l) pt va True s = Ret 0 s" using False by (simp add: Let_def PTE_V_live PTE2PA_child)
      with Nil Suc.prems grown_refl [OF Suc.prems(1)] show ?thesis
        by - (rule exI [of _ 0], rule exI [of _ s], rule exI [of _ "[]"], rule exI [of _ "[]"], simp del: own.simps tree.simps slot.simps walk_level.simps)
    next
      case (Cons p qs)
      let ?t = "linked_table ?a p s"
      note z = kalloc_zeroed [OF Suc.prems(2) [unfolded Cons]]
      note lt = linked_table_ok [OF Suc.prems(1) Suc.prems(2) [unfolded Cons] Suc.prems(3) [unfolded Cons] px_less False,
          folded PX_px]
      have own: "own (mem ?t) (Suc l) pt = own (mem s) (Suc l) pt \<union> {p}" "tree (mem ?t) (Suc l) pt"
        using lt(2) by (simp_all only: grown_def)
      have "own (mem ?t) (Suc l) pt \<inter> set qs = {}" using Suc.prems(3) z(5) Cons unfolding own(1) by auto
      from down [OF own(2) lt(1) this lt(3)] lt(4) obtain a t us rs where
        w: "walk_level l p va True ?t = Ret a t" "qs = us @ rs" "allocatable t rs" "kpage t = kpage ?t"
          "grown (mem ?t) (mem t) (Suc l) pt (set us)" "if a = 0 then rs = [] \<and> length us < l else slot (mem t) (Suc l) pt va = Some a \<and> length us \<le> l"
        by metis
      have "walk_level (Suc l) pt va True s = walk_level l p va True ?t"
        using False z(1,6) by (simp add: Let_def PTE_V_live PTE2PA_child linked_table_def zeroed_page_def)
      moreover have "grown (mem s) (mem t) (Suc l) pt (set (p # us))"
        using grown_trans [OF lt(2) w(5)] by simp
      moreover have "ps = (p # us) @ rs" using Cons w(2) by simp
      moreover have "if a = 0 then rs = [] \<and> length (p # us) < Suc l
          else slot (mem t) (Suc l) pt va = Some a \<and> length (p # us) \<le> Suc l"
        using w(6) by (simp split: if_splits)
      moreover have "kpage t = kpage s"
        using w(4) by (simp add: linked_table_def zeroed_page_def kpage_def fun_eq_iff)
      ultimately show ?thesis using w(1,3) by metis
    qed
  qed
qed

section \<open>Address spaces\<close>

text \<open>Below \<open>MAXVA\<close> the three indices of an address are the digits of its page number.\<close>

lemma px_digit: "px l va = pageno va div 512 ^ l mod 512"
proof -
  have "unat (drop_bit (PGSHIFT + 9 * l) va AND 0x1FF) = unat (drop_bit (PGSHIFT + 9 * l) va) mod 512"
  proof -
    have "x AND 0x1FF = take_bit 9 x" for x :: u64 by (simp add: take_bit_eq_mask mask_eq_exp_minus_1)
    then show ?thesis by (simp add: unsigned_take_bit_eq take_bit_eq_mod unat_mod_distrib)
  qed
  moreover have "unat (drop_bit (PGSHIFT + 9 * l) va) = unat va div 2 ^ (PGSHIFT + 9 * l)"
    using unsigned_less [of va, where ?'a = nat]
    by (simp add: unsigned_drop_bit_eq take_bit_nat_eq_self) (simp add: drop_bit_eq_div)
  moreover have "(2 :: nat) ^ (PGSHIFT + 9 * l) = PGSIZE * 512 ^ l"
    by (simp add: PGSHIFT_def PGSIZE_def power_add power_mult)
  ultimately show ?thesis by (simp add: px_def PX_def pageno_def div_mult2_eq)
qed

lemma MAXVA_unat: "unat MAXVA = 2 ^ 38"
  by (simp add: MAXVA_def)

lemma pageno_less: "va < MAXVA \<Longrightarrow> pageno va < 2 ^ 26"
  by (simp add: word_less_nat_alt MAXVA_unat pageno_def PGSIZE_def)

lemma same_px_pageno:
  assumes "va < MAXVA" and "vb < MAXVA"
  shows "same_px 2 va vb \<longleftrightarrow> pageno va = pageno vb"
proof
  assume "same_px 2 va vb"
  then have d: "pageno va div 512 ^ k mod 512 = pageno vb div 512 ^ k mod 512" if "k \<le> 2" for k
    using that by (simp add: same_px_def px_digit)
  have split: "n = n mod 512 + 512 * (n div 512 mod 512) + 512 * 512 * (n div 512 div 512 mod 512)"
    if "n < 2 ^ 26" for n :: nat
  proof -
    have "n div 512 div 512 < 512" using that by (simp add: div_mult2_eq [symmetric] less_mult_imp_div_less)
    then have "n div 512 = n div 512 mod 512 + 512 * (n div 512 div 512 mod 512)"
      using mod_mult_div_eq [of "n div 512" 512] by simp
    then show ?thesis using mod_mult_div_eq [of n 512] by linarith
  qed
  have "pageno va div 512 div 512 mod 512 = pageno vb div 512 div 512 mod 512"
    using d [of 2] by (simp add: div_mult2_eq [symmetric])
  moreover have "pageno va div 512 mod 512 = pageno vb div 512 mod 512" "pageno va mod 512 = pageno vb mod 512"
    using d [of 1] d [of 0] by simp_all
  ultimately show "pageno va = pageno vb"
    using split [OF pageno_less [OF assms(1)]] split [OF pageno_less [OF assms(2)]] by linarith
next
  assume "pageno va = pageno vb"
  then show "same_px 2 va vb" by (simp add: same_px_def px_digit)
qed

text \<open>A page table together with the free pages that it may grow into.\<close>

definition vspace :: "u64 \<Rightarrow> u64 list \<Rightarrow> 'z kmem_scheme \<Rightarrow> bool" where
  "vspace pt ps s \<longleftrightarrow> tree (mem s) 2 pt \<and> allocatable s ps \<and> own (mem s) 2 pt \<inter> set ps = {}"

definition entry :: "'z kmem_scheme \<Rightarrow> u64 \<Rightarrow> u64 \<Rightarrow> u64" where
  "entry s pt va = leaf (mem s) 2 pt va"

definition tables :: "'z kmem_scheme \<Rightarrow> u64 \<Rightarrow> u64 set" where
  "tables s pt = own (mem s) 2 pt"

text \<open>The entries \<open>e\<close> with \<open>j\<close> pages from page number \<open>b\<close> on mapped to physical memory at \<open>pa\<close>.\<close>

definition with_pages :: "nat \<Rightarrow> nat \<Rightarrow> u64 \<Rightarrow> u64 \<Rightarrow> (u64 \<Rightarrow> u64) \<Rightarrow> u64 \<Rightarrow> u64" where
  "with_pages b j pa perm e va =
     (if b \<le> pageno va \<and> pageno va < b + j
      then PA2PTE (pa + of_nat ((pageno va - b) * PGSIZE)) OR perm OR PTE_V else e va)"

lemma walk_alloc:
  assumes "vspace pt ps s" and "va < MAXVA"
  shows "\<exists>a t us qs. walk pt va True s = Ret a t \<and> ps = us @ qs \<and> vspace pt qs t
     \<and> tables t pt = tables s pt \<union> set us \<and> kpage t = kpage s \<and> entry t pt = entry s pt
     \<and> (\<forall>x. pageno x \<notin> pageno ` tables t pt \<longrightarrow> mem t x = mem s x)
     \<and> (if a = 0 then qs = [] \<and> length us < 2 else slot (mem t) 2 pt va = Some a \<and> length us \<le> 2)"
proof -
  have v: "tree (mem s) 2 pt" "allocatable s ps" "own (mem s) 2 pt \<inter> set ps = {}"
    using assms(1) by (auto simp: vspace_def)
  from walk_level_alloc [OF v, of va] obtain a t us qs where
    w: "walk_level 2 pt va True s = Ret a t" "ps = us @ qs" "allocatable t qs" "kpage t = kpage s"
      "grown (mem s) (mem t) 2 pt (set us)" "if a = 0 then qs = [] \<and> length us < 2 else slot (mem t) 2 pt va = Some a \<and> length us \<le> 2" by blast
  have "distinct ps" using v(2) by (simp add: allocatable_def free_pages_def)
  then have "vspace pt qs t" using w v(3) by (auto simp: vspace_def grown_def)
  moreover have "walk pt va True s = Ret a t" using w(1) assms(2) by (simp add: walk_def not_le)
  ultimately show ?thesis using w(2,4-6)
    by - (rule exI [of _ a], rule exI [of _ t], rule exI [of _ us], rule exI [of _ qs], simp add: grown_def tables_def entry_def fun_eq_iff)
qed

lemma set_entry:
  fixes v :: u64
  assumes "vspace pt ps s" and "slot (mem s) 2 pt va = Some a" and "va < MAXVA"
  defines "t \<equiv> s\<lparr>mem := store64 (mem s) a v\<rparr>"
  shows "vspace pt ps t" and "tables t pt = tables s pt"
    and "\<And>vb. vb < MAXVA \<Longrightarrow> entry t pt vb = (if pageno vb = pageno va then v else entry s pt vb)"
    and "\<And>x. pageno x \<notin> pageno ` tables s pt \<Longrightarrow> mem t x = mem s x"
proof -
  have tr: "tree (mem s) 2 pt" and al: "allocatable s ps" and dj: "own (mem s) 2 pt \<inter> set ps = {}"
    using assms(1) by (auto simp: vspace_def)
  note st = store_leaf [OF tr assms(2), of v]
  obtain p where p: "p \<in> own (mem s) 2 pt" "onpage a 8" "pageno a = pageno p" "tpage p"
    by (rule slot_onpage [OF tr assms(2)])
  show "tables t pt = tables s pt" using st by (simp add: tables_def t_def)
  have "agree (pageno q) (mem s) (store64 (mem s) a v)" if "q \<in> set ps" for q
    using p dj that tpage_eqI [OF free_tpage [OF al that] p(4)] by (intro agree_store(1)) auto
  then have "allocatable t ps" unfolding t_def by (intro allocatable_mem [OF al]) blast
  with st dj show "vspace pt ps t" by (simp add: vspace_def t_def)
  show "entry t pt vb = (if pageno vb = pageno va then v else entry s pt vb)" if "vb < MAXVA" for vb
    using st same_px_pageno [OF assms(3) that] by (simp add: entry_def t_def eq_commute)
  show "mem t x = mem s x" if "pageno x \<notin> pageno ` tables s pt" for x
    using that p by (auto simp: t_def store64_def tables_def intro!: mwrite_other_page)
qed

lemma next_page:
  assumes "page_aligned a" and "a < MAXVA"
  shows "page_aligned (a + of_nat PGSIZE)" and "pageno (a + of_nat PGSIZE) = Suc (pageno a)"
proof -
  have "unat a < 2 ^ 38" using assms(2) by (simp add: word_less_nat_alt MAXVA_unat)
  then have u: "unat (a + of_nat PGSIZE) = unat a + PGSIZE" by (simp add: unat_word_ariths PGSIZE_def)
  show "page_aligned (a + of_nat PGSIZE)" using assms(1) by (simp add: pgoff_def u)
  show "pageno (a + of_nat PGSIZE) = Suc (pageno a)" unfolding pageno_def u by (simp add: PGSIZE_def)
qed

lemma pageno_le_less: "page_aligned a \<Longrightarrow> pageno a \<le> pageno b \<Longrightarrow> b < MAXVA \<Longrightarrow> a < MAXVA"
  using unat_page [of b] by (simp add: word_less_nat_alt page_aligned_unat PGSIZE_def)

lemma with_pages_0 [simp]: "with_pages b 0 pa perm e = e"
  by (auto simp: with_pages_def fun_eq_iff)

lemma with_pages_Suc:
  "with_pages (Suc b) j (pa + of_nat PGSIZE) perm
     (\<lambda>va. if pageno va = b then PA2PTE pa OR perm OR PTE_V else e va) va = with_pages b (Suc j) pa perm e va"
proof (cases "Suc b \<le> pageno va")
  case True
  then have "(pageno va - b) * PGSIZE = PGSIZE + (pageno va - Suc b) * PGSIZE"
    by (metis Suc_diff_Suc Suc_le_eq mult_Suc)
  with True show ?thesis by (simp add: with_pages_def add.assoc)
next
  case False
  then show ?thesis by (auto simp: with_pages_def)
qed

lemma with_pages_cong:
  "(\<And>va. va < MAXVA \<Longrightarrow> e va = f va) \<Longrightarrow> va < MAXVA \<Longrightarrow> with_pages b j pa perm e va = with_pages b j pa perm f va"
  by (simp add: with_pages_def)

text \<open>One turn of the loop of \<open>mappages\<close>: it runs out of pages, or one more page is mapped.\<close>

lemma map_step:
  fixes s :: "'z kmem_scheme"
  assumes "vspace pt ps s" and "a < MAXVA" and "entry s pt a AND PTE_V = 0"
  shows "\<exists>t us qs. ps = us @ qs \<and> vspace pt qs t \<and> tables t pt = tables s pt \<union> set us \<and> kpage t = kpage s
     \<and> (\<forall>x. pageno x \<notin> pageno ` tables t pt \<longrightarrow> mem t x = mem s x)
     \<and> (qs = [] \<and> length us < 2 \<and> entry t pt = entry s pt \<and> (\<forall>n lst. mappages_loop (Suc n) pt a lst pa perm s = Ret (-1) t)
        \<or> length us \<le> 2
          \<and> (\<forall>va < MAXVA. entry t pt va = (if pageno va = pageno a then PA2PTE pa OR perm OR PTE_V else entry s pt va))
          \<and> (\<forall>n lst. mappages_loop (Suc n) pt a lst pa perm s =
               (if a = lst then Ret 0 t
                else mappages_loop n pt (a + of_nat PGSIZE) lst (pa + of_nat PGSIZE) perm t)))"
proof -
  obtain p t us qs where w: "walk pt a True s = Ret p t" "ps = us @ qs" "vspace pt qs t"
      "tables t pt = tables s pt \<union> set us" "kpage t = kpage s" "entry t pt = entry s pt"
      "\<forall>x. pageno x \<notin> pageno ` tables t pt \<longrightarrow> mem t x = mem s x"
      "if p = 0 then qs = [] \<and> length us < 2 else slot (mem t) 2 pt a = Some p \<and> length us \<le> 2"
    using walk_alloc [OF assms(1,2)] by blast
  show ?thesis
  proof (cases "p = 0")
    case True
    then have "\<forall>n lst. mappages_loop (Suc n) pt a lst pa perm s = Ret (-1) t" using w(1) by simp
    with True w show ?thesis by - (rule exI [of _ t], rule exI [of _ us], rule exI [of _ qs], simp)
  next
    case False
    let ?v = "PA2PTE pa OR perm OR PTE_V"
    let ?u = "t\<lparr>mem := store64 (mem t) p ?v\<rparr>"
    have sl: "slot (mem t) 2 pt a = Some p" "length us \<le> 2" using False w(8) by simp_all
    then have "load64 (mem t) p = entry t pt a" by (simp add: entry_def leaf_def)
    then have "load64 (mem t) p AND PTE_V = 0" using assms(3) w(6) by simp
    then have "\<forall>n lst. mappages_loop (Suc n) pt a lst pa perm s =
       (if a = lst then Ret 0 ?u else mappages_loop n pt (a + of_nat PGSIZE) lst (pa + of_nat PGSIZE) perm ?u)"
      using False w(1) by simp
    moreover note st = set_entry [OF w(3) sl(1) assms(2), where v = ?v]
    have "mem ?u x = mem s x" if "pageno x \<notin> pageno ` tables t pt" for x using st(4) [OF that] w(7) that by simp
    moreover have "kpage ?u = kpage s" using w(5) by (simp add: kpage_def fun_eq_iff)
    moreover have "entry ?u pt va = (if pageno va = pageno a then ?v else entry s pt va)" if "va < MAXVA" for va
      using st(3) [OF that] w(6) by simp
    ultimately show ?thesis using w(2,4) st(1,2) sl(2)
      by - (rule exI [of _ ?u], rule exI [of _ us], rule exI [of _ qs], simp del: mappages_loop.simps)
  qed
qed

lemma mappages_loop_maps:
  fixes s :: "'z kmem_scheme"
  assumes "vspace pt ps s" and "page_aligned a" and "page_aligned lst" and "pageno lst = pageno a + k"
    and "lst < MAXVA" and "k < n"
    and "\<And>va. va < MAXVA \<Longrightarrow> pageno a \<le> pageno va \<Longrightarrow> pageno va \<le> pageno lst \<Longrightarrow> entry s pt va AND PTE_V = 0"
  shows "\<exists>r j t us qs. mappages_loop n pt a lst pa perm s = Ret r t \<and> ps = us @ qs \<and> vspace pt qs t
     \<and> tables t pt = tables s pt \<union> set us \<and> kpage t = kpage s
     \<and> (\<forall>va < MAXVA. entry t pt va = with_pages (pageno a) j pa perm (entry s pt) va)
     \<and> (\<forall>x. pageno x \<notin> pageno ` tables t pt \<longrightarrow> mem t x = mem s x)
     \<and> (if r = 0 then j = Suc k else r = -1 \<and> j \<le> k \<and> qs = [] \<and> length ps < 2 * Suc k)"
  using assms
proof (induction n arbitrary: a k pa s ps)
  case 0
  then show ?case by simp
next
  case (Suc n)
  let ?b = "a + of_nat PGSIZE" and ?v = "PA2PTE pa OR perm OR PTE_V"
  have av: "a < MAXVA" using pageno_le_less [OF Suc.prems(2) _ Suc.prems(5)] Suc.prems(4) by simp
  have "entry s pt a AND PTE_V = 0" using Suc.prems(7) [OF av] Suc.prems(4) by simp
  from map_step [OF Suc.prems(1) av this, of pa perm] obtain t us qs where
    w: "ps = us @ qs" "vspace pt qs t" "tables t pt = tables s pt \<union> set us" "kpage t = kpage s"
      "\<forall>x. pageno x \<notin> pageno ` tables t pt \<longrightarrow> mem t x = mem s x"
      "qs = [] \<and> length us < 2 \<and> entry t pt = entry s pt \<and> (\<forall>n lst. mappages_loop (Suc n) pt a lst pa perm s = Ret (-1) t)
       \<or> length us \<le> 2 \<and> (\<forall>va < MAXVA. entry t pt va = (if pageno va = pageno a then ?v else entry s pt va))
         \<and> (\<forall>n lst. mappages_loop (Suc n) pt a lst pa perm s =
              (if a = lst then Ret 0 t else mappages_loop n pt ?b lst (pa + of_nat PGSIZE) perm t))"
    by blast
  from w(6) consider
    (out) "qs = []" "length us < 2" "entry t pt = entry s pt" "mappages_loop (Suc n) pt a lst pa perm s = Ret (-1) t"
    | (step) "length us \<le> 2" "\<forall>va < MAXVA. entry t pt va = (if pageno va = pageno a then ?v else entry s pt va)"
       "mappages_loop (Suc n) pt a lst pa perm s =
          (if a = lst then Ret 0 t else mappages_loop n pt ?b lst (pa + of_nat PGSIZE) perm t)"
    by blast
  then show ?case
  proof cases
    case out
    with w show ?thesis
      by - (rule exI [of _ "-1"], rule exI [of _ 0], rule exI [of _ t], rule exI [of _ us], rule exI [of _ qs], simp)
  next
    case step
    show ?thesis
    proof (cases "a = lst")
      case True
      then have "k = 0" using Suc.prems(4) by simp
      moreover have "entry t pt va = with_pages (pageno a) (Suc 0) pa perm (entry s pt) va" if "va < MAXVA" for va
        using step(2) that by (auto simp: with_pages_def)
      ultimately show ?thesis using True step(3) w(1-5)
        by - (rule exI [of _ 0], rule exI [of _ "Suc 0"], rule exI [of _ t], rule exI [of _ us], rule exI [of _ qs], simp)
    next
      case False
      have "k \<noteq> 0" using False Suc.prems(2-4) page_aligned_eqI [of lst a] by auto
      then obtain k' where k': "k = Suc k'" by (cases k) auto
      note nx = next_page [OF Suc.prems(2) av]
      have e: "entry t pt va AND PTE_V = 0" if "va < MAXVA" "pageno ?b \<le> pageno va" "pageno va \<le> pageno lst" for va
        using step(2) Suc.prems(7) [OF that(1)] that nx by simp
      have lk: "pageno lst = pageno ?b + k'" and kn: "k' < n" using k' nx Suc.prems(4,6) by simp_all
      from Suc.IH [OF w(2) nx(1) Suc.prems(3) lk Suc.prems(5) kn e, of "pa + of_nat PGSIZE", unfolded nx(2)]
      obtain r j u us' rs where
        i: "mappages_loop n pt ?b lst (pa + of_nat PGSIZE) perm t = Ret r u" "qs = us' @ rs" "vspace pt rs u"
         "tables u pt = tables t pt \<union> set us'" "kpage u = kpage t"
         "\<forall>va < MAXVA. entry u pt va = with_pages (Suc (pageno a)) j (pa + of_nat PGSIZE) perm (entry t pt) va"
         "\<forall>x. pageno x \<notin> pageno ` tables u pt \<longrightarrow> mem u x = mem t x"
         "if r = 0 then j = Suc k' else r = -1 \<and> j \<le> k' \<and> rs = [] \<and> length qs < 2 * Suc k'" by blast
      have "entry u pt va = with_pages (pageno a) (Suc j) pa perm (entry s pt) va" if "va < MAXVA" for va
        using i(6) that step(2) with_pages_Suc [of "pageno a" j pa perm "entry s pt" va]
          with_pages_cong [of "entry t pt" "\<lambda>va. if pageno va = pageno a then ?v else entry s pt va" va] by simp
      moreover have "tables u pt = tables s pt \<union> set (us @ us')" using i(4) w(3) by auto
      moreover have "mem u x = mem s x" if "pageno x \<notin> pageno ` tables u pt" for x
        using that i(4,7) w(5) by (simp add: image_Un)
      moreover have "if r = 0 then Suc j = Suc k else r = -1 \<and> Suc j \<le> k \<and> rs = [] \<and> length ps < 2 * Suc k"
        using i(8) k' w(1) step(1) by (simp split: if_splits)
      ultimately show ?thesis using False step(3) w(1,4) i(1-3,5)
        by - (rule exI [of _ r], rule exI [of _ "Suc j"], rule exI [of _ u], rule exI [of _ "us @ us'"], rule exI [of _ rs],
          simp del: mappages_loop.simps)
    qed
  qed
qed

section \<open>User memory\<close>

text \<open>What \<open>walkaddr\<close> returns, and the physical address of a user address.\<close>

definition user_page :: "mem \<Rightarrow> u64 \<Rightarrow> u64 \<Rightarrow> u64" where
  "user_page m pt va =
     (let v = leaf m 2 pt va in if va < MAXVA \<and> v AND PTE_V \<noteq> 0 \<and> v AND PTE_U \<noteq> 0 then PTE2PA v else 0)"

definition uaddr :: "mem \<Rightarrow> u64 \<Rightarrow> u64 \<Rightarrow> u64" where
  "uaddr m pt va = user_page m pt va + (va - PGROUNDDOWN va)"

lemma walkaddr_eq:
  assumes "tree (mem s) 2 pt"
  shows "walkaddr pt va s = Ret (user_page (mem s) pt va) s"
proof (cases "va < MAXVA")
  case True
  show ?thesis
  proof (cases "slot (mem s) 2 pt va")
    case None
    then show ?thesis using True by (simp add: walkaddr_def walk_find user_page_def leaf_def not_le)
  next
    case (Some a)
    then have "a \<noteq> 0" using slot_onpage [OF assms Some] by blast
    then show ?thesis using True Some leD [OF less_imp_le]
      by (auto simp: walkaddr_def walk_find user_page_def leaf_def not_le)
  qed
next
  case False
  then have "MAXVA \<le> va" by simp
  with False show ?thesis by (simp add: walkaddr_def user_page_def Let_def)
qed

lemma PTE2PA_aligned: "page_aligned (PTE2PA v)"
proof -
  have "PTE2PA v = PGROUNDDOWN (PTE2PA v)"
  proof (rule bit_word_eqI)
    fix n :: nat
    assume "n < LENGTH(64)"
    have "PGROUNDDOWN x = x AND NOT (mask 12)" for x by (simp add: PGROUNDDOWN_def PGSIZE_def mask_eq_exp_minus_1)
    then show "bit (PTE2PA v) n = bit (PGROUNDDOWN (PTE2PA v)) n" by (auto simp: PTE2PA_def bit_simps)
  qed
  then show ?thesis by (metis pgoff_PGROUNDDOWN)
qed

lemma user_page_aligned: "page_aligned (user_page m pt va)"
  using PTE2PA_aligned by (simp add: user_page_def Let_def pgoff_def)

lemma user_page_cong:
  assumes "va < MAXVA" and "vb < MAXVA" and "pageno va = pageno vb"
  shows "user_page m pt va = user_page m pt vb"
proof -
  have "slot m l pt va = slot m l pt vb" if "same_px l va vb" for l
    using that
  proof (induction l arbitrary: pt)
    case 0
    then show ?case by (simp add: same_px_def PX_px)
  next
    case (Suc l)
    then show ?case by (simp add: same_px_Suc)
  qed
  then show ?thesis using assms same_px_pageno by (simp add: user_page_def leaf_def)
qed

text \<open>The bytes of one chunk: as long as the user address stays on its page, so does the physical one.\<close>

lemma chunk_page:
  assumes "i < chunk va len" and "unat va + len \<le> unat MAXVA"
  shows "unat (va + of_nat i) = unat va + i" and "pageno (va + of_nat i) = pageno va"
    and "pgoff (va + of_nat i) = pgoff va + i" and "va + of_nat i < MAXVA" and "PGROUNDDOWN va < MAXVA"
proof -
  have c: "i < len" "pgoff va + i < PGSIZE" using assms(1) by (auto simp: chunk_def sub_PGROUNDDOWN)
  then have "onpage va (Suc i)" by (simp add: onpage_def)
  from onpage_add [OF this, of i] show u: "unat (va + of_nat i) = unat va + i"
    and pg: "pageno (va + of_nat i) = pageno va" by simp_all
  show "pgoff (va + of_nat i) = pgoff va + i" using unat_page [of "va + of_nat i"] unat_page [of va] u pg by simp
  show "va + of_nat i < MAXVA" using u assms(2) c(1) by (simp add: word_less_nat_alt)
  show "PGROUNDDOWN va < MAXVA" using PGROUNDDOWN_le [of va] assms(2) c(1) by (simp add: word_less_nat_alt)
qed

lemma uaddr_chunk:
  assumes "i < chunk va len" and "unat va + len \<le> unat MAXVA"
  shows "uaddr m pt (va + of_nat i) = user_page m pt (PGROUNDDOWN va) + (va - PGROUNDDOWN va) + of_nat i"
proof -
  note c = chunk_page [OF assms]
  have "user_page m pt (va + of_nat i) = user_page m pt (PGROUNDDOWN va)"
    using c by (intro user_page_cong) simp_all
  moreover have "PGROUNDDOWN (va + of_nat i) = PGROUNDDOWN va"
    using c(2) by (simp add: word_unat_eq_iff PGROUNDDOWN_unat)
  ultimately show ?thesis by (simp add: uaddr_def)
qed

lemma chunk_next:
  assumes "chunk va len < len" and "unat va + len \<le> unat MAXVA"
  shows "PGROUNDDOWN va + of_nat PGSIZE = va + of_nat (chunk va len)"
    and "unat (va + of_nat (chunk va len)) = unat va + chunk va len"
proof -
  have c: "chunk va len = PGSIZE - pgoff va" using assms(1) by (simp add: chunk_def sub_PGROUNDDOWN)
  have b: "unat va + chunk va len < 2 ^ 38" using assms by (simp add: MAXVA_unat)
  then show u: "unat (va + of_nat (chunk va len)) = unat va + chunk va len"
    by (simp add: unat_word_ariths unat_of_nat_small)
  have "unat (PGROUNDDOWN va) + PGSIZE = unat va + chunk va len"
    using unat_page [of va] pgoff_less [of va] by (simp add: c PGROUNDDOWN_unat)
  moreover from this have "unat (PGROUNDDOWN va + of_nat PGSIZE) = unat (PGROUNDDOWN va) + PGSIZE"
    using b by (simp add: unat_word_ariths PGSIZE_def)
  ultimately show "PGROUNDDOWN va + of_nat PGSIZE = va + of_nat (chunk va len)"
    using u by (simp add: word_unat_eq_iff)
qed

lemma copy_rest:
  assumes "unat va + len \<le> unat MAXVA" and "j < len - chunk va len"
  shows "PGROUNDDOWN va + of_nat PGSIZE + of_nat j = va + of_nat (chunk va len + j)"
    and "unat (PGROUNDDOWN va + of_nat PGSIZE) + (len - chunk va len) = unat va + len"
  using chunk_next [of va len] assms by (simp_all add: add.assoc)

lemma mwrite_at: "i < length bs \<Longrightarrow> length bs \<le> 2 ^ 32 \<Longrightarrow> mwrite m a bs (a + of_nat i) = bs ! i"
  by (simp add: mwrite_def unat_of_nat_small)

lemma mwrite_away: "\<forall>i < length bs. x \<noteq> a + of_nat i \<Longrightarrow> mwrite m a bs x = m x"
proof (rule mwrite_outside)
  assume "\<forall>i < length bs. x \<noteq> a + of_nat i"
  then have "unat (x - a) < length bs \<Longrightarrow> x \<noteq> a + of_nat (unat (x - a))" by blast
  then show "\<not> inrun a (length bs) x" by (auto simp: inrun_def)
qed

text \<open>\<open>copyin\<close> reads the bytes at the user addresses, page by page.\<close>

lemma copyin_reads:
  assumes "tree (mem s) 2 pt" and "unat va + n \<le> unat MAXVA"
    and "\<forall>i < n. user_page (mem s) pt (va + of_nat i) \<noteq> 0"
  shows "copyin pt va n s = Ret (0, map (\<lambda>i. mem s (uaddr (mem s) pt (va + of_nat i))) [0..<n]) s"
  using assms(2,3)
proof (induction n arbitrary: va rule: less_induct)
  case (less n)
  show ?case
  proof (cases "n = 0")
    case True
    then show ?thesis by (simp add: copyin.simps)
  next
    case False
    let ?c = "chunk va n" and ?p = "user_page (mem s) pt (PGROUNDDOWN va)" and ?w = "PGROUNDDOWN va + of_nat PGSIZE"
    let ?f = "\<lambda>i. mem s (uaddr (mem s) pt (va + of_nat i))"
    have c: "0 < ?c" "?c \<le> n" using False chunk_pos chunk_le by auto
    note c0 = chunk_page [OF c(1) less.prems(1)]
    have "?p = user_page (mem s) pt va" using c0 by (intro user_page_cong) simp_all
    moreover have "user_page (mem s) pt (va + of_nat 0) \<noteq> 0" using less.prems(2) False by blast
    ultimately have p0: "?p \<noteq> 0" by simp
    have bs: "mread (mem s) (?p + (va - PGROUNDDOWN va)) ?c = map ?f [0..<?c]"
      using uaddr_chunk [OF _ less.prems(1)] by (intro nth_equalityI) simp_all
    have "copyin pt ?w (n - ?c) s = Ret (0, map (\<lambda>i. ?f (?c + i)) [0..<n - ?c]) s"
    proof (cases "?c = n")
      case True
      then show ?thesis by (simp add: copyin.simps)
    next
      case False
      note r = copy_rest [OF less.prems(1)]
      have "copyin pt ?w (n - ?c) s = Ret (0, map (\<lambda>i. mem s (uaddr (mem s) pt (?w + of_nat i))) [0..<n - ?c]) s"
      proof (rule less.IH)
        show "n - ?c < n" using c by simp
        show "unat ?w + (n - ?c) \<le> unat MAXVA" using r(2) [of 0] less.prems(1) False c(2) by simp
        show "\<forall>i < n - ?c. user_page (mem s) pt (?w + of_nat i) \<noteq> 0"
        proof (intro allI impI)
          fix i
          assume i: "i < n - ?c"
          then have "?c + i < n" by simp
          then show "user_page (mem s) pt (?w + of_nat i) \<noteq> 0" unfolding r(1) [OF i] using less.prems(2) by blast
        qed
      qed
      moreover have "map (\<lambda>i. mem s (uaddr (mem s) pt (?w + of_nat i))) [0..<n - ?c] = map (\<lambda>i. ?f (?c + i)) [0..<n - ?c]"
        by (intro map_cong refl) (simp add: r(1) del: of_nat_add)
      ultimately show ?thesis by simp
    qed
    moreover have "map ?f [0..<?c] @ map (\<lambda>i. ?f (?c + i)) [0..<n - ?c] = map ?f [0..<n]"
      using c(2) by (intro nth_equalityI) (auto simp: nth_append)
    ultimately show ?thesis
      using False p0 bs walkaddr_eq [OF assms(1), of "PGROUNDDOWN va"] by (subst copyin.simps) (simp add: Let_def)
  qed
qed

text \<open>\<open>copyout\<close> writes the bytes at the user addresses and nothing else.\<close>

definition usable :: "mem \<Rightarrow> u64 \<Rightarrow> u64 \<Rightarrow> nat \<Rightarrow> bool" where
  "usable m pt va n \<longleftrightarrow> tree m 2 pt \<and> unat va + n \<le> unat MAXVA
     \<and> (\<forall>i < n. user_page m pt (va + of_nat i) \<noteq> 0
          \<and> pageno (uaddr m pt (va + of_nat i)) \<notin> pageno ` own m 2 pt)
     \<and> inj_on (\<lambda>i. uaddr m pt (va + of_nat i)) {..<n}"

lemma user_page_frame:
  "tree m 2 pt \<Longrightarrow> same_on (own m 2 pt) m m' \<Longrightarrow> user_page m' pt va = user_page m pt va"
  by (simp add: user_page_def leaf_frame)

lemma usableD:
  assumes "usable m pt va n"
  shows "tree m 2 pt" and "unat va + n \<le> unat MAXVA" and "i < n \<Longrightarrow> user_page m pt (va + of_nat i) \<noteq> 0"
    and "i < n \<Longrightarrow> pageno (uaddr m pt (va + of_nat i)) \<notin> pageno ` own m 2 pt"
    and "i < n \<Longrightarrow> j < n \<Longrightarrow> uaddr m pt (va + of_nat i) = uaddr m pt (va + of_nat j) \<Longrightarrow> i = j"
  using assms by (auto simp: usable_def inj_on_def)

lemma usable_first:
  assumes "usable m pt va n" and "0 < n"
  shows "user_page m pt (PGROUNDDOWN va) \<noteq> 0"
proof -
  have "user_page m pt (PGROUNDDOWN va) = user_page m pt va"
    using chunk_page [OF chunk_pos [OF assms(2)] usableD(2) [OF assms(1)]] by (intro user_page_cong) simp_all
  moreover have "user_page m pt (va + of_nat 0) \<noteq> 0" using usableD(3) [OF assms] .
  ultimately show ?thesis by simp
qed

text \<open>One chunk is written: the tables and the translation stay, and the rest is usable as before.\<close>

lemma chunk_written:
  fixes bs :: "u8 list"
  assumes "usable m pt va n" and "length bs = chunk va n"
  defines "m1 \<equiv> mwrite m (user_page m pt (PGROUNDDOWN va) + (va - PGROUNDDOWN va)) bs"
  shows "same_on (own m 2 pt) m m1" and "i < chunk va n \<Longrightarrow> m1 (uaddr m pt (va + of_nat i)) = bs ! i"
    and "\<forall>i < chunk va n. x \<noteq> uaddr m pt (va + of_nat i) \<Longrightarrow> m1 x = m x"
    and "uaddr m1 pt = uaddr m pt" and "own m1 2 pt = own m 2 pt"
    and "chunk va n < n \<Longrightarrow> usable m1 pt (PGROUNDDOWN va + of_nat PGSIZE) (n - chunk va n)"
proof -
  let ?a = "user_page m pt (PGROUNDDOWN va) + (va - PGROUNDDOWN va)" and ?c = "chunk va n"
  let ?w = "PGROUNDDOWN va + of_nat PGSIZE"
  note u = usableD [OF assms(1)]
  have cs: "?c \<le> 2 ^ 32" by (simp add: chunk_def PGSIZE_def)
  have ad: "uaddr m pt (va + of_nat i) = ?a + of_nat i" if "i < ?c" for i using uaddr_chunk [OF that u(2)] .
  show "m1 (uaddr m pt (va + of_nat i)) = bs ! i" if "i < ?c" for i
    using that assms(2) cs by (simp add: m1_def ad mwrite_at)
  show out: "m1 x = m x" if "\<forall>i < ?c. x \<noteq> uaddr m pt (va + of_nat i)" for x
    unfolding m1_def using that assms(2) by (intro mwrite_away) (simp add: ad)
  show same: "same_on (own m 2 pt) m m1"
    unfolding same_on_def agree_def
  proof (intro ballI allI impI)
    fix q x
    assume "q \<in> own m 2 pt" and "pageno x = pageno q"
    then have "pageno x \<in> pageno ` own m 2 pt" by simp
    then have "\<forall>i < ?c. x \<noteq> uaddr m pt (va + of_nat i)" using u(4) chunk_le by (metis order_less_le_trans)
    then show "m1 x = m x" by (rule out)
  qed
  have tr: "tree m1 2 pt" and ow: "own m1 2 pt = own m 2 pt" using tree_frame [OF u(1) same] by auto
  show "own m1 2 pt = own m 2 pt" by (rule ow)
  have up: "user_page m1 pt = user_page m pt" using user_page_frame [OF u(1) same] by (simp add: fun_eq_iff)
  then show ua: "uaddr m1 pt = uaddr m pt" by (simp add: uaddr_def fun_eq_iff)
  assume lt: "?c < n"
  note r = copy_rest [OF u(2)]
  have up': "user_page m pt (?w + of_nat j) \<noteq> 0"
    and out': "pageno (uaddr m pt (?w + of_nat j)) \<notin> pageno ` own m 2 pt" if "j < n - ?c" for j
  proof -
    have "?c + j < n" using that by simp
    then show "user_page m pt (?w + of_nat j) \<noteq> 0"
      and "pageno (uaddr m pt (?w + of_nat j)) \<notin> pageno ` own m 2 pt"
      unfolding r(1) [OF that] by (auto dest: u(3,4))
  qed
  have "inj_on (\<lambda>j. uaddr m pt (?w + of_nat j)) {..<n - ?c}"
  proof (rule inj_onI)
    fix i j
    assume ij: "i \<in> {..<n - ?c}" "j \<in> {..<n - ?c}" and e: "uaddr m pt (?w + of_nat i) = uaddr m pt (?w + of_nat j)"
    then have "?c + i = ?c + j" by (intro u(5)) (simp_all add: r(1) del: of_nat_add)
    then show "i = j" by simp
  qed
  then show "usable m1 pt ?w (n - ?c)"
    unfolding usable_def up ua ow using tr up' out' r(2) [of 0] u(2) lt by simp
qed

lemma copyout_writes:
  fixes s :: "'z kmem_scheme"
  assumes "usable (mem s) pt va (length src)"
  shows "\<exists>m'. copyout pt va src s = Ret 0 (s\<lparr>mem := m'\<rparr>) \<and> same_on (own (mem s) 2 pt) (mem s) m'
     \<and> (\<forall>i < length src. m' (uaddr (mem s) pt (va + of_nat i)) = src ! i)
     \<and> (\<forall>x. (\<forall>i < length src. x \<noteq> uaddr (mem s) pt (va + of_nat i)) \<longrightarrow> m' x = mem s x)"
  using assms
proof (induction "length src" arbitrary: src va s rule: less_induct)
  case less
  let ?m = "mem s" and ?n = "length src"
  note u = usableD [OF less.prems]
  show ?case
  proof (cases "src = []")
    case True
    then have "copyout pt va src s = Ret 0 (s\<lparr>mem := ?m\<rparr>)" by (simp add: copyout.simps)
    with True show ?thesis by (intro exI [of _ ?m]) (simp add: same_on_def)
  next
    case False
    let ?c = "chunk va ?n" and ?w = "PGROUNDDOWN va + of_nat PGSIZE"
    let ?rest = "drop ?c src"
    let ?t = "s\<lparr>mem := mwrite ?m (user_page ?m pt (PGROUNDDOWN va) + (va - PGROUNDDOWN va)) (take ?c src)\<rparr>"
    have c: "0 < ?c" "?c \<le> ?n" "length (take ?c src) = ?c" using False chunk_pos chunk_le by auto
    note cw = chunk_written [OF less.prems c(3)]
    have "copyout pt va src s = copyout pt ?w ?rest ?t"
      using False walkaddr_eq [OF u(1), of "PGROUNDDOWN va"] usable_first [OF less.prems]
      by (subst copyout.simps) (simp add: Let_def)
    moreover have "\<exists>m'. copyout pt ?w ?rest ?t = Ret 0 (s\<lparr>mem := m'\<rparr>) \<and> same_on (own ?m 2 pt) (mem ?t) m'
       \<and> (\<forall>j < ?n - ?c. m' (uaddr ?m pt (va + of_nat (?c + j))) = src ! (?c + j))
       \<and> (\<forall>x. (\<forall>j < ?n - ?c. x \<noteq> uaddr ?m pt (va + of_nat (?c + j))) \<longrightarrow> m' x = mem ?t x)"
    proof (cases "?c < ?n")
      case True
      have "usable (mem ?t) pt ?w (length ?rest)" "length ?rest < ?n" using cw(6) [OF True] c by simp_all
      from less.hyps [OF this(2,1)] obtain m' where m': "copyout pt ?w ?rest ?t = Ret 0 (?t\<lparr>mem := m'\<rparr>)"
        "same_on (own (mem ?t) 2 pt) (mem ?t) m'"
        "\<forall>i < length ?rest. m' (uaddr (mem ?t) pt (?w + of_nat i)) = ?rest ! i"
        "\<forall>x. (\<forall>i < length ?rest. x \<noteq> uaddr (mem ?t) pt (?w + of_nat i)) \<longrightarrow> m' x = mem ?t x" by blast
      have "uaddr (mem ?t) pt (?w + of_nat j) = uaddr ?m pt (va + of_nat (?c + j))" if "j < ?n - ?c" for j
        unfolding copy_rest(1) [OF u(2) that] using cw(4) by simp
      with m' show ?thesis using cw(5) c(2) by (intro exI [of _ m']) simp
    next
      case False
      then have "?n - ?c = 0" and "?rest = []" using c(2) by simp_all
      moreover from this(2) have "copyout pt ?w ?rest ?t = Ret 0 ?t" by (simp add: copyout.simps)
      ultimately show ?thesis by (intro exI [of _ "mem ?t"]) (simp add: same_on_def)
    qed
    ultimately obtain m' where m': "copyout pt va src s = Ret 0 (s\<lparr>mem := m'\<rparr>)" "same_on (own ?m 2 pt) (mem ?t) m'"
      "\<And>j. j < ?n - ?c \<Longrightarrow> m' (uaddr ?m pt (va + of_nat (?c + j))) = src ! (?c + j)"
      "\<And>x. \<forall>j < ?n - ?c. x \<noteq> uaddr ?m pt (va + of_nat (?c + j)) \<Longrightarrow> m' x = mem ?t x" by auto
    have "same_on (own ?m 2 pt) ?m m'" using cw(1) m'(2) by (auto simp: same_on_def intro: agree_trans)
    moreover have "m' (uaddr ?m pt (va + of_nat i)) = src ! i" if i: "i < ?n" for i
    proof (cases "i < ?c")
      case True
      have "uaddr ?m pt (va + of_nat i) \<noteq> uaddr ?m pt (va + of_nat (?c + j))" if "j < ?n - ?c" for j
        using u(5) [of i "?c + j"] that i True by linarith
      then show ?thesis using m'(4) cw(2) [OF True] True by simp
    next
      case False
      then show ?thesis using m'(3) [of "i - ?c"] i by simp
    qed
    moreover have "m' x = ?m x" if "\<forall>i < ?n. x \<noteq> uaddr ?m pt (va + of_nat i)" for x
    proof -
      have "?c + j < ?n" if "j < ?n - ?c" for j using that by simp
      then have "\<forall>j < ?n - ?c. x \<noteq> uaddr ?m pt (va + of_nat (?c + j))" using that by blast
      then show ?thesis using that m'(4) cw(3) [of x] c(2) by simp
    qed
    ultimately show ?thesis using m'(1) by blast
  qed
qed

section \<open>Unmapping\<close>

text \<open>A page that belongs to neither the tables nor the free list is given back.\<close>

lemma kfree_vspace:
  assumes "vspace pt ps s" and "kpage s p" and "p \<notin> tables s pt" and "p \<notin> set ps"
  shows "\<exists>t. kfree p s = Ret () t \<and> vspace pt (p # ps) t \<and> tables t pt = tables s pt \<and> entry t pt = entry s pt
     \<and> slot (mem t) 2 pt = slot (mem s) 2 pt \<and> kpage t = kpage s \<and> (\<forall>x. pageno x \<noteq> pageno p \<longrightarrow> mem t x = mem s x)"
proof -
  let ?t = "s\<lparr>mem := store64 (memset p 1 PGSIZE (mem s)) p (freelist s), freelist := p\<rparr>"
  have tr: "tree (mem s) 2 pt" and al: "allocatable s ps" and dj: "own (mem s) 2 pt \<inter> set ps = {}"
    using assms(1) by (auto simp: vspace_def)
  have ap: "page_aligned p" using assms(2) by (simp add: kpage_def)
  have run: "kfree p s = Ret () ?t" using al assms(2) by (simp add: allocatable_def kfree_eq)
  have "allocatable ?t (p # ps)"
    using al free_pages_kfree [OF _ assms(2,4)] by (simp add: allocatable_def lock_simps)
  moreover have out: "mem ?t x = mem s x" if "pageno x \<noteq> pageno p" for x
    using that ap by (simp add: store64_other_page memset_page_apply)
  have same: "same_on (own (mem s) 2 pt) (mem s) (mem ?t)"
    unfolding same_on_def agree_def
  proof (intro ballI allI impI)
    fix q x
    assume q: "q \<in> own (mem s) 2 pt" and "pageno x = pageno q"
    moreover have "pageno q \<noteq> pageno p"
      using tpage_eqI [OF tree_own_tpage [OF tr q] kpage_tpage [OF assms(2)]] q assms(3) by (auto simp: tables_def)
    ultimately show "mem ?t x = mem s x" using out by simp
  qed
  note fr = tree_frame [OF tr same] leaf_frame [OF tr same]
  have "kpage ?t = kpage s" by (simp add: kpage_def fun_eq_iff)
  ultimately show ?thesis using run dj fr assms(3) out
    by (intro exI [of _ ?t]) (simp add: vspace_def tables_def entry_def fun_eq_iff)
qed

text \<open>The physical pages behind \<open>k\<close> pages of the address space, and what unmapping needs of them.\<close>

definition frames :: "'z kmem_scheme \<Rightarrow> u64 \<Rightarrow> u64 \<Rightarrow> nat \<Rightarrow> u64 list" where
  "frames s pt a k = map (\<lambda>i. PTE2PA (entry s pt (a + of_nat (i * PGSIZE)))) [0..<k]"

definition user_range :: "u64 \<Rightarrow> u64 list \<Rightarrow> 'z kmem_scheme \<Rightarrow> u64 \<Rightarrow> nat \<Rightarrow> bool" where
  "user_range pt ps s a k \<longleftrightarrow> vspace pt ps s \<and> page_aligned a \<and> unat a + k * PGSIZE \<le> unat MAXVA
     \<and> (\<forall>i < k. let v = entry s pt (a + of_nat (i * PGSIZE)) in v AND PTE_V \<noteq> 0 \<and> PTE_FLAGS v \<noteq> PTE_V)
     \<and> distinct (frames s pt a k) \<and> (\<forall>p \<in> set (frames s pt a k). kpage s p \<and> p \<notin> tables s pt \<and> p \<notin> set ps)"

lemma frames_Suc: "frames s pt a (Suc k) = PTE2PA (entry s pt a) # frames s pt (a + of_nat PGSIZE) k"
  by (simp add: frames_def upt_conv_Cons map_Suc_upt [symmetric] algebra_simps del: upt_Suc)

lemma page_step:
  assumes "page_aligned a" and "unat a + Suc k * PGSIZE \<le> unat MAXVA"
  shows "a < MAXVA" and "a < a + of_nat (Suc k * PGSIZE)" and "unat (a + of_nat PGSIZE) = unat a + PGSIZE"
    and "i \<le> k \<Longrightarrow> a + of_nat (i * PGSIZE) < MAXVA \<and> pageno (a + of_nat (i * PGSIZE)) = pageno a + i"
proof -
  have b: "unat a + Suc k * PGSIZE \<le> 2 ^ 38" using assms(2) by (simp add: MAXVA_unat)
  have u: "unat (a + of_nat (i * PGSIZE)) = unat a + i * PGSIZE" if "i \<le> Suc k" for i
  proof -
    have "i * PGSIZE \<le> Suc k * PGSIZE" using that by (rule mult_right_mono) simp
    then have "unat a + i * PGSIZE < 2 ^ 64" using b by simp
    then show ?thesis by (simp add: unat_word_ariths unat_of_nat_small del: of_nat_mult)
  qed
  show "a < MAXVA" using b by (simp add: word_less_nat_alt MAXVA_unat PGSIZE_def)
  show "a < a + of_nat (Suc k * PGSIZE)" using u [of "Suc k"] by (simp add: word_less_nat_alt PGSIZE_def del: of_nat_mult mult_Suc)
  show "unat (a + of_nat PGSIZE) = unat a + PGSIZE" using u [of 1] by simp
  show "a + of_nat (i * PGSIZE) < MAXVA \<and> pageno (a + of_nat (i * PGSIZE)) = pageno a + i" if "i \<le> k"
  proof -
    have "i * PGSIZE < Suc k * PGSIZE" using that by (simp add: PGSIZE_def)
    moreover have "unat (a + of_nat (i * PGSIZE)) = unat a + i * PGSIZE" using u that by simp
    ultimately show ?thesis using b by (simp add: word_less_nat_alt MAXVA_unat pageno_def PGSIZE_def del: of_nat_mult)
  qed
qed

text \<open>One turn of the loop.\<close>

lemma unmap_step:
  fixes s :: "'z kmem_scheme"
  assumes "user_range pt ps s a (Suc k)"
  defines "b \<equiv> a + of_nat PGSIZE" and "p \<equiv> PTE2PA (entry s pt a)"
  shows "\<exists>u. (\<forall>n e. a < e \<longrightarrow> uvmunmap_loop (Suc n) pt a e True s = uvmunmap_loop n pt b e True u)
     \<and> user_range pt (p # ps) u b k \<and> frames u pt b k = frames s pt b k \<and> tables u pt = tables s pt
     \<and> (\<forall>va < MAXVA. entry u pt va = (if pageno va = pageno a then 0 else entry s pt va))
     \<and> (\<forall>x. pageno x \<notin> pageno ` tables s pt \<and> pageno x \<noteq> pageno p \<longrightarrow> mem u x = mem s x)"
proof -
  let ?v = "entry s pt a"
  have r: "vspace pt ps s" "page_aligned a" "unat a + Suc k * PGSIZE \<le> unat MAXVA"
    and v: "?v AND PTE_V \<noteq> 0" "PTE_FLAGS ?v \<noteq> PTE_V" using assms(1) by (auto simp: user_range_def Let_def)
  note st = page_step [OF r(2,3)] and nx = next_page [OF r(2), folded b_def]
  have fr: "kpage s p" "p \<notin> tables s pt" "p \<notin> set ps" "p \<notin> set (frames s pt b k)"
    using assms(1) by (auto simp: user_range_def frames_Suc b_def p_def)
  have "?v \<noteq> 0" using v(1) by auto
  then obtain sl where sl: "slot (mem s) 2 pt a = Some sl" "load64 (mem s) sl = ?v"
    by (auto simp: entry_def leaf_def split: option.splits)
  have "tree (mem s) 2 pt" using r(1) by (simp add: vspace_def)
  then have "sl \<noteq> 0" using slot_onpage [OF _ sl(1)] by blast
  obtain t where t: "kfree p s = Ret () t" "vspace pt (p # ps) t" "tables t pt = tables s pt" "entry t pt = entry s pt"
    "slot (mem t) 2 pt = slot (mem s) 2 pt" "kpage t = kpage s" "\<forall>x. pageno x \<noteq> pageno p \<longrightarrow> mem t x = mem s x"
    using kfree_vspace [OF r(1) fr(1-3)] by blast
  let ?u = "t\<lparr>mem := store64 (mem t) sl 0\<rparr>"
  have "slot (mem t) 2 pt a = Some sl" using t(5) sl(1) by simp
  note se = set_entry [OF t(2) this st(1), where v = 0]
  have run: "uvmunmap_loop (Suc n) pt a e True s = uvmunmap_loop n pt b e True ?u" if "a < e" for n e
    using that st(1) v sl \<open>sl \<noteq> 0\<close> t(1) by (simp add: walk_find b_def p_def)
  have shift: "b + of_nat (i * PGSIZE) = a + of_nat (Suc i * PGSIZE)" for i by (simp add: b_def algebra_simps)
  have ent: "entry ?u pt (b + of_nat (i * PGSIZE)) = entry s pt (b + of_nat (i * PGSIZE))" if "i < k" for i
  proof -
    have "b + of_nat (i * PGSIZE) < MAXVA" "pageno (b + of_nat (i * PGSIZE)) = pageno a + Suc i"
      unfolding shift using st(4) [of "Suc i"] that by auto
    then show ?thesis using se(3) t(4) by simp
  qed
  then have fs: "frames ?u pt b k = frames s pt b k" by (simp add: frames_def)
  have kp: "kpage ?u = kpage s" using t(6) by (simp add: kpage_def fun_eq_iff)
  have vnx: "let v = entry ?u pt (b + of_nat (i * PGSIZE)) in v AND PTE_V \<noteq> 0 \<and> PTE_FLAGS v \<noteq> PTE_V" if "i < k" for i
    unfolding ent [OF that, unfolded shift] shift using assms(1) that unfolding user_range_def by blast
  have "user_range pt (p # ps) ?u b k"
    unfolding user_range_def fs kp using se(1,2) t(3) nx(1) [OF st(1)] vnx fr(4) assms(1) r(3) st(3)
    by (auto simp: user_range_def frames_Suc b_def)
  moreover have "mem ?u x = mem s x" if "pageno x \<notin> pageno ` tables s pt \<and> pageno x \<noteq> pageno p" for x
    using that se(4) [of x] t(3,7) by simp
  ultimately show ?thesis using run fs se(2,3) t(3,4) by (intro exI [of _ ?u]) simp
qed

lemma uvmunmap_loop_frees:
  fixes s :: "'z kmem_scheme"
  assumes "user_range pt ps s a k" and "k < n"
  shows "\<exists>t. uvmunmap_loop n pt a (a + of_nat (k * PGSIZE)) True s = Ret () t
     \<and> vspace pt (rev (frames s pt a k) @ ps) t \<and> tables t pt = tables s pt
     \<and> (\<forall>va < MAXVA. entry t pt va = (if pageno a \<le> pageno va \<and> pageno va < pageno a + k then 0 else entry s pt va))
     \<and> (\<forall>x. pageno x \<notin> pageno ` (tables s pt \<union> set (frames s pt a k)) \<longrightarrow> mem t x = mem s x)"
  using assms
proof (induction k arbitrary: a s ps n)
  case 0
  then obtain n' where "n = Suc n'" by (cases n) auto
  with 0 show ?case by (auto simp: user_range_def frames_def)
next
  case (Suc k)
  then obtain n' where n: "n = Suc n'" "k < n'" by (cases n) auto
  let ?b = "a + of_nat PGSIZE" and ?p = "PTE2PA (entry s pt a)"
  have r: "page_aligned a" "unat a + Suc k * PGSIZE \<le> unat MAXVA" using Suc.prems(1) by (auto simp: user_range_def)
  note st = page_step [OF r]
  obtain u where u: "\<forall>n e. a < e \<longrightarrow> uvmunmap_loop (Suc n) pt a e True s = uvmunmap_loop n pt ?b e True u"
      "user_range pt (?p # ps) u ?b k" "frames u pt ?b k = frames s pt ?b k" "tables u pt = tables s pt"
      "\<forall>va < MAXVA. entry u pt va = (if pageno va = pageno a then 0 else entry s pt va)"
      "\<forall>x. pageno x \<notin> pageno ` tables s pt \<and> pageno x \<noteq> pageno ?p \<longrightarrow> mem u x = mem s x"
    using unmap_step [OF Suc.prems(1)] by blast
  from Suc.IH [OF u(2) n(2), unfolded u(3,4) next_page(2) [OF r(1) st(1)]] obtain w where
    w: "uvmunmap_loop n' pt ?b (?b + of_nat (k * PGSIZE)) True u = Ret () w"
      "vspace pt (rev (frames s pt ?b k) @ ?p # ps) w" "tables w pt = tables s pt"
      "\<forall>va < MAXVA. entry w pt va = (if Suc (pageno a) \<le> pageno va \<and> pageno va < Suc (pageno a) + k then 0 else entry u pt va)"
      "\<forall>x. pageno x \<notin> pageno ` (tables s pt \<union> set (frames s pt ?b k)) \<longrightarrow> mem w x = mem u x" by blast
  have e: "a + of_nat (Suc k * PGSIZE) = ?b + of_nat (k * PGSIZE)" by (simp add: algebra_simps)
  have "uvmunmap_loop n pt a (a + of_nat (Suc k * PGSIZE)) True s =
      uvmunmap_loop n' pt ?b (a + of_nat (Suc k * PGSIZE)) True u" using u(1) st(2) unfolding n(1) by blast
  also have "\<dots> = Ret () w" unfolding e by (rule w(1))
  finally have "uvmunmap_loop n pt a (a + of_nat (Suc k * PGSIZE)) True s = Ret () w" .
  moreover have "entry w pt va = (if pageno a \<le> pageno va \<and> pageno va < pageno a + Suc k then 0 else entry s pt va)"
    if "va < MAXVA" for va
    using w(4) u(5) that by auto
  moreover have "mem w x = mem s x" if "pageno x \<notin> pageno ` (tables s pt \<union> set (frames s pt a (Suc k)))" for x
  proof -
    have "pageno x \<notin> pageno ` (tables s pt \<union> set (frames s pt ?b k))" "pageno x \<notin> pageno ` tables s pt" "pageno x \<noteq> pageno ?p"
      using that by (auto simp: frames_Suc)
    then show ?thesis using w(5) u(6) by simp
  qed
  ultimately show ?case using w(2,3) by (intro exI [of _ w]) (simp add: frames_Suc)
qed

section \<open>Properties\<close>

lemma last_page:
  fixes sz :: u64
  assumes "0 < sz" and "unat va + unat sz \<le> unat MAXVA"
  shows "unat (va + sz - 1) = unat va + unat sz - 1" and "va + sz - 1 < MAXVA" and "pageno va \<le> pageno (va + sz - 1)"
proof -
  have "0 < unat sz" using assms(1) by (simp add: word_less_nat_alt)
  moreover have "unat va + unat sz < 2 ^ 64" using assms(2) by (simp add: MAXVA_unat)
  then have "unat (va + sz) = unat va + unat sz" by (simp add: unat_word_ariths)
  moreover from this \<open>0 < unat sz\<close> have "1 \<le> va + sz" by (simp add: word_le_nat_alt)
  ultimately show u: "unat (va + sz - 1) = unat va + unat sz - 1" by (simp add: unat_sub)
  show "va + sz - 1 < MAXVA" using u assms(2) \<open>0 < unat sz\<close> by (simp add: word_less_nat_alt)
  show "pageno va \<le> pageno (va + sz - 1)" using u \<open>0 < unat sz\<close> by (simp add: pageno_def div_le_mono)
qed

text \<open>The number of pages that \<open>sz\<close> bytes at \<open>va\<close> touch.\<close>

definition npages :: "u64 \<Rightarrow> u64 \<Rightarrow> nat" where
  "npages va sz = Suc (pageno (va + sz - 1) - pageno va)"

lemma mappages_maps:
  fixes s :: "'z kmem_scheme"
  assumes "vspace pt ps s" and "0 < sz" and "unat va + unat sz \<le> unat MAXVA"
    and "\<forall>a < MAXVA. pageno va \<le> pageno a \<and> pageno a < pageno va + npages va sz \<longrightarrow> entry s pt a AND PTE_V = 0"
  shows "\<exists>r j t us qs. mappages pt va sz pa perm s = Ret r t \<and> ps = us @ qs \<and> vspace pt qs t
     \<and> tables t pt = tables s pt \<union> set us \<and> kpage t = kpage s
     \<and> (\<forall>a < MAXVA. entry t pt a = with_pages (pageno va) j pa perm (entry s pt) a)
     \<and> (\<forall>x. pageno x \<notin> pageno ` tables t pt \<longrightarrow> mem t x = mem s x)
     \<and> (if r = 0 then j = npages va sz else r = -1 \<and> j < npages va sz \<and> qs = [] \<and> length ps < 2 * npages va sz)"
proof -
  let ?a = "PGROUNDDOWN va" and ?l = "PGROUNDDOWN (va + sz - 1)"
  let ?k = "pageno (va + sz - 1) - pageno va"
  note l = last_page [OF assms(2,3)]
  have al: "page_aligned ?a" "page_aligned ?l" "pageno ?l = pageno ?a + ?k" using l(3) by simp_all
  have lv: "?l < MAXVA" using l(2) PGROUNDDOWN_le [of "va + sz - 1"] by (simp add: word_less_nat_alt)
  have "pageno (va + sz - 1) < 2 ^ 26" using pageno_less [OF l(2)] .
  moreover have "pageno MAXVA = 2 ^ 26" by (simp add: pageno_def MAXVA_unat PGSIZE_def)
  ultimately have kn: "?k < VPAGES" by (simp add: VPAGES_def)
  have free: "entry s pt a AND PTE_V = 0" if "a < MAXVA" "pageno ?a \<le> pageno a" "pageno a \<le> pageno ?l" for a
    using assms(4) that l(3) by (auto simp: npages_def)
  have "mappages pt va sz pa perm s = mappages_loop VPAGES pt ?a ?l pa perm s"
    using assms(2) by (auto simp: mappages_def)
  with mappages_loop_maps [OF assms(1) al lv kn free, where pa = pa and perm = perm] show ?thesis
    by (simp only: npages_def less_Suc_eq_le pageno_PGROUNDDOWN)
qed

text \<open>
  C9: \<open>mappages\<close> refines an update of the address space. On a page table that is a tree of pages, with no
  valid entry in the range, it returns 0 with exactly the pages of the range mapped to the physical pages
  from \<open>pa\<close> on, or \<open>-1\<close> when no free page is left for the tables, with an initial part of the range mapped;
  two free pages for each page of the range are always enough. The page table stays a tree, its new tables
  are taken from the free pages, every other entry is as before, and no memory outside the tables changes.
\<close>

theorem mappages_refines:
  fixes s :: "'z kmem_scheme"
  assumes "vspace pt ps s" and "0 < sz" and "unat va + unat sz \<le> unat MAXVA"
    and "\<forall>a < MAXVA. pageno va \<le> pageno a \<and> pageno a < pageno va + npages va sz \<longrightarrow> entry s pt a AND PTE_V = 0"
  shows "\<exists>r j t us qs. mappages pt va sz pa perm s = Ret r t \<and> ps = us @ qs \<and> vspace pt qs t
     \<and> tables t pt = tables s pt \<union> set us \<and> kpage t = kpage s
     \<and> (\<forall>a < MAXVA. entry t pt a = with_pages (pageno va) j pa perm (entry s pt) a)
     \<and> (\<forall>x. pageno x \<notin> pageno ` tables t pt \<longrightarrow> mem t x = mem s x)
     \<and> (if r = 0 then j = npages va sz else r = -1 \<and> j < npages va sz \<and> qs = [] \<and> length ps < 2 * npages va sz)"
  by (rule mappages_maps [OF assms])

text \<open>A new page table, as \<open>uvmcreate\<close> makes it.\<close>

lemma uvmcreate_makes:
  assumes "allocatable s (p # ps)"
  shows "uvmcreate s = Ret p (zeroed_page p s)" and "vspace p ps (zeroed_page p s)"
    and "entry (zeroed_page p s) p va = 0" and "tables (zeroed_page p s) p = {p}"
proof -
  note z = kalloc_zeroed [OF assms]
  show "uvmcreate s = Ret p (zeroed_page p s)" using z(1,6) by (simp add: uvmcreate_def zeroed_page_def)
  show "vspace p ps (zeroed_page p s)" "entry (zeroed_page p s) p va = 0" "tables (zeroed_page p s) p = {p}"
    using z(2,5) zeroed_tree [OF z(7,4)] by (simp_all add: vspace_def entry_def tables_def)
qed

definition boot_pages :: "u64 list" where
  "boot_pages = [0x80026000, 0x80025000, 0x80024000, 0x80023000, 0x80022000]"

lemma boot_free_pages: "\<exists>s :: kmem. allocatable s boot_pages"
proof -
  have k: "kpage boot_kmem p" if "p \<in> set boot_pages" for p
    using that by (auto simp: boot_pages_def kpage_def pgoff_def PGSIZE_def PHYSTOP_def KERNBASE_def)
  have add: "\<exists>t :: kmem. allocatable t (p # ps) \<and> kpage t = kpage boot_kmem"
    if "\<exists>s :: kmem. allocatable s ps \<and> kpage s = kpage boot_kmem" "p \<in> set boot_pages" "p \<notin> set ps" for p ps
    using that kmem_pages.dealloc_page k by metis
  have "\<exists>t :: kmem. allocatable t boot_pages \<and> kpage t = kpage boot_kmem"
    unfolding boot_pages_def using boot_allocatable by (intro add) (auto simp: boot_pages_def)
  then show ?thesis by blast
qed

lemma boot_vspace:
  obtains s :: kmem where "vspace 0x80026000 [0x80025000, 0x80024000, 0x80023000, 0x80022000] s"
    "entry s 0x80026000 = (\<lambda>_. 0)" "tables s 0x80026000 = {0x80026000}"
proof -
  obtain s :: kmem where "allocatable s boot_pages" using boot_free_pages by blast
  note v = uvmcreate_makes [OF this [unfolded boot_pages_def]]
  show thesis by (rule that [OF v(2) ext v(4)]) (rule v(3))
qed

theorem mappages_refines_witness:
  "\<exists>s t :: kmem. mappages 0x80026000 0x3000 0x2000 0x87000000 PTE_U s = Ret 0 t
     \<and> entry t 0x80026000 0x4abc = 0x21c00411 \<and> entry t 0x80026000 0x5000 = 0"
proof -
  obtain s :: kmem where v: "vspace 0x80026000 [0x80025000, 0x80024000, 0x80023000, 0x80022000] s"
    "entry s 0x80026000 = (\<lambda>_. 0)" by (rule boot_vspace)
  have n: "npages 0x3000 0x2000 = 2" "pageno 0x3000 = 3" by (simp_all add: npages_def pageno_def PGSIZE_def)
  from mappages_refines [OF v(1), of "0x2000" "0x3000" "0x87000000" PTE_U] obtain r j t where
    "mappages 0x80026000 0x3000 0x2000 0x87000000 PTE_U s = Ret r t"
    "\<forall>a < MAXVA. entry t 0x80026000 a = with_pages 3 j 0x87000000 PTE_U (\<lambda>_. 0) a" "r = 0" "j = 2"
    by (auto simp: v(2) n MAXVA_unat split: if_splits)
  then show ?thesis
    by (intro exI [of _ s] exI [of _ t])
      (simp add: with_pages_def MAXVA_def pageno_def PGSIZE_def PA2PTE_def PTE_bits)
qed

text \<open>
  C11: What the kernel copies out to user memory it copies in again. When the \<open>n\<close> bytes at a user address are
  mapped for the user, to different places outside the page tables, \<open>copyout\<close> returns 0, a \<open>copyin\<close> of these
  bytes then returns what was written, also across page boundaries, the translation of every address is as
  before, and no other byte of memory has changed.
\<close>

theorem copyout_copyin:
  assumes "usable (mem s) pt va (length src)"
  shows "\<exists>t. copyout pt va src s = Ret 0 t \<and> copyin pt va (length src) t = Ret (0, src) t
     \<and> uaddr (mem t) pt = uaddr (mem s) pt
     \<and> (\<forall>x. (\<forall>i < length src. x \<noteq> uaddr (mem s) pt (va + of_nat i)) \<longrightarrow> mem t x = mem s x)"
proof -
  note u = usableD [OF assms]
  obtain m where m: "copyout pt va src s = Ret 0 (s\<lparr>mem := m\<rparr>)" "same_on (own (mem s) 2 pt) (mem s) m"
    "\<forall>i < length src. m (uaddr (mem s) pt (va + of_nat i)) = src ! i"
    "\<forall>x. (\<forall>i < length src. x \<noteq> uaddr (mem s) pt (va + of_nat i)) \<longrightarrow> m x = mem s x"
    using copyout_writes [OF assms] by blast
  have up: "user_page m pt = user_page (mem s) pt" using user_page_frame [OF u(1) m(2)] by (simp add: fun_eq_iff)
  then have ua: "uaddr m pt = uaddr (mem s) pt" by (simp add: uaddr_def fun_eq_iff)
  have tr: "tree (mem (s\<lparr>mem := m\<rparr>)) 2 pt" using tree_frame [OF u(1) m(2)] by simp
  have "map (\<lambda>i. m (uaddr m pt (va + of_nat i))) [0..<length src] = src"
    using m(3) ua by (intro nth_equalityI) simp_all
  then have "copyin pt va (length src) (s\<lparr>mem := m\<rparr>) = Ret (0, src) (s\<lparr>mem := m\<rparr>)"
    using copyin_reads [OF tr u(2)] u(3) up by simp
  with m(1,4) ua show ?thesis by (intro exI [of _ "s\<lparr>mem := m\<rparr>"]) simp
qed

lemma boot_user:
  obtains t :: kmem where "usable (mem t) 0x80026000 0x3ffe 4"
    "\<And>i. i < 4 \<Longrightarrow> uaddr (mem t) 0x80026000 (0x3ffe + of_nat i) = 0x87000ffe + of_nat i"
proof -
  let ?pt = "0x80026000 :: u64"
  obtain s :: kmem where v: "vspace ?pt [0x80025000, 0x80024000, 0x80023000, 0x80022000] s"
    "entry s ?pt = (\<lambda>_. 0)" "tables s ?pt = {?pt}" by (rule boot_vspace)
  have n: "npages 0x3000 0x2000 = 2" "pageno 0x3000 = 3" by (simp_all add: npages_def pageno_def PGSIZE_def)
  have pre: "\<forall>a < MAXVA. pageno 0x3000 \<le> pageno a \<and> pageno a < pageno 0x3000 + npages 0x3000 0x2000 \<longrightarrow>
    entry s ?pt a AND PTE_V = 0" by (simp add: v(2))
  have "\<exists>r j t us qs. mappages ?pt 0x3000 0x2000 0x87000000 PTE_U s = Ret r t
     \<and> [0x80025000, 0x80024000, 0x80023000, 0x80022000] = us @ qs \<and> vspace ?pt qs t
     \<and> tables t ?pt = {?pt} \<union> set us \<and> kpage t = kpage s \<and> (\<forall>a < MAXVA. entry t ?pt a = with_pages 3 j 0x87000000 PTE_U (\<lambda>_. 0) a)
     \<and> (\<forall>x. pageno x \<notin> pageno ` tables t ?pt \<longrightarrow> mem t x = mem s x)
     \<and> (if r = 0 then j = 2 else r = -1 \<and> j < 2 \<and> qs = [] \<and> (4 :: nat) < 2 * 2)"
    using mappages_maps [OF v(1) _ _ pre, where pa = "0x87000000" and perm = PTE_U]
    by (simp add: n v(2,3) MAXVA_unat cong: if_cong)
  then obtain r j us qs and t :: kmem where
    t: "[0x80025000, 0x80024000, 0x80023000, 0x80022000] = us @ qs" "vspace ?pt qs t"
      "tables t ?pt = {?pt} \<union> set us"
      "\<forall>a < MAXVA. entry t ?pt a = with_pages 3 j 0x87000000 PTE_U (\<lambda>_. 0) a"
      "if r = (0 :: int) then j = 2 else r = -1 \<and> j < 2 \<and> qs = [] \<and> (4 :: nat) < 2 * 2"
    by blast
  from t(5) have j: "j = 2" by (auto split: if_splits)
  have "set us \<subseteq> set (us @ qs)" by simp
  then have tb: "own (mem t) 2 ?pt \<subseteq> set boot_pages" using t(1,3) by (auto simp: tables_def boot_pages_def)
  have four: "i < 4 \<longleftrightarrow> i = 0 \<or> i = 1 \<or> i = 2 \<or> i = (3 :: nat)" for i by auto
  have e: "leaf (mem t) 2 ?pt a = (if pageno a = 3 then 0x21c00011 else if pageno a = 4 then 0x21c00411 else 0)"
    if "a < MAXVA" for a
  proof -
    have "leaf (mem t) 2 ?pt a = with_pages 3 2 0x87000000 PTE_U (\<lambda>_. 0) a" using t(4) j that by (simp add: entry_def)
    then show ?thesis by (auto simp: with_pages_def PA2PTE_def PTE_bits PGSIZE_def)
  qed
  have pg: "pageno 0x3ffe = 3" "pageno 0x3fff = 3" "pageno 0x4000 = 4" "pageno 0x4001 = 4"
    by (simp_all add: pageno_def PGSIZE_def)
  have mv: "(0x3ffe :: u64) < MAXVA" "(0x3fff :: u64) < MAXVA" "(0x4000 :: u64) < MAXVA" "(0x4001 :: u64) < MAXVA"
    by (simp_all add: MAXVA_def)
  have u4: "user_page (mem t) ?pt 0x3ffe = 0x87000000" "user_page (mem t) ?pt 0x3fff = 0x87000000"
    "user_page (mem t) ?pt 0x4000 = 0x87001000" "user_page (mem t) ?pt 0x4001 = 0x87001000"
    by (simp_all add: user_page_def e pg mv PTE2PA_def PTE_bits)
  have up: "user_page (mem t) ?pt (0x3ffe + of_nat i) = (if i < 2 then 0x87000000 else 0x87001000)" if "i < 4" for i
    using that u4 unfolding four by auto
  have ua: "uaddr (mem t) ?pt (0x3ffe + of_nat i) = 0x87000ffe + of_nat i" if "i < 4" for i
    using up [OF that] that unfolding uaddr_def four by (auto simp: PGROUNDDOWN_def PGSIZE_def)
  have "pageno (0x87000ffe + of_nat i) \<notin> pageno ` own (mem t) 2 ?pt" if "i < 4" for i
  proof -
    have "pageno ` own (mem t) 2 ?pt \<subseteq> pageno ` set boot_pages" using tb by blast
    moreover have "pageno (0x87000ffe + of_nat i) \<notin> pageno ` set boot_pages"
      using that unfolding four by (auto simp: boot_pages_def pageno_def PGSIZE_def)
    ultimately show ?thesis by blast
  qed
  moreover have "inj_on (\<lambda>i. uaddr (mem t) ?pt (0x3ffe + of_nat i)) {..<4}"
    by (rule inj_onI) (auto simp: ua four)
  ultimately have "usable (mem t) ?pt 0x3ffe 4"
    using t(2) up ua by (simp add: usable_def vspace_def MAXVA_unat)
  with ua show thesis using that by blast
qed

theorem copyout_copyin_witness:
  "\<exists>s t :: kmem. copyout 0x80026000 0x3ffe [1, 2, 3, 4] s = Ret 0 t
     \<and> copyin 0x80026000 0x3ffe 4 t = Ret (0, [1, 2, 3, 4]) t"
proof -
  obtain s :: kmem where "usable (mem s) 0x80026000 0x3ffe 4" by (rule boot_user)
  then have "usable (mem s) 0x80026000 0x3ffe (length [1, 2, 3, 4 :: u8])" by (simp add: eval_nat_numeral)
  from copyout_copyin [OF this] show ?thesis by (auto simp: eval_nat_numeral)
qed

text \<open>
  C10: \<open>uvmunmap\<close> takes pages away and gives their memory back. On a range of mapped user pages, each backed by a
  page of its own from the allocator, it clears exactly the entries of the range, puts exactly the pages
  behind them on the free list, and changes no memory outside the tables and these pages.
\<close>

theorem uvmunmap_frees:
  assumes "user_range pt ps s va k"
  shows "\<exists>t. uvmunmap pt va (of_nat k) True s = Ret () t
     \<and> vspace pt (rev (frames s pt va k) @ ps) t \<and> tables t pt = tables s pt
     \<and> (\<forall>a < MAXVA. entry t pt a = (if pageno va \<le> pageno a \<and> pageno a < pageno va + k then 0 else entry s pt a))
     \<and> (\<forall>x. pageno x \<notin> pageno ` (tables s pt \<union> set (frames s pt va k)) \<longrightarrow> mem t x = mem s x)"
proof -
  have r: "page_aligned va" "unat va + k * PGSIZE \<le> unat MAXVA" using assms by (auto simp: user_range_def)
  have "pageno MAXVA = 2 ^ 26" by (simp add: pageno_def MAXVA_unat PGSIZE_def)
  then have "k < VPAGES" using r(2) by (simp add: VPAGES_def MAXVA_unat PGSIZE_def)
  moreover have "uvmunmap pt va (of_nat k) True s = uvmunmap_loop VPAGES pt va (va + of_nat (k * PGSIZE)) True s"
    using r(1) by (simp add: uvmunmap_def page_aligned_iff)
  ultimately show ?thesis using uvmunmap_loop_frees [OF assms, of VPAGES] by simp
qed

text \<open>A page for the user is taken from the free list, as \<open>uvmalloc\<close> does.\<close>

lemma zeroed_vspace:
  assumes "vspace pt (p # ps) s"
  shows "vspace pt ps (zeroed_page p s)" and "tables (zeroed_page p s) pt = tables s pt"
    and "entry (zeroed_page p s) pt = entry s pt" and "kpage (zeroed_page p s) = kpage s" and "kpage s p"
    and "p \<notin> tables s pt" and "p \<notin> set ps"
proof -
  have tr: "tree (mem s) 2 pt" and al: "allocatable s (p # ps)" and dj: "own (mem s) 2 pt \<inter> set (p # ps) = {}"
    using assms by (auto simp: vspace_def)
  note z = kalloc_zeroed [OF al]
  have "pageno q \<noteq> pageno p" if "q \<in> own (mem s) 2 pt" for q
    using tpage_eqI [OF tree_own_tpage [OF tr that] z(4)] that dj by auto
  then have same: "same_on (own (mem s) 2 pt) (mem s) (mem (zeroed_page p s))"
    using z(8) by (simp add: same_on_def agree_def)
  note fr = tree_frame [OF tr same] leaf_frame [OF tr same]
  show "vspace pt ps (zeroed_page p s)" "tables (zeroed_page p s) pt = tables s pt"
    "entry (zeroed_page p s) pt = entry s pt" "p \<notin> tables s pt"
    using fr z(2) dj by (auto simp: vspace_def tables_def entry_def fun_eq_iff)
  show "kpage (zeroed_page p s) = kpage s" by (simp add: zeroed_page_def kpage_def fun_eq_iff)
  show "kpage s p" "p \<notin> set ps" by (rule z(3), rule z(5))
qed

lemma boot_user_range:
  obtains s :: kmem and ps where "user_range 0x80026000 ps s 0x3000 1"
    "entry s 0x80026000 0x3000 = 0x20009413" "frames s 0x80026000 0x3000 1 = [0x80025000]"
proof -
  let ?pt = "0x80026000 :: u64" and ?p = "0x80025000 :: u64"
  obtain s :: kmem where v: "vspace ?pt [?p, 0x80024000, 0x80023000, 0x80022000] s"
    "entry s ?pt = (\<lambda>_. 0)" "tables s ?pt = {?pt}" by (rule boot_vspace)
  note z = zeroed_vspace [OF v(1)]
  let ?z = "zeroed_page ?p s"
  have n: "npages 0x3000 0x1000 = 1" "pageno 0x3000 = 3" by (simp_all add: npages_def pageno_def PGSIZE_def)
  have pre: "\<forall>a < MAXVA. pageno 0x3000 \<le> pageno a \<and> pageno a < pageno 0x3000 + npages 0x3000 0x1000 \<longrightarrow>
    entry ?z ?pt a AND PTE_V = 0" by (simp add: v(2) z(3))
  have "\<exists>r j t us qs. mappages ?pt 0x3000 0x1000 ?p (PTE_R OR PTE_U) ?z = Ret r t
     \<and> [0x80024000, 0x80023000, 0x80022000] = us @ qs \<and> vspace ?pt qs t
     \<and> tables t ?pt = {?pt} \<union> set us \<and> kpage t = kpage s \<and> (\<forall>a < MAXVA. entry t ?pt a = with_pages 3 j ?p (PTE_R OR PTE_U) (\<lambda>_. 0) a)
     \<and> (\<forall>x. pageno x \<notin> pageno ` tables t ?pt \<longrightarrow> mem t x = mem ?z x)
     \<and> (if r = 0 then j = 1 else r = -1 \<and> j < 1 \<and> qs = [] \<and> (3 :: nat) < 2 * 1)"
    using mappages_maps [OF z(1) _ _ pre, where pa = ?p and perm = "PTE_R OR PTE_U"]
    by (simp add: n v(2,3) z(2-4) MAXVA_unat cong: if_cong)
  then obtain r j us qs and t :: kmem where t: "[0x80024000, 0x80023000, 0x80022000] = us @ qs" "vspace ?pt qs t"
      "tables t ?pt = {?pt} \<union> set us" "kpage t = kpage s"
      "\<forall>a < MAXVA. entry t ?pt a = with_pages 3 j ?p (PTE_R OR PTE_U) (\<lambda>_. 0) a"
      "if r = (0 :: int) then j = 1 else r = -1 \<and> j < 1 \<and> qs = [] \<and> (3 :: nat) < 2 * 1" by blast
  from t(6) have j: "j = 1" by (auto split: if_splits)
  have "?p \<notin> set (us @ qs)" unfolding t(1) [symmetric] by simp
  then have new: "?p \<notin> tables t ?pt" "?p \<notin> set qs" unfolding t(3) by auto
  have e: "entry t ?pt 0x3000 = 0x20009413"
    using t(5) by (simp add: j n(2) with_pages_def MAXVA_def PA2PTE_def PTE_bits)
  then have f: "frames t ?pt 0x3000 1 = [?p]" by (simp add: frames_def PTE2PA_def)
  have "kpage t ?p" using t(4) z(5) by simp
  with new have "user_range ?pt qs t 0x3000 1"
    using t(2) e f by (simp add: user_range_def pgoff_def PGSIZE_def MAXVA_unat PTE_bits PTE_FLAGS_def)
  with e f show thesis using that by blast
qed

theorem uvmunmap_frees_witness:
  "\<exists>(s :: kmem) t ps. entry s 0x80026000 0x3000 = 0x20009413
     \<and> uvmunmap 0x80026000 0x3000 1 True s = Ret () t \<and> entry t 0x80026000 0x3000 = 0
     \<and> vspace 0x80026000 (0x80025000 # ps) t"
proof -
  obtain s :: kmem and ps where r: "user_range 0x80026000 ps s 0x3000 1"
    "entry s 0x80026000 0x3000 = 0x20009413" "frames s 0x80026000 0x3000 1 = [0x80025000]" by (rule boot_user_range)
  from uvmunmap_frees [OF r(1), unfolded r(3)] obtain t where "uvmunmap 0x80026000 0x3000 1 True s = Ret () t"
    "vspace 0x80026000 (0x80025000 # ps) t" "entry t 0x80026000 0x3000 = 0"
    by (auto simp: MAXVA_def)
  with r(2) show ?thesis by blast
qed

end
