(* ===== verification/PipeQueue.thy ===== *)
theory PipeQueue
  imports Pipe Paging
begin

text \<open>
  Correctness of pipes. A pipe is a queue of at most \<open>PIPESIZE\<close> bytes: \<open>queued q bs\<close> says that the ring in
  \<open>q\<close>, with its counters that wrap at 32 bits, holds the bytes \<open>bs\<close>. \<open>pipewrite\<close> and \<open>piperead\<close> are proved to
  append to this queue and to take from it, with the bytes in the memory of the calling process.
\<close>

section \<open>The ring\<close>

definition queued :: "pipe \<Rightarrow> u8 list \<Rightarrow> bool" where
  "queued q bs \<longleftrightarrow> length bs \<le> PIPESIZE \<and> pi_nwrite q = pi_nread q + of_nat (length bs)
     \<and> (\<forall>i < length bs. pi_data q (unat (pi_nread q + of_nat i) mod PIPESIZE) = bs ! i)"

lemma ring_index: "unat (r + of_nat i :: u32) mod PIPESIZE = (unat r + i) mod PIPESIZE"
proof -
  have "unat (r + of_nat i) = (unat r + i) mod 2 ^ 32"
    by (simp add: unat_word_ariths unsigned_of_nat take_bit_eq_mod mod_add_right_eq)
  then show ?thesis by (simp add: PIPESIZE_def mod_mod_cancel)
qed

lemma ring_distinct:
  assumes "i < j" and "j < i + PIPESIZE"
  shows "(r + i) mod PIPESIZE \<noteq> (r + j) mod PIPESIZE"
proof
  assume "(r + i) mod PIPESIZE = (r + j) mod PIPESIZE"
  then have "PIPESIZE dvd (r + j) - (r + i)" by (metis mod_eq_dvd_iff_nat add_le_cancel_left assms(1) less_imp_le)
  then have "PIPESIZE dvd j - i" by simp
  moreover have "0 < j - i" "j - i < PIPESIZE" using assms by auto
  ultimately show False using nat_dvd_not_less by blast
qed

lemma of_nat_u32_inj: "m \<le> PIPESIZE \<Longrightarrow> n \<le> PIPESIZE \<Longrightarrow> (of_nat m :: u32) = of_nat n \<longleftrightarrow> m = n"
  by (simp add: word_unat_eq_iff unsigned_of_nat take_bit_nat_eq_self PIPESIZE_def)

lemma queued_full: "queued q bs \<Longrightarrow> pi_nwrite q = pi_nread q + of_nat PIPESIZE \<longleftrightarrow> length bs = PIPESIZE"
  by (simp add: queued_def of_nat_u32_inj)

lemma queued_empty: "queued q bs \<Longrightarrow> pi_nread q = pi_nwrite q \<longleftrightarrow> bs = []"
  using of_nat_u32_inj [of "length bs" 0] by (auto simp: queued_def)

lemma queued_put:
  assumes "queued q bs" and "length bs < PIPESIZE"
  shows "queued (pipe_put c q) (bs @ [c])"
proof -
  have "pi_data (pipe_put c q) (unat (pi_nread q + of_nat i) mod PIPESIZE) = (bs @ [c]) ! i" if "i < Suc (length bs)" for i
  proof (cases "i = length bs")
    case True
    then show ?thesis using assms by (simp add: pipe_put_def queued_def)
  next
    case False
    then have "i < length bs" using that by simp
    then show ?thesis
      using assms ring_distinct [of i "length bs" "unat (pi_nread q)"]
      by (simp add: pipe_put_def queued_def ring_index nth_append)
  qed
  then show ?thesis using assms by (simp add: queued_def pipe_put_def add.assoc)
qed

lemma queued_take:
  assumes "queued q (b # bs)"
  shows "pipe_top q = b" and "queued (pipe_drop q) bs"
proof -
  have d: "pi_data q (unat (pi_nread q + of_nat i) mod PIPESIZE) = (b # bs) ! i" if "i < Suc (length bs)" for i
    using assms that by (simp add: queued_def)
  show "pipe_top q = b" using d [of 0] by (simp add: pipe_top_def)
  show "queued (pipe_drop q) bs"
    using assms d [of "Suc _"] by (simp add: queued_def pipe_drop_def add.assoc)
qed

section \<open>The calls\<close>

lemma pipes_enter [lock_simps]:
  "pipes (enter lk s) = pipes s" "(enter lk s)\<lparr>pipes := x\<rparr> = enter lk (s\<lparr>pipes := x\<rparr>)"
  "calm p (s\<lparr>pipes := x\<rparr>) = calm p s" "calm p (s\<lparr>mem := m\<rparr>) = calm p s"
  by (simp_all add: enter_def push_state_def calm_def cpu_quiet_def unlocked_def hart_defs)

text \<open>The bytes of a process at an address.\<close>

definition ubytes :: "mem \<Rightarrow> u64 \<Rightarrow> u64 \<Rightarrow> nat \<Rightarrow> u8 list" where
  "ubytes m pt a n = map (\<lambda>i. m (uaddr m pt (a + of_nat i))) [0..<n]"

definition readable :: "mem \<Rightarrow> u64 \<Rightarrow> u64 \<Rightarrow> nat \<Rightarrow> bool" where
  "readable m pt a n \<longleftrightarrow> tree m 2 pt \<and> unat a + n \<le> unat MAXVA \<and> (\<forall>i < n. user_page m pt (a + of_nat i) \<noteq> 0)"

lemma readable_Suc:
  assumes "readable m pt a (Suc n)"
  shows "copyin pt a 1 s = Ret (0, [mem s (uaddr (mem s) pt a)]) s \<or> mem s \<noteq> m" and "readable m pt (a + 1) n"
proof -
  have r: "tree m 2 pt" "unat a + Suc n \<le> unat MAXVA" "\<And>i. i < Suc n \<Longrightarrow> user_page m pt (a + of_nat i) \<noteq> 0"
    using assms by (auto simp: readable_def)
  show "copyin pt a 1 s = Ret (0, [mem s (uaddr (mem s) pt a)]) s \<or> mem s \<noteq> m"
    using copyin_reads [of s pt a 1] r(1,2) r(3) [of 0] by auto
  have "unat (a + 1) = unat a + 1" using r(2) by (simp add: unat_word_ariths MAXVA_unat)
  moreover have "user_page m pt (a + 1 + of_nat i) \<noteq> 0" if "i < n" for i
    using r(3) [of "Suc i"] that by (simp add: add.assoc)
  ultimately show "readable m pt (a + 1) n" using r(1,2) by (simp add: readable_def)
qed

lemma ubytes_Suc: "ubytes m pt a (Suc n) = m (uaddr m pt a) # ubytes m pt (a + 1) n"
  by (simp add: ubytes_def upt_conv_Cons map_Suc_upt [symmetric] add.assoc del: upt_Suc)

text \<open>A writer: the process runs, is not killed, and the reading end is open.\<close>

definition can_write :: "nat \<Rightarrow> u64 \<Rightarrow> u8 list \<Rightarrow> 'z pipes_scheme \<Rightarrow> bool" where
  "can_write p pi bs s \<longleftrightarrow> calm p s \<and> p_killed (procs s p) = 0 \<and> pi_readopen (pipes s pi) \<noteq> 0 \<and> queued (pipes s pi) bs"

lemma killed_enter: "calm p s \<Longrightarrow> killed p (enter (Pipe_lock pi) s) = Ret (p_killed (procs s p)) (enter (Pipe_lock pi) s)"
  by (subst killed_quiet) (simp_all add: calm_enter_facts calmD lock_simps)

lemma pipewrite_end_calm:
  assumes "calm p s"
  shows "pipewrite_end pi i (enter (Pipe_lock pi) s)
    = Ret i (s\<lparr>procs := woken (Some (Chan_pipe_read pi)) (Some p) (procs s)\<rparr>)"
proof -
  have "calm p (s\<lparr>procs := woken (Some (Chan_pipe_read pi)) (Some p) (procs s)\<rparr>)" using assms by (simp only: calm_upd)
  then show ?thesis using calm_wakeup_enter [OF assms] by (simp add: pipewrite_end_def calm_release)
qed

text \<open>One turn of the loop with room in the ring.\<close>

lemma pipewrite_turn:
  assumes "can_write p pi bs s" and "length bs < PIPESIZE"
    and "readable (mem s) (p_pagetable (procs s p)) (addr + word_of_int i) (Suc n)"
  defines "c \<equiv> mem s (uaddr (mem s) (p_pagetable (procs s p)) (addr + word_of_int i))"
  defines "t \<equiv> s\<lparr>pipes := (pipes s)(pi := pipe_put c (pipes s pi))\<rparr>"
  shows "pipewrite_loop (Suc n) pi p addr i (enter (Pipe_lock pi) s) = pipewrite_loop n pi p addr (i + 1) (enter (Pipe_lock pi) t)"
    and "can_write p pi (bs @ [c]) t"
proof -
  have w: "calm p s" "p_killed (procs s p) = 0" "pi_readopen (pipes s pi) \<noteq> 0" "queued (pipes s pi) bs"
    using assms(1) by (auto simp: can_write_def)
  have "copyin (p_pagetable (procs s p)) (addr + word_of_int i) 1 (enter (Pipe_lock pi) s) = Ret (0, [c]) (enter (Pipe_lock pi) s)"
    using readable_Suc(1) [OF assms(3), of "enter (Pipe_lock pi) s"] by (simp add: c_def lock_simps)
  then show "pipewrite_loop (Suc n) pi p addr i (enter (Pipe_lock pi) s) = pipewrite_loop n pi p addr (i + 1) (enter (Pipe_lock pi) t)"
    using w queued_full [OF w(4)] assms(2) by (simp add: killed_enter lock_simps t_def)
  show "can_write p pi (bs @ [c]) t"
    using w queued_put [OF w(4) assms(2), of c] by (simp add: can_write_def t_def lock_simps pipe_put_def)
qed

lemma pipewrite_loop_appends:
  fixes s :: "'z pipes_scheme"
  assumes "can_write p pi bs s" and "length bs + n \<le> PIPESIZE"
    and "readable (mem s) (p_pagetable (procs s p)) (addr + word_of_int i) n"
  shows "\<exists>t. pipewrite_loop n pi p addr i (enter (Pipe_lock pi) s) = Ret (i + int n) t
     \<and> can_write p pi (bs @ ubytes (mem s) (p_pagetable (procs s p)) (addr + word_of_int i) n) t \<and> mem t = mem s
     \<and> (\<forall>pj. pj \<noteq> pi \<longrightarrow> pipes t pj = pipes s pj) \<and> procs t = woken (Some (Chan_pipe_read pi)) (Some p) (procs s)"
  using assms
proof (induction n arbitrary: i s bs)
  case 0
  then have "calm p s" by (simp add: can_write_def)
  with 0 show ?case using pipewrite_end_calm [of p s pi i] by (simp add: can_write_def ubytes_def lock_simps)
next
  case (Suc n)
  let ?a = "addr + word_of_int i" and ?pt = "p_pagetable (procs s p)"
  let ?c = "mem s (uaddr (mem s) ?pt ?a)"
  let ?t = "s\<lparr>pipes := (pipes s)(pi := pipe_put ?c (pipes s pi))\<rparr>"
  have "length bs < PIPESIZE" using Suc.prems(2) by simp
  note turn = pipewrite_turn [OF Suc.prems(1) this Suc.prems(3)]
  have nx: "addr + word_of_int (i + 1) = ?a + 1" by (simp add: algebra_simps)
  have "readable (mem ?t) (p_pagetable (procs ?t p)) (addr + word_of_int (i + 1)) n"
    using readable_Suc(2) [OF Suc.prems(3)] by (simp only: nx) simp
  with Suc.IH [OF turn(2), of "i + 1"] Suc.prems(2) obtain u where
    u: "pipewrite_loop n pi p addr (i + 1) (enter (Pipe_lock pi) ?t) = Ret (i + 1 + int n) u"
      "can_write p pi ((bs @ [?c]) @ ubytes (mem s) ?pt (?a + 1) n) u" "mem u = mem s"
      "\<forall>pj. pj \<noteq> pi \<longrightarrow> pipes u pj = pipes s pj" "procs u = woken (Some (Chan_pipe_read pi)) (Some p) (procs s)"
    unfolding nx by auto
  have "pipewrite_loop (Suc n) pi p addr i (enter (Pipe_lock pi) s) = Ret (i + int (Suc n)) u"
    unfolding turn(1) u(1) by simp
  moreover have "can_write p pi (bs @ ubytes (mem s) ?pt ?a (Suc n)) u" using u(2) by (simp add: ubytes_Suc)
  ultimately show ?case using u(3-5) by blast
qed

text \<open>When the ring is full the writer wakes the readers and sleeps.\<close>

lemma pipewrite_loop_blocks:
  fixes s :: "'z pipes_scheme"
  assumes "can_write p pi bs s" and "PIPESIZE < length bs + n"
    and "readable (mem s) (p_pagetable (procs s p)) (addr + word_of_int i) n"
  shows "\<exists>t. pipewrite_loop n pi p addr i (enter (Pipe_lock pi) s) = Switch t
     \<and> queued (pipes t pi) (bs @ ubytes (mem s) (p_pagetable (procs s p)) (addr + word_of_int i) (PIPESIZE - length bs))
     \<and> p_state (procs t p) = SLEEPING \<and> p_chan (procs t p) = Some (Chan_pipe_write pi)
     \<and> (\<forall>q < NPROC. q \<noteq> p \<longrightarrow> procs t q = wake (Some (Chan_pipe_read pi)) (procs s q))
     \<and> (\<forall>lk. lk \<noteq> Proc_lock p \<longrightarrow> unlocked lk t)"
  using assms
proof (induction n arbitrary: i s bs)
  case 0
  then show ?case by (simp add: can_write_def queued_def)
next
  case (Suc n)
  let ?a = "addr + word_of_int i" and ?pt = "p_pagetable (procs s p)"
  have w: "calm p s" "p_killed (procs s p) = 0" "pi_readopen (pipes s pi) \<noteq> 0" "queued (pipes s pi) bs"
    using Suc.prems(1) by (auto simp: can_write_def)
  show ?case
  proof (cases "length bs = PIPESIZE")
    case True
    let ?w = "s\<lparr>procs := woken (Some (Chan_pipe_read pi)) (Some p) (procs s)\<rparr>"
    have cw: "calm p ?w" using w(1) by (simp only: calm_upd)
    note sw = sleep_switch [OF calmD(4,5,3) [OF cw] calmD(2) [OF cw] calmD(2) [OF cw], of "Pipe_lock pi" "Chan_pipe_write pi"]
    have "pipewrite_loop (Suc n) pi p addr i (enter (Pipe_lock pi) s) = Switch ((enter (Proc_lock p) ?w)\<lparr>procs :=
        (procs ?w)(p := (procs ?w p)\<lparr>p_chan := Some (Chan_pipe_write pi), p_state := SLEEPING\<rparr>)\<rparr>)"
      using w queued_full [OF w(4)] True calm_wakeup_enter [OF w(1)] sw by (simp add: killed_enter lock_simps)
    then show ?thesis using w True calmD(2) [OF w(1)]
      by (intro exI conjI) (assumption, auto simp: lock_simps ubytes_def woken_def)
  next
    case False
    let ?c = "mem s (uaddr (mem s) ?pt ?a)"
    let ?t = "s\<lparr>pipes := (pipes s)(pi := pipe_put ?c (pipes s pi))\<rparr>"
    have lt: "length bs < PIPESIZE" using False w(4) by (simp add: queued_def)
    note turn = pipewrite_turn [OF Suc.prems(1) lt Suc.prems(3)]
    have nx: "addr + word_of_int (i + 1) = ?a + 1" by (simp add: algebra_simps)
    have "readable (mem ?t) (p_pagetable (procs ?t p)) (addr + word_of_int (i + 1)) n"
      using readable_Suc(2) [OF Suc.prems(3)] by (simp only: nx) simp
    with Suc.IH [OF turn(2), of "i + 1"] Suc.prems(2) obtain u where
      u: "pipewrite_loop n pi p addr (i + 1) (enter (Pipe_lock pi) ?t) = Switch u"
        "queued (pipes u pi) ((bs @ [?c]) @ ubytes (mem s) ?pt (?a + 1) (PIPESIZE - Suc (length bs)))"
        "p_state (procs u p) = SLEEPING" "p_chan (procs u p) = Some (Chan_pipe_write pi)"
        "\<forall>q < NPROC. q \<noteq> p \<longrightarrow> procs u q = wake (Some (Chan_pipe_read pi)) (procs s q)"
        "\<forall>lk. lk \<noteq> Proc_lock p \<longrightarrow> unlocked lk u"
      unfolding nx by auto
    moreover have "Suc (PIPESIZE - Suc (length bs)) = PIPESIZE - length bs" using lt by simp
    then have "(bs @ [?c]) @ ubytes (mem s) ?pt (?a + 1) (PIPESIZE - Suc (length bs)) = bs @ ubytes (mem s) ?pt ?a (PIPESIZE - length bs)"
      by (metis ubytes_Suc append.assoc append_Cons append_Nil)
    ultimately show ?thesis unfolding turn(1) by metis
  qed
qed

subsection \<open>Reading\<close>

lemma usable_frame:
  assumes "usable m pt a n" and "same_on (own m 2 pt) m m'"
  shows "usable m' pt a n" and "uaddr m' pt = uaddr m pt" and "own m' 2 pt = own m 2 pt"
proof -
  note u = usableD [OF assms(1)]
  have up: "user_page m' pt = user_page m pt" using user_page_frame [OF u(1) assms(2)] by (simp add: fun_eq_iff)
  then show ua: "uaddr m' pt = uaddr m pt" by (simp add: uaddr_def fun_eq_iff)
  show ow: "own m' 2 pt = own m 2 pt" using tree_frame [OF u(1) assms(2)] by simp
  show "usable m' pt a n" using assms(1) tree_frame [OF u(1) assms(2)] unfolding usable_def up ua ow by simp
qed

lemma usable_Suc:
  assumes "usable m pt a (Suc n)"
  shows "usable m pt a 1" and "usable m pt (a + 1) n" and "i < n \<Longrightarrow> uaddr m pt (a + 1 + of_nat i) \<noteq> uaddr m pt a"
proof -
  note u = usableD [OF assms]
  have a1: "unat (a + 1) = unat a + 1" using u(2) by (simp add: unat_word_ariths MAXVA_unat)
  have sh: "a + 1 + of_nat i = a + of_nat (Suc i)" for i by (simp add: add.assoc)
  show "usable m pt a 1" using assms by (auto simp: usable_def inj_on_def)
  show "uaddr m pt (a + 1 + of_nat i) \<noteq> uaddr m pt a" if "i < n" using u(5) [of "Suc i" 0] that by (auto simp: add.assoc)
  have "i = j" if "i < n" "j < n" "uaddr m pt (a + 1 + of_nat i) = uaddr m pt (a + 1 + of_nat j)" for i j
    using u(5) [of "Suc i" "Suc j"] that unfolding sh by simp
  moreover have "user_page m pt (a + 1 + of_nat i) \<noteq> 0 \<and> pageno (uaddr m pt (a + 1 + of_nat i)) \<notin> pageno ` own m 2 pt"
    if "i < n" for i
    using u(3,4) [of "Suc i"] that unfolding sh by blast
  ultimately show "usable m pt (a + 1) n" using u(1,2) a1 by (simp add: usable_def inj_on_def)
qed

definition can_read :: "nat \<Rightarrow> u64 \<Rightarrow> u8 list \<Rightarrow> u64 \<Rightarrow> nat \<Rightarrow> 'z pipes_scheme \<Rightarrow> bool" where
  "can_read p pi bs a n s \<longleftrightarrow> calm p s \<and> queued (pipes s pi) bs \<and> usable (mem s) (p_pagetable (procs s p)) a n"

lemma piperead_end_calm:
  assumes "calm p s"
  shows "piperead_end pi i (enter (Pipe_lock pi) s)
    = Ret i (s\<lparr>procs := woken (Some (Chan_pipe_write pi)) (Some p) (procs s)\<rparr>)"
proof -
  have "calm p (s\<lparr>procs := woken (Some (Chan_pipe_write pi)) (Some p) (procs s)\<rparr>)" using assms by (simp only: calm_upd)
  then show ?thesis using calm_wakeup_enter [OF assms] by (simp add: piperead_end_def calm_release)
qed

text \<open>One turn of the loop with a byte in the ring.\<close>

lemma piperead_turn:
  fixes s :: "'z pipes_scheme"
  assumes "can_read p pi (b # bs) (addr + word_of_int i) (Suc n) s"
  defines "pt \<equiv> p_pagetable (procs s p)"
  shows "\<exists>t. piperead_copy (Suc n) pi p addr i (enter (Pipe_lock pi) s) = piperead_copy n pi p addr (i + 1) (enter (Pipe_lock pi) t)
     \<and> can_read p pi bs (addr + word_of_int i + 1) n t \<and> procs t = procs s \<and> uaddr (mem t) pt = uaddr (mem s) pt
     \<and> (\<forall>pj. pj \<noteq> pi \<longrightarrow> pipes t pj = pipes s pj)
     \<and> (\<forall>x. mem t x = (if x = uaddr (mem s) pt (addr + word_of_int i) then b else mem s x))"
proof -
  let ?a = "addr + word_of_int i" and ?s = "s\<lparr>pipes := (pipes s)(pi := pipe_drop (pipes s pi))\<rparr>"
  have r: "calm p s" "queued (pipes s pi) (b # bs)" "usable (mem s) pt ?a (Suc n)"
    using assms(1) by (auto simp: can_read_def pt_def)
  note us = usable_Suc [OF r(3)]
  have "usable (mem (enter (Pipe_lock pi) ?s)) pt ?a (length [b])" using us(1) by (simp add: lock_simps)
  from copyout_writes [OF this] obtain m where
    m: "copyout pt ?a [b] (enter (Pipe_lock pi) ?s) = Ret 0 (enter (Pipe_lock pi) (?s\<lparr>mem := m\<rparr>))"
      "same_on (own (mem s) 2 pt) (mem s) m" "m (uaddr (mem s) pt ?a) = b"
      "\<forall>x. x \<noteq> uaddr (mem s) pt ?a \<longrightarrow> m x = mem s x"
    by (auto simp: lock_simps)
  let ?t = "?s\<lparr>mem := m\<rparr>"
  note fr = usable_frame [OF us(2) m(2)]
  have "piperead_copy (Suc n) pi p addr i (enter (Pipe_lock pi) s) = piperead_copy n pi p addr (i + 1) (enter (Pipe_lock pi) ?t)"
    using queued_empty [OF r(2)] queued_take [OF r(2)] m(1) by (simp add: lock_simps pt_def)
  moreover have "can_read p pi bs (?a + 1) n ?t"
    using r(1) queued_take(2) [OF r(2)] fr(1) by (simp add: can_read_def lock_simps pt_def)
  ultimately show ?thesis using fr(2) m(3,4) by (intro exI [of _ ?t]) auto
qed

lemma piperead_copy_takes:
  fixes s :: "'z pipes_scheme"
  assumes "can_read p pi bs (addr + word_of_int i) n s"
  defines "pt \<equiv> p_pagetable (procs s p)" and "k \<equiv> min n (length bs)"
  shows "\<exists>t. piperead_copy n pi p addr i (enter (Pipe_lock pi) s) = Ret (i + int k) t \<and> calm p t
     \<and> queued (pipes t pi) (drop k bs) \<and> uaddr (mem t) pt = uaddr (mem s) pt
     \<and> (\<forall>j < k. mem t (uaddr (mem s) pt (addr + word_of_int i + of_nat j)) = bs ! j)
     \<and> (\<forall>x. (\<forall>j < k. x \<noteq> uaddr (mem s) pt (addr + word_of_int i + of_nat j)) \<longrightarrow> mem t x = mem s x)
     \<and> (\<forall>pj. pj \<noteq> pi \<longrightarrow> pipes t pj = pipes s pj) \<and> procs t = woken (Some (Chan_pipe_write pi)) (Some p) (procs s)"
  using assms(1) unfolding pt_def k_def
proof (induction n arbitrary: i s bs)
  case 0
  then show ?case using piperead_end_calm [of p s pi i] by (simp add: can_read_def lock_simps)
next
  case (Suc n)
  let ?a = "addr + word_of_int i" and ?pt = "p_pagetable (procs s p)"
  have c: "calm p s" "queued (pipes s pi) bs" using Suc.prems by (auto simp: can_read_def)
  show ?case
  proof (cases bs)
    case Nil
    then have "piperead_copy (Suc n) pi p addr i (enter (Pipe_lock pi) s) = piperead_end pi i (enter (Pipe_lock pi) s)"
      using queued_empty [OF c(2)] by (simp add: lock_simps)
    then show ?thesis using Nil c piperead_end_calm [OF c(1), of pi i] by (simp add: lock_simps)
  next
    case (Cons b cs)
    obtain t where t: "piperead_copy (Suc n) pi p addr i (enter (Pipe_lock pi) s) = piperead_copy n pi p addr (i + 1) (enter (Pipe_lock pi) t)"
      "can_read p pi cs (?a + 1) n t" "procs t = procs s" "uaddr (mem t) ?pt = uaddr (mem s) ?pt"
      "\<forall>pj. pj \<noteq> pi \<longrightarrow> pipes t pj = pipes s pj" "\<forall>x. mem t x = (if x = uaddr (mem s) ?pt ?a then b else mem s x)"
      using piperead_turn [OF Suc.prems [unfolded Cons]] by blast
    have nx: "addr + word_of_int (i + 1) = ?a + 1" by (simp add: algebra_simps)
    let ?k = "min n (length cs)"
    from Suc.IH [of cs "i + 1" t, unfolded nx, OF t(2)] obtain u where
      u: "piperead_copy n pi p addr (i + 1) (enter (Pipe_lock pi) t) = Ret (i + 1 + int ?k) u" "calm p u"
        "queued (pipes u pi) (drop ?k cs)" "uaddr (mem u) ?pt = uaddr (mem s) ?pt"
        "\<forall>j < ?k. mem u (uaddr (mem s) ?pt (?a + 1 + of_nat j)) = cs ! j"
        "\<forall>x. (\<forall>j < ?k. x \<noteq> uaddr (mem s) ?pt (?a + 1 + of_nat j)) \<longrightarrow> mem u x = mem t x"
        "\<forall>pj. pj \<noteq> pi \<longrightarrow> pipes u pj = pipes s pj" "procs u = woken (Some (Chan_pipe_write pi)) (Some p) (procs s)"
      unfolding t(3,4) using t(5) by auto
    have us: "uaddr (mem s) ?pt (?a + 1 + of_nat j) \<noteq> uaddr (mem s) ?pt ?a" if "j < n" for j
    proof -
      have "usable (mem s) ?pt ?a (Suc n)" using Suc.prems by (simp add: can_read_def)
      then show ?thesis using that by (rule usable_Suc(3))
    qed
    have sh: "?a + of_nat (Suc j) = ?a + 1 + of_nat j" for j by (simp add: add.assoc)
    have "mem u (uaddr (mem s) ?pt (?a + of_nat j)) = bs ! j" if "j < Suc ?k" for j
    proof (cases j)
      case 0
      have "mem u (uaddr (mem s) ?pt ?a) = mem t (uaddr (mem s) ?pt ?a)" using u(6) us by (metis min_less_iff_conj)
      then show ?thesis using 0 t(6) Cons by simp
    next
      case (Suc l)
      then show ?thesis using u(5) that Cons unfolding Suc sh by simp
    qed
    moreover have "mem u x = mem s x" if o: "\<forall>j < Suc ?k. x \<noteq> uaddr (mem s) ?pt (?a + of_nat j)" for x
    proof -
      have "\<forall>j < ?k. x \<noteq> uaddr (mem s) ?pt (?a + 1 + of_nat j)" using o unfolding sh [symmetric] by (metis Suc_less_eq)
      moreover have "x \<noteq> uaddr (mem s) ?pt ?a" using o [rule_format, of 0] by simp
      ultimately show ?thesis using u(6) t(6) by simp
    qed
    moreover have "min (Suc n) (length bs) = Suc ?k" using Cons by simp
    ultimately show ?thesis using t(1) u(1-4,7,8) Cons by (intro exI [of _ u]) simp
  qed
qed

section \<open>Properties\<close>

lemma woken_none: "q < NPROC \<Longrightarrow> q \<noteq> p \<Longrightarrow> \<not> (p_state (woken ch (Some p) ps q) = SLEEPING \<and> p_chan (woken ch (Some p) ps q) = ch)"
  by (auto simp: woken_def wake_def)

text \<open>
  C12: \<open>pipewrite\<close> refines appending to a queue. With \<open>bs\<close> in the pipe it appends the \<open>n\<close> bytes of the caller and
  returns \<open>n\<close> when they fit; the caller's memory and the other pipes are as before and no reader is left
  asleep. When they do not fit it fills the pipe to \<open>PIPESIZE\<close> bytes, wakes the readers, and the caller
  sleeps until a reader makes room, with no lock held but its own.
\<close>

theorem pipewrite_refines:
  fixes s :: "'z pipes_scheme"
  assumes "can_write p pi bs s" and "0 \<le> n" and "readable (mem s) (p_pagetable (procs s p)) addr (nat n)"
  defines "new \<equiv> ubytes (mem s) (p_pagetable (procs s p)) addr (nat n)"
  shows "if length bs + nat n \<le> PIPESIZE
    then \<exists>t. pipewrite pi addr n s = Ret n t \<and> can_write p pi (bs @ new) t \<and> mem t = mem s
       \<and> (\<forall>pj. pj \<noteq> pi \<longrightarrow> pipes t pj = pipes s pj)
       \<and> (\<forall>q < NPROC. q \<noteq> p \<longrightarrow> \<not> (p_state (procs t q) = SLEEPING \<and> p_chan (procs t q) = Some (Chan_pipe_read pi)))
    else \<exists>t. pipewrite pi addr n s = Switch t \<and> queued (pipes t pi) (bs @ take (PIPESIZE - length bs) new)
       \<and> p_state (procs t p) = SLEEPING \<and> p_chan (procs t p) = Some (Chan_pipe_write pi)
       \<and> (\<forall>q < NPROC. q \<noteq> p \<longrightarrow> \<not> (p_state (procs t q) = SLEEPING \<and> p_chan (procs t q) = Some (Chan_pipe_read pi)))
       \<and> (\<forall>lk. lk \<noteq> Proc_lock p \<longrightarrow> unlocked lk t)"
proof -
  let ?pt = "p_pagetable (procs s p)"
  have c: "calm p s" using assms(1) by (simp add: can_write_def)
  have run: "pipewrite pi addr n s = pipewrite_loop (nat n) pi p addr 0 (enter (Pipe_lock pi) s)"
    using c by (simp add: pipewrite_def calm_curproc calm_acquire)
  have a: "readable (mem s) ?pt (addr + word_of_int 0) (nat n)" using assms(3) by simp
  show ?thesis
  proof (cases "length bs + nat n \<le> PIPESIZE")
    case True
    from pipewrite_loop_appends [OF assms(1) True a] obtain t where
      "pipewrite pi addr n s = Ret n t" "can_write p pi (bs @ new) t" "mem t = mem s"
      "\<forall>pj. pj \<noteq> pi \<longrightarrow> pipes t pj = pipes s pj" "procs t = woken (Some (Chan_pipe_read pi)) (Some p) (procs s)"
      using run assms(2) by (auto simp: new_def)
    then show ?thesis using True woken_none [of _ p "Some (Chan_pipe_read pi)" "procs s"] by auto
  next
    case False
    then have "PIPESIZE < length bs + nat n" by simp
    from pipewrite_loop_blocks [OF assms(1) this a] obtain t where
      t: "pipewrite pi addr n s = Switch t" "queued (pipes t pi) (bs @ ubytes (mem s) ?pt addr (PIPESIZE - length bs))"
      "p_state (procs t p) = SLEEPING" "p_chan (procs t p) = Some (Chan_pipe_write pi)"
      "\<forall>q < NPROC. q \<noteq> p \<longrightarrow> procs t q = wake (Some (Chan_pipe_read pi)) (procs s q)"
      "\<forall>lk. lk \<noteq> Proc_lock p \<longrightarrow> unlocked lk t"
      using run by auto
    have "ubytes (mem s) ?pt addr (PIPESIZE - length bs) = take (PIPESIZE - length bs) new"
      using False by (simp add: new_def ubytes_def take_map)
    with t False show ?thesis by (auto simp: wake_def)
  qed
qed

text \<open>
  C13: \<open>piperead\<close> refines taking from the front of the queue. With \<open>bs\<close> in the pipe, or with the writing end
  closed, it moves the first \<open>min n (length bs)\<close> bytes to the caller's memory, returns their number, leaves
  the rest in the pipe, changes no other memory and leaves no writer asleep. On an empty pipe with the
  writing end open a killed caller gets \<open>-1\<close>, and every other caller sleeps until a byte arrives, with no
  lock held but its own.
\<close>

theorem piperead_refines:
  fixes s :: "'z pipes_scheme"
  assumes "can_read p pi bs addr (nat n) s"
  defines "pt \<equiv> p_pagetable (procs s p)" and "k \<equiv> min (nat n) (length bs)"
  shows "if bs = [] \<and> pi_writeopen (pipes s pi) \<noteq> 0
    then if p_killed (procs s p) \<noteq> 0 then piperead pi addr n s = Ret (-1) s
      else \<exists>t. piperead pi addr n s = Switch t \<and> p_state (procs t p) = SLEEPING
         \<and> p_chan (procs t p) = Some (Chan_pipe_read pi) \<and> (\<forall>lk. lk \<noteq> Proc_lock p \<longrightarrow> unlocked lk t)
    else \<exists>t. piperead pi addr n s = Ret (int k) t \<and> calm p t \<and> queued (pipes t pi) (drop k bs)
         \<and> ubytes (mem t) pt addr k = take k bs
         \<and> (\<forall>x. (\<forall>j < k. x \<noteq> uaddr (mem s) pt (addr + of_nat j)) \<longrightarrow> mem t x = mem s x)
         \<and> (\<forall>pj. pj \<noteq> pi \<longrightarrow> pipes t pj = pipes s pj)
         \<and> (\<forall>q < NPROC. q \<noteq> p \<longrightarrow> \<not> (p_state (procs t q) = SLEEPING \<and> p_chan (procs t q) = Some (Chan_pipe_write pi)))"
proof -
  have c: "calm p s" and q: "queued (pipes s pi) bs" using assms(1) by (auto simp: can_read_def)
  have run: "piperead pi addr n s = piperead_wait (nat n) pi p addr (enter (Pipe_lock pi) s)"
    using c by (simp add: piperead_def calm_curproc calm_acquire)
  show ?thesis
  proof (cases "bs = [] \<and> pi_writeopen (pipes s pi) \<noteq> 0")
    case True
    note sw = sleep_switch [OF calmD(4,5,3) [OF c] calmD(2) [OF c] calmD(2) [OF c], of "Pipe_lock pi" "Chan_pipe_read pi"]
    show ?thesis using True run queued_empty [OF q] killed_enter [OF c, of pi] calm_release [OF c] sw calmD(2) [OF c]
      by (simp add: piperead_wait_def lock_simps)
  next
    case False
    then have "piperead pi addr n s = piperead_copy (nat n) pi p addr 0 (enter (Pipe_lock pi) s)"
      using run queued_empty [OF q] by (auto simp: piperead_wait_def lock_simps)
    moreover have "can_read p pi bs (addr + word_of_int 0) (nat n) s" using assms(1) by simp
    from piperead_copy_takes [OF this] obtain t where
      t: "piperead_copy (nat n) pi p addr 0 (enter (Pipe_lock pi) s) = Ret (int k) t" "calm p t"
        "queued (pipes t pi) (drop k bs)" "uaddr (mem t) pt = uaddr (mem s) pt"
        "\<forall>j < k. mem t (uaddr (mem s) pt (addr + of_nat j)) = bs ! j"
        "\<forall>x. (\<forall>j < k. x \<noteq> uaddr (mem s) pt (addr + of_nat j)) \<longrightarrow> mem t x = mem s x"
        "\<forall>pj. pj \<noteq> pi \<longrightarrow> pipes t pj = pipes s pj" "procs t = woken (Some (Chan_pipe_write pi)) (Some p) (procs s)"
      by (auto simp: pt_def k_def)
    moreover have "ubytes (mem t) pt addr k = take k bs"
      using t(4,5) by (intro nth_equalityI) (simp_all add: ubytes_def k_def)
    ultimately show ?thesis using False woken_none [of _ p "Some (Chan_pipe_write pi)" "procs s"] by auto
  qed
qed

text \<open>A process with two pages of memory, and an empty pipe whose counters are about to wrap.\<close>

definition fresh_pipe :: pipe where
  "fresh_pipe = \<lparr>pi_data = \<lambda>_. 0, pi_nread = -1, pi_nwrite = -1, pi_readopen = 1, pi_writeopen = 1\<rparr>"

lemma fresh_pipe_empty: "queued fresh_pipe []"
  by (simp add: queued_def fresh_pipe_def)

lemma boot_pipe_user:
  obtains s :: pipes where "calm 1 s" "p_killed (procs s 1) = 0" "pipes s 0 = fresh_pipe"
    "usable (mem s) (p_pagetable (procs s 1)) 0x3ffe 4"
proof -
  obtain t :: kmem where t: "usable (mem t) 0x80026000 0x3ffe 4" by (rule boot_user)
  let ?b = boot_sleeplocks
  let ?s = "(undefined :: pipes)\<lparr>tp := tp ?b, sie := sie ?b, locks := locks ?b, cpus := cpus ?b,
    procs := (procs ?b)(1 := (procs ?b 1)\<lparr>p_killed := 0, p_pagetable := 0x80026000\<rparr>), mem := mem t,
    pipes := \<lambda>_. fresh_pipe\<rparr>"
  have "calm 1 ?s" using boot_sleeplocks_calm by (simp add: calm_def cpu_quiet_def unlocked_def hart_defs cong: if_cong)
  then show thesis using t by (intro that [of ?s]) simp_all
qed

lemma usable_readable: "usable m pt a n \<Longrightarrow> readable m pt a n"
  by (simp add: usable_def readable_def)

theorem pipewrite_refines_witness:
  "\<exists>(s :: pipes) t bs. length bs = 4 \<and> pipewrite 0 0x3ffe 4 s = Ret 4 t \<and> queued (pipes t 0) bs"
proof -
  obtain s :: pipes where s: "calm 1 s" "p_killed (procs s 1) = 0" "pipes s 0 = fresh_pipe"
    "usable (mem s) (p_pagetable (procs s 1)) 0x3ffe 4" by (rule boot_pipe_user)
  have w: "can_write 1 0 [] s" using s fresh_pipe_empty by (simp add: can_write_def) (simp add: fresh_pipe_def)
  have "readable (mem s) (p_pagetable (procs s 1)) 0x3ffe (nat 4)" using usable_readable [OF s(4)] by simp
  from pipewrite_refines [OF w _ this] obtain t where "pipewrite 0 0x3ffe 4 s = Ret 4 t"
    "can_write 1 0 (ubytes (mem s) (p_pagetable (procs s 1)) 0x3ffe 4) t" by (auto simp: PIPESIZE_def)
  then show ?thesis by (intro exI conjI) (auto simp: can_write_def ubytes_def)
qed

theorem piperead_refines_witness:
  "\<exists>(s :: pipes) t (u :: pipes). queued (pipes s 0) [7, 8] \<and> piperead 0 0x3ffe 4 s = Ret 2 t \<and> queued (pipes t 0) []
     \<and> ubytes (mem t) (p_pagetable (procs s 1)) 0x3ffe 2 = [7, 8] \<and> piperead 0 0x3ffe 4 u = Ret (-1) u"
proof -
  obtain s :: pipes where s: "calm 1 s" "p_killed (procs s 1) = 0" "pipes s 0 = fresh_pipe"
    "usable (mem s) (p_pagetable (procs s 1)) 0x3ffe 4" by (rule boot_pipe_user)
  let ?s = "s\<lparr>pipes := \<lambda>_. pipe_put 8 (pipe_put 7 fresh_pipe)\<rparr>"
  let ?u = "s\<lparr>procs := (procs s)(1 := (procs s 1)\<lparr>p_killed := 1\<rparr>)\<rparr>"
  have q: "queued (pipe_put 8 (pipe_put 7 fresh_pipe)) [7, 8]"
    using queued_put [OF queued_put [OF fresh_pipe_empty, of 7], of 8] by (simp add: PIPESIZE_def)
  then have "can_read 1 0 [7, 8] 0x3ffe (nat 4) ?s" using s by (simp add: can_read_def lock_simps)
  from piperead_refines [OF this] obtain t where "piperead 0 0x3ffe 4 ?s = Ret 2 t" "queued (pipes t 0) []"
    "ubytes (mem t) (p_pagetable (procs s 1)) 0x3ffe 2 = [7, 8]" by (auto simp: numeral_2_eq_2)
  moreover have "calm 1 ?u" using s(1) by (simp add: calm_def cpu_quiet_def unlocked_def hart_defs cong: if_cong)
  then have "can_read 1 0 [] 0x3ffe (nat 4) ?u" using s fresh_pipe_empty by (simp add: can_read_def)
  from piperead_refines [OF this] have "piperead 0 0x3ffe 4 ?u = Ret (-1) ?u" by (simp add: s(3) fresh_pipe_def)
  moreover have "queued (pipes ?s 0) [7, 8]" using q by simp
  ultimately show ?thesis by - (rule exI [of _ ?s], rule exI [of _ t], rule exI [of _ ?u], simp)
qed

end
