(* ===== verification/Ulib.thy ===== *)
theory Ulib
  imports Kstring
begin

text \<open>
  The user library \<open>user/ulib.c\<close>. Strings are read through a pointer as in \<open>Kstring\<close>; the functions that
  write take and return the memory. \<open>char\<close> is unsigned on this machine. The system calls that \<open>gets\<close> and
  \<open>stat\<close> make are arguments; a world of type \<open>'w\<close> is passed through them.
\<close>

section \<open>Strings\<close>

partial_function (option) strcpy_loop :: "u64 \<Rightarrow> u64 \<Rightarrow> mem \<Rightarrow> mem option" where
  "strcpy_loop s t m =
     (let m' = m(s := m t) in if m t \<noteq> 0 then strcpy_loop (s + 1) (t + 1) m' else Some m')"

definition ustrcpy :: "u64 \<Rightarrow> u64 \<Rightarrow> mem \<Rightarrow> (u64 \<times> mem) option" where
  "ustrcpy s t m = map_option (Pair s) (strcpy_loop s t m)"

partial_function (option) strcmp_loop :: "cstr \<Rightarrow> cstr \<Rightarrow> nat \<Rightarrow> int option" where
  "strcmp_loop p q i =
     (if p i \<noteq> 0 \<and> p i = q i then strcmp_loop p q (Suc i) else Some (int (unat (p i)) - int (unat (q i))))"

definition ustrcmp :: "cstr \<Rightarrow> cstr \<Rightarrow> int option" where
  "ustrcmp p q = strcmp_loop p q 0"

partial_function (option) ustrlen_loop :: "cstr \<Rightarrow> nat \<Rightarrow> nat option" where
  "ustrlen_loop s n = (if s n \<noteq> 0 then ustrlen_loop s (Suc n) else Some n)"

definition ustrlen :: "cstr \<Rightarrow> nat option" where
  "ustrlen s = ustrlen_loop s 0"

text \<open>The position of a character, \<open>Some None\<close> when the string ends before it.\<close>

partial_function (option) strchr_loop :: "cstr \<Rightarrow> u8 \<Rightarrow> nat \<Rightarrow> nat option option" where
  "strchr_loop s c i = (if s i = 0 then Some None else if s i = c then Some (Some i) else strchr_loop s c (Suc i))"

definition ustrchr :: "cstr \<Rightarrow> u8 \<Rightarrow> nat option option" where
  "ustrchr s c = strchr_loop s c 0"

text \<open>\<open>atoi\<close> computes in \<open>int\<close>.\<close>

partial_function (option) atoi_loop :: "cstr \<Rightarrow> nat \<Rightarrow> int \<Rightarrow> int option" where
  "atoi_loop s i n =
     (if 48 \<le> s i \<and> s i \<le> 57 then atoi_loop s (Suc i) (n * 10 + int (unat (s i)) - 48) else Some n)"

definition atoi :: "cstr \<Rightarrow> int option" where
  "atoi s = atoi_loop s 0 0"

section \<open>Memory\<close>

definition umemset :: "u64 \<Rightarrow> int \<Rightarrow> u32 \<Rightarrow> mem \<Rightarrow> mem" where
  "umemset dst c n m = memset_loop (unat n) dst (word_of_int c) m"

text \<open>The length of \<open>memmove\<close> is an \<open>int\<close> here; a negative one copies nothing.\<close>

definition umemmove :: "u64 \<Rightarrow> u64 \<Rightarrow> int \<Rightarrow> mem \<Rightarrow> mem" where
  "umemmove dst src len m =
     (let n = s32 len in
      if src > dst then move_up (nat n) dst src m
      else move_down (nat n) (dst + of_int n) (src + of_int n) m)"

definition umemcmp :: "u64 \<Rightarrow> u64 \<Rightarrow> u32 \<Rightarrow> mem \<Rightarrow> int" where
  "umemcmp s1 s2 n m = memcmp_loop (unat n) s1 s2 m"

definition umemcpy :: "u64 \<Rightarrow> u64 \<Rightarrow> u32 \<Rightarrow> mem \<Rightarrow> mem" where
  "umemcpy dst src n m = umemmove dst src (sint n) m"

section \<open>Functions that make system calls\<close>

text \<open>
  \<open>gets\<close> reads one character at a time until the end of a line, the end of the input (\<open>rd\<close> gives \<open>None\<close>) or
  \<open>mx - 1\<close> characters. The result is what \<open>buf\<close> holds before the terminating NUL.
\<close>

primrec gets_loop :: "('w \<Rightarrow> u8 option \<times> 'w) \<Rightarrow> nat \<Rightarrow> u8 list \<Rightarrow> 'w \<Rightarrow> u8 list \<times> 'w" where
  "gets_loop rd 0 buf w = (buf, w)"
| "gets_loop rd (Suc k) buf w =
     (case rd w of
        (None, w') \<Rightarrow> (buf, w')
      | (Some c, w') \<Rightarrow> if c = 10 \<or> c = 13 then (buf @ [c], w') else gets_loop rd k (buf @ [c]) w')"

definition ugets :: "('w \<Rightarrow> u8 option \<times> 'w) \<Rightarrow> int \<Rightarrow> 'w \<Rightarrow> u8 list \<times> 'w" where
  "ugets rd mx w = gets_loop rd (nat (mx - 1)) [] w"

definition ustat :: "(string \<Rightarrow> int \<Rightarrow> 'w \<Rightarrow> int \<times> 'w) \<Rightarrow> (int \<Rightarrow> 'w \<Rightarrow> (int \<times> 'st) \<times> 'w) \<Rightarrow> (int \<Rightarrow> 'w \<Rightarrow> 'w)
    \<Rightarrow> string \<Rightarrow> 'w \<Rightarrow> (int \<times> 'st option) \<times> 'w" where
  "ustat open_call fstat_call close_call n w =
     (case open_call n 0 w of (fd, w) \<Rightarrow>
      if fd < 0 then ((-1, None), w)
      else case fstat_call fd w of ((r, st), w) \<Rightarrow> ((r, Some st), close_call fd w))"

section \<open>Lemmas\<close>

lemma umemmove_mwrite:
  assumes "nowrap dst n" and "nowrap src n" and "n < 2 ^ 31"
  shows "umemmove dst src (int n) m = mwrite m dst (mread m src n)"
proof (rule ext)
  fix x
  have small: "n \<le> 2 ^ 64" using assms(1) by (simp add: nowrap_def)
  have idx: "src + of_nat i = dst + of_nat j \<longleftrightarrow> unat src + i = unat dst + j" if "i < n" "j < n" for i j
    using that assms by (simp add: word_unat_eq_iff unat_add_nowrap)
  have "umemmove dst src (int n) m x = (if inrun dst n x then m (src + (x - dst)) else m x)"
  proof (cases "src > dst")
    case True
    then have "unat dst < unat src" by (simp add: word_less_nat_alt)
    then have "\<forall>i < n. \<forall>j < i. src + of_nat i \<noteq> dst + of_nat j" by (auto simp: idx)
    then show ?thesis using True small assms(3) by (simp add: umemmove_def move_up_apply)
  next
    case False
    then have "unat src \<le> unat dst" by (simp add: word_less_nat_alt)
    then have "\<forall>i < n. \<forall>j < i. src + of_nat j \<noteq> dst + of_nat i" by (auto simp: idx)
    then show ?thesis using False small assms(3) by (simp add: umemmove_def move_down_apply)
  qed
  then show "umemmove dst src (int n) m x = mwrite m dst (mread m src n) x"
    by (simp add: mwrite_def inrun_def)
qed

lemma strcmp_loop_skip: "p j \<noteq> 0 \<Longrightarrow> p j = q j \<Longrightarrow> strcmp_loop p q j = strcmp_loop p q (Suc j)"
  by (subst strcmp_loop.simps) auto

lemma strcmp_loop_equal_prefix:
  "(\<forall>i < k. p i \<noteq> 0 \<and> p i = q i) \<Longrightarrow> strcmp_loop p q 0 = strcmp_loop p q k"
proof (induction k)
  case (Suc k)
  then have "strcmp_loop p q k = strcmp_loop p q (Suc k)" by (intro strcmp_loop_skip) blast+
  moreover have "strcmp_loop p q 0 = strcmp_loop p q k" using Suc.prems by (intro Suc.IH) (meson less_SucI)
  ultimately show ?case by simp
qed simp

lemma ustrcmp_first_difference:
  assumes "\<forall>i < k. p i \<noteq> 0 \<and> p i = q i" and "p k = 0 \<or> p k \<noteq> q k"
  shows "ustrcmp p q = Some (int (unat (p k)) - int (unat (q k)))"
  unfolding ustrcmp_def strcmp_loop_equal_prefix [OF assms(1)] using assms(2) by (subst strcmp_loop.simps) auto

section \<open>Properties\<close>

lemma s32_negative:
  assumes "2 ^ 31 \<le> x" and "x < 2 ^ 32"
  shows "s32 x = x - 2 ^ 32"
proof -
  have "(x - 2 ^ 32) mod 2 ^ 32 = x mod 2 ^ 32" by (rule minus_mod_self2)
  then have "(word_of_int (x - 2 ^ 32) :: u32) = word_of_int x"
    unfolding word_of_int_eq_iff take_bit_eq_mod by simp
  then have "s32 x = s32 (x - 2 ^ 32)" by (simp only: s32_def)
  then show ?thesis using assms by simp
qed

text \<open>
  C39: The two implementations of \<open>memmove\<close>, the kernel's with a \<open>uint\<close> length and the user library's with an
  \<open>int\<close>, choose the direction of the copy by different tests. On runs that do not wrap around the address space
  the kernel's writes at the destination the bytes that the source had before the call, also when the two
  overlap, and the library's does the same for lengths below \<open>2 ^ 31\<close>; longer ones are negative for it,
  and it copies nothing.
\<close>

theorem memmoves_agree:
  assumes "nowrap dst n" and "nowrap src n" and "n < 2 ^ 32"
  shows "memmove dst src n m = mwrite m dst (mread m src n)
    \<and> umemmove dst src (int n) m = (if n < 2 ^ 31 then memmove dst src n m else m)"
proof (cases "n < 2 ^ 31")
  case True
  then show ?thesis using umemmove_mwrite [OF assms(1,2)] memmove_mwrite [OF assms] by simp
next
  case False
  then have "nat (s32 (int n)) = 0" using s32_negative [of "int n"] assms(3) by simp
  then have "umemmove dst src (int n) m = m" by (simp add: umemmove_def Let_def)
  then show ?thesis using False memmove_mwrite [OF assms] by simp
qed

theorem memmoves_agree_witness:
  "umemmove 101 100 3 (\<lambda>a. if a = 100 then 1 else if a = 101 then 2 else 0) 102 = 2"
proof -
  let ?m = "\<lambda>a :: u64. (if a = 100 then 1 else if a = 101 then 2 else 0 :: u8)"
  have "memmove 101 100 3 ?m = mwrite ?m 101 (mread ?m 100 3)
      \<and> umemmove 101 100 (int 3) ?m = (if (3::nat) < 2 ^ 31 then memmove 101 100 3 ?m else ?m)"
    by (rule memmoves_agree) (simp_all add: nowrap_def)
  then have "umemmove 101 100 3 ?m = mwrite ?m 101 (mread ?m 100 3)" by simp
  then show ?thesis by (simp only:) (simp add: mwrite_def)
qed

text \<open>
  \<open>strcmp\<close> returns on every terminated string, whatever the other one is, and returns 0 exactly when the
  other string has the same characters and ends at the same place.
\<close>

theorem ustrcmp_decides_equality:
  assumes "p k = 0" and "\<forall>i < k. p i \<noteq> 0"
  shows "\<exists>r. ustrcmp p q = Some r \<and> (r = 0 \<longleftrightarrow> (\<forall>i \<le> k. q i = p i))"
proof -
  obtain j where j: "p j = 0 \<or> p j \<noteq> q j" "\<forall>i < j. p i \<noteq> 0 \<and> p i = q i" "j \<le> k"
    using ex_least_nat_le [of "\<lambda>i. p i = 0 \<or> p i \<noteq> q i" k] assms(1) by blast
  have "int (unat (p j)) - int (unat (q j)) = 0 \<longleftrightarrow> (\<forall>i \<le> k. q i = p i)"
  proof -
    have "p j = q j \<longleftrightarrow> (\<forall>i \<le> k. q i = p i)"
    proof
      assume e: "p j = q j"
      then have "j = k" using j assms(2) by (cases "j < k") auto
      then show "\<forall>i \<le> k. q i = p i" using e j(2) by (auto simp: le_less)
    qed (use j(3) in simp)
    then show ?thesis unfolding byte_diff .
  qed
  then show ?thesis using ustrcmp_first_difference [OF j(2,1)] by auto
qed

end
