(* ===== verification/Grep.thy ===== *)
theory Grep
  imports Prelude
begin

text \<open>
  The pattern matcher and the line loop of \<open>user/grep.c\<close>, and the counting loop of \<open>user/wc.c\<close>. A C string is
  the list of its characters before the NUL, a pointer into it the rest of the list. The system call
  \<open>read\<close> is an argument of the loops, with the world \<open>'w\<close> that it changes; what is written to the output is
  collected in a list.
\<close>

section \<open>The matcher\<close>

fun matchhere :: "string \<Rightarrow> string \<Rightarrow> bool"
and matchstar :: "char \<Rightarrow> string \<Rightarrow> string \<Rightarrow> bool" where
  "matchhere re tx =
     (case re of
        [] \<Rightarrow> True
      | c # re1 \<Rightarrow>
          (case re1 of
             s # re2 \<Rightarrow>
               if s = CHR ''*'' then matchstar c re2 tx
               else (case tx of t # ts \<Rightarrow> (c = CHR ''.'' \<or> c = t) \<and> matchhere re1 ts | [] \<Rightarrow> False)
           | [] \<Rightarrow>
               if c = CHR ''$'' then tx = []
               else (case tx of t # ts \<Rightarrow> (c = CHR ''.'' \<or> c = t) \<and> matchhere re1 ts | [] \<Rightarrow> False)))"
| "matchstar c re tx =
     (matchhere re tx \<or> (case tx of [] \<Rightarrow> False | t # ts \<Rightarrow> (t = c \<or> c = CHR ''.'') \<and> matchstar c re ts))"

primrec match_at :: "string \<Rightarrow> string \<Rightarrow> bool" where
  "match_at re [] = matchhere re []"
| "match_at re (t # ts) = (matchhere re (t # ts) \<or> match_at re ts)"

definition match :: "string \<Rightarrow> string \<Rightarrow> bool" where
  "match re tx = (case re of c # re1 \<Rightarrow> if c = CHR ''^'' then matchhere re1 tx else match_at re tx | [] \<Rightarrow> match_at re tx)"

declare matchhere.simps [simp del] matchstar.simps [simp del]

section \<open>The loops over the input\<close>

type_synonym 'w reader = "nat \<Rightarrow> 'w \<Rightarrow> string option \<times> 'w"

abbreviation newline :: char where "newline \<equiv> CHR 0x0A"

abbreviation nul :: char where "nul \<equiv> CHR 0x00"

text \<open>
  The inner loop of \<open>grep\<close>: the lines in the buffer that end before a NUL are matched, and what follows
  the last of them is kept. The second component is what is written.
\<close>

function grep_lines :: "string \<Rightarrow> string \<Rightarrow> string \<times> string" where
  "grep_lines pat p =
     (if newline \<in> set (takeWhile (\<lambda>c. c \<noteq> nul) p) then
        (let l = takeWhile (\<lambda>c. c \<noteq> newline) p; r = grep_lines pat (drop (Suc (length l)) p) in
         (fst r, (if match pat l then l @ [newline] else []) @ snd r))
      else (p, []))"
  by pat_completeness auto

termination grep_lines
proof (relation "measure (length o snd)")
  fix pat p l
  assume "newline \<in> set (takeWhile (\<lambda>c. c \<noteq> nul) p)"
  then have "p \<noteq> []" by auto
  then show "((pat, drop (Suc (length l)) p), (pat, p)) \<in> measure (length o snd)" by simp
qed simp

declare grep_lines.simps [simp del]

definition GREPBUF :: nat where "GREPBUF = 1024"

partial_function (option) grep_loop :: "'w reader \<Rightarrow> string \<Rightarrow> string \<Rightarrow> string \<Rightarrow> 'w \<Rightarrow> (string \<times> 'w) option" where
  "grep_loop rd pat pend out w =
     (case rd (GREPBUF - length pend - 1) w of
        (None, w') \<Rightarrow> Some (out, w')
      | (Some x, w') \<Rightarrow>
          if x = [] then Some (out, w')
          else case grep_lines pat (pend @ x) of (rest, hits) \<Rightarrow> grep_loop rd pat rest (out @ hits) w')"

definition grep :: "'w reader \<Rightarrow> string \<Rightarrow> 'w \<Rightarrow> (string \<times> 'w) option" where
  "grep rd pat w = grep_loop rd pat [] [] w"

text \<open>The counters of \<open>wc\<close>; they are C \<open>int\<close>s and do not overflow on inputs below 2 GB.\<close>

record counts =
  lines_ct :: int
  words_ct :: int
  chars_ct :: int
  inword :: bool

definition space :: "char \<Rightarrow> bool" where
  "space c \<longleftrightarrow> c \<in> {CHR '' '', CHR 0x0D, CHR 0x09, CHR 0x0A, CHR 0x0B}"

definition wc_char :: "char \<Rightarrow> counts \<Rightarrow> counts" where
  "wc_char ch k =
     (let k = k\<lparr>chars_ct := chars_ct k + 1\<rparr>;
          k = (if ch = newline then k\<lparr>lines_ct := lines_ct k + 1\<rparr> else k)
      in if space ch then k\<lparr>inword := False\<rparr>
         else if \<not> inword k then k\<lparr>words_ct := words_ct k + 1, inword := True\<rparr>
         else k)"

partial_function (option) wc_loop :: "'w reader \<Rightarrow> counts \<Rightarrow> 'w \<Rightarrow> (counts option \<times> 'w) option" where
  "wc_loop rd k w =
     (case rd 512 w of
        (None, w') \<Rightarrow> Some (None, w')
      | (Some x, w') \<Rightarrow> if x = [] then Some (Some k, w') else wc_loop rd (fold wc_char x k) w')"

definition wc :: "'w reader \<Rightarrow> 'w \<Rightarrow> (counts option \<times> 'w) option" where
  "wc rd w = wc_loop rd \<lparr>lines_ct = 0, words_ct = 0, chars_ct = 0, inword = False\<rparr> w"

section \<open>What a pattern means\<close>

datatype tok = Star char | End | One char

fun toks :: "string \<Rightarrow> tok list" where
  "toks [] = []"
| "toks [c] = (if c = CHR ''$'' then [End] else [One c])"
| "toks (c # s # re) = (if s = CHR ''*'' then Star c # toks re else One c # toks (s # re))"

definition charset :: "char \<Rightarrow> char set" where
  "charset c = (if c = CHR ''.'' then UNIV else {c})"

text \<open>The strings that a sequence of tokens stands for. An end mark adds nothing; it only occurs last.\<close>

primrec lang :: "tok list \<Rightarrow> string set" where
  "lang [] = {[]}"
| "lang (t # ts) =
     (case t of
        Star c \<Rightarrow> {u @ v | u v. set u \<subseteq> charset c \<and> v \<in> lang ts}
      | End \<Rightarrow> lang ts
      | One c \<Rightarrow> {a # v | a v. a \<in> charset c \<and> v \<in> lang ts})"

definition starts :: "tok list \<Rightarrow> string \<Rightarrow> bool" where
  "starts ts tx \<longleftrightarrow> (\<exists>u v. tx = u @ v \<and> u \<in> lang ts \<and> (End \<in> set ts \<longrightarrow> v = []))"

definition occurs :: "tok list \<Rightarrow> string \<Rightarrow> bool" where
  "occurs ts tx \<longleftrightarrow> (\<exists>w rest. tx = w @ rest \<and> starts ts rest)"

lemma startsI: "tx = u @ v \<Longrightarrow> u \<in> lang ts \<Longrightarrow> End \<in> set ts \<longrightarrow> v = [] \<Longrightarrow> starts ts tx"
  unfolding starts_def by blast

lemma lang_Star: "set w \<subseteq> charset c \<Longrightarrow> u \<in> lang ts \<Longrightarrow> w @ u \<in> lang (Star c # ts)"
  by auto

lemma starts_Nil [simp]: "starts [] tx"
  by (simp add: starts_def)

lemma starts_End [simp]: "starts [End] tx \<longleftrightarrow> tx = []"
  by (auto simp: starts_def)

lemma starts_One:
  "starts (One c # ts) tx \<longleftrightarrow> (\<exists>a rest. tx = a # rest \<and> a \<in> charset c \<and> starts ts rest)"
proof
  assume "starts (One c # ts) tx"
  then obtain w v where w: "tx = w @ v" "w \<in> lang (One c # ts)" "End \<in> set ts \<longrightarrow> v = []"
    unfolding starts_def by auto
  then obtain a u where "w = a # u" "a \<in> charset c" "u \<in> lang ts" by auto
  with w have "tx = a # u @ v" "a \<in> charset c" "u \<in> lang ts" "End \<in> set ts \<longrightarrow> v = []" by simp_all
  then show "\<exists>a rest. tx = a # rest \<and> a \<in> charset c \<and> starts ts rest" by (auto simp: starts_def)
next
  assume "\<exists>a rest. tx = a # rest \<and> a \<in> charset c \<and> starts ts rest"
  then obtain a u v where "tx = a # u @ v" "a \<in> charset c" "u \<in> lang ts" "End \<in> set ts \<longrightarrow> v = []"
    unfolding starts_def by blast
  then show "starts (One c # ts) tx" unfolding starts_def by (intro exI [of _ "a # u"] exI [of _ v]) auto
qed

lemma starts_Star:
  "starts (Star c # ts) tx \<longleftrightarrow> starts ts tx \<or> (\<exists>a rest. tx = a # rest \<and> a \<in> charset c \<and> starts (Star c # ts) rest)"
proof
  assume "starts (Star c # ts) tx"
  then obtain x v where x: "tx = x @ v" "x \<in> lang (Star c # ts)" "End \<in> set ts \<longrightarrow> v = []"
    unfolding starts_def by auto
  then obtain w u where "x = w @ u" "set w \<subseteq> charset c" "u \<in> lang ts" by auto
  with x have w: "tx = w @ u @ v" "set w \<subseteq> charset c" "u \<in> lang ts" "End \<in> set ts \<longrightarrow> v = []" by simp_all
  show "starts ts tx \<or> (\<exists>a rest. tx = a # rest \<and> a \<in> charset c \<and> starts (Star c # ts) rest)"
  proof (cases w)
    case Nil
    then show ?thesis using w by (auto simp: starts_def)
  next
    case (Cons a w')
    then have "starts (Star c # ts) (w' @ u @ v)" using w lang_Star [of w' c u ts] by (intro startsI [of _ "w' @ u" v]) auto
    then show ?thesis using w Cons by auto
  qed
next
  assume "starts ts tx \<or> (\<exists>a rest. tx = a # rest \<and> a \<in> charset c \<and> starts (Star c # ts) rest)"
  then show "starts (Star c # ts) tx"
  proof (elim disjE exE conjE)
    assume "starts ts tx"
    then obtain u v where "tx = u @ v" "u \<in> lang ts" "End \<in> set ts \<longrightarrow> v = []" unfolding starts_def by blast
    then show ?thesis using lang_Star [of "[]" c u ts] by (intro startsI [of _ u v]) simp_all
  next
    fix a rest
    assume a: "tx = a # rest" "a \<in> charset c" "starts (Star c # ts) rest"
    then obtain x v where x: "rest = x @ v" "x \<in> lang (Star c # ts)" "End \<in> set ts \<longrightarrow> v = []"
      unfolding starts_def by auto
    then obtain w u where "x = w @ u" "set w \<subseteq> charset c" "u \<in> lang ts" by auto
    with a x have "tx = a # w @ u @ v" "set (a # w) \<subseteq> charset c" "u \<in> lang ts" "End \<in> set ts \<longrightarrow> v = []" by simp_all
    then show ?thesis using lang_Star [of "a # w" c u ts] by (intro startsI [of _ "(a # w) @ u" v]) simp_all
  qed
qed

lemma matchstar_starts:
  assumes "\<And>tx. matchhere re tx \<longleftrightarrow> starts (toks re) tx"
  shows "matchstar c re tx \<longleftrightarrow> starts (Star c # toks re) tx"
proof (induction tx)
  case Nil
  then show ?case by (subst matchstar.simps, subst starts_Star) (simp add: assms)
next
  case (Cons t ts)
  have "matchstar c re (t # ts) \<longleftrightarrow> starts (toks re) (t # ts) \<or> t \<in> charset c \<and> starts (Star c # toks re) ts"
    by (subst matchstar.simps) (auto simp: assms charset_def Cons.IH)
  then show ?case by (subst starts_Star) simp
qed

lemma matchhere_starts: "matchhere re tx \<longleftrightarrow> starts (toks re) tx"
proof (induction re arbitrary: tx rule: toks.induct)
  case 1
  then show ?case by (simp add: matchhere.simps)
next
  case (2 c)
  have "matchhere [] ts" for ts by (simp add: matchhere.simps)
  then show ?case by (subst matchhere.simps) (auto simp: starts_One charset_def split: list.split)
next
  case (3 c s re)
  show ?case
  proof (cases "s = CHR ''*''")
    case True
    then show ?thesis using matchstar_starts [OF 3(1), of c tx] by (subst matchhere.simps) simp
  next
    case False
    then show ?thesis using 3(2) [OF False] by (subst matchhere.simps) (auto simp: starts_One charset_def split: list.split)
  qed
qed

lemma match_at_occurs: "match_at re tx \<longleftrightarrow> occurs (toks re) tx"
proof (induction tx)
  case Nil
  then show ?case by (simp add: occurs_def matchhere_starts)
next
  case (Cons t ts)
  have "occurs (toks re) (t # ts) \<longleftrightarrow> starts (toks re) (t # ts) \<or> occurs (toks re) ts"
    unfolding occurs_def by (metis append_Cons append_Nil list.sel(3) neq_Nil_conv)
  then show ?case using Cons by (simp add: matchhere_starts)
qed

section \<open>Reading a stream\<close>

text \<open>
  What the loops rely on of \<open>read\<close>: it returns the next bytes of the input, at most as many as asked for, and
  none only when none are asked for or the input is at its end.
\<close>

definition feeds :: "'w reader \<Rightarrow> ('w \<Rightarrow> string) \<Rightarrow> bool" where
  "feeds rd rest \<longleftrightarrow> (\<forall>k w. \<exists>y w'. rd k w = (Some y, w') \<and> length y \<le> k \<and> rest w = y @ rest w'
     \<and> (0 < k \<and> rest w \<noteq> [] \<longrightarrow> y \<noteq> []))"

function complete_lines :: "string \<Rightarrow> string list" where
  "complete_lines s =
     (if newline \<in> set s then takeWhile (\<lambda>c. c \<noteq> newline) s # complete_lines (drop (Suc (length (takeWhile (\<lambda>c. c \<noteq> newline) s))) s)
      else [])"
  by pat_completeness auto

termination complete_lines
proof (relation "measure length")
  fix s :: string
  assume "newline \<in> set s"
  then have "s \<noteq> []" by auto
  then show "(drop (Suc (length (takeWhile (\<lambda>c. c \<noteq> newline) s))) s, s) \<in> measure length" by simp
qed simp

declare complete_lines.simps [simp del]

definition matching_lines :: "string \<Rightarrow> string \<Rightarrow> string" where
  "matching_lines pat s = concat (map (\<lambda>l. l @ [newline]) (filter (match pat) (complete_lines s)))"

lemma matching_lines_none: "newline \<notin> set s \<Longrightarrow> matching_lines pat s = []"
  by (simp add: matching_lines_def complete_lines.simps)

lemma takeWhile_line: "newline \<notin> set l \<Longrightarrow> takeWhile (\<lambda>c. c \<noteq> newline) (l @ newline # s) = l"
  by (induction l) auto

lemma matching_lines_line:
  assumes "newline \<notin> set l"
  shows "matching_lines pat (l @ newline # s) = (if match pat l then l @ [newline] else []) @ matching_lines pat s"
proof -
  have "complete_lines (l @ newline # s) = l # complete_lines s" by (subst complete_lines.simps) (simp add: takeWhile_line assms)
  then show ?thesis by (simp add: matching_lines_def)
qed

lemma grep_lines_matching:
  assumes "nul \<notin> set p"
  shows "newline \<notin> set (fst (grep_lines pat p)) \<and> (\<exists>u. p = u @ fst (grep_lines pat p))
     \<and> matching_lines pat (p @ z) = snd (grep_lines pat p) @ matching_lines pat (fst (grep_lines pat p) @ z)"
  using assms
proof (induction "length p" arbitrary: p rule: less_induct)
  case less
  have t: "takeWhile (\<lambda>c. c \<noteq> nul) p = p" using less.prems by (auto simp: takeWhile_eq_all_conv)
  show ?case
  proof (cases "newline \<in> set p")
    case False
    then have "grep_lines pat p = (p, [])" by (subst grep_lines.simps) (simp add: t)
    then show ?thesis using False by simp
  next
    case True
    then obtain l r where p: "p = l @ newline # r" "newline \<notin> set l" by (metis split_list_first)
    then have tw: "takeWhile (\<lambda>c. c \<noteq> newline) p = l" by (simp add: takeWhile_line)
    have drop: "drop (Suc (length l)) p = r" by (simp add: p(1))
    have g: "grep_lines pat p = (fst (grep_lines pat r), (if match pat l then l @ [newline] else []) @ snd (grep_lines pat r))"
      using True drop by (subst grep_lines.simps) (simp add: t tw Let_def)
    have IH: "newline \<notin> set (fst (grep_lines pat r)) \<and> (\<exists>u. r = u @ fst (grep_lines pat r))
        \<and> matching_lines pat (r @ z) = snd (grep_lines pat r) @ matching_lines pat (fst (grep_lines pat r) @ z)"
      using less.prems p by (intro less.hyps) auto
    then obtain u where "r = u @ fst (grep_lines pat r)" by blast
    then have "\<exists>v. p = v @ fst (grep_lines pat r)" by (metis append_Cons append_assoc p(1))
    moreover have "matching_lines pat (p @ z) = (if match pat l then l @ [newline] else []) @ matching_lines pat (r @ z)"
      using matching_lines_line [OF p(2), of pat "r @ z"] by (simp add: p(1))
    ultimately show ?thesis using IH by (simp add: g)
  qed
qed

definition short_lines :: "string \<Rightarrow> bool" where
  "short_lines s \<longleftrightarrow> (\<forall>u v z. s = u @ v @ z \<and> newline \<notin> set v \<longrightarrow> length v < GREPBUF - 1)"

lemma grep_loop_matching:
  assumes rd: "feeds rd rest" and "nul \<notin> set (pend @ rest w)" and "newline \<notin> set pend" and "short_lines (pend @ rest w)"
  shows "\<exists>w'. grep_loop rd pat pend out w = Some (out @ matching_lines pat (pend @ rest w), w')"
  using assms(2-4)
proof (induction "length (rest w)" arbitrary: pend out w rule: less_induct)
  case less
  have "length pend < GREPBUF - 1"
    using less.prems(2,3) unfolding short_lines_def by (metis append_Nil)
  then have k: "0 < GREPBUF - length pend - 1" by simp
  obtain y w' where y: "rd (GREPBUF - length pend - 1) w = (Some y, w')" "rest w = y @ rest w'" "rest w \<noteq> [] \<longrightarrow> y \<noteq> []"
    using rd k unfolding feeds_def by metis
  show ?case
  proof (cases "y = []")
    case True
    then have "matching_lines pat (pend @ rest w) = []" using y(3) less.prems(2) by (simp add: matching_lines_none)
    then show ?thesis using y(1) True by (subst grep_loop.simps) simp
  next
    case False
    let ?g = "grep_lines pat (pend @ y)"
    have "nul \<notin> set (pend @ y)" using less.prems(1) y(2) by simp
    from grep_lines_matching [OF this, of pat "rest w'"]
    have g: "newline \<notin> set (fst ?g)" "\<exists>u. pend @ y = u @ fst ?g"
      "matching_lines pat (pend @ rest w) = snd ?g @ matching_lines pat (fst ?g @ rest w')" by (simp_all add: y(2))
    then obtain u where u: "pend @ rest w = u @ fst ?g @ rest w'" using y(2) by auto
    have "\<exists>v. grep_loop rd pat (fst ?g) (out @ snd ?g) w' = Some ((out @ snd ?g) @ matching_lines pat (fst ?g @ rest w'), v)"
    proof (rule less.hyps)
      show "length (rest w') < length (rest w)" using False y(2) by simp
      show "nul \<notin> set (fst ?g @ rest w')" using less.prems(1) unfolding u by simp
      show "short_lines (fst ?g @ rest w')" using less.prems(3) unfolding u short_lines_def by (metis append_assoc)
    qed (rule g(1))
    moreover have "grep_loop rd pat pend out w = grep_loop rd pat (fst ?g) (out @ snd ?g) w'"
      using y(1) False by (subst grep_loop.simps) (simp add: case_prod_beta)
    ultimately show ?thesis using g(3) by simp
  qed
qed

text \<open>The counters after a text are the counts of the text.\<close>

definition word_starts :: "string \<Rightarrow> nat set" where
  "word_starts s = {i. i < length s \<and> \<not> space (s ! i) \<and> (i = 0 \<or> space (s ! (i - 1)))}"

definition counted :: "string \<Rightarrow> counts" where
  "counted s = \<lparr>lines_ct = int (length (filter (\<lambda>c. c = newline) s)), words_ct = int (card (word_starts s)),
     chars_ct = int (length s), inword = (s \<noteq> [] \<and> \<not> space (last s))\<rparr>"

lemma word_starts_snoc:
  "word_starts (s @ [c]) = word_starts s \<union> (if \<not> space c \<and> (s = [] \<or> space (last s)) then {length s} else {})"
  by (cases "s = []") (auto simp: word_starts_def nth_append less_Suc_eq last_conv_nth split: if_splits)

lemma counted_snoc: "counted (s @ [c]) = wc_char c (counted s)"
proof -
  have "finite (word_starts s)" "length s \<notin> word_starts s" by (auto simp: word_starts_def)
  moreover have "space newline" by (simp add: space_def)
  ultimately show ?thesis by (auto simp: counted_def wc_char_def word_starts_snoc Let_def)
qed

lemma counted_append: "fold wc_char x (counted s) = counted (s @ x)"
  by (induction x arbitrary: s) (simp_all add: counted_snoc [symmetric])

lemma wc_loop_counts:
  assumes rd: "feeds rd rest"
  shows "\<exists>w'. wc_loop rd (counted s) w = Some (Some (counted (s @ rest w)), w')"
proof (induction "length (rest w)" arbitrary: s w rule: less_induct)
  case less
  obtain y w' where y: "rd 512 w = (Some y, w')" "rest w = y @ rest w'" "rest w \<noteq> [] \<longrightarrow> y \<noteq> []"
    using rd unfolding feeds_def by (metis zero_less_numeral)
  show ?case
  proof (cases "y = []")
    case True
    then have "rest w = []" using y(3) by simp
    then show ?thesis using y(1) True by (subst wc_loop.simps) simp
  next
    case False
    then have "\<exists>v. wc_loop rd (counted (s @ y)) w' = Some (Some (counted ((s @ y) @ rest w')), v)"
      using y(2) by (intro less.hyps) simp
    then show ?thesis using y(1) False by (subst wc_loop.simps) (simp add: counted_append y(2))
  qed
qed

section \<open>Properties\<close>

text \<open>
  C37: The recursive matcher decides the language of the pattern. \<open>match re text\<close> holds exactly when the text
  has a part that the tokens of the pattern stand for: at the start of the text if the pattern begins with
  \<open>^\<close>, reaching its end if the pattern ends with \<open>$\<close>, where \<open>.\<close> stands for any character and \<open>c*\<close> for any
  number of them. In particular the matcher returns on every pattern and text.
\<close>

theorem match_decides_pattern:
  "match re tx \<longleftrightarrow>
     (if re \<noteq> [] \<and> hd re = CHR ''^'' then starts (toks (tl re)) tx else occurs (toks re) tx)"
  by (cases re) (simp_all add: match_def matchhere_starts match_at_occurs)

text \<open>
  C38: \<open>grep\<close> ends on every finite input and prints, in order and each with its newline, exactly the lines that
  match, however \<open>read\<close> cuts the input into pieces, provided that no line fills the buffer and the input
  has no NUL.
\<close>

theorem grep_prints_matching_lines:
  assumes "feeds rd rest" and "nul \<notin> set (rest w)" and "short_lines (rest w)"
  shows "\<exists>w'. grep rd pat w = Some (concat (map (\<lambda>l. l @ [newline]) (filter (match pat) (complete_lines (rest w)))), w')"
  using grep_loop_matching [OF assms(1), of "[]" w pat "[]"] assms(2,3) by (simp add: grep_def matching_lines_def)

text \<open>A reader of a list of characters that gives at most two at a time.\<close>

definition pair_reader :: "string reader" where
  "pair_reader k s = (Some (take (min k 2) s), drop (min k 2) s)"

lemma pair_reader_feeds: "feeds pair_reader id"
  by (auto simp: feeds_def pair_reader_def)

lemma short_linesI: "length s < GREPBUF - 1 \<Longrightarrow> short_lines s"
  by (auto simp: short_lines_def)

theorem grep_prints_matching_lines_witness:
  "\<exists>w'. grep pair_reader ''b*c'' ''abc\<newline>xyz\<newline>cc\<newline>c'' = Some (''abc\<newline>cc\<newline>'', w')"
proof -
  let ?s = "''abc\<newline>xyz\<newline>cc\<newline>c''"
  have "short_lines ?s" by (rule short_linesI) (simp add: GREPBUF_def)
  then have "\<exists>w'. grep pair_reader ''b*c'' ?s
      = Some (concat (map (\<lambda>l. l @ [newline]) (filter (match ''b*c'') (complete_lines (id ?s)))), w')"
    by (intro grep_prints_matching_lines [OF pair_reader_feeds]) simp_all
  moreover have "concat (map (\<lambda>l. l @ [newline]) (filter (match ''b*c'') (complete_lines (id ?s)))) = ''abc\<newline>cc\<newline>''"
    by code_simp
  ultimately show ?thesis by simp
qed

text \<open>
  \<open>wc\<close> ends on every finite input and counts its lines, words and characters, where a word starts at
  each character that is no space and follows a space or the start, wherever \<open>read\<close> cuts the input.
\<close>

theorem wc_counts:
  assumes "feeds rd rest"
  shows "\<exists>k w'. wc rd w = Some (Some k, w')
     \<and> lines_ct k = int (length (filter (\<lambda>c. c = newline) (rest w)))
     \<and> words_ct k = int (card {i. i < length (rest w) \<and> \<not> space (rest w ! i) \<and> (i = 0 \<or> space (rest w ! (i - 1)))})
     \<and> chars_ct k = int (length (rest w))"
proof -
  have "counted [] = \<lparr>lines_ct = 0, words_ct = 0, chars_ct = 0, inword = False\<rparr>" by (simp add: counted_def word_starts_def)
  then show ?thesis using wc_loop_counts [OF assms, of "[]" w] by (auto simp: wc_def counted_def word_starts_def)
qed

end
