(* ===== verification/Shell.thy ===== *)
theory Shell
  imports Prelude "HOL-Library.Sublist"
begin

text \<open>
  The shell \<open>user/sh.c\<close>: the tokens, the recursive-descent parser, the termination of the strings in the
  line, and the system calls that running a command makes. A pointer into the line is the rest of the line
  from there; \<open>es\<close> is its end, where the NUL is. \<open>malloc\<close> is taken to succeed, as the source does.

  The parser recurses through four functions on what is left of the line; they have fuel, and the
  properties show that the fuel \<open>parsecmd\<close> starts with is enough for every line.
\<close>

section \<open>Commands\<close>

type_synonym ptr = string

datatype cmd =
    EXEC "(ptr \<times> ptr) list"
  | REDIR cmd ptr ptr int int
  | PIPE cmd cmd
  | LIST cmd cmd
  | BACK cmd

text \<open>The constructors of the source.\<close>

definition execcmd :: cmd where [simp]: "execcmd = EXEC []"

definition redircmd :: "cmd \<Rightarrow> ptr \<Rightarrow> ptr \<Rightarrow> int \<Rightarrow> int \<Rightarrow> cmd" where
  [simp]: "redircmd subcmd f ef mode fd = REDIR subcmd f ef mode fd"

definition pipecmd :: "cmd \<Rightarrow> cmd \<Rightarrow> cmd" where [simp]: "pipecmd left right = PIPE left right"

definition listcmd :: "cmd \<Rightarrow> cmd \<Rightarrow> cmd" where [simp]: "listcmd left right = LIST left right"

definition backcmd :: "cmd \<Rightarrow> cmd" where [simp]: "backcmd subcmd = BACK subcmd"

definition MAXARGS :: nat where "MAXARGS = 10"

definition M_RDONLY :: int where "M_RDONLY = 0"
definition M_WRONLY :: int where "M_WRONLY = 1"
definition M_CREATE :: int where "M_CREATE = 512"
definition M_TRUNC :: int where "M_TRUNC = 1024"

section \<open>Tokens\<close>

abbreviation nulc :: char where "nulc \<equiv> CHR 0x00"

definition white :: "char \<Rightarrow> bool" where
  "white c \<longleftrightarrow> c \<in> {CHR '' '', CHR 0x09, CHR 0x0D, CHR 0x0A, CHR 0x0B}"

definition symbol :: "char \<Rightarrow> bool" where
  "symbol c \<longleftrightarrow> c \<in> set ''<|>&;()''"

definition skip :: "ptr \<Rightarrow> ptr" where
  "skip s = dropWhile white s"

text \<open>The kind of the token, its start and its end, and the start of the next token.\<close>

definition gettoken :: "ptr \<Rightarrow> char \<times> ptr \<times> ptr \<times> ptr" where
  "gettoken s =
     (let q = skip s in
      case q of
        [] \<Rightarrow> (nulc, q, q, q)
      | c # r \<Rightarrow>
          if c \<in> set ''|();&<'' then (c, q, r, skip r)
          else if c = CHR ''>'' then
            (case r of
               d # r' \<Rightarrow> if d = CHR ''>'' then (CHR ''+'', q, r', skip r') else (c, q, r, skip r)
             | [] \<Rightarrow> (c, q, r, skip r))
          else (let e = dropWhile (\<lambda>c. \<not> white c \<and> \<not> symbol c) q in (CHR ''a'', q, e, skip e)))"

definition after_token :: "ptr \<Rightarrow> ptr" where
  "after_token s = (case gettoken s of (_, _, _, r) \<Rightarrow> r)"

definition peek :: "ptr \<Rightarrow> string \<Rightarrow> bool" where
  "peek s toks = (case skip s of [] \<Rightarrow> False | c # _ \<Rightarrow> c \<in> set toks)"

lemma length_skip [simp]: "length (skip s) \<le> length s"
  by (simp add: skip_def length_dropWhile_le)

lemma length_skip_less: "length s \<le> n \<Longrightarrow> length (skip s) \<le> n"
  using length_skip [of s] by linarith

lemma skip_Nil [simp]: "skip [] = []"
  by (simp add: skip_def)

lemma skip_skip [simp]: "skip (skip s) = skip s"
  by (simp add: skip_def)

lemma gettoken_word:
  assumes "skip s = c # r" and "\<not> symbol c"
  shows "gettoken s = (CHR ''a'', c # r, dropWhile (\<lambda>c. \<not> white c \<and> \<not> symbol c) r, skip (dropWhile (\<lambda>c. \<not> white c \<and> \<not> symbol c) r))"
proof -
  have "\<not> white c" using assms(1) by (metis hd_dropWhile list.sel(1) list.simps(3) skip_def)
  then show ?thesis using assms by (auto simp: gettoken_def symbol_def Let_def)
qed

text \<open>A token that is there has at least one character.\<close>

lemma gettoken_shorter: "skip s \<noteq> [] \<Longrightarrow> gettoken s = (k, q, e, r) \<Longrightarrow> length r < length s"
proof -
  assume ne: "skip s \<noteq> []" and g: "gettoken s = (k, q, e, r)"
  then obtain c u where cu: "skip s = c # u" by (cases "skip s") auto
  then have "length u < length s" using length_skip [of s] by simp
  moreover have "length r \<le> length u"
  proof (cases "symbol c")
    case False
    then show ?thesis using gettoken_word [OF cu False] g
      by (auto intro: length_skip_less length_dropWhile_le)
  next
    case True
    then show ?thesis using g cu
      by (auto simp: gettoken_def Let_def symbol_def intro: length_skip_less split: list.splits if_splits)
  qed
  ultimately show ?thesis by linarith
qed

lemma after_token_shorter: "skip s \<noteq> [] \<Longrightarrow> length (after_token s) < length s"
  unfolding after_token_def using gettoken_shorter by (auto split: prod.split)

lemma peek_skip: "peek s toks \<Longrightarrow> skip s \<noteq> []"
  by (auto simp: peek_def split: list.splits)

section \<open>The parser\<close>

datatype 'a parsed = Parsed 'a ptr | Syntax string | NoFuel

fun pbind :: "'a parsed \<Rightarrow> ('a \<Rightarrow> ptr \<Rightarrow> 'b parsed) \<Rightarrow> 'b parsed" where
  "pbind (Parsed a s) f = f a s"
| "pbind (Syntax e) f = Syntax e"
| "pbind NoFuel f = NoFuel"

definition redir_tok :: "char \<Rightarrow> cmd \<Rightarrow> ptr \<Rightarrow> ptr \<Rightarrow> cmd" where
  "redir_tok tok c q eq =
     (if tok = CHR ''<'' then redircmd c q eq M_RDONLY 0
      else if tok = CHR ''>'' then redircmd c q eq (M_WRONLY + M_CREATE + M_TRUNC) 1
      else redircmd c q eq (M_WRONLY + M_CREATE) 1)"

function parseredirs :: "cmd \<Rightarrow> ptr \<Rightarrow> cmd parsed" where
  "parseredirs c s =
     (if peek s ''<>'' then
        (case gettoken (skip s) of (tok, _, _, s1) \<Rightarrow>
         case gettoken s1 of (t, q, eq, s2) \<Rightarrow>
           if t \<noteq> CHR ''a'' then Syntax ''missing file for redirection''
           else parseredirs (redir_tok tok c q eq) s2)
      else Parsed c (skip s))"
  by pat_completeness auto

lemma gettoken_no_longer: "gettoken s = (k, q, e, r) \<Longrightarrow> length r \<le> length s"
  by (cases "skip s = []") (auto simp: gettoken_def dest: gettoken_shorter)

lemma parseredirs_shorter:
  assumes "peek s ''<>''" and g: "(tok, q0, e0, s1) = gettoken (skip s)" "(t, q, eq, s2) = gettoken s1"
  shows "length s2 < length s"
proof -
  have "skip (skip s) \<noteq> []" using peek_skip [OF assms(1)] by simp
  then have "length s1 < length (skip s)" by (rule gettoken_shorter) (simp add: g(1) [symmetric])
  moreover have "length s2 \<le> length s1" by (rule gettoken_no_longer) (simp add: g(2) [symmetric])
  ultimately show ?thesis using length_skip [of s] by linarith
qed

termination parseredirs
  by (relation "measure (length o snd)") (auto dest: parseredirs_shorter)

declare parseredirs.simps [simp del]

text \<open>
  \<open>cmd\<close> in \<open>parseexec\<close> points to the command with the arguments, inside the redirections around it that
  \<open>ret\<close> points to.
\<close>

primrec add_arg :: "ptr \<times> ptr \<Rightarrow> cmd \<Rightarrow> cmd" where
  "add_arg a (EXEC as) = EXEC (as @ [a])"
| "add_arg a (REDIR c q eq m fd) = REDIR (add_arg a c) q eq m fd"
| "add_arg a (PIPE l r) = PIPE l r"
| "add_arg a (LIST l r) = LIST l r"
| "add_arg a (BACK c) = BACK c"

primrec parse_args :: "nat \<Rightarrow> nat \<Rightarrow> cmd \<Rightarrow> ptr \<Rightarrow> cmd parsed" where
  "parse_args 0 argc c s = NoFuel"
| "parse_args (Suc n) argc c s =
     (if peek s ''|)&;'' then Parsed c (skip s)
      else case gettoken (skip s) of (tok, q, eq, s1) \<Rightarrow>
        if tok = nulc then Parsed c s1
        else if tok \<noteq> CHR ''a'' then Syntax ''syntax''
        else if argc + 1 \<ge> MAXARGS then Syntax ''too many args''
        else pbind (parseredirs (add_arg (q, eq) c) s1) (parse_args n (argc + 1)))"

primrec parse_backs :: "nat \<Rightarrow> cmd \<Rightarrow> ptr \<Rightarrow> cmd parsed" where
  "parse_backs 0 c s = NoFuel"
| "parse_backs (Suc n) c s =
     (if peek s ''&'' then parse_backs n (backcmd c) (after_token (skip s)) else Parsed c (skip s))"

fun parseline :: "nat \<Rightarrow> ptr \<Rightarrow> cmd parsed"
and parsepipe :: "nat \<Rightarrow> ptr \<Rightarrow> cmd parsed"
and parseexec :: "nat \<Rightarrow> ptr \<Rightarrow> cmd parsed"
and parseblock :: "nat \<Rightarrow> ptr \<Rightarrow> cmd parsed" where
  "parseline 0 s = NoFuel"
| "parseline (Suc n) s =
     pbind (parsepipe n s) (\<lambda>c s.
     pbind (parse_backs n c s) (\<lambda>c s.
       if peek s '';'' then pbind (parseline n (after_token (skip s))) (\<lambda>r s. Parsed (listcmd c r) s)
       else Parsed c (skip s)))"
| "parsepipe 0 s = NoFuel"
| "parsepipe (Suc n) s =
     pbind (parseexec n s) (\<lambda>c s.
       if peek s ''|'' then pbind (parsepipe n (after_token (skip s))) (\<lambda>r s. Parsed (pipecmd c r) s)
       else Parsed c (skip s))"
| "parseexec 0 s = NoFuel"
| "parseexec (Suc n) s =
     (if peek s ''('' then parseblock n (skip s)
      else pbind (parseredirs execcmd (skip s)) (\<lambda>c s. parse_args n 0 c s))"
| "parseblock 0 s = NoFuel"
| "parseblock (Suc n) s =
     (if \<not> peek s ''('' then Syntax ''parseblock''
      else pbind (parseline n (after_token (skip s))) (\<lambda>c s.
        if \<not> peek s '')'' then Syntax ''syntax - missing )''
        else parseredirs c (after_token (skip s))))"

text \<open>\<open>nulterminate\<close> writes a NUL at the end of every string of the command, in the line \<open>buf\<close>.\<close>

definition put_nul :: "ptr \<Rightarrow> string \<Rightarrow> string" where
  "put_nul e buf = buf[length buf - length e := nulc]"

primrec nulterminate :: "cmd \<Rightarrow> string \<Rightarrow> string" where
  "nulterminate (EXEC as) buf = fold (\<lambda>a. put_nul (snd a)) as buf"
| "nulterminate (REDIR c q eq m fd) buf = put_nul eq (nulterminate c buf)"
| "nulterminate (PIPE l r) buf = nulterminate r (nulterminate l buf)"
| "nulterminate (LIST l r) buf = nulterminate r (nulterminate l buf)"
| "nulterminate (BACK c) buf = nulterminate c buf"

definition parse_fuel :: "ptr \<Rightarrow> nat" where
  "parse_fuel s = 4 * length s + 4"

text \<open>The command and the line with the NULs in it, or the message with which the shell gives up.\<close>

definition parsecmd :: "string \<Rightarrow> (cmd \<times> string) parsed" where
  "parsecmd s =
     pbind (parseline (parse_fuel s) s) (\<lambda>c s1.
       if skip s1 \<noteq> [] then Syntax (''leftovers: '' @ skip s1 @ [CHR 0x0A] @ ''syntax'') else Parsed (c, nulterminate c s) (skip s1))"

section \<open>Running a command\<close>

text \<open>
  A process as the system calls it makes: each call is followed by what the process does with its result.
  A fork has the child and what the parent does with the child's number. \<open>exec\<close> returns only when it fails.
\<close>

datatype sys = SClose int | SOpen string int | SDup int | SExec "string list" | SWait | SPrint int string | SChdir string

datatype prog =
    PExit int
  | PSys sys "int \<Rightarrow> prog"
  | PPipe "(int \<times> int) option \<Rightarrow> prog"
  | PFork prog "int \<Rightarrow> prog"

definition sh_panic :: "string \<Rightarrow> prog" where
  "sh_panic s = PSys (SPrint 2 (s @ [CHR 0x0A])) (\<lambda>_. PExit 1)"

definition fork1 :: "prog \<Rightarrow> (int \<Rightarrow> prog) \<Rightarrow> prog" where
  "fork1 child k = PFork child (\<lambda>pid. if pid = -1 then sh_panic ''fork'' else k pid)"

text \<open>The commands here have their strings; those of a parsed line are the C strings at its pointers.\<close>

datatype tcmd =
    TExec "string list"
  | TRedir tcmd string int int
  | TPipe tcmd tcmd
  | TList tcmd tcmd
  | TBack tcmd

primrec runcmd :: "tcmd \<Rightarrow> prog" where
  "runcmd (TExec as) =
     (if as = [] then PExit 1
      else PSys (SExec as) (\<lambda>_. PSys (SPrint 2 (''exec '' @ hd as @ '' failed'' @ [CHR 0x0A])) (\<lambda>_. PExit 0)))"
| "runcmd (TRedir c f m fd) =
     PSys (SClose fd) (\<lambda>_. PSys (SOpen f m) (\<lambda>r.
       if r < 0 then PSys (SPrint 2 (''open '' @ f @ '' failed'' @ [CHR 0x0A])) (\<lambda>_. PExit 1) else runcmd c))"
| "runcmd (TList l r) = fork1 (runcmd l) (\<lambda>_. PSys SWait (\<lambda>_. runcmd r))"
| "runcmd (TPipe l r) =
     PPipe (\<lambda>p. case p of
       None \<Rightarrow> sh_panic ''pipe''
     | Some (p0, p1) \<Rightarrow>
         fork1 (PSys (SClose 1) (\<lambda>_. PSys (SDup p1) (\<lambda>_. PSys (SClose p0) (\<lambda>_. PSys (SClose p1) (\<lambda>_. runcmd l))))) (\<lambda>_.
         fork1 (PSys (SClose 0) (\<lambda>_. PSys (SDup p0) (\<lambda>_. PSys (SClose p0) (\<lambda>_. PSys (SClose p1) (\<lambda>_. runcmd r))))) (\<lambda>_.
         PSys (SClose p0) (\<lambda>_. PSys (SClose p1) (\<lambda>_. PSys SWait (\<lambda>_. PSys SWait (\<lambda>_. PExit 0)))))))"
| "runcmd (TBack c) = fork1 (runcmd c) (\<lambda>_. PExit 0)"

section \<open>What the parser gives\<close>

primrec pairs :: "cmd \<Rightarrow> (ptr \<times> ptr) list" where
  "pairs (EXEC as) = as"
| "pairs (REDIR c q eq m fd) = pairs c @ [(q, eq)]"
| "pairs (PIPE l r) = pairs l @ pairs r"
| "pairs (LIST l r) = pairs l @ pairs r"
| "pairs (BACK c) = pairs c"

primrec small :: "cmd \<Rightarrow> bool" where
  "small (EXEC as) \<longleftrightarrow> length as < MAXARGS"
| "small (REDIR c q eq m fd) \<longleftrightarrow> small c"
| "small (PIPE l r) \<longleftrightarrow> small l \<and> small r"
| "small (LIST l r) \<longleftrightarrow> small l \<and> small r"
| "small (BACK c) \<longleftrightarrow> small c"

text \<open>A pair of pointers around a word of the line.\<close>

definition wordc :: "char \<Rightarrow> bool" where
  "wordc c \<longleftrightarrow> \<not> white c \<and> \<not> symbol c"

definition is_word :: "string \<Rightarrow> ptr \<times> ptr \<Rightarrow> bool" where
  "is_word buf a \<longleftrightarrow> suffix (fst a) buf \<and> (\<exists>w. fst a = w @ snd a \<and> w \<noteq> [] \<and> (\<forall>c \<in> set w. wordc c))
     \<and> (snd a = [] \<or> \<not> wordc (hd (snd a)))"

definition good :: "string \<Rightarrow> cmd \<Rightarrow> bool" where
  "good buf c \<longleftrightarrow> small c \<and> (\<forall>a \<in> set (pairs c). is_word buf a)"

definition gives :: "string \<Rightarrow> ptr \<Rightarrow> cmd parsed \<Rightarrow> bool" where
  "gives buf s p \<longleftrightarrow> p \<noteq> NoFuel \<and> (\<forall>c r. p = Parsed c r \<longrightarrow> good buf c \<and> suffix r s)"

lemma gives_simps [simp]:
  "gives buf s (Parsed c r) \<longleftrightarrow> good buf c \<and> suffix r s" "gives buf s (Syntax e)" "\<not> gives buf s NoFuel"
  by (simp_all add: gives_def)

lemma gives_bind: "gives buf s p \<Longrightarrow> (\<And>c r. good buf c \<Longrightarrow> suffix r s \<Longrightarrow> gives buf t (f c r)) \<Longrightarrow> gives buf t (pbind p f)"
  by (cases p) auto

lemma gives_mono: "gives buf s p \<Longrightarrow> suffix s t \<Longrightarrow> gives buf t p"
  by (auto simp: gives_def)

lemma suffix_skip [simp]: "suffix (skip s) s"
  by (simp add: skip_def suffix_dropWhile)

lemma suffix_skip_trans: "suffix s t \<Longrightarrow> suffix (skip s) t"
  using suffix_skip suffix_order.trans by blast

lemma gettoken_suffix:
  assumes "gettoken s = (k, q, e, r)"
  shows "suffix q s" "suffix e s" "suffix r s"
proof -
  have "suffix q s \<and> suffix e s \<and> suffix r s"
  proof (cases "skip s")
    case Nil
    then show ?thesis using assms by (simp add: gettoken_def)
  next
    case (Cons c u)
    have cu: "suffix (c # u) s" using suffix_skip [of s] by (simp add: Cons)
    then have u: "suffix u s" by (metis suffix_ConsD)
    show ?thesis
    proof (cases "symbol c")
      case False
      have "suffix (dropWhile (\<lambda>c. \<not> white c \<and> \<not> symbol c) u) s" using u by (meson suffix_dropWhile suffix_order.trans)
      then show ?thesis using gettoken_word [OF Cons False] assms cu by (auto intro: suffix_skip_trans)
    next
      case True
      then show ?thesis using assms Cons cu u
        by (auto simp: gettoken_def Let_def symbol_def intro: suffix_skip_trans dest: suffix_ConsD split: list.splits if_splits)
    qed
  qed
  then show "suffix q s" "suffix e s" "suffix r s" by simp_all
qed

lemma suffix_after [simp]: "suffix (after_token (skip s)) s"
proof -
  obtain k q e r where g: "gettoken (skip s) = (k, q, e, r)" by (cases "gettoken (skip s)") auto
  then have "suffix r (skip s)" by (rule gettoken_suffix(3))
  then have "suffix r s" using suffix_skip by (rule suffix_order.trans)
  then show ?thesis by (simp add: after_token_def g)
qed

lemma gettoken_a:
  assumes "gettoken s = (CHR ''a'', q, e, r)" and "suffix s buf"
  shows "is_word buf (q, e)"
proof (cases "skip s")
  case Nil
  then show ?thesis using assms by (simp add: gettoken_def)
next
  case (Cons c u)
  show ?thesis
  proof (cases "symbol c")
    case True
    then show ?thesis using assms(1) Cons by (auto simp: gettoken_def Let_def symbol_def split: list.splits if_splits)
  next
    case False
    have "\<not> white c" using Cons by (metis hd_dropWhile list.sel(1) list.simps(3) skip_def)
    moreover have "q = c # u" "e = dropWhile wordc u"
      using gettoken_word [OF Cons False] assms(1) by (simp_all add: wordc_def [abs_def])
    moreover have "suffix q buf" using gettoken_suffix(1) [OF assms(1)] assms(2) by (meson suffix_order.trans)
    moreover have "\<forall>x \<in> set (takeWhile wordc u). wordc x" by (meson set_takeWhileD)
    moreover have "dropWhile wordc u \<noteq> [] \<longrightarrow> \<not> wordc (hd (dropWhile wordc u))" by (simp add: hd_dropWhile)
    ultimately show ?thesis using False unfolding is_word_def
      by (intro conjI exI [of _ "c # takeWhile wordc u"]) (auto simp: wordc_def)
  qed
qed

lemma good_redir_tok: "good buf c \<Longrightarrow> is_word buf (q, eq) \<Longrightarrow> good buf (redir_tok tok c q eq)"
  by (auto simp: good_def redir_tok_def)

lemma parseredirs_gives:
  assumes "suffix s buf" and "good buf c"
  shows "gives buf s (parseredirs c s)"
  using assms
proof (induction c s rule: parseredirs.induct)
  case (1 c s)
  show ?case
  proof (cases "peek s ''<>''")
    case False
    then show ?thesis using 1(3) by (subst parseredirs.simps) simp
  next
    case True
    obtain tok q0 e0 s1 where g1: "gettoken (skip s) = (tok, q0, e0, s1)" by (cases "gettoken (skip s)") auto
    obtain t q eq s2 where g2: "gettoken s1 = (t, q, eq, s2)" by (cases "gettoken s1") auto
    have s1: "suffix s1 s" using gettoken_suffix(3) [OF g1] suffix_skip suffix_order.trans by blast
    have s2: "suffix s2 s" using gettoken_suffix(3) [OF g2] s1 suffix_order.trans by blast
    show ?thesis
    proof (cases "t = CHR ''a''")
      case a: True
      have "suffix s1 buf" using s1 1(2) by (rule suffix_order.trans)
      then have "is_word buf (q, eq)" by (rule gettoken_a [OF g2 [unfolded a]])
      then have "gives buf s2 (parseredirs (redir_tok tok c q eq) s2)"
        using 1(1) [OF True g1 [symmetric] refl refl g2 [symmetric] refl refl] a s2 1(2,3)
        by (auto intro: suffix_order.trans good_redir_tok)
      then show ?thesis using s2 by (subst parseredirs.simps) (auto simp: True g1 g2 a intro: gives_mono)
    next
      case False
      then show ?thesis by (subst parseredirs.simps) (simp add: True g1 g2)
    qed
  qed
qed

lemma parse_backs_gives:
  "length s < n \<Longrightarrow> good buf c \<Longrightarrow> gives buf s (parse_backs n c s)"
proof (induction n arbitrary: c s)
  case (Suc n)
  show ?case
  proof (cases "peek s ''&''")
    case True
    then have "skip (skip s) \<noteq> []" using peek_skip by simp
    from after_token_shorter [OF this] have "length (after_token (skip s)) < n" using Suc.prems(1) length_skip [of s] by linarith
    then show ?thesis using True Suc.IH [of "after_token (skip s)" "BACK c"] Suc.prems(2)
      by (auto simp: good_def intro: gives_mono suffix_after)
  qed (use Suc.prems in simp)
qed simp

text \<open>The number of arguments of the command inside the redirections.\<close>

primrec argcount :: "cmd \<Rightarrow> nat" where
  "argcount (EXEC as) = length as"
| "argcount (REDIR c q eq m fd) = argcount c"
| "argcount (PIPE l r) = 0"
| "argcount (LIST l r) = 0"
| "argcount (BACK c) = 0"

primrec simple :: "cmd \<Rightarrow> bool" where
  "simple (EXEC as) \<longleftrightarrow> True"
| "simple (REDIR c q eq m fd) \<longleftrightarrow> simple c"
| "simple (PIPE l r) \<longleftrightarrow> False"
| "simple (LIST l r) \<longleftrightarrow> False"
| "simple (BACK c) \<longleftrightarrow> False"

lemma argcount_redir_tok [simp]: "argcount (redir_tok tok c q eq) = argcount c" "simple (redir_tok tok c q eq) = simple c"
  by (simp_all add: redir_tok_def)

lemma argcount_parseredirs:
  "parseredirs c s = Parsed c' r \<Longrightarrow> argcount c' = argcount c \<and> simple c' = simple c"
proof (induction c s rule: parseredirs.induct)
  case (1 c s)
  show ?case
  proof (cases "peek s ''<>''")
    case False
    then show ?thesis using 1(2) by (subst (asm) parseredirs.simps) simp
  next
    case True
    obtain tok q0 e0 s1 where g1: "gettoken (skip s) = (tok, q0, e0, s1)" by (cases "gettoken (skip s)") auto
    obtain t q eq s2 where g2: "gettoken s1 = (t, q, eq, s2)" by (cases "gettoken s1") auto
    have "t = CHR ''a''" "parseredirs (redir_tok tok c q eq) s2 = Parsed c' r"
      using 1(2) by (subst (asm) parseredirs.simps, auto simp: True g1 g2 split: if_splits)+
    then show ?thesis using 1(1) [OF True g1 [symmetric] refl refl g2 [symmetric] refl refl] by simp
  qed
qed

lemma add_arg_facts:
  assumes "simple c"
  shows "argcount (add_arg a c) = Suc (argcount c)" and "simple (add_arg a c)"
    and "small (add_arg a c) \<longleftrightarrow> Suc (argcount c) < MAXARGS" and "set (pairs (add_arg a c)) = insert a (set (pairs c))"
  using assms by (induction c) auto

lemma parse_args_gives:
  assumes "length s < n" and "suffix s buf" and "good buf c" and "simple c" and "argcount c = argc"
  shows "gives buf s (parse_args n argc c s)"
  using assms
proof (induction n arbitrary: argc c s)
  case (Suc n)
  obtain tok q eq s1 where g: "gettoken (skip s) = (tok, q, eq, s1)" by (cases "gettoken (skip s)") auto
  have "suffix s1 (skip s)" by (rule gettoken_suffix(3) [OF g])
  then have s1: "suffix s1 s" using suffix_skip by (rule suffix_order.trans)
  show ?case
  proof (cases "peek s ''|)&;'' \<or> tok = nulc \<or> tok \<noteq> CHR ''a'' \<or> argc + 1 \<ge> MAXARGS")
    case True
    then show ?thesis using Suc.prems(3) s1 by (auto simp: g)
  next
    case False
    then have a: "tok = CHR ''a''" "argc + 1 < MAXARGS" by simp_all
    have "suffix (skip s) buf" using suffix_skip Suc.prems(2) by (rule suffix_order.trans)
    then have w: "is_word buf (q, eq)" by (rule gettoken_a [OF g [unfolded a(1)]])
    let ?c = "add_arg (q, eq) c"
    have c: "good buf ?c" "simple ?c" "argcount ?c = argc + 1"
      using add_arg_facts [OF Suc.prems(4), of "(q, eq)"] Suc.prems(3,5) w a(2) by (auto simp: good_def)
    have "skip s \<noteq> []" using g a(1) by (auto simp: gettoken_def)
    then have "length s1 < length (skip s)" by (intro gettoken_shorter [OF _ g]) simp
    then have len: "length s1 < length s" using length_skip [of s] by linarith
    have "gives buf s (pbind (parseredirs ?c s1) (parse_args n (argc + 1)))"
    proof (cases "parseredirs ?c s1")
      case (Parsed d r)
      have d: "good buf d" "suffix r s1" using parseredirs_gives [of s1 buf ?c] c(1) s1 Suc.prems(2) Parsed by (auto intro: suffix_order.trans)
      have "gives buf r (parse_args n (argc + 1) d r)"
        using d c argcount_parseredirs [OF Parsed] len suffix_length_le [OF d(2)] Suc.prems(1,2) s1
        by (intro Suc.IH) (auto intro: suffix_order.trans)
      then have "gives buf s (parse_args n (argc + 1) d r)"
        by (rule gives_mono) (use d(2) s1 in \<open>rule suffix_order.trans\<close>)
      then show ?thesis by (simp add: Parsed)
    next
      case NoFuel
      then show ?thesis using parseredirs_gives [of s1 buf ?c] c(1) s1 Suc.prems(2) by (auto intro: suffix_order.trans)
    qed simp
    then show ?thesis using False by (simp add: g)
  qed
qed simp

text \<open>
  Four units of fuel for every character: each of the four functions calls the next with one unit less, and
  comes back to the first only after a token.
\<close>

lemma after_peek:
  assumes "suffix r s" and "peek r toks"
  shows "length (after_token (skip r)) < length s" and "suffix (after_token (skip r)) s"
proof -
  have "skip (skip r) \<noteq> []" using assms(2) peek_skip by simp
  from after_token_shorter [OF this] show "length (after_token (skip r)) < length s"
    using length_skip [of r] suffix_length_le [OF assms(1)] by linarith
  show "suffix (after_token (skip r)) s" using suffix_after assms(1) by (rule suffix_order.trans)
qed

text \<open>After a separator the rest is parsed and joined; without one, the command is the result.\<close>

lemma gives_join:
  assumes "suffix t s" and "good buf d" and "\<And>c. good buf c \<Longrightarrow> good buf (f c)"
    and "peek t toks \<Longrightarrow> gives buf (after_token (skip t)) p"
  shows "gives buf s (if peek t toks then pbind p (\<lambda>r. Parsed (f r)) else Parsed d (skip t))"
proof (cases "peek t toks")
  case True
  have "gives buf s (pbind p (\<lambda>r. Parsed (f r)))"
    by (rule gives_bind [OF assms(4) [OF True]]) (use assms(3) after_peek(2) [OF assms(1) True] in \<open>auto intro: suffix_order.trans\<close>)
  then show ?thesis using True by simp
qed (use assms(1,2) in \<open>auto intro: suffix_skip_trans\<close>)

lemma parse_gives:
  "4 * length s + 4 \<le> n \<Longrightarrow> suffix s buf \<Longrightarrow> gives buf s (parseline n s)"
  "4 * length s + 3 \<le> n \<Longrightarrow> suffix s buf \<Longrightarrow> gives buf s (parsepipe n s)"
  "4 * length s + 2 \<le> n \<Longrightarrow> suffix s buf \<Longrightarrow> gives buf s (parseexec n s)"
  "4 * length s + 1 \<le> n \<Longrightarrow> suffix s buf \<Longrightarrow> gives buf s (parseblock n s)"
proof (induction n arbitrary: s)
  case (Suc n)
  note IH = Suc.IH
  { case 1
    have line: "gives buf (after_token (skip t)) (parseline n (after_token (skip t)))" if "suffix t s" "peek t toks" for t toks
      using 1 after_peek [OF that] by (intro IH(1)) (auto intro: suffix_order.trans)
    have "gives buf s (parsepipe n s)" using 1 by (intro IH(2)) auto
    moreover have "gives buf s (pbind (parse_backs n c r) (\<lambda>c s. if peek s '';'' then pbind (parseline n (after_token (skip s))) (\<lambda>r. Parsed (LIST c r)) else Parsed c (skip s)))"
      if c: "good buf c" and r: "suffix r s" for c r
    proof (rule gives_bind)
      show "gives buf r (parse_backs n c r)" using 1 suffix_length_le [OF r] c by (intro parse_backs_gives) auto
      fix d t assume "good buf d" and t: "suffix t r"
      then show "gives buf s (if peek t '';'' then pbind (parseline n (after_token (skip t))) (\<lambda>r. Parsed (LIST d r)) else Parsed d (skip t))"
        using suffix_order.trans [OF t r] line by (intro gives_join) (auto simp: good_def)
    qed
    ultimately show ?case unfolding parseline.simps listcmd_def by (rule gives_bind)
  next case 2
    have "gives buf (after_token (skip t)) (parsepipe n (after_token (skip t)))" if "suffix t s" "peek t toks" for t toks
      using 2 after_peek [OF that] by (intro IH(2)) (auto intro: suffix_order.trans)
    moreover have "gives buf s (parseexec n s)" using 2 by (intro IH(3)) auto
    ultimately show ?case unfolding parsepipe.simps pipecmd_def by (elim gives_bind) (intro gives_join, auto simp: good_def)
  next case 3
    have "4 * length (skip s) + 1 \<le> n" using 3(1) length_skip [of s] by linarith
    then have "gives buf (skip s) (parseblock n (skip s))" using 3(2) by (intro IH(4)) (auto intro: suffix_skip_trans)
    moreover have pr: "gives buf (skip s) (parseredirs (EXEC []) (skip s))"
      using 3(2) by (intro parseredirs_gives) (auto simp: good_def MAXARGS_def intro: suffix_skip_trans)
    have "gives buf s (pbind (parseredirs (EXEC []) (skip s)) (parse_args n 0))"
    proof (cases "parseredirs (EXEC []) (skip s)")
      case (Parsed c r)
      have c: "good buf c \<and> suffix r (skip s)" using pr Parsed by simp
      then have rs: "suffix r s" using suffix_skip suffix_order.trans by blast
      then have "gives buf r (parse_args n 0 c r)"
        using c argcount_parseredirs [OF Parsed] 3 suffix_length_le [OF rs] by (intro parse_args_gives) (auto intro: suffix_order.trans)
      then show ?thesis using rs by (auto simp: Parsed intro: gives_mono)
    qed (use pr in auto)
    ultimately show ?case by (auto intro: gives_mono)
  next case 4
    show ?case
    proof (cases "peek s ''(''")
      case True
      note st = after_peek [OF suffix_order.refl True]
      have "suffix (after_token (skip s)) buf" using st(2) 4(2) by (rule suffix_order.trans)
      then have "gives buf (after_token (skip s)) (parseline n (after_token (skip s)))"
        using 4(1) st(1) by (intro IH(1)) auto
      moreover have "gives buf s (parseredirs c (after_token (skip r)))"
        if "good buf c" "suffix r (after_token (skip s))" "peek r '')''" for c r
      proof -
        have "suffix (after_token (skip r)) s" using after_peek(2) [OF that(2,3)] st(2) by (rule suffix_order.trans)
        then show ?thesis using parseredirs_gives [of _ buf c] that(1) 4 by (meson gives_mono suffix_order.trans)
      qed
      ultimately show ?thesis using True by (simp, elim gives_bind) auto
    qed simp }
qed simp_all

section \<open>The strings of the command\<close>

text \<open>What the characters from \<open>q\<close> up to \<open>eq\<close> are, and the C string at \<open>q\<close> in a line.\<close>

definition token_text :: "ptr \<times> ptr \<Rightarrow> string" where
  "token_text a = take (length (fst a) - length (snd a)) (fst a)"

definition cstring_at :: "string \<Rightarrow> nat \<Rightarrow> ptr \<Rightarrow> string" where
  "cstring_at buf n q = takeWhile (\<lambda>c. c \<noteq> nulc) (drop (n - length q) buf)"

definition nul_at :: "string \<Rightarrow> (ptr \<times> ptr) list \<Rightarrow> string \<Rightarrow> bool" where
  "nul_at buf as b \<longleftrightarrow> length b = length buf
     \<and> (\<forall>i < length buf. b ! i = (if \<exists>a \<in> set as. i = length buf - length (snd a) then nulc else buf ! i))"

lemma nul_at_put:
  assumes "nul_at buf as b"
  shows "nul_at buf (as @ [a]) (put_nul (snd a) b)"
proof -
  have "put_nul (snd a) b ! i = (if i = length buf - length (snd a) then nulc else b ! i)" if "i < length buf" for i
    using that assms by (auto simp: put_nul_def nul_at_def)
  then show ?thesis using assms by (auto simp: nul_at_def put_nul_def)
qed

lemma nul_at_fold: "nul_at buf xs b \<Longrightarrow> nul_at buf (xs @ as) (fold (\<lambda>a. put_nul (snd a)) as b)"
proof (induction as arbitrary: xs b)
  case (Cons a as)
  show ?case using Cons.IH [OF nul_at_put [OF Cons.prems, of a]] by simp
qed simp

lemma nul_at_nulterminate: "nul_at buf xs b \<Longrightarrow> nul_at buf (xs @ pairs c) (nulterminate c b)"
proof (induction c arbitrary: xs b)
  case (REDIR c q eq m fd)
  then show ?case using nul_at_put [of buf "xs @ pairs c" "nulterminate c b" "(q, eq)"] by simp
next
  case (PIPE l r)
  then show ?case by (metis append_assoc nulterminate.simps(3) pairs.simps(3))
next
  case (LIST l r)
  then show ?case by (metis append_assoc nulterminate.simps(4) pairs.simps(4))
qed (auto simp: nul_at_fold)

text \<open>No NUL is written into a word, since a word ends before a character that no word has.\<close>

lemma nulterminate_word:
  assumes b: "nul_at buf as b" and w: "\<forall>a \<in> set as. is_word buf a" and a: "a \<in> set as" and nn: "nulc \<notin> set buf"
  shows "cstring_at b (length buf) (fst a) = token_text a"
proof -
  obtain q e where qe: "a = (q, e)" by (cases a)
  obtain u x where u: "buf = u @ q" and x: "q = x @ e" "\<forall>c \<in> set x. wordc c"
    using w a qe by (fastforce simp: is_word_def suffix_def)
  have clean: "\<not> (\<exists>a \<in> set as. i = length buf - length (snd a))" if i: "length u \<le> i" "i < length u + length x" for i
  proof
    assume "\<exists>a \<in> set as. i = length buf - length (snd a)"
    then obtain a2 where a2: "a2 \<in> set as" "i = length buf - length (snd a2)" by blast
    have "suffix (snd a2) buf" using w a2(1) by (fastforce simp: is_word_def suffix_def)
    then obtain v where v: "buf = v @ snd a2" by (auto simp: suffix_def)
    then have iv: "i = length v" using a2(2) by simp
    have ib: "i < length buf" using i u x(1) by simp
    then have "snd a2 \<noteq> []" using v iv by auto
    moreover from this have "buf ! i = hd (snd a2)" using v iv by (cases "snd a2") auto
    ultimately have "\<not> wordc (buf ! i)" using w a2(1) by (auto simp: is_word_def)
    moreover have "i - length u < length x" using i by linarith
    moreover from this have "buf ! i = x ! (i - length u)" using i u x(1) by (simp add: nth_append)
    ultimately show False using x(2) by (metis nth_mem)
  qed
  have dr: "drop (length buf - length q) b = x @ drop (length u + length x) b"
  proof (rule nth_equalityI)
    show "length (drop (length buf - length q) b) = length (x @ drop (length u + length x) b)"
      using b u x(1) by (simp add: nul_at_def)
    fix i assume "i < length (drop (length buf - length q) b)"
    then have i: "length u + i < length buf" using b u by (simp add: nul_at_def)
    show "drop (length buf - length q) b ! i = (x @ drop (length u + length x) b) ! i"
    proof (cases "i < length x")
      case True
      then have "b ! (length u + i) = buf ! (length u + i)" using b i clean [of "length u + i"] by (auto simp: nul_at_def)
      then show ?thesis using True b u x(1) i by (simp add: nul_at_def nth_append)
    qed (use b u x(1) i in \<open>simp add: nul_at_def nth_append\<close>)
  qed
  have "takeWhile (\<lambda>c. c \<noteq> nulc) (drop (length u + length x) b) = []"
  proof (cases "e = []")
    case True
    then show ?thesis using b u x(1) by (simp add: nul_at_def)
  next
    case False
    then have "length u + length x < length buf" using u x(1) by simp
    moreover have "\<exists>a \<in> set as. length u + length x = length buf - length (snd a)" using a qe u x(1) by force
    ultimately have "b ! (length u + length x) = nulc" using b by (simp add: nul_at_def)
    moreover have "length u + length x < length b" using b \<open>length u + length x < length buf\<close> by (simp add: nul_at_def)
    ultimately show ?thesis by (simp add: Cons_nth_drop_Suc [symmetric])
  qed
  moreover have "\<forall>c \<in> set x. c \<noteq> nulc" using nn u x(1) by auto
  ultimately have "takeWhile (\<lambda>c. c \<noteq> nulc) (drop (length buf - length q) b) = x" by (simp add: dr)
  then show ?thesis by (simp add: cstring_at_def token_text_def qe x(1))
qed

declare parseline.simps [simp del] parsepipe.simps [simp del] parseexec.simps [simp del] parseblock.simps [simp del]

section \<open>Printing a command\<close>

text \<open>What the pointers of a command stand for, given what one pair of them does.\<close>

primrec texts :: "(ptr \<times> ptr \<Rightarrow> string) \<Rightarrow> cmd \<Rightarrow> tcmd" where
  "texts f (EXEC as) = TExec (map f as)"
| "texts f (REDIR c q eq m fd) = TRedir (texts f c) (f (q, eq)) m fd"
| "texts f (PIPE l r) = TPipe (texts f l) (texts f r)"
| "texts f (LIST l r) = TList (texts f l) (texts f r)"
| "texts f (BACK c) = TBack (texts f c)"

lemma texts_cong: "(\<And>a. a \<in> set (pairs c) \<Longrightarrow> f a = g a) \<Longrightarrow> texts f c = texts g c"
  by (induction c) auto

definition cstrings :: "string \<Rightarrow> nat \<Rightarrow> cmd \<Rightarrow> tcmd" where
  "cstrings b n c = texts (\<lambda>a. cstring_at b n (fst a)) c"

text \<open>
  What the main loop does with a line, before it reads the next one: \<open>cd\<close> in the shell itself, every other
  command in a child, which the shell waits for. A line that does not parse ends only the child.
\<close>

definition sh_line :: "string \<Rightarrow> (int \<Rightarrow> prog) \<Rightarrow> prog" where
  "sh_line buf again =
     (if take 3 buf = ''cd '' then
        (let dir = drop 3 (butlast buf) in
         PSys (SChdir dir) (\<lambda>r. if r < 0 then PSys (SPrint 2 (''cannot cd '' @ dir @ [CHR 0x0A])) again else again r))
      else
        fork1
          (case parsecmd buf of
             Parsed (c, b) _ \<Rightarrow> runcmd (cstrings b (length buf) c)
           | Syntax e \<Rightarrow> sh_panic e
           | NoFuel \<Rightarrow> PExit 1)
          (\<lambda>_. PSys SWait again))"

definition word :: "string \<Rightarrow> bool" where
  "word w \<longleftrightarrow> w \<noteq> [] \<and> (\<forall>c \<in> set w. wordc c \<and> c \<noteq> nulc)"

definition redir_op :: "int \<Rightarrow> int \<Rightarrow> string" where
  "redir_op m fd = (if m = M_RDONLY then ''<'' else if m = M_WRONLY + M_CREATE + M_TRUNC then ''>'' else ''>>'')"

primrec printable :: "tcmd \<Rightarrow> bool" where
  "printable (TExec as) \<longleftrightarrow> length as < MAXARGS \<and> (\<forall>a \<in> set as. word a)"
| "printable (TRedir c f m fd) \<longleftrightarrow> printable c \<and> word f
     \<and> (m, fd) \<in> {(M_RDONLY, 0), (M_WRONLY + M_CREATE + M_TRUNC, 1), (M_WRONLY + M_CREATE, 1)}"
| "printable (TPipe l r) \<longleftrightarrow> printable l \<and> printable r"
| "printable (TList l r) \<longleftrightarrow> printable l \<and> printable r"
| "printable (TBack c) \<longleftrightarrow> printable c"

primrec show_cmd :: "tcmd \<Rightarrow> string" where
  "show_cmd (TExec as) = concat (map (\<lambda>a. a @ '' '') as)"
| "show_cmd (TRedir c f m fd) = ''('' @ show_cmd c @ '')'' @ redir_op m fd @ f @ '' ''"
| "show_cmd (TPipe l r) = ''('' @ show_cmd l @ '')|('' @ show_cmd r @ '')''"
| "show_cmd (TList l r) = ''('' @ show_cmd l @ '');('' @ show_cmd r @ '')''"
| "show_cmd (TBack c) = ''('' @ show_cmd c @ '')&''"

definition stops :: "ptr \<Rightarrow> bool" where
  "stops s \<longleftrightarrow> s = [] \<or> hd s \<in> set '')|;&''"

lemma skip_Cons: "\<not> white c \<Longrightarrow> skip (c # s) = c # s"
  by (simp add: skip_def)

lemma symbol_not_white: "symbol c \<Longrightarrow> \<not> white c"
  by (auto simp: symbol_def white_def)

lemma stops_skip: "stops s \<Longrightarrow> skip s = s"
  by (cases s) (auto simp: stops_def skip_def white_def)

lemma gettoken_symbol: "c \<in> set ''|();&<'' \<Longrightarrow> gettoken (c # s) = (c, c # s, s, skip s)"
  using symbol_not_white [of c] by (auto simp: gettoken_def Let_def skip_Cons symbol_def)

lemma after_symbol: "c \<in> set ''|();&<'' \<Longrightarrow> after_token (c # s) = skip s"
  by (simp add: after_token_def gettoken_symbol)

lemma gettoken_of_word:
  assumes "word w" and "\<not> wordc d"
  shows "gettoken (w @ d # s) = (CHR ''a'', w @ d # s, d # s, skip (d # s))" and "skip (w @ d # s) = w @ d # s"
proof -
  obtain c v where w: "w = c # v" "\<not> white c" "\<not> symbol c" "\<forall>x \<in> set v. wordc x"
    using assms(1) by (cases w) (auto simp: word_def wordc_def)
  show sk: "skip (w @ d # s) = w @ d # s" using w by (simp add: skip_Cons)
  have "dropWhile wordc (v @ d # s) = d # s" using w(4) assms(2) by (simp add: dropWhile_append3 dropWhile_eq_Nil_conv)
  then show "gettoken (w @ d # s) = (CHR ''a'', w @ d # s, d # s, skip (d # s))"
    using gettoken_word [of "w @ d # s" c "v @ d # s"] sk w by (simp add: wordc_def [abs_def])
qed

lemma peek_nonwhite: "\<not> white c \<Longrightarrow> peek (c # s) toks \<longleftrightarrow> c \<in> set toks"
  by (simp add: peek_def skip_Cons)

lemma peek_stops: "stops s \<Longrightarrow> peek s toks \<longleftrightarrow> s \<noteq> [] \<and> hd s \<in> set toks"
  by (cases s) (simp_all add: peek_def stops_skip)

lemma parseredirs_none: "\<not> peek s ''<>'' \<Longrightarrow> parseredirs c s = Parsed c (skip s)"
  by (subst parseredirs.simps) simp

lemma stops_no_redirs: "stops s \<Longrightarrow> parseredirs c s = Parsed c s"
  by (subst parseredirs_none) (auto simp: peek_stops stops_skip stops_def)

lemma not_wordc_space: "\<not> wordc (CHR '' '')" "white (CHR '' '')"
  by (simp_all add: wordc_def white_def)

lemma skip_space: "skip (CHR '' '' # s) = skip s"
  by (simp add: skip_def not_wordc_space)

text \<open>One redirection, then something that ends it.\<close>

lemma parseredirs_one:
  assumes m: "(m, fd) \<in> {(M_RDONLY, 0), (M_WRONLY + M_CREATE + M_TRUNC, 1), (M_WRONLY + M_CREATE, 1)}"
    and f: "word f" and s: "stops s"
  shows "\<exists>q eq. parseredirs c (redir_op m fd @ f @ CHR '' '' # s) = Parsed (REDIR c q eq m fd) s \<and> token_text (q, eq) = f"
proof -
  let ?t = "f @ CHR '' '' # s"
  obtain a v where a: "f = a # v" "wordc a" using f by (cases f) (auto simp: word_def)
  then have na: "a \<noteq> CHR ''>''" "\<not> white a" by (auto simp: wordc_def symbol_def)
  obtain tok where tok: "gettoken (redir_op m fd @ ?t) = (tok, redir_op m fd @ ?t, ?t, ?t)" "redir_tok tok c q eq = REDIR c q eq m fd"
    for q eq
    using m na a(1) that [of "if m = M_RDONLY then CHR ''<'' else if m = M_WRONLY + M_CREATE + M_TRUNC then CHR ''>'' else CHR ''+''"]
    by (auto simp: redir_op_def gettoken_def Let_def skip_Cons white_def redir_tok_def M_RDONLY_def M_WRONLY_def M_CREATE_def M_TRUNC_def)
  have sk: "skip (redir_op m fd @ ?t) = redir_op m fd @ ?t" "peek (redir_op m fd @ ?t) ''<>''"
    by (simp_all add: redir_op_def skip_Cons peek_nonwhite white_def)
  have w: "gettoken ?t = (CHR ''a'', ?t, CHR '' '' # s, s)"
    using gettoken_of_word(1) [OF f not_wordc_space(1), of s] by (simp add: skip_space stops_skip [OF s])
  have "parseredirs c (redir_op m fd @ ?t) = Parsed (REDIR c ?t (CHR '' '' # s) m fd) s"
    by (subst parseredirs.simps) (simp add: sk tok w stops_no_redirs [OF s])
  then show ?thesis by (auto simp: token_text_def)
qed

text \<open>The arguments of a command.\<close>

lemma parse_args_words:
  assumes "\<forall>a \<in> set as. word a" and "stops s" and "argc + length as < MAXARGS" and "length as < n"
  shows "\<exists>bs. parse_args n argc (EXEC xs) (concat (map (\<lambda>a. a @ '' '') as) @ s) = Parsed (EXEC (xs @ bs)) s \<and> map token_text bs = as"
  using assms
proof (induction as arbitrary: n argc xs)
  case Nil
  then obtain m where n: "n = Suc m" by (cases n) auto
  show ?case
  proof (cases s)
    case Nil
    then show ?thesis by (simp add: n peek_def gettoken_def)
  next
    case (Cons c r)
    then have "peek s ''|)&;''" using assms(2) by (auto simp: peek_stops stops_def)
    then show ?thesis using assms(2) by (simp add: n stops_skip)
  qed
next
  case (Cons a as)
  then obtain m where n: "n = Suc m" "length as < m" by (cases n) auto
  let ?r = "concat (map (\<lambda>a. a @ '' '') as) @ s" and ?p = "(a @ CHR '' '' # concat (map (\<lambda>a. a @ '' '') as) @ s, CHR '' '' # concat (map (\<lambda>a. a @ '' '') as) @ s)"
  have wa: "word a" using Cons.prems(1) by simp
  obtain c v where a: "a = c # v" "\<not> white c" "\<not> symbol c" using wa by (cases a) (auto simp: word_def wordc_def)
  have r: "skip ?r = ?r" "\<not> peek ?r ''<>''"
  proof -
    have "stops ?r \<or> (\<exists>d u. ?r = d # u \<and> \<not> white d \<and> \<not> symbol d)"
    proof (cases as)
      case (Cons b bs)
      then obtain d u where "b = d # u" "wordc d" using Cons.prems(1) by (cases b) (auto simp: word_def)
      then show ?thesis using Cons by (auto simp: wordc_def)
    qed (use assms(2) in simp)
    then show "skip ?r = ?r" "\<not> peek ?r ''<>''"
      by (auto simp: stops_skip skip_Cons peek_stops peek_nonwhite stops_def symbol_def)
  qed
  have g: "gettoken (a @ CHR '' '' # ?r) = (CHR ''a'', fst ?p, snd ?p, ?r)" "skip (a @ CHR '' '' # ?r) = a @ CHR '' '' # ?r"
    using gettoken_of_word [OF wa not_wordc_space(1), of ?r] r(1) by (simp_all add: skip_space)
  have "\<not> peek (a @ CHR '' '' # ?r) ''|)&;''" using a by (auto simp: peek_nonwhite symbol_def)
  then have "parse_args n argc (EXEC xs) (a @ CHR '' '' # ?r) = parse_args m (argc + 1) (EXEC (xs @ [?p])) ?r"
    using Cons.prems(3) g r by (simp add: n(1) parseredirs_none)
  moreover obtain bs where "parse_args m (argc + 1) (EXEC ((xs @ [?p]))) ?r = Parsed (EXEC ((xs @ [?p]) @ bs)) s" "map token_text bs = as"
    using Cons.IH [of "argc + 1" m "xs @ [?p]"] Cons.prems n(2) by auto
  moreover have "token_text ?p = a" by (simp add: token_text_def)
  ultimately show ?case by (intro exI [of _ "?p # bs"]) simp
qed

definition closes :: "ptr \<Rightarrow> bool" where
  "closes s \<longleftrightarrow> s = [] \<or> hd s = CHR '')''"

lemma closes_stops: "closes s \<Longrightarrow> stops s"
  by (auto simp: closes_def stops_def)

lemma closes_peek: "closes s \<Longrightarrow> CHR '')'' \<notin> set toks \<Longrightarrow> \<not> peek s toks"
  using peek_stops [OF closes_stops, of s toks] by (auto simp: closes_def)

definition parses :: "tcmd \<Rightarrow> bool" where
  "parses c \<longleftrightarrow> (\<forall>n s. closes s \<longrightarrow> 4 * length (show_cmd c @ s) + 4 \<le> n \<longrightarrow>
     (\<exists>d. parseline n (show_cmd c @ s) = Parsed d s \<and> texts token_text d = c))"

lemma skip_show:
  assumes "printable c" and "stops s"
  shows "skip (show_cmd c @ s) = show_cmd c @ s"
proof (cases c)
  case (TExec as)
  then show ?thesis
  proof (cases as)
    case (Cons a as')
    then obtain x v where "a = x # v" "\<not> white x" using assms(1) TExec by (cases a) (auto simp: word_def wordc_def)
    then show ?thesis using TExec Cons by (simp add: skip_Cons)
  qed (use assms(2) in \<open>simp add: stops_skip\<close>)
qed (simp_all add: skip_Cons white_def)

text \<open>A command in parentheses.\<close>

lemma parseexec_block:
  assumes c: "printable c" "parses c" and r: "skip r = r"
    and n: "4 * length (show_cmd c @ r) + 10 \<le> n"
  shows "\<exists>d. parseexec n (CHR ''('' # show_cmd c @ CHR '')'' # r) = parseredirs d r \<and> texts token_text d = c"
proof -
  let ?t = "show_cmd c @ CHR '')'' # r"
  obtain m where m: "n = Suc (Suc m)" "4 * length ?t + 4 \<le> m" using n by (cases n; cases "n - 1") auto
  have cl: "closes (CHR '')'' # r)" by (simp add: closes_def)
  have p: "peek (CHR ''('' # ?t) ''(''" "skip (CHR ''('' # ?t) = CHR ''('' # ?t" "after_token (CHR ''('' # ?t) = ?t"
    using skip_show [OF c(1) closes_stops [OF cl]] by (simp_all add: peek_nonwhite skip_Cons white_def after_symbol)
  have q: "peek (CHR '')'' # r) '')''" "skip (CHR '')'' # r) = CHR '')'' # r" "after_token (CHR '')'' # r) = r"
    using r by (simp_all add: peek_nonwhite skip_Cons white_def after_symbol)
  obtain d where "parseline m ?t = Parsed d (CHR '')'' # r)" "texts token_text d = c"
    using c(2) cl m(2) unfolding parses_def by blast
  then show ?thesis by (intro exI [of _ d]) (simp add: m(1) p q parseexec.simps parseblock.simps)
qed

lemma parses_exec:
  assumes "printable (TExec as)"
  shows "parses (TExec as)"
  unfolding parses_def
proof (intro allI impI)
  fix n s assume cl: "closes s" and n: "4 * length (show_cmd (TExec as) @ s) + 4 \<le> n"
  let ?t = "show_cmd (TExec as) @ s"
  have st: "stops s" by (rule closes_stops [OF cl])
  have "length as \<le> length (show_cmd (TExec as))" by (induction as) auto
  then obtain m where m: "n = Suc (Suc (Suc m))" "length as < m" using n by (cases n; cases "n - 1"; cases "n - 2") auto
  have sk: "skip ?t = ?t" by (rule skip_show [OF assms st])
  have ns: "\<not> peek ?t ''(''" "\<not> peek ?t ''<>''"
  proof -
    have "\<not> peek ?t toks" if "set toks \<subseteq> set ''<>(''" for toks
    proof (cases as)
      case (Cons a as')
      then obtain x v where "a = x # v" "\<not> white x" "\<not> symbol x" using assms by (cases a) (auto simp: word_def wordc_def)
      then show ?thesis using Cons that by (auto simp: peek_nonwhite symbol_def)
    qed (use closes_peek [OF cl] that in auto)
    then show "\<not> peek ?t ''(''" "\<not> peek ?t ''<>''" by simp_all
  qed
  obtain bs where bs: "parse_args m 0 (EXEC []) ?t = Parsed (EXEC bs) s" "map token_text bs = as"
    using parse_args_words [of as s 0 m "[]"] assms st m(2) by auto
  then have "parseexec (Suc m) ?t = Parsed (EXEC bs) s" using ns sk by (simp add: parseredirs_none parseexec.simps)
  then have "parseline n ?t = Parsed (EXEC bs) s"
    using closes_peek [OF cl] stops_skip [OF st] by (simp add: m(1) parseline.simps parsepipe.simps)
  then show "\<exists>d. parseline n ?t = Parsed d s \<and> texts token_text d = TExec as" using bs(2) by auto
qed

lemma pipe_of_exec: "parseexec n t = Parsed d s \<Longrightarrow> closes s \<Longrightarrow> parsepipe (Suc n) t = Parsed d s"
  using closes_peek [of s "''|''"] stops_skip [OF closes_stops, of s] by (simp add: parsepipe.simps)

lemma line_of_pipe: "parsepipe (Suc n) t = Parsed d s \<Longrightarrow> closes s \<Longrightarrow> parseline (Suc (Suc n)) t = Parsed d s"
  using closes_peek [of s] stops_skip [OF closes_stops, of s] by (simp add: parseline.simps)

lemma line_of_exec: "parseexec n t = Parsed d s \<Longrightarrow> closes s \<Longrightarrow> parseline (Suc (Suc n)) t = Parsed d s"
  by (intro line_of_pipe pipe_of_exec)

text \<open>A command in parentheses before one of the separators, or at the end.\<close>

lemma parseexec_block_stop:
  assumes "printable c" and "parses c" and "stops r" and "4 * length (show_cmd c @ r) + 10 \<le> n"
  shows "\<exists>d. parseexec n (CHR ''('' # show_cmd c @ CHR '')'' # r) = Parsed d r \<and> texts token_text d = c"
  using parseexec_block [OF assms(1,2) stops_skip [OF assms(3)] assms(4)] stops_no_redirs [OF assms(3)] by auto

lemma separator:
  assumes "c \<in> set ''|;&''" and "skip s = s"
  shows "peek (c # s) toks \<longleftrightarrow> c \<in> set toks" and "skip (c # s) = c # s" and "after_token (c # s) = s" and "stops (c # s)"
  using assms by (auto simp: peek_nonwhite skip_Cons white_def after_symbol stops_def)

lemma parses_redir:
  assumes "printable (TRedir c f m fd)" and "parses c"
  shows "parses (TRedir c f m fd)"
  unfolding parses_def
proof (intro allI impI)
  fix n s assume cl: "closes s" and n: "4 * length (show_cmd (TRedir c f m fd) @ s) + 4 \<le> n"
  let ?r = "redir_op m fd @ f @ CHR '' '' # s"
  have "length ?r \<ge> 2" by (simp add: redir_op_def)
  then obtain k where k: "n = Suc (Suc k)" "4 * length (show_cmd c @ ?r) + 10 \<le> k" using n by (cases n; cases "n - 1") auto
  have "skip ?r = ?r" by (simp add: redir_op_def skip_Cons white_def)
  then obtain d where d: "parseexec k (CHR ''('' # show_cmd c @ CHR '')'' # ?r) = parseredirs d ?r" "texts token_text d = c"
    using parseexec_block [of c ?r k] assms k(2) by auto
  obtain q eq where "parseredirs d ?r = Parsed (REDIR d q eq m fd) s" "token_text (q, eq) = f"
    using parseredirs_one [of m fd f s d] assms(1) closes_stops [OF cl] by auto
  then show "\<exists>d. parseline n (show_cmd (TRedir c f m fd) @ s) = Parsed d s \<and> texts token_text d = TRedir c f m fd"
    using d line_of_exec [OF _ cl, of k] by (intro exI [of _ "REDIR d q eq m fd"]) (simp add: k(1))
qed

lemma parses_pipe:
  assumes "printable (TPipe a b)" and "parses a" and "parses b"
  shows "parses (TPipe a b)"
  unfolding parses_def
proof (intro allI impI)
  fix n s assume cl: "closes s" and n: "4 * length (show_cmd (TPipe a b) @ s) + 4 \<le> n"
  let ?u = "CHR ''('' # show_cmd b @ CHR '')'' # s"
  obtain k where k: "n = Suc (Suc (Suc k))" "4 * length (show_cmd a @ CHR ''|'' # ?u) + 10 \<le> Suc k" "4 * length (show_cmd b @ s) + 10 \<le> k"
    using n by (cases n; cases "n - 1"; cases "n - 2") auto
  have u: "skip ?u = ?u" by (simp add: skip_Cons white_def)
  note sep = separator [OF _ u, of "CHR ''|''", simplified]
  obtain d where d: "parseexec (Suc k) (CHR ''('' # show_cmd a @ CHR '')'' # CHR ''|'' # ?u) = Parsed d (CHR ''|'' # ?u)" "texts token_text d = a"
    using parseexec_block_stop [of a "CHR ''|'' # ?u" "Suc k"] assms k(2) sep by auto
  obtain e where e: "parseexec k ?u = Parsed e s" "texts token_text e = b"
    using parseexec_block_stop [of b s k] assms k(3) closes_stops [OF cl] by auto
  have "parsepipe (Suc (Suc k)) (CHR ''('' # show_cmd a @ CHR '')'' # CHR ''|'' # ?u) = Parsed (PIPE d e) s"
    using d(1) sep pipe_of_exec [OF e(1) cl] by (simp add: parsepipe.simps(2) [of "Suc k"])
  then show "\<exists>d. parseline n (show_cmd (TPipe a b) @ s) = Parsed d s \<and> texts token_text d = TPipe a b"
    using d(2) e(2) line_of_pipe [OF _ cl, of "Suc k"] by (intro exI [of _ "PIPE d e"]) (simp add: k(1))
qed

lemma parses_list:
  assumes "printable (TList a b)" and "parses a" and "parses b"
  shows "parses (TList a b)"
  unfolding parses_def
proof (intro allI impI)
  fix n s assume cl: "closes s" and n: "4 * length (show_cmd (TList a b) @ s) + 4 \<le> n"
  let ?u = "CHR ''('' # show_cmd b @ CHR '')'' # s"
  obtain k where k: "n = Suc (Suc (Suc k))" "4 * length (show_cmd a @ CHR '';'' # ?u) + 10 \<le> Suc k" "4 * length (show_cmd b @ s) + 10 \<le> k"
    using n by (cases n; cases "n - 1"; cases "n - 2") auto
  have u: "skip ?u = ?u" by (simp add: skip_Cons white_def)
  note sep = separator [OF _ u, of "CHR '';''", simplified]
  obtain d where d: "parseexec (Suc k) (CHR ''('' # show_cmd a @ CHR '')'' # CHR '';'' # ?u) = Parsed d (CHR '';'' # ?u)" "texts token_text d = a"
    using parseexec_block_stop [of a "CHR '';'' # ?u" "Suc k"] assms k(2) sep by auto
  obtain e where e: "parseexec k ?u = Parsed e s" "texts token_text e = b"
    using parseexec_block_stop [of b s k] assms k(3) closes_stops [OF cl] by auto
  have "parseline n (CHR ''('' # show_cmd a @ CHR '')'' # CHR '';'' # ?u) = Parsed (LIST d e) s"
    using d(1) sep line_of_exec [OF e(1) cl] by (simp add: k(1) parseline.simps(2) [of "Suc (Suc k)"] parsepipe.simps(2) [of "Suc k"])
  then show "\<exists>d. parseline n (show_cmd (TList a b) @ s) = Parsed d s \<and> texts token_text d = TList a b"
    using d(2) e(2) by (intro exI [of _ "LIST d e"]) simp
qed

lemma parses_back:
  assumes "printable (TBack a)" and "parses a"
  shows "parses (TBack a)"
  unfolding parses_def
proof (intro allI impI)
  fix n s assume cl: "closes s" and n: "4 * length (show_cmd (TBack a) @ s) + 4 \<le> n"
  obtain k where k: "n = Suc (Suc k)" "4 * length (show_cmd a @ CHR ''&'' # s) + 10 \<le> k" "0 < k"
    using n by (cases n; cases "n - 1") auto
  have s: "skip s = s" by (rule stops_skip [OF closes_stops [OF cl]])
  note sep = separator [OF _ s, of "CHR ''&''", simplified]
  obtain d where d: "parseexec k (CHR ''('' # show_cmd a @ CHR '')'' # CHR ''&'' # s) = Parsed d (CHR ''&'' # s)" "texts token_text d = a"
    using parseexec_block_stop [of a "CHR ''&'' # s" k] assms k(2) sep by auto
  have "parseline n (CHR ''('' # show_cmd a @ CHR '')'' # CHR ''&'' # s) = Parsed (BACK d) s"
    using d(1) sep closes_peek [OF cl] s k(3) by (cases k) (simp_all add: k(1) parseline.simps parsepipe.simps)
  then show "\<exists>d. parseline n (show_cmd (TBack a) @ s) = Parsed d s \<and> texts token_text d = TBack a"
    using d(2) by (intro exI [of _ "BACK d"]) simp
qed

lemma printable_parses: "printable c \<Longrightarrow> parses c"
  by (induction c) (auto intro: parses_exec parses_redir parses_pipe parses_list parses_back)

section \<open>What the commands run with\<close>

text \<open>
  Open files of a process: the system gives the lowest number that is free, out of \<open>NOFILE\<close>. A pipe is
  named by the place of the process that makes it in the tree of processes.
\<close>

datatype ofile = OFile string int | OPipeR "nat list" | OPipeW "nat list" | OInherited int

type_synonym fdtable = "int \<Rightarrow> ofile option"

definition lowest :: "fdtable \<Rightarrow> int option" where
  "lowest f = find (\<lambda>i. f i = None) (map int [0..<16])"

text \<open>The commands that a process and its children execute, each with the files it has open, if no call fails.\<close>

primrec execs :: "prog \<Rightarrow> nat list \<Rightarrow> fdtable \<Rightarrow> (string list \<times> fdtable) list" where
  "execs (PExit n) p f = []"
| "execs (PSys c k) p f =
     (case c of
        SClose d \<Rightarrow> execs (k 0) p (f(d := None))
      | SOpen n m \<Rightarrow> (case lowest f of None \<Rightarrow> execs (k (-1)) p f | Some d \<Rightarrow> execs (k d) p (f(d \<mapsto> OFile n m)))
      | SDup d \<Rightarrow>
          (case f d of
             None \<Rightarrow> execs (k (-1)) p f
           | Some x \<Rightarrow> (case lowest f of None \<Rightarrow> execs (k (-1)) p f | Some e \<Rightarrow> execs (k e) p (f(e \<mapsto> x))))
      | SExec as \<Rightarrow> [(as, f)]
      | SWait \<Rightarrow> execs (k 1) p f
      | SPrint d t \<Rightarrow> execs (k 0) p f
      | SChdir d \<Rightarrow> execs (k 0) p f)"
| "execs (PPipe k) p f =
     (case lowest f of
        None \<Rightarrow> execs (k None) p f
      | Some a \<Rightarrow>
          (case lowest (f(a \<mapsto> OPipeR p)) of
             None \<Rightarrow> execs (k None) p f
           | Some b \<Rightarrow> execs (k (Some (a, b))) p (f(a \<mapsto> OPipeR p, b \<mapsto> OPipeW p))))"
| "execs (PFork c k) p f = execs c (0 # p) f @ execs (k 1) (1 # p) f"

text \<open>What the user asked for.\<close>

primrec wiring :: "tcmd \<Rightarrow> nat list \<Rightarrow> fdtable \<Rightarrow> (string list \<times> fdtable) list" where
  "wiring (TExec as) p f = (if as = [] then [] else [(as, f)])"
| "wiring (TRedir c n m fd) p f = wiring c p (f(fd \<mapsto> OFile n m))"
| "wiring (TPipe l r) p f = wiring l (0 # p) (f(1 \<mapsto> OPipeW p)) @ wiring r (0 # 1 # p) (f(0 \<mapsto> OPipeR p))"
| "wiring (TList l r) p f = wiring l (0 # p) f @ wiring r (1 # p) f"
| "wiring (TBack c) p f = wiring c (0 # p) f"

primrec std_redirs :: "tcmd \<Rightarrow> bool" where
  "std_redirs (TExec as) \<longleftrightarrow> True"
| "std_redirs (TRedir c n m fd) \<longleftrightarrow> std_redirs c \<and> (fd = 0 \<or> fd = 1)"
| "std_redirs (TPipe l r) \<longleftrightarrow> std_redirs l \<and> std_redirs r"
| "std_redirs (TList l r) \<longleftrightarrow> std_redirs l \<and> std_redirs r"
| "std_redirs (TBack c) \<longleftrightarrow> std_redirs c"

text \<open>The three standard files are open and two more numbers are free, as the main loop sees to.\<close>

definition std_open :: "fdtable \<Rightarrow> bool" where
  "std_open f \<longleftrightarrow> f 0 \<noteq> None \<and> f 1 \<noteq> None \<and> f 2 \<noteq> None
     \<and> (\<exists>i j. 3 \<le> i \<and> i < j \<and> j < 16 \<and> f i = None \<and> f j = None)"

lemma lowest_std:
  "lowest (f(0 := None)) = Some 0" "f 0 \<noteq> None \<Longrightarrow> lowest (f(1 := None)) = Some 1"
  by (simp_all add: lowest_def upt_conv_Cons)

lemma lowest_SomeD:
  assumes "lowest f = Some a"
  shows "f a = None" and "0 \<le> a" and "a < 16" and "\<And>i. 0 \<le> i \<Longrightarrow> i < a \<Longrightarrow> f i \<noteq> None"
proof -
  obtain n where n: "n < length (map int [0..<16])" "f (map int [0..<16] ! n) = None" "a = map int [0..<16] ! n"
      "\<forall>j < n. f (map int [0..<16] ! j) \<noteq> None"
    using assms unfolding lowest_def find_Some_iff by blast
  then have a: "a = int n" "n < 16" by simp_all
  then show "f a = None" "0 \<le> a" "a < 16" using n by simp_all
  show "f i \<noteq> None" if "0 \<le> i" "i < a" for i
    using n(4) a that by (metis (no_types, lifting) add.left_neutral diff_zero dual_order.strict_trans int_nat_eq length_upt nat_less_iff nth_map nth_upt)
qed

lemma lowest_ex: "0 \<le> i \<Longrightarrow> i < 16 \<Longrightarrow> f i = None \<Longrightarrow> \<exists>a. lowest f = Some a"
proof -
  assume i: "0 \<le> i" "i < 16" "f i = None"
  have "i \<in> set (map int [0..<16])" using i(1,2) by (auto intro!: image_eqI [of _ _ "nat i"])
  then have "lowest f \<noteq> None" using i(3) by (auto simp: lowest_def find_None_iff)
  then show ?thesis by auto
qed

lemma lowest_pipe:
  assumes "std_open f"
  obtains a b where "lowest f = Some a" and "lowest (f(a \<mapsto> x)) = Some b" and "2 < a" and "2 < b" and "a \<noteq> b" and "f a = None" and "f b = None"
proof -
  obtain i j where ij: "3 \<le> i" "i < j" "j < 16" "f i = None" "f j = None" and std: "f 0 \<noteq> None" "f 1 \<noteq> None" "f 2 \<noteq> None"
    using assms by (auto simp: std_open_def)
  have big: "2 < d" if "g d = None" "0 \<le> d" "g 0 \<noteq> None" "g 1 \<noteq> None" "g 2 \<noteq> None" for g :: fdtable and d
  proof (rule ccontr)
    assume "\<not> 2 < d"
    then have "d = 0 \<or> d = 1 \<or> d = 2" using that(2) by linarith
    then show False using that by auto
  qed
  obtain a where a: "lowest f = Some a" using lowest_ex [of i f] ij by auto
  have "\<exists>k. 0 \<le> k \<and> k < 16 \<and> (f(a \<mapsto> x)) k = None"
    using ij by (intro exI [of _ "if a = i then j else i"]) auto
  then obtain b where b: "lowest (f(a \<mapsto> x)) = Some b" using lowest_ex by blast
  note fa = lowest_SomeD [OF a] and fb = lowest_SomeD [OF b]
  have "a \<noteq> b" "f b = None" using fb(1) by (auto split: if_splits)
  moreover have "2 < a" using big [of f a] fa std by blast
  moreover have "2 < b" using big [of f b] fb(2) \<open>f b = None\<close> std by blast
  ultimately show ?thesis using that a b fa(1) by blast
qed

lemma std_open_upd:
  assumes "std_open f" and "fd = 0 \<or> fd = 1"
  shows "std_open (f(fd \<mapsto> x))"
proof -
  obtain i j where "3 \<le> i" "i < j" "j < 16" "f i = None" "f j = None" "f 0 \<noteq> None" "f 1 \<noteq> None" "f 2 \<noteq> None"
    using assms(1) by (auto simp: std_open_def)
  then show ?thesis unfolding std_open_def using assms(2) by (intro conjI exI [of _ i] exI [of _ j]) auto
qed

lemma execs_runcmd: "std_open f \<Longrightarrow> std_redirs c \<Longrightarrow> execs (runcmd c) p f = wiring c p f"
proof (induction c arbitrary: p f)
  case (TRedir c n m fd)
  then have "lowest (f(fd := None)) = Some fd" using lowest_std by (auto simp: std_open_def)
  then show ?case using TRedir std_open_upd [OF TRedir.prems(1), of fd] by auto
next
  case (TPipe l r)
  obtain a b where ab: "lowest f = Some a" "lowest (f(a \<mapsto> OPipeR p)) = Some b" "2 < a" "2 < b" "a \<noteq> b" "f a = None" "f b = None"
    using lowest_pipe [OF TPipe.prems(1)] by blast
  let ?g = "f(a \<mapsto> OPipeR p, b \<mapsto> OPipeW p)"
  have lo: "lowest (?g(1 := None)) = Some 1" "lowest (?g(0 := None)) = Some 0"
    using lowest_std [of ?g] TPipe.prems(1) ab by (auto simp: std_open_def)
  have eq: "(?g(1 \<mapsto> OPipeW p))(a := None, b := None) = f(1 \<mapsto> OPipeW p)" "(?g(0 \<mapsto> OPipeR p))(a := None, b := None) = f(0 \<mapsto> OPipeR p)"
    using ab by (auto simp: fun_eq_iff)
  have "execs (runcmd l) (0 # p) (f(1 \<mapsto> OPipeW p)) = wiring l (0 # p) (f(1 \<mapsto> OPipeW p))"
    "execs (runcmd r) (0 # 1 # p) (f(0 \<mapsto> OPipeR p)) = wiring r (0 # 1 # p) (f(0 \<mapsto> OPipeR p))"
    using TPipe.prems by (auto intro!: TPipe.IH std_open_upd)
  then show ?case using ab lo eq by (simp add: fork1_def)
qed (auto simp: fork1_def)

lemma cstrings_terminated:
  assumes "good s c" and "nulc \<notin> set s"
  shows "cstrings (nulterminate c s) (length s) c = texts token_text c"
proof -
  have "nul_at s (pairs c) (nulterminate c s)" using nul_at_nulterminate [of s "[]" s c] by (simp add: nul_at_def)
  then have "cstring_at (nulterminate c s) (length s) (fst a) = token_text a" if "a \<in> set (pairs c)" for a
    using that assms by (intro nulterminate_word) (auto simp: good_def)
  then show ?thesis unfolding cstrings_def by (rule texts_cong)
qed

lemma parsecmd_gives: "gives s s (parseline (parse_fuel s) s)"
  by (rule parse_gives(1)) (simp_all add: parse_fuel_def)

lemma show_cmd_no_nul: "printable c \<Longrightarrow> nulc \<notin> set (show_cmd c)"
  by (induction c) (auto simp: word_def redir_op_def)

lemma parsecmd_show:
  assumes "printable c"
  shows "\<exists>d. parsecmd (show_cmd c) = Parsed (d, nulterminate d (show_cmd c)) [] \<and> texts token_text d = c"
proof -
  have "closes []" by (simp add: closes_def)
  then obtain d where "parseline (parse_fuel (show_cmd c)) (show_cmd c @ []) = Parsed d []" "texts token_text d = c"
    using printable_parses [OF assms] unfolding parses_def parse_fuel_def by (metis append_Nil2 order_refl)
  then show ?thesis by (auto simp: parsecmd_def)
qed

section \<open>Properties\<close>

text \<open>
  C34: The parser stops on every line, with an error or a command. In a command that it accepts no program has
  \<open>MAXARGS\<close> arguments or more, so that the argument array always has room for its end mark; and the C
  strings in the line after \<open>nulterminate\<close> are exactly the words between the pointers: the NUL that ends
  one string is never written into another.
\<close>

theorem parsecmd_returns:
  assumes "nulc \<notin> set s"
  shows "(\<exists>e. parsecmd s = Syntax e)
    \<or> (\<exists>c b. parsecmd s = Parsed (c, b) [] \<and> small c \<and> cstrings b (length s) c = texts token_text c)"
proof -
  consider e where "parseline (parse_fuel s) s = Syntax e" | c r where "parseline (parse_fuel s) s = Parsed c r" "good s c"
    using parsecmd_gives [of s] by (cases "parseline (parse_fuel s) s") auto
  then show ?thesis
  proof cases
    case 1
    then show ?thesis by (simp add: parsecmd_def)
  next
    case (2 c r)
    then show ?thesis using cstrings_terminated [OF 2(2) assms]
      by (cases "skip r = []") (auto simp: parsecmd_def good_def)
  qed
qed

theorem parsecmd_returns_witness:
  "\<exists>c b. parsecmd ''ls|wc>x'' = Parsed (c, b) [] \<and> small c \<and> cstrings b (length ''ls|wc>x'') c = texts token_text c"
proof -
  have "case parsecmd ''ls|wc>x'' of Syntax e \<Rightarrow> False | _ \<Rightarrow> True" by code_simp
  then have "\<nexists>e. parsecmd ''ls|wc>x'' = Syntax e" by auto
  moreover have "nulc \<notin> set ''ls|wc>x''" by simp
  ultimately show ?thesis using parsecmd_returns by blast
qed

text \<open>
  C35: What is printed parses back. For every command with fewer than \<open>MAXARGS\<close> arguments in each program and
  the redirections that the syntax has, the line that writes it with parentheses is parsed into the same
  tree, with the same strings in the terminated line.
\<close>

theorem shell_print_parse:
  assumes "printable c"
  shows "\<exists>d b. parsecmd (show_cmd c) = Parsed (d, b) [] \<and> cstrings b (length (show_cmd c)) d = c"
proof -
  obtain d where d: "parsecmd (show_cmd c) = Parsed (d, nulterminate d (show_cmd c)) []" "texts token_text d = c"
    using parsecmd_show [OF assms] by blast
  then have "good (show_cmd c) d"
    using parsecmd_gives [of "show_cmd c"]
    by (cases "parseline (parse_fuel (show_cmd c)) (show_cmd c)") (auto simp: parsecmd_def split: if_splits)
  then have "cstrings (nulterminate d (show_cmd c)) (length (show_cmd c)) d = c"
    using cstrings_terminated show_cmd_no_nul [OF assms] d(2) by blast
  then show ?thesis using d(1) by blast
qed

theorem shell_print_parse_witness:
  "\<exists>d b. parsecmd ''(cat f )|(wc )'' = Parsed (d, b) [] \<and> cstrings b (length ''(cat f )|(wc )'') d = TPipe (TExec [''cat'', ''f'']) (TExec [''wc''])"
proof -
  let ?c = "TPipe (TExec [''cat'', ''f'']) (TExec [''wc''])"
  have "printable ?c" by (simp add: MAXARGS_def word_def wordc_def white_def symbol_def)
  from shell_print_parse [OF this] show ?thesis by simp
qed

text \<open>
  C36: Running a command wires its programs as the syntax says. When the three standard files are open, two more
  numbers are free and no call fails, \<open>runcmd\<close> makes the processes execute exactly the programs of the
  command, each with the files of the shell except for the redirections around it and the pipes beside
  it; in particular no program keeps an end of a pipe that it does not use.
\<close>

theorem runcmd_wires:
  assumes "std_open f" and "std_redirs c"
  shows "execs (runcmd c) p f = wiring c p f"
  using assms by (rule execs_runcmd)

theorem runcmd_wires_witness:
  "execs (runcmd (TPipe (TExec [''ls'']) (TRedir (TExec [''wc'']) ''x'' 1537 1))) [] (\<lambda>i. if i \<in> {0, 1, 2} then Some (OInherited i) else None)
   = [([''ls''], (\<lambda>i. if i \<in> {0, 1, 2} then Some (OInherited i) else None)(1 \<mapsto> OPipeW [])),
      ([''wc''], (\<lambda>i. if i \<in> {0, 1, 2} then Some (OInherited i) else None)(0 \<mapsto> OPipeR [], 1 \<mapsto> OFile ''x'' 1537))]"
proof -
  let ?f = "\<lambda>i :: int. if i \<in> {0, 1, 2} then Some (OInherited i) else None"
  have "std_open ?f" unfolding std_open_def by (intro conjI exI [of _ 3] exI [of _ 4]) simp_all
  from runcmd_wires [OF this, of "TPipe (TExec [''ls'']) (TRedir (TExec [''wc'']) ''x'' 1537 1)" "[]"]
  show ?thesis by simp
qed

end
