(* ===== verification/Spec2Isabelle.thy ===== *)
theory Spec2Isabelle
  imports Trap Hart RcuCalls LogSafe PipeQueue Ulib Grep Shell
begin

text \<open>
  Verification of RCU-in-Xv6, the teaching kernel xv6 for RISC-V with read-copy update, a reader-writer lock,
  threads and a kernel linked list added to it. Paths are relative to \<open>src/\<close>.

  \<^bold>\<open>The program.\<close> The machine starts in \<open>kernel/entry.S\<close> and \<open>kernel/start.c\<close>, and every hart enters
  \<open>kernel/main.c\<close>. Processes enter the kernel through \<open>kernel/trampoline.S\<close> and \<open>kernel/trap.c\<close>;
  \<open>kernel/syscall.c\<close> dispatches to \<open>kernel/sysproc.c\<close> and \<open>kernel/sysfile.c\<close>. Below these calls are the process
  table and the scheduler (\<open>kernel/proc.c\<close>), memory (\<open>kernel/kalloc.c\<close>, \<open>kernel/vm.c\<close>), and the file
  system in layers: \<open>kernel/file.c\<close> and \<open>kernel/pipe.c\<close>, \<open>kernel/fs.c\<close>, \<open>kernel/log.c\<close>, \<open>kernel/bio.c\<close>,
  \<open>kernel/virtio_disk.c\<close>. Everything rests on the spin locks of \<open>kernel/spinlock.c\<close> and the sleep locks of
  \<open>kernel/sleeplock.c\<close>. \<open>kernel/rcu.c\<close> waits for readers by sending the updating process to each hart in turn;
  \<open>kernel/klinkedlist.c\<close> uses it. User space is the shell, a small library and commands.

  \<^bold>\<open>How the code is modelled.\<close> A kernel function is a computation \<open>('s, 'a) kfun\<close> of the theory Prelude: from the
  state to a return, a \<open>panic\<close>, a busy wait that only another agent can end (\<open>Spin\<close>), or a departure from the
  CPU (\<open>Switch\<close>). The code after a departure is a definition of its own whose name ends in \<open>_resume\<close> or
  \<open>_finish\<close>. The state is one extensible record: \<open>machine\<close> (harts, locks), then the fields of the console
  output, the process table, memory, the list, sleep locks, the disk, the log, inodes, the console, pipes,
  the file table, process life, the clock and the supervisor registers, one extension per theory, so that a
  function of a lower layer runs unchanged in the state of a higher one. Pointers into static tables
  (\<open>struct proc *\<close>, \<open>struct buf *\<close>, \<open>struct inode *\<close>, \<open>struct file *\<close>) are indices; pages, page tables, list
  nodes and trapframes are bytes of memory at 64-bit addresses. Machine integers are words of their width
  where wrap-around or the sign matters (\<open>u32\<close>, \<open>u64\<close>), and integers where the code stays in range.

  \<^bold>\<open>Theories, source files, and what is shown.\<close>

  \<^item> Spinlock: \<open>kernel/spinlock.c\<close>. \<open>acquire\<close> and \<open>release\<close> are lists of statements with one access to the lock each,
    and the harts interleave between any two of them. Mutual exclusion in every such run, and the outcome
    of every statement and of every call in each reachable state. The locale \<open>critical_section\<close> is the contract that the
    later components use.

  \<^item> Printf, Kstring, Memory, Bytes: \<open>kernel/printf.c\<close>, \<open>kernel/string.c\<close> and fields in byte arrays. The loops
    equal their reference functions; \<open>printint\<close> prints every \<open>int\<close>, \<open>INT_MIN\<close> included.

  \<^item> Proc, Rcu, RcuSystem, Grace, RcuCalls: the scheduling core of \<open>kernel/proc.c\<close>, \<open>kernel/rcu.c\<close> and the waiting
    loop of \<open>sys_rcusync\<close>. RcuSystem is a transition system of harts whose steps are calls of these functions; the
    two waiting loops are lists of statements, executed one per step. Grace shows that a read-side section
    keeps its hart, that no process runs on two harts and that \<open>synchronize_rcu\<close> waits for every section open on
    the harts 0 to 2. RcuCalls shows exactly which harts the two loops miss.

  \<^item> Kalloc, Vm: \<open>kernel/kalloc.c\<close>, \<open>kernel/vm.c\<close>. The allocator, whose free list lives in the free pages,
    refines a list of pages (locale \<open>page_allocator\<close>). Paging: three-level
    page tables as trees of pages. \<open>mappages\<close> refines the update of an abstract map, \<open>uvmunmap\<close> removes a range
    and frees its pages, and what \<open>copyout\<close> wrote \<open>copyin\<close> reads back.

  \<^item> Rwlock, Klist: \<open>kernel/rwlock.c\<close>, \<open>kernel/klinkedlist.c\<close>. Exclusion of writers for any number of threads;
    insertion, deletion and search on the list in memory, what a reader on an old node sees, and the
    interleavings in which the list code loses a node or walks a freed one.

  \<^item> Sleeplock, Virtio, Disk: \<open>kernel/sleeplock.c\<close>, \<open>kernel/virtio_disk.c\<close>. With a device that behaves as
    documented (\<open>serves\<close>) a request moves exactly one block and returns the descriptors.

  \<^item> Bio, Cache, Blocks: \<open>kernel/bio.c\<close>. The list of recently used buffers stays a ring, each block has one
    buffer, and a written block reads back. The locale \<open>block_cache\<close> is the contract for the clients.

  \<^item> Log, LogSafe: \<open>kernel/log.c\<close>. A transaction is atomic across a crash at any disk write, recovery can be
    restarted, and the reservation of \<open>begin_op\<close> admits one block more than \<open>log_write\<close> takes.

  \<^item> Fs, Dir, File, Pipe, Console, Lifecycle, Exec, Sysfile, Sysproc, Trap: \<open>kernel/fs.c\<close>, \<open>kernel/file.c\<close>,
    \<open>kernel/pipe.c\<close>, \<open>kernel/console.c\<close>, \<open>kernel/uart.c\<close>, the rest of \<open>kernel/proc.c\<close>, \<open>kernel/exec.c\<close>,
    \<open>kernel/sysfile.c\<close>, \<open>kernel/sysproc.c\<close>, \<open>kernel/syscall.c\<close>, \<open>kernel/trap.c\<close>, \<open>kernel/plic.c\<close>,
    \<open>kernel/main.c\<close>: every function. PipeQueue: the ring buffer of a pipe with its
    wrapping counters refines a queue of bytes under \<open>pipewrite\<close> and \<open>piperead\<close>.

  \<^item> Hart: \<open>kernel/trampoline.S\<close>, \<open>kernel/kernelvec.S\<close>, \<open>kernel/swtch.S\<close>, \<open>kernel/entry.S\<close>, \<open>kernel/start.c\<close> on a
    model of the instructions they use. Traps keep the registers, \<open>swtch\<close> resumes a context, the timer
    handler is transparent, and \<open>start\<close> arms it.

  \<^item> Ulib, Grep, Shell: \<open>user/ulib.c\<close>, \<open>user/grep.c\<close>, \<open>user/wc.c\<close>, \<open>user/sh.c\<close>. The matcher
    decides the language of its pattern, \<open>grep\<close> and \<open>wc\<close> do not depend on where \<open>read\<close> cuts the input, the
    shell's parser stops and inverts printing, and running a command wires its files as the syntax says.

  \<^bold>\<open>Bounds and fuel.\<close> Loops over tables are bounded by the size of the table. Loops over page tables take one
  turn more than there are pages below \<open>MAXVA\<close>, where the \<open>panic\<close> of \<open>walk\<close> ends the source's loop. Loops
  that may not end are defined with \<open>partial_function (option)\<close>, and the properties about them say that they
  return. The functions of the shell's parser have fuel; \<open>parsecmd\<close> starts with more than the length of the
  line needs, as the theory Shell proves for every line. A loop that waits for another hart or a device is
  \<open>Spin\<close> or \<open>Switch\<close>.

  \<^bold>\<open>Parameters.\<close> The disk is the function \<open>device\<close> of the state with the register values \<open>vreg\<close>; the UART and
  the interrupt controller are what their registers read. Linker symbols are fields. System calls are
  arguments of the user programs. What is assumed of them is a named predicate in the property that needs
  it, with a witness on a concrete instance.

  \<^bold>\<open>Not modelled.\<close> \<open>kernel/klinkedlist_lock.c\<close> and \<open>kernel/ramdisk.c\<close> are not compiled by the build. The memory
  ordering of the hardware: steps of harts are interleaved, and fences have no effect. The TLB and the
  speculative behaviour of the machine. In the components from Sleeplock to LogSafe one process runs file
  system calls at a time; the concurrency of several processes in these calls is not covered. Spin locks and the
  reader-writer lock are treated under every interleaving of their memory accesses. In the system of the
  scheduler and RCU a call such as \<open>acquire\<close>, \<open>yield\<close> or a turn of \<open>scheduler\<close> is one step, and the calls of the
  harts interleave in every order. The
  user library's \<open>malloc\<close>, \<open>printf\<close> and linked list, the commands other than \<open>grep\<close> and \<open>wc\<close>, and the image
  builder \<open>mkfs/mkfs.c\<close> are left out. The test
  programs \<open>user/usertests.c\<close>, \<open>user/forktest.c\<close>, \<open>user/grind.c\<close>, \<open>user/stressfs.c\<close>, \<open>user/testrcu.c\<close>,
  \<open>user/ttest.c\<close> are drivers that call the kernel and compare results.
\<close>

end
